(* ===== verification/MiPrelude.thy ===== *)
theory MiPrelude
  imports Main "HOL-Library.Word"
begin

unbundle bit_operations_syntax

text \<open>
  Vocabulary shared by every component of the model of mimalloc-rs: the machine types of the
  64-bit target, outcomes of code that may panic, the Rust integer primitives the sources use,
  and generic facts on words, masks and ranges.

  The rules collected in \<open>mi_consts\<close> turn the geometry constants of \<^verbatim>\<open>src/bits.rs\<close>
  into numerals, those in \<open>word_nat\<close> move statements on words to natural numbers.
\<close>

named_theorems mi_consts \<open>values of the configuration constants\<close>
named_theorems word_nat \<open>transport of word operations to natural numbers\<close>
named_theorems bm_bits \<open>effect of the bitmap operations on single bits\<close>

section \<open>Machine types\<close>

type_synonym usize = "64 word"
type_synonym u32 = "32 word"
type_synonym u8 = "8 word"

text \<open>Addresses; the null pointer is \<open>0\<close>.\<close>

type_synonym ptr = "64 word"

section \<open>Panics\<close>

text \<open>
  An operation that can panic returns \<open>Inl\<close> of the reason. An absent \<^verbatim>\<open>Option\<close> of the
  source is an \<open>option\<close> inside the \<open>Inr\<close>: running out of memory is a value, a panic is not.
\<close>

datatype panic = Index_Out_Of_Bounds

type_synonym 'a run = "panic + 'a"

definition run_bind :: "'a run \<Rightarrow> ('a \<Rightarrow> 'b run) \<Rightarrow> 'b run" where
  "run_bind x f = (case x of Inl e \<Rightarrow> Inl e | Inr y \<Rightarrow> f y)"

lemma run_bind_simps [simp]:
  "run_bind (Inl e) f = Inl e" "run_bind (Inr y) f = f y"
  by (simp_all add: run_bind_def)

lemma run_bind_cong [fundef_cong]:
  "x = y \<Longrightarrow> (\<And>z. y = Inr z \<Longrightarrow> f z = g z) \<Longrightarrow> run_bind x f = run_bind y g"
  by (cases y) simp_all

lemma run_bind_eq_Inr: "run_bind x f = Inr z \<longleftrightarrow> (\<exists>y. x = Inr y \<and> f y = Inr z)"
  by (cases x) auto

section \<open>Rust integer primitives\<close>

definition usize_max :: usize where
  "usize_max = - 1"

text \<open>\<^verbatim>\<open>usize::div_ceil\<close>, \<^verbatim>\<open>checked_add\<close>, \<^verbatim>\<open>checked_mul\<close>.\<close>

definition div_ceil :: "usize \<Rightarrow> usize \<Rightarrow> usize" where
  "div_ceil x y = (let d = x div y; r = x mod y in if r > 0 then d + 1 else d)"

definition checked_add :: "usize \<Rightarrow> usize \<Rightarrow> usize option" where
  "checked_add x y = (if unat x + unat y < 2 ^ 64 then Some (x + y) else None)"

definition checked_mul :: "usize \<Rightarrow> usize \<Rightarrow> usize option" where
  "checked_mul x y = (if unat x * unat y < 2 ^ 64 then Some (x * y) else None)"

text \<open>The same rounded-up quotient on the counts kept as natural numbers.\<close>

definition nat_div_ceil :: "nat \<Rightarrow> nat \<Rightarrow> nat" where
  "nat_div_ceil x y = (if x mod y > 0 then x div y + 1 else x div y)"

section \<open>Words as natural numbers\<close>

lemma unat_bound: "unat (x :: usize) < 18446744073709551616"
  using unsigned_less [of x, where ?'a = nat] by simp

lemma unat_lt: "unat (x :: usize) < 2 ^ 64"
  using unat_bound [of x] by simp

lemma u32_bound: "unat (x :: u32) < 4294967296"
  using unsigned_less [of x, where ?'a = nat] by simp

lemma unat_add_small [word_nat]:
  fixes x y :: usize
  assumes "unat x + unat y < 2 ^ 64"
  shows "unat (x + y) = unat x + unat y"
  using assms by (simp add: unat_word_ariths)

lemma unat_mult_small [word_nat]:
  fixes x y :: usize
  assumes "unat x * unat y < 2 ^ 64"
  shows "unat (x * y) = unat x * unat y"
  using assms by (simp add: unat_word_ariths)

lemma unat_diff_le [word_nat]:
  fixes x y :: "'a::len word"
  assumes "y \<le> x"
  shows "unat (x - y) = unat x - unat y"
  using assms by (simp add: unat_sub)

lemma unat_of_nat_small [word_nat]:
  assumes "n < 2 ^ 64"
  shows "unat (of_nat n :: usize) = n"
  using assms by (simp add: unat_of_nat take_bit_nat_eq_self)

lemma unat_div_ceil: 
  assumes "0 < unat y"
  shows "unat (div_ceil x y) = nat_div_ceil (unat x) (unat y)"
proof (cases "0 < unat x mod unat y")
  case True
  then have "unat y \<noteq> 1" by (metis mod_by_1 neq0_conv One_nat_def)
  with assms have "2 \<le> unat y" by linarith
  then have "unat x div unat y \<le> unat x div 2"
    by (rule div_le_mono2 [rotated]) simp
  moreover have "unat x div 2 < 2 ^ 63"
    using unat_bound [of x] by (simp add: less_mult_imp_div_less)
  ultimately have "unat x div unat y + 1 < 2 ^ 64" by simp
  with True show ?thesis
    by (simp add: div_ceil_def nat_div_ceil_def Let_def word_less_nat_alt unat_mod_distrib
        unat_div_distrib unat_word_ariths)
next
  case False
  then show ?thesis
    by (simp add: div_ceil_def nat_div_ceil_def Let_def word_less_nat_alt unat_mod_distrib
        unat_div_distrib)
qed

lemma nat_div_ceil_excess:
  assumes "0 < y"
  obtains k where "k < y" and "nat_div_ceil x y * y = x + k"
proof (cases "x mod y = 0")
  case True
  with assms show thesis by (auto intro: that [of 0] simp: nat_div_ceil_def)
next
  case False
  have "x div y * y + x mod y = x" by (rule div_mult_mod_eq)
  moreover have "x mod y < y" using assms by simp
  moreover have "nat_div_ceil x y * y = x div y * y + y"
    using False by (simp add: nat_div_ceil_def)
  ultimately have "nat_div_ceil x y * y = x + (y - x mod y)" by linarith
  with False assms show thesis by (auto intro: that [of "y - x mod y"])
qed

lemma nat_div_ceil_le: "0 < y \<Longrightarrow> x \<le> nat_div_ceil x y * y"
  by (metis nat_div_ceil_excess le_add1)

lemma nat_div_ceil_bound: "0 < y \<Longrightarrow> nat_div_ceil x y * y < x + y"
  by (metis nat_div_ceil_excess add_less_cancel_left)

lemma nat_div_ceil_least: "0 < y \<Longrightarrow> x \<le> k * y \<Longrightarrow> nat_div_ceil x y \<le> k"
proof -
  assume y: "0 < y" and "x \<le> k * y"
  then have "nat_div_ceil x y * y < k * y + y"
    using nat_div_ceil_bound [OF y, of x] by linarith
  then have "nat_div_ceil x y * y < Suc k * y" by simp
  then show ?thesis by (metis less_Suc_eq_le mult_less_cancel2)
qed

lemma nat_div_ceil_mult [simp]: "0 < y \<Longrightarrow> nat_div_ceil (k * y) y = k"
  by (simp add: nat_div_ceil_def)

lemma nat_div_ceil_mono: "0 < y \<Longrightarrow> x \<le> x' \<Longrightarrow> nat_div_ceil x y \<le> nat_div_ceil x' y"
  using nat_div_ceil_least [of y x "nat_div_ceil x' y"] nat_div_ceil_le [of y x'] by linarith

section \<open>Powers of two and low-bit masks\<close>

lemma unat_pow2:
  assumes "k < 64"
  shows "unat (2 ^ k :: usize) = 2 ^ k"
proof -
  have "(2 ^ k :: usize) = of_nat (2 ^ k)" by simp
  moreover have "(2::nat) ^ k < 2 ^ 64" using assms by (rule power_strict_increasing) simp
  ultimately show ?thesis by (simp only: unat_of_nat_small)
qed

lemma pow2_minus_1_mask: "(2 ^ k :: 'a::len word) - 1 = mask k"
  by (simp add: mask_eq_exp_minus_1)

lemma unat_and_mask:
  fixes x :: usize
  shows "unat (x AND mask k) = unat x mod 2 ^ k"
  by (simp flip: take_bit_eq_mask take_bit_eq_mod add: unsigned_take_bit_eq)

lemma and_not_mask_diff:
  fixes x :: usize
  shows "x AND NOT (mask k) = x - (x AND mask k)"
proof -
  have "x - (x AND mask k) = x AND NOT (x AND mask k)"
    by (rule disjunctive_diff_eq_and_not) (simp add: bit_eq_iff bit_simps)
  also have "\<dots> = x AND NOT (mask k)"
    by (auto simp: bit_eq_iff bit_simps)
  finally show ?thesis ..
qed

lemma unat_and_not_mask:
  fixes x :: usize
  shows "unat (x AND NOT (mask k)) = unat x div 2 ^ k * 2 ^ k"
proof -
  have "x AND mask k \<le> x" by (rule word_and_le2)
  then have "unat (x AND NOT (mask k)) = unat x - unat x mod 2 ^ k"
    by (simp add: and_not_mask_diff unat_diff_le unat_and_mask)
  also have "\<dots> = unat x div 2 ^ k * 2 ^ k"
    by (simp add: minus_mod_eq_div_mult)
  finally show ?thesis .
qed

lemma and_one_cases: "(x :: 'a::len word) AND 1 = 0 \<or> x AND 1 = 1"
  by (simp add: and_one_eq mod_2_eq_odd)

end
