(* ===== verification/MiBits.thy ===== *)
theory MiBits
  imports MiPrelude
begin

unbundle bit_operations_syntax

text \<open>
  \<^verbatim>\<open>src/bits.rs\<close>: the configuration constants of the 64-bit target, the bit primitives, and the
  mapping of allocation sizes to size-class bins. Sizes are \<open>usize\<close> words; bit counts, bit
  positions and bin indices are natural numbers.
\<close>

section \<open>Geometry constants\<close>

definition MI_INTPTR_SHIFT :: nat where [mi_consts]: "MI_INTPTR_SHIFT = 3"
definition MI_INTPTR_SIZE :: nat where [mi_consts]: "MI_INTPTR_SIZE = push_bit MI_INTPTR_SHIFT 1"
definition MI_SIZE_SHIFT :: nat where [mi_consts]: "MI_SIZE_SHIFT = MI_INTPTR_SHIFT"
definition MI_SIZE_SIZE :: nat where [mi_consts]: "MI_SIZE_SIZE = push_bit MI_SIZE_SHIFT 1"
definition MI_SIZE_BITS :: nat where [mi_consts]: "MI_SIZE_BITS = MI_SIZE_SIZE * 8"
definition MI_KIB :: nat where [mi_consts]: "MI_KIB = 1024"
definition MI_MAX_ALIGN_SIZE :: nat where [mi_consts]: "MI_MAX_ALIGN_SIZE = 16"
definition MI_MAX_VABITS :: nat where
  [mi_consts]: "MI_MAX_VABITS = (if MI_INTPTR_SIZE > 4 then 47 else 32)"

definition MI_ARENA_SLICE_SHIFT :: nat where [mi_consts]: "MI_ARENA_SLICE_SHIFT = 13 + MI_SIZE_SHIFT"
definition MI_ARENA_SLICE_SIZE :: nat where
  [mi_consts]: "MI_ARENA_SLICE_SIZE = push_bit MI_ARENA_SLICE_SHIFT 1"
definition MI_BCHUNK_BITS_SHIFT :: nat where [mi_consts]: "MI_BCHUNK_BITS_SHIFT = 6 + MI_SIZE_SHIFT"
definition MI_BCHUNK_BITS :: nat where [mi_consts]: "MI_BCHUNK_BITS = push_bit MI_BCHUNK_BITS_SHIFT 1"
definition MI_ARENA_MIN_OBJ_SLICES :: nat where [mi_consts]: "MI_ARENA_MIN_OBJ_SLICES = 1"
definition MI_ARENA_MIN_OBJ_SIZE :: nat where
  [mi_consts]: "MI_ARENA_MIN_OBJ_SIZE = MI_ARENA_MIN_OBJ_SLICES * MI_ARENA_SLICE_SIZE"
definition MI_SMALL_PAGE_SIZE :: nat where [mi_consts]: "MI_SMALL_PAGE_SIZE = MI_ARENA_MIN_OBJ_SIZE"
definition MI_MEDIUM_PAGE_SIZE :: nat where [mi_consts]: "MI_MEDIUM_PAGE_SIZE = 8 * MI_SMALL_PAGE_SIZE"
definition MI_LARGE_PAGE_SIZE :: nat where
  [mi_consts]: "MI_LARGE_PAGE_SIZE = MI_SIZE_SIZE * MI_MEDIUM_PAGE_SIZE"
definition MI_PAGE_OSPAGE_BLOCK_ALIGN2 :: nat where
  [mi_consts]: "MI_PAGE_OSPAGE_BLOCK_ALIGN2 = 4 * MI_KIB"

definition MI_SMALL_MAX_OBJ_SIZE :: nat where
  [mi_consts]: "MI_SMALL_MAX_OBJ_SIZE = (MI_SMALL_PAGE_SIZE - MI_PAGE_OSPAGE_BLOCK_ALIGN2) div 6"
definition MI_MEDIUM_MAX_OBJ_SIZE :: nat where
  [mi_consts]: "MI_MEDIUM_MAX_OBJ_SIZE = (MI_MEDIUM_PAGE_SIZE - MI_PAGE_OSPAGE_BLOCK_ALIGN2) div 6"
definition MI_LARGE_MAX_OBJ_SIZE :: nat where
  [mi_consts]: "MI_LARGE_MAX_OBJ_SIZE = MI_LARGE_PAGE_SIZE div 8"
definition MI_LARGE_MAX_OBJ_WSIZE :: nat where
  [mi_consts]: "MI_LARGE_MAX_OBJ_WSIZE = MI_LARGE_MAX_OBJ_SIZE div MI_SIZE_SIZE"
definition MI_SMALL_WSIZE_MAX :: nat where [mi_consts]: "MI_SMALL_WSIZE_MAX = 128"
definition MI_SMALL_SIZE_MAX :: nat where
  [mi_consts]: "MI_SMALL_SIZE_MAX = MI_SMALL_WSIZE_MAX * MI_INTPTR_SIZE"

definition MI_BIN_HUGE :: nat where [mi_consts]: "MI_BIN_HUGE = 73"
definition MI_BIN_FULL :: nat where [mi_consts]: "MI_BIN_FULL = MI_BIN_HUGE + 1"
definition MI_BIN_COUNT :: nat where [mi_consts]: "MI_BIN_COUNT = MI_BIN_FULL + 1"
definition MI_RETIRE_CYCLES :: nat where [mi_consts]: "MI_RETIRE_CYCLES = 16"

text \<open>Page flags and the reserved thread ids are masks on \<open>usize\<close> words.\<close>

definition MI_PAGE_IN_FULL_QUEUE :: usize where [mi_consts]: "MI_PAGE_IN_FULL_QUEUE = 0x01"
definition MI_PAGE_HAS_INTERIOR_POINTERS :: usize where
  [mi_consts]: "MI_PAGE_HAS_INTERIOR_POINTERS = 0x02"
definition MI_PAGE_FLAG_MASK :: usize where [mi_consts]: "MI_PAGE_FLAG_MASK = 0x03"
definition MI_THREADID_ABANDONED :: usize where [mi_consts]: "MI_THREADID_ABANDONED = 0"
definition MI_THREADID_ABANDONED_MAPPED :: usize where
  [mi_consts]: "MI_THREADID_ABANDONED_MAPPED = MI_PAGE_FLAG_MASK + 1"

section \<open>Bit primitives\<close>

text \<open>Rust's \<^verbatim>\<open>leading_zeros\<close>, \<^verbatim>\<open>trailing_zeros\<close> and \<^verbatim>\<open>count_ones\<close> on 64 bits.\<close>

fun leading_zeros_below :: "nat \<Rightarrow> usize \<Rightarrow> nat" where
  "leading_zeros_below 0 x = 0"
| "leading_zeros_below (Suc k) x = (if bit x k then 0 else Suc (leading_zeros_below k x))"

fun trailing_zeros_from :: "nat \<Rightarrow> nat \<Rightarrow> usize \<Rightarrow> nat" where
  "trailing_zeros_from 0 i x = 0"
| "trailing_zeros_from (Suc k) i x = (if bit x i then 0 else Suc (trailing_zeros_from k (Suc i) x))"

definition mi_clz :: "usize \<Rightarrow> nat" where
  "mi_clz x = leading_zeros_below 64 x"

definition mi_ctz :: "usize \<Rightarrow> nat" where
  "mi_ctz x = trailing_zeros_from 64 0 x"

definition mi_popcount :: "usize \<Rightarrow> nat" where
  "mi_popcount x = length (filter (bit x) [0..<64])"

definition mi_rotl :: "usize \<Rightarrow> usize \<Rightarrow> usize" where
  "mi_rotl x r = word_rotl (unat (r AND of_nat (MI_SIZE_BITS - 1))) x"

definition mi_rotr :: "usize \<Rightarrow> usize \<Rightarrow> usize" where
  "mi_rotr x r = word_rotr (unat (r AND of_nat (MI_SIZE_BITS - 1))) x"

definition mi_bsf :: "usize \<Rightarrow> nat option" where
  "mi_bsf x = (if x = 0 then None else Some (mi_ctz x))"

definition mi_bsr :: "usize \<Rightarrow> nat option" where
  "mi_bsr x = (if x = 0 then None else Some (MI_SIZE_BITS - 1 - mi_clz x))"

section \<open>Word size and bin of an allocation size\<close>

definition wsize_from_size :: "usize \<Rightarrow> usize" where
  "wsize_from_size sz = div_ceil sz (of_nat MI_INTPTR_SIZE)"

definition bin :: "usize \<Rightarrow> nat" where
  "bin sz =
    (let wsize = wsize_from_size sz
     in if wsize \<le> 8 then (if wsize \<le> 1 then 1 else unat ((wsize + 1) AND NOT 1))
        else if wsize > of_nat MI_LARGE_MAX_OBJ_WSIZE then MI_BIN_HUGE
        else let wsize = wsize - 1;
                 b = MI_SIZE_BITS - 1 - mi_clz wsize
             in (push_bit 2 b + unat (drop_bit (b - 2) wsize AND 0x03)) - 3)"

section \<open>The bit primitives on positions\<close>

lemma bit_unat: "bit (x :: usize) n \<longleftrightarrow> odd (unat x div 2 ^ n)"
proof (cases "n < 64")
  case True
  then have "bit x n = bit (unat x) n" by (simp add: bit_unsigned_iff)
  then show ?thesis by (simp add: bit_iff_odd)
next
  case False
  then have "(2::nat) ^ 64 \<le> 2 ^ n" by (intro power_increasing) auto
  then have "18446744073709551616 \<le> (2::nat) ^ n" by simp
  then have "unat x < 2 ^ n" by (rule less_le_trans [OF unat_bound])
  with False show ?thesis by (auto dest: bit_imp_le_length)
qed

lemma bit_highest:
  fixes x :: usize
  assumes "2 ^ b \<le> unat x" and "unat x < 2 ^ Suc b"
  shows "bit x b" and "\<And>j. b < j \<Longrightarrow> \<not> bit x j"
proof -
  have "unat x div 2 ^ b = 1"
    using assms by (intro div_nat_eqI) auto
  then show "bit x b" by (simp add: bit_unat)
  fix j assume "b < j"
  then have "(2::nat) ^ Suc b \<le> 2 ^ j" by (intro power_increasing) auto
  with assms have "unat x div 2 ^ j = 0" by simp
  then show "\<not> bit x j" by (simp only: bit_unat) simp
qed

lemma leading_zeros_below_eq:
  "bit x i \<Longrightarrow> i < k \<Longrightarrow> (\<And>j. i < j \<Longrightarrow> \<not> bit x j) \<Longrightarrow> leading_zeros_below k x = k - 1 - i"
  by (induction k) (auto simp: less_Suc_eq)

lemma mi_clz_eq:
  assumes "2 ^ b \<le> unat x" and "unat x < 2 ^ Suc b"
  shows "mi_clz x = 63 - b"
proof -
  note bits = bit_highest [OF assms]
  then have "b < 64" by (auto dest: bit_imp_le_length)
  with bits show ?thesis by (simp add: mi_clz_def leading_zeros_below_eq)
qed

text \<open>The integer logarithm, for stating which power of two bounds a size.\<close>

fun log2 :: "nat \<Rightarrow> nat" where
  "log2 n = (if n < 2 then 0 else Suc (log2 (n div 2)))"

declare log2.simps [simp del]

lemma log2_lower: "0 < n \<Longrightarrow> 2 ^ log2 n \<le> n"
proof (induction n rule: log2.induct)
  case (1 n)
  show ?case
  proof (cases "n < 2")
    case False
    then have "2 * 2 ^ log2 (n div 2) \<le> n" using 1 by fastforce
    with False show ?thesis by (simp add: log2.simps [of n])
  qed (use 1 in \<open>simp add: log2.simps\<close>)
qed

lemma log2_upper: "n < 2 ^ Suc (log2 n)"
proof (induction n rule: log2.induct)
  case (1 n)
  show ?case
  proof (cases "n < 2")
    case False
    then have "n div 2 < 2 ^ Suc (log2 (n div 2))" using 1 by blast
    then have "n < 2 * 2 ^ Suc (log2 (n div 2))" by linarith
    with False show ?thesis by (simp add: log2.simps [of n])
  qed (simp add: log2.simps)
qed

lemma log2_eqI: "2 ^ e \<le> n \<Longrightarrow> n < 2 ^ Suc e \<Longrightarrow> log2 n = e"
proof -
  assume n: "2 ^ e \<le> n" "n < 2 ^ Suc e"
  then have "0 < n" by (metis gr0I not_le zero_less_numeral zero_less_power)
  then have "(2::nat) ^ log2 n < 2 ^ Suc e" "(2::nat) ^ e < 2 ^ Suc (log2 n)"
    using n log2_lower [of n] log2_upper [of n] by linarith+
  then show ?thesis by (simp only: power_strict_increasing_iff one_less_numeral_iff semiring_norm(76))
qed

lemma log2_mono: "m \<le> n \<Longrightarrow> log2 m \<le> log2 n"
proof (cases "m = 0")
  case False
  assume "m \<le> n"
  with False have "(2::nat) ^ log2 m < 2 ^ Suc (log2 n)"
    using log2_lower [of m] log2_upper [of n] by linarith
  then show ?thesis by (simp only: power_strict_increasing_iff less_Suc_eq_le one_less_numeral_iff semiring_norm(76))
qed (simp add: log2.simps [of 0])

section \<open>The bin as a function of the word count\<close>

lemma unat_wsize: "unat (wsize_from_size sz) = nat_div_ceil (unat sz) 8"
  by (simp add: wsize_from_size_def mi_consts unat_div_ceil)

lemma round_up_even: "(w :: nat) \<le> 8 \<Longrightarrow> 1 < w \<Longrightarrow> (w + 1) div 2 * 2 = (if odd w then w + 1 else w)"
  by (cases "odd w") (auto elim!: oddE evenE)

lemma bin_tiny:
  assumes "unat sz \<le> 64" and "w = nat_div_ceil (unat sz) 8"
  shows "bin sz = (if w \<le> 1 then 1 else (w + 1) div 2 * 2)"
proof -
  have w: "w \<le> 8" using nat_div_ceil_least [of 8 "unat sz" 8] assms by simp
  have "NOT 1 = NOT (mask 1 :: usize)" by (simp add: mask_eq_exp_minus_1)
  then have "unat ((wsize_from_size sz + 1) AND NOT 1) = unat (wsize_from_size sz + 1) div 2 ^ 1 * 2 ^ 1"
    by (simp only: unat_and_not_mask)
  also have "\<dots> = (w + 1) div 2 * 2"
    using w assms(2) by (simp add: unat_add_small unat_wsize)
  finally show ?thesis
    using w assms(2) by (simp add: bin_def Let_def word_le_nat_alt unat_wsize)
qed

lemma bin_huge: "unat sz > 524288 \<Longrightarrow> bin sz = 73"
proof -
  assume "unat sz > 524288"
  then have "nat_div_ceil (unat sz) 8 > 65536"
    using nat_div_ceil_le [of 8 "unat sz"] by simp
  then show ?thesis
    by (simp add: bin_def Let_def word_le_nat_alt word_less_nat_alt unat_wsize mi_consts)
qed

lemma bin_general:
  assumes "64 < unat sz" and "unat sz \<le> 524288"
    and w: "w = nat_div_ceil (unat sz) 8 - 1" and b: "2 ^ b \<le> w" "w < 2 ^ Suc b"
  shows "bin sz = 4 * b + w div 2 ^ (b - 2) - 7"
proof -
  have lo: "8 \<le> w" using nat_div_ceil_le [of 8 "unat sz"] assms(1) w by simp
  have hi: "nat_div_ceil (unat sz) 8 \<le> 65536"
    using nat_div_ceil_least [of 8 "unat sz" 65536] assms(2) by simp
  have wm: "unat (wsize_from_size sz - 1) = w"
    using lo w by (subst unat_diff_le) (simp_all add: word_le_nat_alt unat_wsize)
  have clz: "mi_clz (wsize_from_size sz - 1) = 63 - b"
    using b by (intro mi_clz_eq) (simp_all add: wm)
  have "b < 16"
  proof (rule ccontr)
    assume "\<not> b < 16"
    then have "(2::nat) ^ 16 \<le> 2 ^ b" by (intro power_increasing) auto
    with b(1) w hi show False by simp
  qed
  have "3 \<le> b"
  proof (rule ccontr)
    assume "\<not> 3 \<le> b"
    then have "(2::nat) ^ Suc b \<le> 2 ^ 3" by (intro power_increasing) auto
    with b(2) lo show False by simp
  qed
  obtain c where c: "b = c + 2" using \<open>3 \<le> b\<close> by (intro that [of "b - 2"]) simp
  have quart: "4 \<le> w div 2 ^ (b - 2)" "w div 2 ^ (b - 2) < 8"
    using b by (simp_all add: c less_eq_div_iff_mult_less_eq less_mult_imp_div_less)
  have m: "y AND 3 = y AND mask 2" for y :: usize by (simp add: mask_eq_exp_minus_1)
  have "unat (drop_bit (b - 2) (wsize_from_size sz - 1) AND 3) = (w div 2 ^ (b - 2)) mod 2 ^ 2"
    by (simp only: m unat_and_mask unat_drop_bit_eq wm) (simp add: drop_bit_eq_div)
  also have "\<dots> = w div 2 ^ (b - 2) - 4"
    using quart by (simp add: mod_if)
  finally have low: "unat (drop_bit (b - 2) (wsize_from_size sz - 1) AND 3) = w div 2 ^ (b - 2) - 4" .
  have "\<not> nat_div_ceil (unat sz) 8 \<le> 8" "\<not> nat_div_ceil (unat sz) 8 \<le> Suc 0" using lo w by auto
  then show ?thesis
    using low hi \<open>b < 16\<close> \<open>3 \<le> b\<close> quart clz
    by (simp add: bin_def Let_def word_le_nat_alt word_less_nat_alt unat_wsize mi_consts
        push_bit_eq_mult mult.commute)
qed


text \<open>
  The bin of a request of \<open>w\<close> words, as a reference on natural numbers: up to eight words the
  bins are the even word counts, above that every power of two is divided into four bins.
\<close>

definition bin_words :: "nat \<Rightarrow> nat" where
  "bin_words w =
    (if w \<le> 1 then 1 else if w \<le> 8 then (w + 1) div 2 * 2
     else if w > 65536 then 73
     else let e = log2 (w - 1) in 4 * e + (w - 1) div 2 ^ (e - 2) - 7)"

lemma bin_bin_words: "bin sz = bin_words (nat_div_ceil (unat sz) 8)"
proof -
  let ?w = "nat_div_ceil (unat sz) 8"
  consider "unat sz \<le> 64" | "64 < unat sz" "unat sz \<le> 524288" | "unat sz > 524288" by linarith
  then show ?thesis
  proof cases
    case 1
    then have "?w \<le> 8" using nat_div_ceil_least [of 8 "unat sz" 8] by simp
    with bin_tiny [OF 1 refl] show ?thesis by (simp add: bin_words_def)
  next
    case 2
    have lo: "9 \<le> ?w" using nat_div_ceil_le [of 8 "unat sz"] 2 by simp
    have hi: "?w \<le> 65536" using nat_div_ceil_least [of 8 "unat sz" 65536] 2 by simp
    have "bin sz = 4 * log2 (?w - 1) + (?w - 1) div 2 ^ (log2 (?w - 1) - 2) - 7"
      using lo by (intro bin_general [OF 2 refl]) (simp_all add: log2_lower log2_upper del: power_Suc)
    with lo hi show ?thesis by (simp add: bin_words_def Let_def)
  next
    case 3
    then have "?w > 65536" using nat_div_ceil_le [of 8 "unat sz"] by simp
    with bin_huge [OF 3] show ?thesis by (simp add: bin_words_def)
  qed
qed


section \<open>Properties of the bin mapping\<close>

lemma bin_words_large:
  assumes "9 \<le> w" "w \<le> 65536"
  obtains e m where "3 \<le> e" "e < 16" "4 \<le> m" "m < 8" "m * 2 ^ (e - 2) < w" "w \<le> (m + 1) * 2 ^ (e - 2)"
    "2 ^ e < w" "w \<le> 2 ^ Suc e" "bin_words w + 7 = 4 * e + m"
proof -
  define e where "e = log2 (w - 1)"
  have e: "2 ^ e \<le> w - 1" "w - 1 < 2 ^ Suc e"
    using assms by (simp_all add: e_def log2_lower log2_upper del: power_Suc)
  have "3 \<le> e"
  proof (rule ccontr)
    assume "\<not> 3 \<le> e"
    then have "(2::nat) ^ Suc e \<le> 2 ^ 3" by (intro power_increasing) auto
    with e(2) assms show False by simp
  qed
  have "e < 16"
  proof (rule ccontr)
    assume "\<not> e < 16"
    then have "(2::nat) ^ 16 \<le> 2 ^ e" by (intro power_increasing) auto
    with e(1) assms show False by simp
  qed
  obtain c where c: "e = c + 2" using \<open>3 \<le> e\<close> by (intro that [of "e - 2"]) simp
  define m where "m = (w - 1) div 2 ^ (e - 2)"
  have m: "4 \<le> m" "m < 8"
    using e by (simp_all add: c m_def less_eq_div_iff_mult_less_eq less_mult_imp_div_less)
  have lo: "m * 2 ^ (e - 2) \<le> w - 1" by (simp add: m_def div_times_less_eq_dividend)
  have hi: "w - 1 < (m + 1) * 2 ^ (e - 2)"
    using dividend_less_div_times [of "2 ^ (e - 2)" "w - 1"] by (simp add: m_def algebra_simps)
  have "bin_words w = 4 * e + m - 7"
    using assms by (simp add: bin_words_def Let_def e_def m_def)
  then have "bin_words w + 7 = 4 * e + m" using \<open>3 \<le> e\<close> by simp
  with \<open>3 \<le> e\<close> \<open>e < 16\<close> m lo hi e assms show thesis by (intro that) auto
qed

lemma bin_words_tiny: "w \<le> 8 \<Longrightarrow> bin_words w = (if w \<le> 1 then 1 else (w + 1) div 2 * 2)"
  by (simp add: bin_words_def)

lemma bin_words_lt_huge: "w \<le> 65536 \<Longrightarrow> 1 \<le> bin_words w \<and> bin_words w \<le> 60"
proof (cases "w \<le> 8")
  case False
  assume "w \<le> 65536"
  with False obtain e m where "3 \<le> e" "e < 16" "m < 8" "bin_words w + 7 = 4 * e + m"
    using bin_words_large [of w] by (metis not_less_eq_eq eval_nat_numeral(3) numeral_eq_Suc pred_numeral_simps(3))
  then show ?thesis by linarith
qed (auto simp: bin_words_tiny)

lemma bin_words_huge: "65536 < w \<Longrightarrow> bin_words w = 73"
  by (simp add: bin_words_def)

lemma bin_words_mono: "v \<le> w \<Longrightarrow> bin_words v \<le> bin_words w"
proof -
  assume vw: "v \<le> w"
  consider "w \<le> 8" | "v \<le> 8" "9 \<le> w" "w \<le> 65536" | "9 \<le> v" "w \<le> 65536" | "65536 < w"
    by linarith
  then show ?thesis
  proof cases
    case 1
    then show ?thesis using vw by (auto simp: bin_words_tiny intro!: div_le_mono)
  next
    case 2
    have "bin_words v \<le> 8" using 2 div_le_mono [of "v + 1" 9 2] by (simp add: bin_words_tiny)
    moreover obtain e m where "3 \<le> e" "4 \<le> m" "bin_words w + 7 = 4 * e + m"
      using 2 bin_words_large by blast
    ultimately show ?thesis by linarith
  next
    case 3
    from 3 vw have "9 \<le> w" "v \<le> 65536" by linarith+
    obtain e m where e: "4 \<le> m" "m < 8" "w \<le> (m + 1) * 2 ^ (e - 2)" "w \<le> 2 ^ Suc e"
      "bin_words w + 7 = 4 * e + m"
      using bin_words_large [OF \<open>9 \<le> w\<close> 3(2)] by blast
    obtain e' m' where e': "4 \<le> m'" "m' < 8" "m' * 2 ^ (e' - 2) < v" "2 ^ e' < v"
      "bin_words v + 7 = 4 * e' + m'"
      using bin_words_large [OF 3(1) \<open>v \<le> 65536\<close>] by blast
    have "(2::nat) ^ e' < 2 ^ Suc e" using e(4) e'(4) vw by linarith
    then have "e' \<le> e" by (simp only: power_strict_increasing_iff one_less_numeral_iff semiring_norm(76) less_Suc_eq_le)
    moreover have "m' \<le> m" if "e' = e"
    proof -
      have "m' * 2 ^ (e - 2) < v" using e'(3) that by simp
      then have "m' * 2 ^ (e - 2) < (m + 1) * 2 ^ (e - 2)" using e(3) vw by linarith
      then show ?thesis by (simp only: mult_less_cancel2) simp
    qed
    ultimately show ?thesis using e e' by (cases "e' = e") auto
  qed (use bin_words_lt_huge [of v] bin_words_huge in \<open>cases "v \<le> 65536"; auto\<close>)
qed

text \<open>Two requests of one bin differ by at most a quarter of the smaller, from nine words on.\<close>

lemma bin_words_spread:
  assumes "9 \<le> v" "v \<le> w" "w \<le> 65536" "bin_words v = bin_words w"
  shows "4 * (w - v) < v"
proof -
  from assms have "9 \<le> w" "v \<le> 65536" by linarith+
  obtain e m where e: "3 \<le> e" "4 \<le> m" "m < 8" "w \<le> (m + 1) * 2 ^ (e - 2)" "bin_words w + 7 = 4 * e + m"
    using bin_words_large [OF \<open>9 \<le> w\<close> assms(3)] by blast
  obtain e' m' where e': "4 \<le> m'" "m' < 8" "m' * 2 ^ (e' - 2) < v" "bin_words v + 7 = 4 * e' + m'"
    using bin_words_large [OF assms(1) \<open>v \<le> 65536\<close>] by blast
  have "4 * e + m = 4 * e' + m'" using e(5) e'(4) assms(4) by linarith
  then have "e' = e" using e(2,3) e'(1,2) by linarith
  with \<open>4 * e + m = 4 * e' + m'\<close> have "m' = m" by simp
  have "w \<le> m * 2 ^ (e - 2) + 2 ^ (e - 2)" using e(4) by (simp only: distrib_right mult_1)
  moreover have "m * 2 ^ (e - 2) < v" using e'(3) \<open>e' = e\<close> \<open>m' = m\<close> by simp
  moreover have "4 * 2 ^ (e - 2) \<le> m * 2 ^ (e - 2)" using e(2) by (rule mult_le_mono1)
  ultimately show ?thesis by linarith
qed

text \<open>
  C31. Bins are ordered like sizes: a larger request never gets a smaller bin, every bin is between
  1 and \<open>MI_BIN_HUGE\<close>, and the huge bin is used exactly above \<open>MI_LARGE_MAX_OBJ_SIZE\<close>.
\<close>

theorem bin_monotone:
  assumes "sz \<le> sz'"
  shows "bin sz \<le> bin sz' \<and> 1 \<le> bin sz \<and> bin sz' \<le> MI_BIN_HUGE
    \<and> (bin sz = MI_BIN_HUGE \<longleftrightarrow> MI_LARGE_MAX_OBJ_SIZE < unat sz)"
proof -
  let ?w = "nat_div_ceil (unat sz) 8" and ?w' = "nat_div_ceil (unat sz') 8"
  have "?w \<le> ?w'" using assms by (simp add: nat_div_ceil_mono word_le_nat_alt)
  then have "bin_words ?w \<le> bin_words ?w'" by (rule bin_words_mono)
  moreover have "1 \<le> bin_words ?w \<and> bin_words ?w' \<le> 73"
    using bin_words_lt_huge [of ?w] bin_words_lt_huge [of ?w'] bin_words_huge
    by (cases "?w \<le> 65536"; cases "?w' \<le> 65536") auto
  moreover have "bin_words ?w = 73 \<longleftrightarrow> 65536 < ?w"
    using bin_words_lt_huge [of ?w] bin_words_huge [of ?w] by (cases "?w \<le> 65536") auto
  moreover have "65536 < ?w \<longleftrightarrow> 524288 < unat sz"
    using nat_div_ceil_le [of 8 "unat sz"] nat_div_ceil_least [of 8 "unat sz" 65536] by fastforce
  ultimately show ?thesis by (simp add: bin_bin_words mi_consts)
qed

lemma bin_monotone_witness: "bin 24 \<le> bin 600000"
  using bin_monotone [of 24 600000] by simp

text \<open>Rotations undo one another, whatever the rotation count.\<close>

lemma mi_rotr_rotl [simp]: "mi_rotr (mi_rotl x r) r = x" "mi_rotl (mi_rotr x r) r = x"
  by (simp_all add: mi_rotr_def mi_rotl_def)

end
