(* ===== verification/MiLayout.thy ===== *)
theory MiLayout
  imports MiBits
begin

unbundle bit_operations_syntax

text \<open>
  \<^verbatim>\<open>src/layout.rs\<close>: alignment arithmetic on addresses and sizes. Addition wraps at 64 bits
  as in a release build; the lemmas say when it does not, and what the result is when it does.
\<close>

section \<open>Operations\<close>

definition is_power_of_two :: "usize \<Rightarrow> bool" where
  "is_power_of_two x \<longleftrightarrow> (x AND (x - 1)) = 0"

definition align_up :: "usize \<Rightarrow> usize \<Rightarrow> usize" where
  "align_up sz alignment =
    (let msk = alignment - 1
     in if is_power_of_two alignment then (sz + msk) AND NOT msk
        else ((sz + msk) div alignment) * alignment)"

definition align_down :: "usize \<Rightarrow> usize \<Rightarrow> usize" where
  "align_down sz alignment =
    (let msk = alignment - 1
     in if is_power_of_two alignment then sz AND NOT msk
        else (sz div alignment) * alignment)"

definition is_aligned :: "usize \<Rightarrow> usize \<Rightarrow> bool" where
  "is_aligned addr alignment \<longleftrightarrow> (addr AND (alignment - 1)) = 0"

definition layout_good_size :: "usize \<Rightarrow> usize \<Rightarrow> usize" where
  "layout_good_size sz align =
    (let align = (if align < of_nat MI_INTPTR_SIZE then of_nat MI_INTPTR_SIZE else align)
     in align_up (if sz = 0 then of_nat MI_INTPTR_SIZE else sz) align)"

text \<open>
  \<^verbatim>\<open>usize::next_power_of_two\<close>: the least power of two not below the argument (\<open>0\<close> when there
  is none in the type).
\<close>

fun next_power_of_two_from :: "nat \<Rightarrow> usize \<Rightarrow> usize \<Rightarrow> usize" where
  "next_power_of_two_from 0 p x = 0"
| "next_power_of_two_from (Suc k) p x = (if x \<le> p then p else next_power_of_two_from k (p * 2) x)"

definition next_power_of_two :: "usize \<Rightarrow> usize" where
  "next_power_of_two x = next_power_of_two_from 64 1 x"

definition default_align_for :: "usize \<Rightarrow> usize" where
  "default_align_for sz =
    (if sz \<ge> of_nat MI_MAX_ALIGN_SIZE then of_nat MI_MAX_ALIGN_SIZE
     else if sz = 0 then of_nat MI_INTPTR_SIZE
     else let p = next_power_of_two sz
          in if p > of_nat MI_MAX_ALIGN_SIZE then of_nat MI_MAX_ALIGN_SIZE else p)"

text \<open>A Rust \<^verbatim>\<open>Layout\<close>: its alignment is always a non-zero power of two.\<close>

record layout =
  lay_size :: usize
  lay_align :: usize

definition layout_ok :: "layout \<Rightarrow> bool" where
  "layout_ok l \<longleftrightarrow> lay_align l \<noteq> 0 \<and> is_power_of_two (lay_align l)"

definition size_align :: "layout \<Rightarrow> usize \<times> usize" where
  "size_align l =
    (let align = max (lay_align l) (min (of_nat MI_MAX_ALIGN_SIZE) (default_align_for (lay_size l)))
     in (lay_size l, max align 1))"

section \<open>Powers of two\<close>

lemma is_power_of_two_iff: "is_power_of_two x \<longleftrightarrow> x = 0 \<or> (\<exists>k<64. x = 2 ^ k)"
proof (cases "x = 0")
  case False
  define b where "b = log2 (unat x)"
  have pos: "0 < unat x" using False by (simp add: unat_gt_0)
  have b: "2 ^ b \<le> unat x" "unat x < 2 ^ Suc b"
    using pos by (simp_all add: b_def log2_lower log2_upper del: power_Suc)
  have "(2::nat) ^ b < 2 ^ 64" using b(1) unat_bound [of x] by simp
  then have "b < 64" by (simp only: power_strict_increasing_iff one_less_numeral_iff semiring_norm(76))
  have ux: "unat (x - 1) = unat x - 1" using pos by (simp add: unat_diff_le word_le_nat_alt)
  show ?thesis
  proof
    assume "is_power_of_two x"
    then have z: "\<not> (bit x b \<and> bit (x - 1) b)"
      by (metis is_power_of_two_def bit_and_iff bit_0_eq bot_apply bot_bool_def)
    have "unat x = 2 ^ b"
    proof (rule ccontr)
      assume "unat x \<noteq> 2 ^ b"
      then have "2 ^ b \<le> unat (x - 1)" "unat (x - 1) < 2 ^ Suc b" using b ux by linarith+
      with b z show False by (blast dest: bit_highest(1))
    qed
    then have "x = 2 ^ b" using unat_pow2 [OF \<open>b < 64\<close>] by (metis word_unat_eq_iff)
    with \<open>b < 64\<close> show "x = 0 \<or> (\<exists>k<64. x = 2 ^ k)" by blast
  next
    assume "x = 0 \<or> (\<exists>k<64. x = 2 ^ k)"
    with False obtain k where k: "k < 64" "x = 2 ^ k" by blast
    show "is_power_of_two x"
      unfolding is_power_of_two_def k(2) pow2_minus_1_mask by (simp only: bit_eq_iff) (simp add: bit_simps)
  qed
qed (simp add: is_power_of_two_def)

section \<open>Alignment on natural numbers\<close>

lemma align_up_pow2:
  assumes "k < 64"
  shows "unat (align_up sz (2 ^ k)) = unat (sz + (2 ^ k - 1)) div 2 ^ k * 2 ^ k"
proof -
  have "is_power_of_two (2 ^ k)" using assms by (auto simp: is_power_of_two_iff)
  then show ?thesis by (simp only: align_up_def Let_def if_True pow2_minus_1_mask unat_and_not_mask)
qed

lemma align_up_unat:
  assumes a: "a \<noteq> 0" and fit: "unat sz + unat a \<le> 2 ^ 64"
  shows "unat (align_up sz a) = nat_div_ceil (unat sz) (unat a) * unat a"
proof -
  have pos: "0 < unat a" using a by (simp add: unat_gt_0)
  have ua: "unat (a - 1) = unat a - 1" using pos by (simp add: unat_diff_le word_le_nat_alt)
  have sum: "unat (sz + (a - 1)) = unat sz + (unat a - 1)"
    using fit pos by (subst unat_add_small) (simp_all add: ua)
  have ceil: "(unat sz + (unat a - 1)) div unat a = nat_div_ceil (unat sz) (unat a)"
  proof (rule div_nat_eqI)
    show "unat a * nat_div_ceil (unat sz) (unat a) \<le> unat sz + (unat a - 1)"
      using nat_div_ceil_bound [OF pos, of "unat sz"] by (simp add: mult.commute)
    show "unat sz + (unat a - 1) < unat a * Suc (nat_div_ceil (unat sz) (unat a))"
      using nat_div_ceil_le [OF pos, of "unat sz"] pos by (simp add: mult.commute)
  qed
  show ?thesis
  proof (cases "is_power_of_two a")
    case True
    with a obtain k where k: "k < 64" "a = 2 ^ k" by (auto simp: is_power_of_two_iff)
    have "unat (align_up sz a) = unat (sz + (a - 1)) div 2 ^ k * 2 ^ k"
      using align_up_pow2 [OF k(1)] k(2) by simp
    also have "\<dots> = nat_div_ceil (unat sz) (unat a) * unat a"
      using ceil by (simp only: sum) (simp only: k(2) unat_pow2 [OF k(1)])
    finally show ?thesis .
  next
    case False
    have "(unat sz + (unat a - 1)) div unat a * unat a \<le> unat sz + (unat a - 1)"
      by (simp add: div_times_less_eq_dividend)
    then have "unat (((sz + (a - 1)) div a) * a) = (unat sz + (unat a - 1)) div unat a * unat a"
      using fit pos by (subst unat_mult_small, simp_all only: unat_div_distrib sum)
    with False ceil show ?thesis by (simp add: align_up_def Let_def)
  qed
qed

text \<open>With a power of two, a size too close to the top of the address space wraps to \<open>0\<close>.\<close>

lemma align_up_wraps:
  assumes "k < 64" and "2 ^ 64 - 2 ^ k < unat sz"
  shows "align_up sz (2 ^ k) = 0"
proof -
  have ex: "unat (2 ^ k - 1 :: usize) = 2 ^ k - 1"
    using assms(1) by (simp add: unat_diff_le unat_pow2 word_le_nat_alt)
  have k: "(2::nat) ^ k \<le> 2 ^ 64" using assms(1) by (intro power_increasing) auto
  have "unat (sz + (2 ^ k - 1)) = unat sz + (2 ^ k - 1) - 2 ^ 64"
    using assms(2) unat_bound [of sz] k by (simp add: unat_word_ariths ex mod_if)
  also have "\<dots> < 2 ^ k" using unat_lt [of sz] k zero_less_power [of "2::nat" k] by linarith
  finally have "unat (align_up sz (2 ^ k)) = 0"
    using assms(1)
    using align_up_pow2 [OF assms(1), of sz] by (simp add: pow2_minus_1_mask)
  then show ?thesis by (simp only: unat_eq_zero)
qed

lemma align_down_unat:
  assumes "a \<noteq> 0"
  shows "unat (align_down sz a) = unat sz div unat a * unat a"
proof (cases "is_power_of_two a")
  case True
  with assms obtain k where k: "k < 64" "a = 2 ^ k" by (auto simp: is_power_of_two_iff)
  with True show ?thesis
    by (simp add: align_down_def Let_def pow2_minus_1_mask unat_and_not_mask unat_pow2)
next
  case False
  have "unat sz div unat a * unat a < 2 ^ 64"
    using unat_lt [of sz] div_times_less_eq_dividend [of "unat sz" "unat a"] by linarith
  then have "unat ((sz div a) * a) = unat sz div unat a * unat a"
    by (subst unat_mult_small) (simp_all add: unat_div_distrib)
  with False show ?thesis by (simp add: align_down_def Let_def)
qed

lemma is_aligned_dvd: "k < 64 \<Longrightarrow> is_aligned addr (2 ^ k) \<longleftrightarrow> 2 ^ k dvd unat addr"
proof -
  assume "k < 64"
  have "is_aligned addr (2 ^ k) \<longleftrightarrow> unat (addr AND mask k) = 0"
    by (simp only: is_aligned_def pow2_minus_1_mask unat_eq_zero)
  then show ?thesis by (simp only: unat_and_mask mod_eq_0_iff_dvd)
qed


section \<open>Layout adapters\<close>

lemma next_power_of_two_from_step:
  "0 < k \<Longrightarrow> next_power_of_two_from k p x = (if x \<le> p then p else next_power_of_two_from (k - 1) (p * 2) x)"
  by (cases k) simp_all

lemma next_power_of_two_small: "x < 16 \<Longrightarrow> next_power_of_two x \<in> {1, 2, 4, 8, 16}"
  by (auto simp: next_power_of_two_def next_power_of_two_from_step)

lemma default_align_for_cases: "default_align_for sz \<in> {1, 2, 4, 8, 16}"
proof (cases "sz < 16")
  case True
  then have "next_power_of_two sz \<in> {1, 2, 4, 8, 16}" by (rule next_power_of_two_small)
  with True show ?thesis by (auto simp: default_align_for_def mi_consts Let_def)
qed (auto simp: default_align_for_def mi_consts)

lemma is_power_of_two_upto_16: "x \<in> {1, 2, 4, 8, 16} \<Longrightarrow> is_power_of_two x \<and> x \<noteq> 0 \<and> x \<le> 16"
  by (auto simp: is_power_of_two_def)

lemma layout_ok_pow2: "layout_ok l \<longleftrightarrow> (\<exists>k<64. lay_align l = 2 ^ k)"
proof -
  have "(2 ^ k :: usize) \<noteq> 0" if "k < 64" for k using that unat_pow2 [of k] by force
  then show ?thesis by (auto simp: layout_ok_def is_power_of_two_iff)
qed

text \<open>
  \<open>align_up\<close> returns the least multiple of the alignment that is not below the size, for
  every non-zero alignment (power of two or not), whenever the rounding cannot leave the 64-bit
  range; the result is less than one alignment away.
\<close>

theorem align_up_least_multiple:
  assumes "a \<noteq> 0" and "unat sz + unat a \<le> 2 ^ 64"
  shows "unat a dvd unat (align_up sz a) \<and> sz \<le> align_up sz a
    \<and> unat (align_up sz a) < unat sz + unat a
    \<and> (\<forall>m. unat sz \<le> m * unat a \<longrightarrow> unat (align_up sz a) \<le> m * unat a)"
proof -
  have pos: "0 < unat a" using assms(1) by (simp add: unat_gt_0)
  show ?thesis
    using nat_div_ceil_le [OF pos, of "unat sz"] nat_div_ceil_bound [OF pos, of "unat sz"]
      nat_div_ceil_least [OF pos, of "unat sz"]
    by (simp add: align_up_unat [OF assms] word_le_nat_alt)
qed

lemma align_up_least_multiple_witness:
  "unat (24::usize) dvd unat (align_up 1000 24) \<and> (1000::usize) \<le> align_up 1000 24"
  using align_up_least_multiple [of 24 1000] by simp

text \<open>
  The \<open>(size, align)\<close> pair of a layout keeps the size, and its alignment is a non-zero power
  of two at least the requested one: raising it to the natural alignment never breaks the request.
\<close>

theorem size_align_sound:
  assumes "layout_ok l"
  shows "fst (size_align l) = lay_size l \<and> lay_align l \<le> snd (size_align l)
    \<and> is_power_of_two (snd (size_align l)) \<and> snd (size_align l) \<noteq> 0
    \<and> snd (size_align l) \<le> max (lay_align l) 16"
proof -
  let ?d = "min (of_nat MI_MAX_ALIGN_SIZE) (default_align_for (lay_size l))"
  have "?d = default_align_for (lay_size l)"
    using is_power_of_two_upto_16 [OF default_align_for_cases, of "lay_size l"]
    by (auto simp: mi_consts min_def intro: order_antisym)
  then have d: "is_power_of_two ?d" "?d \<noteq> 0" "?d \<le> 16"
    using is_power_of_two_upto_16 [OF default_align_for_cases, of "lay_size l"] by simp_all
  have ge: "1 \<le> max (lay_align l) ?d" using d(2) by (simp add: max_def word_le_nat_alt unat_gt_0 Suc_leI)
  then have "snd (size_align l) = max (lay_align l) ?d"
    by (simp add: size_align_def Let_def max_absorb1)
  then show ?thesis
    using assms d ge by (auto simp: size_align_def Let_def layout_ok_def max_def)
qed

lemma size_align_sound_witness:
  "lay_align \<lparr>lay_size = 24, lay_align = 64\<rparr> \<le> snd (size_align \<lparr>lay_size = 24, lay_align = 64\<rparr>)"
  using size_align_sound [of "\<lparr>lay_size = 24, lay_align = 64\<rparr>"]
  by (simp add: layout_ok_def is_power_of_two_def)

end
