(* ===== verification/MiSizeClass.thy ===== *)
theory MiSizeClass
  imports MiLayout
begin

unbundle bit_operations_syntax

text \<open>
  Size classes (\<^verbatim>\<open>src/heap.rs\<close>, top): the table of block sizes per bin built by a loop over all
  word counts, the size served for a request, and the slices a page of a class spans.
\<close>

section \<open>Operations\<close>

text \<open>The body of the loop that fills the table, and the loop from word count \<open>w\<close> on.\<close>

definition bin_sizes_step :: "nat \<Rightarrow> usize list \<Rightarrow> usize list" where
  "bin_sizes_step w t =
    (let sz = of_nat (w * MI_INTPTR_SIZE); b = bin sz
     in if b < MI_BIN_HUGE \<and> sz > t ! b then t[b := sz] else t)"

function bin_sizes_loop :: "nat \<Rightarrow> usize list \<Rightarrow> usize list" where
  "bin_sizes_loop w t =
    (if w \<le> MI_LARGE_MAX_OBJ_SIZE div MI_INTPTR_SIZE
     then bin_sizes_loop (w + 1) (bin_sizes_step w t) else t)"
  by pat_completeness auto
termination
  by (relation "measure (\<lambda>(w, _). MI_LARGE_MAX_OBJ_SIZE div MI_INTPTR_SIZE + 1 - w)") auto

declare bin_sizes_loop.simps [simp del]

definition BIN_SIZES :: "usize list" where
  "BIN_SIZES = bin_sizes_loop 1 (replicate MI_BIN_COUNT 0)"

definition bin_block_size :: "nat \<Rightarrow> usize" where
  "bin_block_size b = BIN_SIZES ! b"

definition good_size :: "usize \<Rightarrow> usize" where
  "good_size sz =
    (let sz = max sz (of_nat MI_INTPTR_SIZE); b = bin sz
     in if b \<ge> MI_BIN_HUGE then align_up sz (of_nat MI_ARENA_SLICE_SIZE) else bin_block_size b)"

definition page_slices_for :: "usize \<Rightarrow> nat" where
  "page_slices_for block_size =
    (if block_size \<le> of_nat MI_SMALL_MAX_OBJ_SIZE then 1
     else if block_size \<le> of_nat MI_MEDIUM_MAX_OBJ_SIZE then 8 else 64)"

section \<open>The table\<close>

definition words :: "nat \<Rightarrow> usize" where
  "words w = of_nat (w * 8)"

lemma unat_words: "w \<le> 65536 \<Longrightarrow> unat (words w) = w * 8"
  by (simp add: words_def unat_of_nat_small del: of_nat_mult)

lemma bin_words_eq: "w \<le> 65536 \<Longrightarrow> bin (words w) = bin_words w"
  by (simp add: bin_bin_words unat_words)

text \<open>What the table holds once the word counts up to \<open>w\<close> have been visited.\<close>

definition table_upto :: "nat \<Rightarrow> usize list \<Rightarrow> bool" where
  "table_upto w t \<longleftrightarrow> length t = 75 \<and>
    (\<forall>b<75. t ! b = 0 \<or> (\<exists>v\<ge>1. v \<le> w \<and> t ! b = words v \<and> bin_words v = b)) \<and>
    (\<forall>v\<ge>1. v \<le> w \<longrightarrow> words v \<le> t ! bin_words v)"

lemma table_upto_step:
  assumes "table_upto w t" and "w < 65536"
  shows "table_upto (Suc w) (bin_sizes_step (Suc w) t)"
proof -
  let ?v = "Suc w"
  have bv: "bin_words ?v < 73" using bin_words_lt_huge [of ?v] assms(2) by simp
  have len: "length t = 75" using assms(1) by (simp add: table_upto_def)
  have step: "bin_sizes_step ?v t = (if words ?v > t ! bin_words ?v then t[bin_words ?v := words ?v] else t)"
    using bin_words_eq [of ?v] assms(2) bv
    by (simp add: bin_sizes_step_def Let_def mi_consts words_def del: of_nat_mult of_nat_Suc of_nat_add)
  have old: "words u \<le> t ! bin_words u" if "1 \<le> u" "u \<le> w" for u
    using assms(1) that by (simp add: table_upto_def)
  have below: "t ! b = 0 \<or> (\<exists>u\<ge>1. u \<le> w \<and> t ! b = words u \<and> bin_words u = b)" if "b < 75" for b
    using assms(1) that by (simp add: table_upto_def)
  show ?thesis
    unfolding table_upto_def
  proof (intro conjI allI impI)
    show "length (bin_sizes_step ?v t) = 75" unfolding step by (simp add: len)
  next
    fix b :: nat assume b: "b < 75"
    show "bin_sizes_step ?v t ! b = 0
      \<or> (\<exists>u\<ge>1. u \<le> ?v \<and> bin_sizes_step ?v t ! b = words u \<and> bin_words u = b)"
      using below [OF b] bv len by (cases "b = bin_words ?v") (auto simp: step intro: le_SucI)
  next
    fix u assume u: "1 \<le> u" "u \<le> ?v"
    show "words u \<le> bin_sizes_step ?v t ! bin_words u"
    proof (cases "u = ?v")
      case True
      then show ?thesis using bv len by (simp add: step not_less)
    next
      case False
      with u have "words u \<le> t ! bin_words u" by (intro old) simp_all
      then show ?thesis using bv len by (auto simp: step nth_list_update)
    qed
  qed
qed

lemma table_upto_loop: "table_upto w t \<Longrightarrow> w \<le> 65536 \<Longrightarrow> table_upto 65536 (bin_sizes_loop (w + 1) t)"
proof (induction "65536 - w" arbitrary: w t)
  case 0
  then show ?case by (simp add: bin_sizes_loop.simps mi_consts)
next
  case (Suc n)
  then have "table_upto (w + 1) (bin_sizes_step (w + 1) t)" using table_upto_step [of w t] by simp
  then have "table_upto 65536 (bin_sizes_loop (w + 1 + 1) (bin_sizes_step (w + 1) t))"
    using Suc by (intro Suc.hyps(1)) simp_all
  moreover have "w + 1 \<le> 65536" using Suc.hyps(2) by simp
  ultimately show ?case by (subst bin_sizes_loop.simps) (simp add: mi_consts)
qed

lemma table_BIN_SIZES: "table_upto 65536 BIN_SIZES"
proof -
  have "table_upto 0 (replicate MI_BIN_COUNT 0)" by (simp add: table_upto_def mi_consts)
  from table_upto_loop [OF this] show ?thesis by (simp add: BIN_SIZES_def)
qed

lemma block_size_of_bin:
  assumes "1 \<le> w" "w \<le> 65536"
  obtains v where "w \<le> v" "v \<le> 65536" "bin_words v = bin_words w" "bin_block_size (bin_words w) = words v"
proof -
  have b: "bin_words w < 75" using bin_words_lt_huge [OF assms(2)] by simp
  have le: "words w \<le> BIN_SIZES ! bin_words w"
    using table_BIN_SIZES assms by (simp add: table_upto_def)
  moreover have "words w \<noteq> 0" using unat_words [OF assms(2)] assms(1) by (metis mult_eq_0_iff not_one_le_zero unat_0 zero_neq_numeral)
  ultimately have "BIN_SIZES ! bin_words w \<noteq> 0" by auto
  then obtain v where v: "1 \<le> v" "v \<le> 65536" "BIN_SIZES ! bin_words w = words v" "bin_words v = bin_words w"
    using table_BIN_SIZES b by (auto simp: table_upto_def)
  moreover have "w \<le> v"
    using le v assms(2) by (simp add: word_le_nat_alt unat_words)
  ultimately show thesis by (intro that) (simp_all add: bin_block_size_def)
qed


section \<open>The size served for a request\<close>

lemma bin_words_tiny_spread: "w \<le> 8 \<Longrightarrow> v \<le> 65536 \<Longrightarrow> bin_words v = bin_words w \<Longrightarrow> v \<le> w + 1"
proof (cases "v \<le> 8")
  case True
  assume "w \<le> 8" "bin_words v = bin_words w"
  with True have "(if v \<le> 1 then 1 else (v + 1) div 2 * 2) = (if w \<le> 1 then 1 else (w + 1) div 2 * 2)"
    by (simp only: bin_words_tiny)
  then show ?thesis by presburger
next
  case False
  assume a: "w \<le> 8" "v \<le> 65536" "bin_words v = bin_words w"
  then have "bin_words w \<le> 8" using div_le_mono [of "w + 1" 9 2] by (simp add: bin_words_tiny)
  moreover have "9 \<le> v" using False by simp
  then obtain e m where "3 \<le> e" "4 \<le> m" "bin_words v + 7 = 4 * e + m"
    using bin_words_large [OF _ a(2)] by blast
  ultimately show ?thesis using a by linarith
qed

lemma good_size_small:
  assumes "unat sz \<le> 524288" and "w = nat_div_ceil (max (unat sz) 8) 8"
  obtains v where "1 \<le> w" "w \<le> v" "v \<le> 65536" "bin_words v = bin_words w" "bin (max sz 8) = bin_words w"
    "good_size sz = words v" "good_size sz = bin_block_size (bin_words w)"
    "max (unat sz) 8 \<le> w * 8" "w * 8 < max (unat sz) 8 + 8"
proof -
  have m: "unat (max sz 8) = max (unat sz) 8" by (simp add: max_def word_le_nat_alt)
  have le: "max (unat sz) 8 \<le> w * 8" unfolding assms(2) by (rule nat_div_ceil_le) simp
  have lt: "w * 8 < max (unat sz) 8 + 8" unfolding assms(2) by (rule nat_div_ceil_bound) simp
  have w: "1 \<le> w" "w \<le> 65536" using le lt assms(1) by auto
  have b: "bin (max sz 8) = bin_words w" by (simp add: bin_bin_words m assms(2))
  obtain v where "w \<le> v" "v \<le> 65536" "bin_words v = bin_words w" "bin_block_size (bin_words w) = words v"
    using w by (rule block_size_of_bin)
  moreover have "bin_words w < 73" using bin_words_lt_huge [OF w(2)] by simp
  ultimately show thesis
    using w b le lt by (intro that [of v]) (auto simp: good_size_def Let_def mi_consts)
qed

text \<open>
  C30. A request is served by a block of its own bin that is large enough: \<open>good_size\<close> is at least
  the request, it is the largest size of the request's bin, asking for it again changes nothing,
  and the overhead is below 16 bytes up to 64 bytes and below a quarter (plus rounding) above.
\<close>

theorem good_size_serves:
  assumes "unat sz \<le> 524288"
  shows "sz \<le> good_size sz \<and> unat (good_size sz) \<le> 524288
    \<and> bin (good_size sz) = bin (max sz 8)
    \<and> good_size (good_size sz) = good_size sz
    \<and> (64 < unat sz \<longrightarrow> 4 * unat (good_size sz) < 5 * unat sz + 35)
    \<and> (unat sz \<le> 64 \<longrightarrow> unat (good_size sz) < max (unat sz) 8 + 16)"
proof -
  define w where "w = nat_div_ceil (max (unat sz) 8) 8"
  obtain v where v: "1 \<le> w" "w \<le> v" "v \<le> 65536" "bin_words v = bin_words w" "bin (max sz 8) = bin_words w"
    "good_size sz = words v" "good_size sz = bin_block_size (bin_words w)"
    "max (unat sz) 8 \<le> w * 8" "w * 8 < max (unat sz) 8 + 8"
    using good_size_small [OF assms w_def] by blast
  have g: "unat (good_size sz) = v * 8" using v(3,6) by (simp add: unat_words)
  have "v = nat_div_ceil (max (unat (words v)) 8) 8"
  proof -
    have "max (unat (words v)) 8 = v * 8" using v(1-3) by (simp add: unat_words max_def)
    then show ?thesis by (simp only: nat_div_ceil_mult zero_less_numeral)
  qed
  moreover have "unat (words v) \<le> 524288" using v(3) by (simp add: unat_words)
  ultimately have "good_size (words v) = bin_block_size (bin_words v)"
    using good_size_small [of "words v" v] by blast
  then have twice: "good_size (good_size sz) = good_size sz" using v(4,6,7) by simp
  have bins: "bin (good_size sz) = bin (max sz 8)" using v(3-6) by (simp add: bin_words_eq)
  have tiny: "v \<le> w + 1" if "w \<le> 8" using bin_words_tiny_spread [OF that v(3)] v(4) by simp
  have large: "4 * (v - w) < w" if "9 \<le> w"
    using bin_words_spread [OF that v(2,3)] v(4) by simp
  show ?thesis
    unfolding g word_le_nat_alt using v(2,3,8,9) twice bins tiny large by (cases "w \<le> 8") auto
qed

lemma good_size_serves_witness: "(1000::usize) \<le> good_size 1000"
  using good_size_serves [of 1000] by simp

text \<open>
  C32. A request above \<open>MI_LARGE_MAX_OBJ_SIZE\<close> is rounded up to whole arena slices, except within
  the last slice below \<open>2^64\<close>, where the rounding wraps and the good size of the request is \<open>0\<close>.
  The page that serves such a request has one block of the size rounded up to 16 only, so the usable
  size of the allocation is smaller than the good size unless that is a multiple of the slice size.
\<close>

theorem good_size_huge:
  assumes "524288 < unat sz"
  shows "if unat sz \<le> 2 ^ 64 - 65536
    then sz \<le> good_size sz \<and> 65536 dvd unat (good_size sz) \<and> unat (good_size sz) < unat sz + 65536
    else good_size sz = 0"
proof -
  have big: "max sz 8 = sz" using assms by (simp add: max_def word_le_nat_alt)
  have "bin sz = 73" using assms by (rule bin_huge)
  then have g: "good_size sz = align_up sz 65536"
    by (simp add: good_size_def mi_consts big)
  show ?thesis
  proof (cases "unat sz \<le> 2 ^ 64 - 65536")
    case True
    then have "unat sz + unat (65536::usize) \<le> 2 ^ 64" by simp
    then show ?thesis
      using nat_div_ceil_le [of 65536 "unat sz"] nat_div_ceil_bound [of 65536 "unat sz"]
        align_up_unat [of 65536 sz] True g by (simp add: word_le_nat_alt)
  next
    case False
    then show ?thesis using align_up_wraps [of 16 sz] g by simp
  qed
qed

lemma good_size_huge_witness: "(600000::usize) \<le> good_size 600000 \<and> good_size 18446744073709551600 = 0"
  using good_size_huge [of 600000] good_size_huge [of 18446744073709551600] by simp

text \<open>
  A page of the slices chosen for a block size has room for at least six of its blocks
  beside four kibibytes, for every block size a page can serve.
\<close>

theorem page_slices_hold_six_blocks:
  assumes "unat block_size \<le> MI_LARGE_MAX_OBJ_SIZE"
  shows "6 * unat block_size + 4 * MI_KIB \<le> page_slices_for block_size * MI_ARENA_SLICE_SIZE"
  using assms by (simp add: page_slices_for_def mi_consts word_le_nat_alt)

lemma page_slices_hold_six_blocks_witness: "6 * unat (80000::usize) + 4 * MI_KIB \<le> page_slices_for 80000 * MI_ARENA_SLICE_SIZE"
  using page_slices_hold_six_blocks [of 80000] by (simp add: mi_consts)

end
