(* ===== verification/MiFreeList.thy ===== *)
theory MiFreeList
  imports MiBits
begin

unbundle bit_operations_syntax

text \<open>
  \<^verbatim>\<open>src/free_list.rs\<close>: the link word at the start of every free block, plain or encoded with the
  keys of the page, and the lists such links form. The first words of all blocks are a store
  \<open>links\<close>; \<open>enc\<close> says whether the build encodes links (\<^verbatim>\<open>ENCODED\<close>: features \<^verbatim>\<open>secure\<close> and
  \<^verbatim>\<open>debug\<close>).
\<close>

type_synonym links = "ptr \<Rightarrow> usize"
type_synonym keys = "usize \<times> usize"

section \<open>Links\<close>

definition encode :: "ptr \<Rightarrow> keys \<Rightarrow> usize" where
  "encode p ks = (if p = 0 then 0 else mi_rotl (p XOR snd ks) (fst ks) + fst ks)"

definition decode :: "usize \<Rightarrow> keys \<Rightarrow> ptr" where
  "decode x ks = (if x = 0 then 0 else mi_rotr (x - fst ks) (fst ks) XOR snd ks)"

definition block_next :: "bool \<Rightarrow> keys \<Rightarrow> links \<Rightarrow> ptr \<Rightarrow> ptr" where
  "block_next enc ks m b = (if enc then decode (m b) ks else m b)"

definition block_set_next :: "bool \<Rightarrow> keys \<Rightarrow> ptr \<Rightarrow> ptr \<Rightarrow> links \<Rightarrow> links" where
  "block_set_next enc ks b nxt m = m(b := if enc then encode nxt ks else nxt)"

text \<open>Pointers whose link word can be told from the end of the list.\<close>

definition linkable :: "bool \<Rightarrow> keys \<Rightarrow> ptr \<Rightarrow> bool" where
  "linkable enc ks p \<longleftrightarrow> enc \<longrightarrow> p = 0 \<or> encode p ks \<noteq> 0"

text \<open>
  C28. Decoding a link gives back the encoded pointer for every pointer but one: a non-null pointer
  is lost exactly when its code word is \<open>0\<close>, which the format reserves for the end of the list,
  and for each pair of keys there is exactly one such address.
\<close>

theorem decode_encode_iff:
  "(decode (encode p ks) ks = p \<longleftrightarrow> p = 0 \<or> encode p ks \<noteq> 0)
   \<and> (p \<noteq> 0 \<longrightarrow> (encode p ks = 0 \<longleftrightarrow> p = mi_rotr (- fst ks) (fst ks) XOR snd ks))"
proof -
  have inv: "(a XOR b) XOR b = a" for a b :: usize by (simp add: ac_simps)
  have "encode p ks = 0 \<longleftrightarrow> mi_rotl (p XOR snd ks) (fst ks) = - fst ks" if "p \<noteq> 0"
    using that by (simp add: encode_def eq_neg_iff_add_eq_0)
  also have "mi_rotl (p XOR snd ks) (fst ks) = - fst ks \<longleftrightarrow> p XOR snd ks = mi_rotr (- fst ks) (fst ks)"
    by (metis mi_rotr_rotl)
  also have "\<dots> \<longleftrightarrow> p = mi_rotr (- fst ks) (fst ks) XOR snd ks"
    by (metis inv)
  finally show ?thesis
    by (auto simp: decode_def encode_def inv split: if_splits)
qed

lemma decode_encode_iff_witness:
  "encode 4096 (5, 7) = 0 \<longleftrightarrow> (4096::ptr) = mi_rotr (- 5) 5 XOR 7"
  using decode_encode_iff [of 4096 "(5, 7)"] by simp

lemma decode_encode: "linkable True ks p \<Longrightarrow> decode (encode p ks) ks = p"
proof -
  have inv: "(a XOR b) XOR b = a" for a b :: usize by (simp add: ac_simps)
  assume "linkable True ks p"
  then show ?thesis by (auto simp: linkable_def decode_def encode_def inv split: if_splits)
qed

section \<open>Lists of blocks\<close>

text \<open>\<open>chain nx p xs\<close>: following \<open>nx\<close> from \<open>p\<close> visits the blocks \<open>xs\<close> and ends at null.\<close>

fun chain :: "(ptr \<Rightarrow> ptr) \<Rightarrow> ptr \<Rightarrow> ptr list \<Rightarrow> bool" where
  "chain nx p [] \<longleftrightarrow> p = 0"
| "chain nx p (x # xs) \<longleftrightarrow> p = x \<and> x \<noteq> 0 \<and> chain nx (nx x) xs"

lemma chain_unique: "chain nx p xs \<Longrightarrow> chain nx p ys \<Longrightarrow> xs = ys"
  by (induction xs arbitrary: p ys; case_tac ys) auto

lemma chain_null [simp]: "chain nx 0 xs \<longleftrightarrow> xs = []"
  by (cases xs) auto

lemma chain_not_null: "p \<noteq> 0 \<Longrightarrow> chain nx p xs \<longleftrightarrow> (\<exists>ys. xs = p # ys \<and> chain nx (nx p) ys)"
  by (cases xs) auto

lemma chain_cong: "(\<And>x. x \<in> set xs \<Longrightarrow> nx x = ny x) \<Longrightarrow> chain nx p xs = chain ny p xs"
  by (induction xs arbitrary: p) auto

lemma chain_nonzero: "chain nx p xs \<Longrightarrow> 0 \<notin> set xs"
  by (induction xs arbitrary: p) auto

lemma chain_head: "chain nx p xs \<Longrightarrow> p = (case xs of [] \<Rightarrow> 0 | x # _ \<Rightarrow> x)"
  by (cases xs) auto

text \<open>
  What the list operations rely on: a link that is set is read back, and no other link changes.
  The page code is proved against this interface, so it holds for both link formats.
\<close>

locale link_store =
  fixes get :: "'m \<Rightarrow> ptr \<Rightarrow> ptr"
    and set_link :: "ptr \<Rightarrow> ptr \<Rightarrow> 'm \<Rightarrow> 'm"
    and ok :: "ptr \<Rightarrow> bool"
  assumes get_set_same: "ok q \<Longrightarrow> get (set_link b q m) b = q"
    and get_set_other: "b \<noteq> c \<Longrightarrow> get (set_link b q m) c = get m c"
    and ok_null: "ok 0"
begin

lemma chain_set_other: "b \<notin> set xs \<Longrightarrow> chain (get (set_link b q m)) p xs = chain (get m) p xs"
  by (rule chain_cong) (metis get_set_other)

lemma chain_push:
  "chain (get m) p xs \<Longrightarrow> b \<noteq> 0 \<Longrightarrow> b \<notin> set xs \<Longrightarrow> ok p \<Longrightarrow> chain (get (set_link b p m)) b (b # xs)"
  by (simp add: get_set_same chain_set_other)

lemma chain_append:
  "chain (get m) p (xs @ [z]) \<Longrightarrow> chain (get m) q ys \<Longrightarrow> distinct (xs @ z # ys) \<Longrightarrow> ok q
    \<Longrightarrow> chain (get (set_link z q m)) p (xs @ z # ys)"
  by (induction xs arbitrary: p) (auto simp: get_set_same get_set_other chain_set_other)

lemma chain_cut:
  "chain (get m) p (xs @ z # ys) \<Longrightarrow> distinct (xs @ z # ys)
    \<Longrightarrow> chain (get (set_link z 0 m)) p (xs @ [z]) \<and> chain (get (set_link z 0 m)) (get m z) ys"
proof (induction xs arbitrary: p)
  case Nil
  then show ?case by (simp add: get_set_same ok_null chain_set_other)
next
  case (Cons x xs)
  then have "get (set_link z 0 m) x = get m x" by (intro get_set_other) auto
  with Cons.prems Cons.IH [of "get m x"] show ?case by simp
qed

end

interpretation links: link_store "block_next enc ks" "block_set_next enc ks" "linkable enc ks"
  by unfold_locales
    (auto simp: block_next_def block_set_next_def decode_encode linkable_def [of False] linkable_def [of _ _ 0])

end
