(* ===== verification/MiPage.thy ===== *)
theory MiPage
  imports MiFreeList MiLayout
begin

unbundle bit_operations_syntax

text \<open>
  \<^verbatim>\<open>src/page.rs\<close>: a page serves blocks of one size. Its header is a record, the link words of its
  blocks are the store of \<open>MiFreeList\<close>. Three lists thread the free blocks: \<open>pg_free\<close> (the owner
  allocates from it), \<open>pg_local_free\<close> (frees of the owner) and \<open>pg_xthread_free\<close> (frees of other
  threads, with the ownership flag in the lowest bit of the head word).

  An operation takes the header and the links and returns them updated; where it walks a list it
  is \<open>None\<close> if the walk does not end. Each operation here is one thread's execution without
  interference; the interleaving of the atomic accesses to the shared head is in \<open>MiThreadFree\<close>.
\<close>

section \<open>The page header\<close>

record page =
  pg_xthread_id :: usize
  pg_free :: ptr
  pg_local_free :: ptr
  pg_xthread_free :: usize
  pg_used :: u32
  pg_capacity :: u32
  pg_reserved :: u32
  pg_block_size :: usize
  pg_page_start :: ptr
  pg_keys :: keys
  pg_next :: ptr
  pg_prev :: ptr
  pg_slice_index :: usize
  pg_slice_count :: usize
  pg_theap :: ptr
  pg_arena :: ptr
  pg_bin :: u32
  pg_free_is_zero :: bool
  pg_retire_expire :: u8

definition TF_OWNED :: usize where "TF_OWNED = 1"

definition tf_block :: "usize \<Rightarrow> ptr" where
  "tf_block tf = tf AND NOT TF_OWNED"

definition tf_is_owned :: "usize \<Rightarrow> bool" where
  "tf_is_owned tf \<longleftrightarrow> tf AND TF_OWNED \<noteq> 0"

definition tf_create :: "ptr \<Rightarrow> bool \<Rightarrow> usize" where
  "tf_create block owned = (block AND NOT TF_OWNED) OR of_bool owned"

definition MI_MAX_EXTEND_SIZE :: nat where "MI_MAX_EXTEND_SIZE = 4096"
definition MI_MIN_EXTEND :: nat where "MI_MIN_EXTEND = 1"

section \<open>Initialisation\<close>

text \<open>\<^verbatim>\<open>size_of::<Page>()\<close> for the \<^verbatim>\<open>repr(C)\<close> header above on a 64-bit target.\<close>

definition sizeof_page :: usize where "sizeof_page = 136"

definition init :: "ptr \<Rightarrow> usize \<Rightarrow> usize \<Rightarrow> usize \<Rightarrow> keys \<Rightarrow> bool \<Rightarrow> page" where
  "init slice_ptr slice_index slice_count block_size ks is_zero =
    (let region = slice_count * of_nat MI_ARENA_SLICE_SIZE;
         header = align_up sizeof_page (of_nat MI_MAX_ALIGN_SIZE);
         start_off = align_up header (of_nat MI_MAX_ALIGN_SIZE);
         area = region - start_off;
         reserved = ucast (area div block_size) :: u32
     in \<lparr> pg_xthread_id = 0, pg_free = 0, pg_local_free = 0, pg_xthread_free = TF_OWNED,
          pg_used = 0, pg_capacity = 0, pg_reserved = reserved, pg_block_size = block_size,
          pg_page_start = slice_ptr + start_off, pg_keys = ks, pg_next = 0, pg_prev = 0,
          pg_slice_index = slice_index, pg_slice_count = slice_count, pg_theap = 0, pg_arena = 0,
          pg_bin = 0, pg_free_is_zero = is_zero, pg_retire_expire = 0 \<rparr>)"

definition init_huge :: "ptr \<Rightarrow> usize \<Rightarrow> usize \<Rightarrow> usize \<Rightarrow> keys \<Rightarrow> bool \<Rightarrow> page" where
  "init_huge slice_base slice_index slice_count block_size ks is_zero =
    \<lparr> pg_xthread_id = 0, pg_free = 0, pg_local_free = 0, pg_xthread_free = TF_OWNED,
      pg_used = 0, pg_capacity = 1, pg_reserved = 1, pg_block_size = block_size,
      pg_page_start = slice_base, pg_keys = ks, pg_next = 0, pg_prev = 0,
      pg_slice_index = slice_index, pg_slice_count = slice_count, pg_theap = 0, pg_arena = 0,
      pg_bin = 0, pg_free_is_zero = is_zero, pg_retire_expire = 0 \<rparr>"

definition serve_huge :: "page \<Rightarrow> ptr \<times> page" where
  "serve_huge pg = (pg_page_start pg, pg\<lparr>pg_used := 1\<rparr>)"

definition is_huge :: "page \<Rightarrow> bool" where
  "is_huge pg \<longleftrightarrow> unat (pg_bin pg) = MI_BIN_HUGE"

section \<open>The free lists\<close>

definition block_at :: "page \<Rightarrow> nat \<Rightarrow> ptr" where
  "block_at pg i = pg_page_start pg + of_nat i * pg_block_size pg"

text \<open>The loop of \<open>extend_free\<close>: \<open>k\<close> blocks from index \<open>cap + k - 1\<close> down to \<open>cap\<close>.\<close>

fun extend_loop :: "bool \<Rightarrow> page \<Rightarrow> nat \<Rightarrow> nat \<Rightarrow> ptr \<Rightarrow> links \<Rightarrow> ptr \<times> links" where
  "extend_loop enc pg cap 0 head m = (head, m)"
| "extend_loop enc pg cap (Suc k) head m =
    (let b = block_at pg (cap + k)
     in extend_loop enc pg cap k b (block_set_next enc (pg_keys pg) b head m))"

definition extend_free :: "bool \<Rightarrow> page \<Rightarrow> links \<Rightarrow> page \<times> links" where
  "extend_free enc pg m =
    (let cap = unat (pg_capacity pg); reserved = unat (pg_reserved pg)
     in if cap \<ge> reserved then (pg, m)
        else let max_extend = max (MI_MAX_EXTEND_SIZE div unat (pg_block_size pg)) MI_MIN_EXTEND;
                 extend = min (reserved - cap) max_extend;
                 (head, m) = extend_loop enc pg cap extend (pg_free pg) m
             in (pg\<lparr>pg_free := head, pg_capacity := of_nat (cap + extend)\<rparr>, m))"

text \<open>Splicing a captured cross-thread list into \<open>pg_free\<close>, one block per iteration.\<close>

partial_function (option) drain_loop :: "bool \<Rightarrow> ptr \<Rightarrow> page \<Rightarrow> links \<Rightarrow> (page \<times> links) option" where
  "drain_loop enc tf pg m =
    (if tf = 0 then Some (pg, m)
     else let nxt = block_next enc (pg_keys pg) m tf;
              m = block_set_next enc (pg_keys pg) tf (pg_free pg) m
          in drain_loop enc nxt (pg\<lparr>pg_free := tf, pg_used := pg_used pg - 1\<rparr>) m)"

text \<open>The last block of a list, and the number of blocks walked over to get there.\<close>

partial_function (option) tail_loop :: "bool \<Rightarrow> keys \<Rightarrow> links \<Rightarrow> ptr \<Rightarrow> nat \<Rightarrow> (ptr \<times> nat) option" where
  "tail_loop enc ks m tail n =
    (let nxt = block_next enc ks m tail
     in if nxt = 0 then Some (tail, n) else tail_loop enc ks m nxt (n + 1))"

definition collect_xthread :: "bool \<Rightarrow> page \<Rightarrow> links \<Rightarrow> (page \<times> links) option" where
  "collect_xthread enc pg m =
    (let tfree = pg_xthread_free pg; tf = tf_block tfree
     in if tf = 0 then Some (pg, m)
        else let empty = tf_create 0 (tf_is_owned tfree)
             in drain_loop enc tf (pg\<lparr>pg_xthread_free := empty, pg_free_is_zero := False\<rparr>) m)"

definition collect_local :: "bool \<Rightarrow> page \<Rightarrow> links \<Rightarrow> (page \<times> links) option" where
  "collect_local enc pg m =
    (let lf = pg_local_free pg
     in if lf = 0 then Some (pg, m)
        else let pg = pg\<lparr>pg_free_is_zero := False\<rparr>
             in if pg_free pg = 0 then Some (pg\<lparr>pg_free := lf, pg_local_free := 0\<rparr>, m)
                else case tail_loop enc (pg_keys pg) m lf 0 of
                       None \<Rightarrow> None
                     | Some (tail, _) \<Rightarrow>
                         Some (pg\<lparr>pg_free := lf, pg_local_free := 0\<rparr>,
                               block_set_next enc (pg_keys pg) tail (pg_free pg) m))"

definition collect :: "bool \<Rightarrow> page \<Rightarrow> links \<Rightarrow> (page \<times> links) option" where
  "collect enc pg m =
    (case collect_xthread enc pg m of None \<Rightarrow> None | Some (pg, m) \<Rightarrow> collect_local enc pg m)"

text \<open>The blocks behind \<open>head\<close> move to the local lists; \<open>head\<close> itself stays queued.\<close>

definition migrate_next :: "bool \<Rightarrow> ptr \<Rightarrow> page \<Rightarrow> links \<Rightarrow> (page \<times> links) option" where
  "migrate_next enc head pg m =
    (let ks = pg_keys pg; nxt = block_next enc ks m head
     in if nxt = 0 then Some (pg, m)
        else let m = block_set_next enc ks head 0 m
             in case tail_loop enc ks m nxt 1 of
                  None \<Rightarrow> None
                | Some (lst, count) \<Rightarrow>
                    let m = block_set_next enc ks lst (pg_local_free pg) m;
                        pg = pg\<lparr>pg_local_free := nxt, pg_used := pg_used pg - of_nat count\<rparr>
                    in Some (if pg_free pg = 0
                             then pg\<lparr>pg_free := pg_local_free pg, pg_local_free := 0\<rparr> else pg, m))"

definition collect_partly :: "bool \<Rightarrow> ptr \<Rightarrow> page \<Rightarrow> links \<Rightarrow> (page \<times> links) option" where
  "collect_partly enc head pg m =
    (if head = 0 then Some (pg, m)
     else case migrate_next enc head pg m of
            None \<Rightarrow> None
          | Some (pg, m) \<Rightarrow> if pg_used pg = 1 then collect enc pg m else Some (pg, m))"

section \<open>Allocation and local free\<close>

definition pop :: "bool \<Rightarrow> ptr \<Rightarrow> page \<Rightarrow> links \<Rightarrow> ptr \<times> page" where
  "pop enc b pg m =
    (b, pg\<lparr>pg_free := block_next enc (pg_keys pg) m b, pg_used := pg_used pg + 1\<rparr>)"

definition alloc_slow :: "bool \<Rightarrow> page \<Rightarrow> links \<Rightarrow> (ptr option \<times> page \<times> links) option" where
  "alloc_slow enc pg m =
    (case collect enc pg m of
       None \<Rightarrow> None
     | Some (pg, m) \<Rightarrow>
         if pg_free pg \<noteq> 0 then (let (b, pg) = pop enc (pg_free pg) pg m in Some (Some b, pg, m))
         else let (pg, m) = extend_free enc pg m
              in if pg_free pg = 0 then Some (None, pg, m)
                 else let (b, pg) = pop enc (pg_free pg) pg m in Some (Some b, pg, m))"

definition alloc :: "bool \<Rightarrow> page \<Rightarrow> links \<Rightarrow> (ptr option \<times> page \<times> links) option" where
  "alloc enc pg m =
    (let b = pg_free pg
     in if b = 0 then alloc_slow enc pg m
        else let (b, pg) = pop enc b pg m in Some (Some b, pg, m))"

definition free_local :: "bool \<Rightarrow> ptr \<Rightarrow> page \<Rightarrow> links \<Rightarrow> page \<times> links" where
  "free_local enc p pg m =
    (pg\<lparr>pg_local_free := p, pg_used := (if pg_used pg = 0 then 0 else pg_used pg - 1)\<rparr>,
     block_set_next enc (pg_keys pg) p (pg_local_free pg) m)"

text \<open>
  \<open>owner_lists_contain\<close> walks one list after the other and stops at the block.
\<close>

partial_function (option) list_contains :: "bool \<Rightarrow> keys \<Rightarrow> links \<Rightarrow> ptr \<Rightarrow> ptr \<Rightarrow> bool option" where
  "list_contains enc ks m block p =
    (if p = 0 then Some False else if p = block then Some True
     else list_contains enc ks m block (block_next enc ks m p))"

definition owner_lists_contain :: "bool \<Rightarrow> ptr \<Rightarrow> page \<Rightarrow> links \<Rightarrow> bool option" where
  "owner_lists_contain enc block pg m =
    (case list_contains enc (pg_keys pg) m block (pg_free pg) of
       None \<Rightarrow> None
     | Some True \<Rightarrow> Some True
     | Some False \<Rightarrow> list_contains enc (pg_keys pg) m block (pg_local_free pg))"

definition is_full :: "bool \<Rightarrow> page \<Rightarrow> links \<Rightarrow> (bool \<times> page \<times> links) option" where
  "is_full enc pg m =
    (if pg_free pg \<noteq> 0 then Some (False, pg, m)
     else case collect enc pg m of
            None \<Rightarrow> None
          | Some (pg, m) \<Rightarrow>
              Some (if pg_free pg \<noteq> 0 then False else pg_capacity pg \<ge> pg_reserved pg, pg, m))"

section \<open>Owner word, head word and accessors\<close>

text \<open>
  A compare-and-swap loop that only retries is written as the one update its last, successful
  round makes.
\<close>

definition set_owner_fresh :: "usize \<Rightarrow> page \<Rightarrow> page" where
  "set_owner_fresh tid pg = pg\<lparr>pg_xthread_id := tid\<rparr>"

definition set_owner :: "usize \<Rightarrow> page \<Rightarrow> page" where
  "set_owner tid pg = pg\<lparr>pg_xthread_id := tid OR (pg_xthread_id pg AND MI_PAGE_FLAG_MASK)\<rparr>"

definition owner_tid :: "page \<Rightarrow> usize" where
  "owner_tid pg = pg_xthread_id pg AND NOT MI_PAGE_FLAG_MASK"

definition xthread_id_raw :: "page \<Rightarrow> usize" where
  "xthread_id_raw pg = pg_xthread_id pg"

definition set_in_full :: "bool \<Rightarrow> page \<Rightarrow> page" where
  "set_in_full in_full pg =
    (if in_full then pg\<lparr>pg_xthread_id := pg_xthread_id pg OR MI_PAGE_IN_FULL_QUEUE\<rparr>
     else pg\<lparr>pg_xthread_id := pg_xthread_id pg AND NOT MI_PAGE_IN_FULL_QUEUE\<rparr>)"

definition is_in_full :: "page \<Rightarrow> bool" where
  "is_in_full pg \<longleftrightarrow> pg_xthread_id pg AND MI_PAGE_IN_FULL_QUEUE \<noteq> 0"

definition set_has_interior :: "page \<Rightarrow> page" where
  "set_has_interior pg = pg\<lparr>pg_xthread_id := pg_xthread_id pg OR MI_PAGE_HAS_INTERIOR_POINTERS\<rparr>"

definition thread_free_push :: "bool \<Rightarrow> ptr \<Rightarrow> page \<Rightarrow> links \<Rightarrow> bool \<times> page \<times> links" where
  "thread_free_push enc b pg m =
    (let cur = pg_xthread_free pg;
         m = block_set_next enc (pg_keys pg) b (tf_block cur) m;
         new = tf_create b True
     in (\<not> tf_is_owned cur, pg\<lparr>pg_xthread_free := new\<rparr>, m))"

definition is_owned :: "page \<Rightarrow> bool" where
  "is_owned pg \<longleftrightarrow> tf_is_owned (pg_xthread_free pg)"

definition claim_ownership :: "page \<Rightarrow> bool \<times> page" where
  "claim_ownership pg =
    (let cur = pg_xthread_free pg
     in if tf_is_owned cur then (False, pg)
        else (True, pg\<lparr>pg_xthread_free := tf_create (tf_block cur) True\<rparr>))"

definition try_unown :: "page \<Rightarrow> bool \<times> page" where
  "try_unown pg =
    (let expect = tf_create 0 True; newtf = tf_create 0 False
     in if pg_xthread_free pg = expect then (True, pg\<lparr>pg_xthread_free := newtf\<rparr>) else (False, pg))"

definition set_unowned :: "page \<Rightarrow> page" where
  "set_unowned pg = pg\<lparr>pg_xthread_free := tf_create (tf_block (pg_xthread_free pg)) False\<rparr>"

definition is_abandoned_mapped :: "page \<Rightarrow> bool" where
  "is_abandoned_mapped pg \<longleftrightarrow> pg_xthread_id pg AND NOT MI_PAGE_FLAG_MASK = MI_THREADID_ABANDONED_MAPPED"

text \<open>\<open>zero_block\<close> as the number of bytes it clears from the start of the block on.\<close>

definition zero_block :: "page \<Rightarrow> usize" where
  "zero_block pg = (if pg_free_is_zero pg then (if is_huge pg then 0 else 8) else pg_block_size pg)"

definition mark_reused :: "page \<Rightarrow> page" where
  "mark_reused pg = pg\<lparr>pg_free_is_zero := False\<rparr>"

definition set_provenance :: "ptr \<Rightarrow> ptr \<Rightarrow> u32 \<Rightarrow> page \<Rightarrow> page" where
  "set_provenance theap arena bin_ix pg = pg\<lparr>pg_theap := theap, pg_arena := arena, pg_bin := bin_ix\<rparr>"

definition has_free :: "page \<Rightarrow> bool" where
  "has_free pg \<longleftrightarrow> pg_free pg \<noteq> 0"

definition is_expandable :: "page \<Rightarrow> bool" where
  "is_expandable pg \<longleftrightarrow> pg_capacity pg < pg_reserved pg"

definition is_mostly_used :: "page \<Rightarrow> bool" where
  "is_mostly_used pg =
    (let frac = pg_reserved pg div 8
     in (if pg_used pg \<le> pg_reserved pg then pg_reserved pg - pg_used pg else 0) \<le> frac)"

definition is_all_free :: "page \<Rightarrow> bool" where
  "is_all_free pg \<longleftrightarrow> pg_used pg = 0"

definition contains :: "ptr \<Rightarrow> page \<Rightarrow> bool" where
  "contains a pg =
    (let base = pg_page_start pg
     in a \<ge> base \<and> a < base + ucast (pg_reserved pg) * pg_block_size pg)"

section \<open>Well-formed pages\<close>

text \<open>The blocks with index below \<open>n\<close>.\<close>

definition grid :: "page \<Rightarrow> nat \<Rightarrow> ptr list" where
  "grid pg n = map (block_at pg) [0..<n]"

text \<open>
  Constant part of a page: word-aligned blocks of at least a word, inside the address space, all
  of them representable as links.
\<close>

definition page_geometry :: "bool \<Rightarrow> page \<Rightarrow> bool" where
  "page_geometry enc pg \<longleftrightarrow>
    8 \<le> unat (pg_block_size pg) \<and> 8 dvd unat (pg_block_size pg) \<and>
    pg_page_start pg \<noteq> 0 \<and> 8 dvd unat (pg_page_start pg) \<and>
    unat (pg_page_start pg) + unat (pg_reserved pg) * unat (pg_block_size pg) < 2 ^ 64 \<and>
    (\<forall>b\<in>set (grid pg (unat (pg_reserved pg))). linkable enc (pg_keys pg) b)"

text \<open>
  The invariant: the three lists hold distinct blocks below the capacity, and \<open>pg_used\<close> counts the
  blocks on neither owner list.
\<close>

definition page_lists :: "bool \<Rightarrow> page \<Rightarrow> links \<Rightarrow> ptr list \<Rightarrow> ptr list \<Rightarrow> ptr list \<Rightarrow> bool" where
  "page_lists enc pg m fs ls ts \<longleftrightarrow>
    page_geometry enc pg \<and>
    chain (block_next enc (pg_keys pg) m) (pg_free pg) fs \<and>
    chain (block_next enc (pg_keys pg) m) (pg_local_free pg) ls \<and>
    chain (block_next enc (pg_keys pg) m) (tf_block (pg_xthread_free pg)) ts \<and>
    distinct (fs @ ls @ ts) \<and>
    set (fs @ ls @ ts) \<subseteq> set (grid pg (unat (pg_capacity pg))) \<and>
    unat (pg_used pg) + length fs + length ls = unat (pg_capacity pg) \<and>
    pg_capacity pg \<le> pg_reserved pg"

text \<open>The blocks the program holds: carved, and on none of the lists.\<close>

definition live :: "page \<Rightarrow> ptr list \<Rightarrow> ptr list \<Rightarrow> ptr list \<Rightarrow> ptr set" where
  "live pg fs ls ts = set (grid pg (unat (pg_capacity pg))) - set (fs @ ls @ ts)"

lemma block_offset:
  assumes "page_geometry enc pg" and "i < unat (pg_reserved pg)"
  shows "unat (block_at pg i) = unat (pg_page_start pg) + i * unat (pg_block_size pg)"
    and "i * unat (pg_block_size pg) + unat (pg_block_size pg) \<le> unat (pg_reserved pg) * unat (pg_block_size pg)"
proof -
  have "Suc i * unat (pg_block_size pg) \<le> unat (pg_reserved pg) * unat (pg_block_size pg)"
    using assms(2) by (intro mult_le_mono1) simp
  then show le: "i * unat (pg_block_size pg) + unat (pg_block_size pg) \<le> unat (pg_reserved pg) * unat (pg_block_size pg)"
    by simp
  have i: "i < 2 ^ 64" using assms(2) unsigned_less [of "pg_reserved pg", where ?'a = nat] by simp
  have fit: "unat (pg_page_start pg) + i * unat (pg_block_size pg) < 2 ^ 64"
    using assms(1) le unfolding page_geometry_def by linarith
  have "unat (of_nat i * pg_block_size pg) = i * unat (pg_block_size pg)"
    using fit by (subst unat_mult_small) (simp_all add: unat_of_nat_small [OF i])
  then show "unat (block_at pg i) = unat (pg_page_start pg) + i * unat (pg_block_size pg)"
    using fit by (simp add: block_at_def unat_add_small)
qed

lemma block_at_inj:
  assumes "page_geometry enc pg" "i < unat (pg_reserved pg)" "j < unat (pg_reserved pg)"
    and "block_at pg i = block_at pg j"
  shows "i = j"
proof -
  have "i * unat (pg_block_size pg) = j * unat (pg_block_size pg)"
    using block_offset(1) [OF assms(1,2)] block_offset(1) [OF assms(1,3)] assms(4) by (metis add_left_imp_eq)
  moreover have "0 < unat (pg_block_size pg)" using assms(1) unfolding page_geometry_def by linarith
  ultimately show ?thesis by simp
qed

lemma block_at_nonzero:
  assumes "page_geometry enc pg" "i < unat (pg_reserved pg)"
  shows "block_at pg i \<noteq> 0"
proof -
  have "0 < unat (pg_page_start pg)" using assms(1) by (simp add: page_geometry_def unat_gt_0)
  then have "0 < unat (block_at pg i)" using block_offset(1) [OF assms] by simp
  then show ?thesis by (simp add: unat_gt_0)
qed

lemma block_at_even: 
  assumes "page_geometry enc pg" "i < unat (pg_reserved pg)"
  shows "tf_block (block_at pg i) = block_at pg i" and "\<not> tf_is_owned (block_at pg i)"
proof -
  have "8 dvd unat (block_at pg i)"
    using assms block_offset(1) [OF assms] by (simp add: page_geometry_def)
  then have "even (unat (block_at pg i))" by (rule dvd_trans [rotated]) simp
  then have "\<not> bit (block_at pg i) 0" by (simp add: bit_unat)
  then have z: "block_at pg i AND 1 = 0" by (simp add: and_one_eq mod_2_eq_odd bit_0)
  then show "\<not> tf_is_owned (block_at pg i)" by (simp add: tf_is_owned_def TF_OWNED_def)
  have "NOT 1 = NOT (mask 1 :: usize)" by simp
  with z show "tf_block (block_at pg i) = block_at pg i"
    using and_not_mask_diff [of "block_at pg i" 1] by (simp add: tf_block_def TF_OWNED_def)
qed

lemma length_grid [simp]: "length (grid pg n) = n"
  by (simp add: grid_def)

lemma grid_distinct: "page_geometry enc pg \<Longrightarrow> n \<le> unat (pg_reserved pg) \<Longrightarrow> distinct (grid pg n)"
  unfolding grid_def distinct_map by (auto intro!: inj_onI elim: block_at_inj)

lemma grid_mono: "n \<le> k \<Longrightarrow> set (grid pg n) \<subseteq> set (grid pg k)"
  by (auto simp: grid_def)

lemma grid_nonzero: "page_geometry enc pg \<Longrightarrow> n \<le> unat (pg_reserved pg) \<Longrightarrow> 0 \<notin> set (grid pg n)"
  using block_at_nonzero [of enc pg] by (force simp: grid_def)

lemma grid_linkable:
  assumes "page_geometry enc pg" "n \<le> unat (pg_reserved pg)" "b \<in> set (grid pg n)"
  shows "linkable enc (pg_keys pg) b"
  using assms(1) grid_mono [OF assms(2), of pg] assms(3) unfolding page_geometry_def by blast

text \<open>The tag of a head word.\<close>

lemma tf_is_owned_bit: "tf_is_owned tf \<longleftrightarrow> bit tf 0"
  by (simp add: tf_is_owned_def TF_OWNED_def and_one_eq mod_2_eq_odd bit_0)

lemma bit_tf_block: "bit (tf_block tf) n \<longleftrightarrow> bit tf n \<and> n \<noteq> 0"
  by (auto simp: tf_block_def TF_OWNED_def bit_simps dest: bit_imp_le_length)

lemma tf_create_simps [simp]:
  "tf_block (tf_create b owned) = tf_block b" "tf_is_owned (tf_create b owned) = owned"
  "tf_block 0 = 0" "tf_block (tf_block b) = tf_block b"
  by (auto intro!: bit_word_eqI simp: bit_tf_block tf_is_owned_bit tf_create_def TF_OWNED_def bit_simps)

section \<open>The list walks\<close>

lemma drain_loop_chain:
  assumes "chain (block_next enc (pg_keys pg) m) tf ts" "chain (block_next enc (pg_keys pg) m) (pg_free pg) fs"
    and "distinct (ts @ fs)" "\<forall>b\<in>set (ts @ fs). linkable enc (pg_keys pg) b"
  shows "\<exists>m'. drain_loop enc tf pg m
      = Some (pg\<lparr>pg_free := (case rev ts @ fs of [] \<Rightarrow> 0 | b # _ \<Rightarrow> b), pg_used := pg_used pg - of_nat (length ts)\<rparr>, m')
    \<and> chain (block_next enc (pg_keys pg) m') (case rev ts @ fs of [] \<Rightarrow> 0 | b # _ \<Rightarrow> b) (rev ts @ fs)
    \<and> (\<forall>c. c \<notin> set ts \<longrightarrow> m' c = m c)"
  using assms
proof (induction ts arbitrary: tf pg m fs)
  case Nil
  then show ?case using chain_head [of _ "pg_free pg" fs]
    by (subst drain_loop.simps) (auto split: list.splits)
next
  case (Cons t ts)
  let ?nx = "block_next enc (pg_keys pg)"
  define m1 where "m1 = block_set_next enc (pg_keys pg) t (pg_free pg) m"
  define pg1 where "pg1 = pg\<lparr>pg_free := t, pg_used := pg_used pg - 1\<rparr>"
  have t: "tf = t" "t \<noteq> 0" "chain (?nx m) (?nx m t) ts" "t \<notin> set ts" "t \<notin> set fs"
    using Cons.prems by auto
  have link: "linkable enc (pg_keys pg) (pg_free pg)"
    using chain_head [OF Cons.prems(2)] Cons.prems(4) links.ok_null by (auto split: list.splits)
  have "chain (?nx m1) (?nx m t) ts" using t by (simp add: m1_def links.chain_set_other)
  moreover have "chain (?nx m1) t (t # fs)"
    unfolding m1_def using t link Cons.prems(2) by (intro links.chain_push)
  moreover have "distinct (ts @ t # fs)" using Cons.prems(3) by auto
  ultimately have "\<exists>m'. drain_loop enc (?nx m t) pg1 m1
      = Some (pg1\<lparr>pg_free := (case rev ts @ t # fs of [] \<Rightarrow> 0 | b # _ \<Rightarrow> b), pg_used := pg_used pg1 - of_nat (length ts)\<rparr>, m')
    \<and> chain (?nx m') (case rev ts @ t # fs of [] \<Rightarrow> 0 | b # _ \<Rightarrow> b) (rev ts @ t # fs)
    \<and> (\<forall>c. c \<notin> set ts \<longrightarrow> m' c = m1 c)"
    using Cons.prems(4) Cons.IH [of pg1 m1 "?nx m t" "t # fs"] by (simp add: pg1_def)
  moreover have "drain_loop enc tf pg m = drain_loop enc (?nx m t) pg1 m1"
    using t by (subst drain_loop.simps) (simp add: Let_def m1_def pg1_def)
  moreover have "m1 c = m c" if "c \<noteq> t" for c
    using that by (simp add: m1_def block_set_next_def)
  ultimately show ?case by (auto simp: pg1_def diff_diff_eq)
qed

lemma tail_loop_chain:
  assumes "chain (block_next enc ks m) p (xs @ [z])"
  shows "tail_loop enc ks m p n = Some (z, n + length xs)"
  using assms
proof (induction xs arbitrary: p n)
  case Nil
  then show ?case by (subst tail_loop.simps) simp
next
  case (Cons x xs)
  then have "block_next enc ks m x \<noteq> 0" by (cases xs) auto
  with Cons show ?case by (subst tail_loop.simps) (simp add: Let_def)
qed

lemma list_contains_chain:
  "chain (block_next enc ks m) p xs \<Longrightarrow> list_contains enc ks m b p = Some (b \<in> set xs)"
proof (induction xs arbitrary: p)
  case Nil
  then show ?case by (subst list_contains.simps) simp
next
  case (Cons x xs)
  then show ?case by (subst list_contains.simps) auto
qed

section \<open>Collecting\<close>

abbreviation head_of :: "ptr list \<Rightarrow> ptr" where
  "head_of xs \<equiv> (case xs of [] \<Rightarrow> 0 | b # _ \<Rightarrow> b)"

lemma head_of_in: "xs \<noteq> [] \<Longrightarrow> head_of xs \<in> set xs"
  by (cases xs) auto

lemma head_of_append: "xs \<noteq> [] \<Longrightarrow> head_of (xs @ ys) = head_of xs"
  by (cases xs) auto

lemma chain_head_of: "chain nx p xs \<Longrightarrow> chain nx (head_of xs) xs"
  by (cases xs) auto

lemma page_listsD:
  assumes "page_lists enc pg m fs ls ts"
  shows "page_geometry enc pg" "pg_free pg = head_of fs" "pg_local_free pg = head_of ls"
    "tf_block (pg_xthread_free pg) = head_of ts"
    "chain (block_next enc (pg_keys pg) m) (head_of fs) fs" "chain (block_next enc (pg_keys pg) m) (head_of ls) ls"
    "chain (block_next enc (pg_keys pg) m) (head_of ts) ts" "distinct (fs @ ls @ ts)"
    "unat (pg_capacity pg) \<le> unat (pg_reserved pg)"
    "unat (pg_used pg) + length fs + length ls = unat (pg_capacity pg)"
    "\<forall>b\<in>set (fs @ ls @ ts). linkable enc (pg_keys pg) b \<and> b \<noteq> 0"
  using assms chain_head [of "block_next enc (pg_keys pg) m"] unfolding page_lists_def
  by (auto simp: word_le_nat_alt dest: grid_linkable grid_nonzero chain_nonzero intro: chain_head_of)

lemma page_lists_count:
  assumes "page_lists enc pg m fs ls ts"
  shows "length fs + length ls + length ts + card (live pg fs ls ts) = unat (pg_capacity pg)"
    and "length ts + card (live pg fs ls ts) = unat (pg_used pg)"
proof -
  note d = page_listsD [OF assms]
  have "distinct (grid pg (unat (pg_capacity pg)))" using d by (intro grid_distinct) auto
  then have "card (set (grid pg (unat (pg_capacity pg)))) = unat (pg_capacity pg)"
    by (simp add: distinct_card)
  moreover have "card (set (fs @ ls @ ts)) = length fs + length ls + length ts"
    using d(8) by (metis distinct_card length_append add.assoc)
  moreover have "set (fs @ ls @ ts) \<subseteq> set (grid pg (unat (pg_capacity pg)))"
    using assms by (simp add: page_lists_def)
  ultimately show "length fs + length ls + length ts + card (live pg fs ls ts) = unat (pg_capacity pg)"
    unfolding live_def by (metis List.finite_set add.commute card_Diff_subset card_mono le_add_diff_inverse)
  with d(10) show "length ts + card (live pg fs ls ts) = unat (pg_used pg)" by simp
qed

lemma tf_create_self: "tf_create (tf_block tf) (tf_is_owned tf) = tf"
  by (auto intro!: bit_word_eqI gr0I simp: bit_tf_block tf_is_owned_bit tf_create_def TF_OWNED_def bit_simps)

text \<open>The header after a collect.\<close>

definition collected :: "page \<Rightarrow> ptr list \<Rightarrow> ptr list \<Rightarrow> ptr list \<Rightarrow> page" where
  "collected pg fs ls ts =
    pg\<lparr>pg_free := head_of (ls @ rev ts @ fs), pg_local_free := 0,
       pg_xthread_free := tf_create 0 (tf_is_owned (pg_xthread_free pg)),
       pg_used := pg_used pg - of_nat (length ts),
       pg_free_is_zero := (pg_free_is_zero pg \<and> ls = [] \<and> ts = [])\<rparr>"

lemma collect_xthread_lists:
  assumes "page_lists enc pg m fs ls ts"
  shows "\<exists>m'. collect_xthread enc pg m
      = Some (pg\<lparr>pg_free := head_of (rev ts @ fs), pg_xthread_free := tf_create 0 (tf_is_owned (pg_xthread_free pg)),
                 pg_used := pg_used pg - of_nat (length ts), pg_free_is_zero := (pg_free_is_zero pg \<and> ts = [])\<rparr>, m')
    \<and> chain (block_next enc (pg_keys pg) m') (head_of (rev ts @ fs)) (rev ts @ fs)
    \<and> (\<forall>c. c \<notin> set ts \<longrightarrow> m' c = m c)"
proof (cases ts)
  case Nil
  then have "tf_create 0 (tf_is_owned (pg_xthread_free pg)) = pg_xthread_free pg"
    using page_listsD(4) [OF assms] tf_create_self [of "pg_xthread_free pg"] by simp
  with Nil page_listsD [OF assms] show ?thesis
    by (intro exI [of _ m]) (simp add: collect_xthread_def Let_def)
next
  case (Cons t us)
  note d = page_listsD [OF assms]
  let ?pg = "pg\<lparr>pg_xthread_free := tf_create 0 (tf_is_owned (pg_xthread_free pg)), pg_free_is_zero := False\<rparr>"
  have "tf_block (pg_xthread_free pg) = head_of ts" "head_of ts \<noteq> 0" using d Cons by auto
  then have "collect_xthread enc pg m = drain_loop enc (head_of ts) ?pg m"
    by (simp add: collect_xthread_def Let_def)
  moreover have "distinct (ts @ fs)" "\<forall>b\<in>set (ts @ fs). linkable enc (pg_keys pg) b" using d by auto
  ultimately show ?thesis
    using drain_loop_chain [of enc ?pg m "head_of ts" ts fs] d Cons by (auto simp del: rev.simps)
qed

lemma collect_lists:
  assumes "page_lists enc pg m fs ls ts"
  shows "\<exists>m'. collect enc pg m = Some (collected pg fs ls ts, m')
    \<and> page_lists enc (collected pg fs ls ts) m' (ls @ rev ts @ fs) [] []
    \<and> (\<forall>c. c \<notin> set (ls @ ts) \<longrightarrow> m' c = m c)"
proof -
  note d = page_listsD [OF assms]
  define pg1 where "pg1 = pg\<lparr>pg_free := head_of (rev ts @ fs),
    pg_xthread_free := tf_create 0 (tf_is_owned (pg_xthread_free pg)),
    pg_used := pg_used pg - of_nat (length ts), pg_free_is_zero := (pg_free_is_zero pg \<and> ts = [])\<rparr>"
  let ?gs = "rev ts @ fs"
  obtain m1 where m1: "collect_xthread enc pg m = Some (pg1, m1)"
      "chain (block_next enc (pg_keys pg) m1) (head_of ?gs) ?gs" "\<forall>c. c \<notin> set ts \<longrightarrow> m1 c = m c"
    using collect_xthread_lists [OF assms] by (auto simp: pg1_def)
  have ls1: "chain (block_next enc (pg_keys pg) m1) (head_of ls) ls"
  proof -
    have "block_next enc (pg_keys pg) m1 b = block_next enc (pg_keys pg) m b" if "b \<in> set ls" for b
      using that m1(3) d(8) by (auto simp: block_next_def)
    then have "chain (block_next enc (pg_keys pg) m1) (head_of ls) ls
        = chain (block_next enc (pg_keys pg) m) (head_of ls) ls"
      by (rule chain_cong)
    with d(6) show ?thesis by simp
  qed
  have final: "\<exists>m'. collect_local enc pg1 m1 = Some (collected pg fs ls ts, m')
      \<and> chain (block_next enc (pg_keys pg) m') (head_of (ls @ ?gs)) (ls @ ?gs)
      \<and> (\<forall>c. c \<notin> set ls \<longrightarrow> m' c = m1 c)"
  proof (cases ls rule: rev_cases)
    case Nil
    then have pg1: "pg1 = collected pg fs ls ts" using d(3) by (simp add: pg1_def collected_def)
    have "pg_local_free pg1 = 0" using Nil d(3) by (simp add: pg1_def)
    then have "collect_local enc pg1 m1 = Some (pg1, m1)" by (simp add: collect_local_def)
    then show ?thesis using Nil m1(2) pg1 by (intro exI [of _ m1]) simp
  next
    case (snoc us z)
    have nz: "head_of ls \<noteq> 0" using snoc d(11) head_of_in [of ls] by auto
    show ?thesis
    proof (cases "?gs = []")
      case True
      then have "collect_local enc pg1 m1 = Some (collected pg fs ls ts, m1)"
        using nz d(3) snoc by (simp add: collect_local_def Let_def pg1_def collected_def)
      with True ls1 show ?thesis by auto
    next
      case False
      have "head_of ?gs \<in> set (fs @ ls @ ts)" using head_of_in [OF False] by auto
      then have gnz: "head_of ?gs \<noteq> 0" and link: "linkable enc (pg_keys pg) (head_of ?gs)"
        using d(11) by blast+
      have tl: "tail_loop enc (pg_keys pg) m1 (head_of ls) 0 = Some (z, length us)"
        using ls1 snoc by (simp add: tail_loop_chain)
      have dist: "distinct (us @ z # ?gs)" using d(8) snoc by auto
      have "chain (block_next enc (pg_keys pg) (block_set_next enc (pg_keys pg) z (head_of ?gs) m1)) (head_of ls) (us @ z # ?gs)"
        using links.chain_append [OF _ m1(2) dist link] ls1 snoc by simp
      moreover have "head_of ls = head_of (ls @ ?gs)" using head_of_append [of ls ?gs] snoc by auto
      moreover have "collect_local enc pg1 m1
          = Some (collected pg fs ls ts, block_set_next enc (pg_keys pg) z (head_of ?gs) m1)"
        using nz gnz tl d(3) snoc head_of_append [of ls ?gs]
        by (simp add: collect_local_def Let_def pg1_def collected_def del: append_assoc)
      ultimately show ?thesis using snoc by (auto simp: block_set_next_def)
    qed
  qed
  then obtain m2 where m2: "collect enc pg m = Some (collected pg fs ls ts, m2)"
      "chain (block_next enc (pg_keys pg) m2) (head_of (ls @ ?gs)) (ls @ ?gs)" "\<forall>c. c \<notin> set ls \<longrightarrow> m2 c = m1 c"
    using m1(1) by (auto simp: collect_def)
  have used: "unat (pg_used pg - of_nat (length ts)) = unat (pg_used pg) - length ts"
  proof -
    have "length ts \<le> unat (pg_used pg)" using page_lists_count(2) [OF assms] by linarith
    then have "length ts < 2 ^ 32" using unsigned_less [of "pg_used pg", where ?'a = nat] by simp
    then have "unat (of_nat (length ts) :: u32) = length ts" by (simp add: unat_of_nat take_bit_nat_eq_self)
    with \<open>length ts \<le> unat (pg_used pg)\<close> show ?thesis by (simp add: unat_diff_le word_le_nat_alt)
  qed
  have "page_lists enc (collected pg fs ls ts) m2 (ls @ ?gs) [] []"
    using assms m2(2) used page_lists_count(2) [OF assms]
    by (auto simp: page_lists_def collected_def page_geometry_def grid_def block_at_def)
  moreover have "m2 c = m c" if "c \<notin> set (ls @ ts)" for c using that m1(3) m2(3) by simp
  ultimately show ?thesis using m2(1) by blast
qed

section \<open>Extending\<close>

lemma extend_loop_chain:
  assumes "page_geometry enc pg" "cap + k \<le> unat (pg_reserved pg)"
    and "chain (block_next enc (pg_keys pg) m) head fs"
    and "set fs \<subseteq> set (grid pg (unat (pg_reserved pg)))" "set fs \<inter> set (map (block_at pg) [cap..<cap + k]) = {}"
  shows "\<exists>m'. extend_loop enc pg cap k head m = (head_of (map (block_at pg) [cap..<cap + k] @ fs), m')
    \<and> chain (block_next enc (pg_keys pg) m') (head_of (map (block_at pg) [cap..<cap + k] @ fs)) (map (block_at pg) [cap..<cap + k] @ fs)
    \<and> (\<forall>c. c \<notin> set (map (block_at pg) [cap..<cap + k]) \<longrightarrow> m' c = m c)"
  using assms
proof (induction k arbitrary: head m fs)
  case 0
  then show ?case using chain_head [of _ head fs] by auto
next
  case (Suc k)
  let ?b = "block_at pg (cap + k)" and ?nx = "block_next enc (pg_keys pg)"
  let ?xs = "map (block_at pg) [cap..<cap + k]"
  define m1 where "m1 = block_set_next enc (pg_keys pg) ?b head m"
  have i: "cap + k < unat (pg_reserved pg)" using Suc.prems(2) by simp
  have split: "map (block_at pg) [cap..<cap + Suc k] = ?xs @ [?b]" by simp
  have b: "?b \<noteq> 0" "?b \<in> set (grid pg (unat (pg_reserved pg)))"
    using i block_at_nonzero [OF Suc.prems(1) i] by (auto simp: grid_def)
  have "j = cap + k" if "j < cap + k" "?b = block_at pg j" for j
    using block_at_inj [OF Suc.prems(1) i _ that(2)] that(1) i by simp
  then have notin: "?b \<notin> set fs" "?b \<notin> set ?xs" using Suc.prems(5) split by fastforce+
  have "head = head_of fs" using Suc.prems(3) by (rule chain_head)
  then have link: "linkable enc (pg_keys pg) head"
  proof (cases "fs = []")
    case True
    with \<open>head = head_of fs\<close> show ?thesis by (simp add: links.ok_null)
  next
    case False
    with \<open>head = head_of fs\<close> Suc.prems(4) have "head \<in> set (grid pg (unat (pg_reserved pg)))"
      using head_of_in [of fs] by blast
    then show ?thesis by (rule grid_linkable [OF Suc.prems(1) order_refl])
  qed
  have "chain (?nx m1) ?b (?b # fs)"
    unfolding m1_def using Suc.prems(3) b(1) notin(1) link by (rule links.chain_push)
  then obtain m' where m': "extend_loop enc pg cap k ?b m1 = (head_of (?xs @ ?b # fs), m')"
      "chain (?nx m') (head_of (?xs @ ?b # fs)) (?xs @ ?b # fs)" "\<forall>c. c \<notin> set ?xs \<longrightarrow> m' c = m1 c"
    using Suc.IH [of m1 ?b "?b # fs"] Suc.prems b notin by auto
  have "m1 c = m c" if "c \<noteq> ?b" for c using that by (simp add: m1_def block_set_next_def)
  with m' show ?case unfolding split by (auto simp: Let_def m1_def)
qed

text \<open>Blocks added by one call: never none while the page has room, and at most the batch limit.\<close>

definition extension :: "page \<Rightarrow> nat" where
  "extension pg = min (unat (pg_reserved pg) - unat (pg_capacity pg)) (max (4096 div unat (pg_block_size pg)) 1)"

lemma extend_free_lists:
  assumes "page_lists enc pg m [] ls ts" and n: "n = extension pg"
  shows "\<exists>m'. extend_free enc pg m
      = (pg\<lparr>pg_free := head_of (map (block_at pg) [unat (pg_capacity pg)..<unat (pg_capacity pg) + n]),
            pg_capacity := of_nat (unat (pg_capacity pg) + n)\<rparr>, m')
    \<and> page_lists enc (fst (extend_free enc pg m)) m' (map (block_at pg) [unat (pg_capacity pg)..<unat (pg_capacity pg) + n]) ls ts
    \<and> (\<forall>c. c \<in> set (grid pg (unat (pg_capacity pg))) \<longrightarrow> m' c = m c)
    \<and> unat (pg_capacity (fst (extend_free enc pg m))) = unat (pg_capacity pg) + n"
proof -
  note d = page_listsD [OF assms(1)]
  let ?cap = "unat (pg_capacity pg)" and ?res = "unat (pg_reserved pg)"
  let ?xs = "map (block_at pg) [?cap..<?cap + n]"
  have cap32: "?cap + n < 2 ^ 32"
    using unsigned_less [of "pg_reserved pg", where ?'a = nat] d(9) by (simp add: n extension_def)
  have capn: "unat (of_nat (?cap + n) :: u32) = ?cap + n"
    using cap32 by (simp only: unat_of_nat take_bit_nat_eq_self len_num1 len_bit0 len_of_numeral_defs) (simp add: take_bit_nat_eq_self)
  show ?thesis
  proof (cases "?cap \<ge> ?res")
    case True
    then have n0: "n = 0" "?cap = ?res" using d(9) by (auto simp: n extension_def)
    then have "extend_free enc pg m = (pg, m)" by (simp add: extend_free_def)
    moreover have "pg\<lparr>pg_free := 0, pg_capacity := of_nat (?cap + n)\<rparr> = pg" using n0(1) d(2) by (cases pg) simp
    ultimately show ?thesis using n0 assms(1) by (intro exI [of _ m]) simp
  next
    case False
    have le: "?cap + n \<le> ?res" using False by (simp add: n extension_def)
    have fresh: "set ?xs \<inter> set (grid pg ?cap) = {}"
    proof -
      have False if "i < ?cap" "?cap \<le> j" "j < ?cap + n" "block_at pg j = block_at pg i" for i j
        using block_at_inj [OF d(1) _ _ that(4)] that le by simp
      then show ?thesis unfolding grid_def by fastforce
    qed
    obtain m' where m': "extend_loop enc pg ?cap n 0 m = (head_of ?xs, m')"
        "chain (block_next enc (pg_keys pg) m') (head_of ?xs) ?xs" "\<forall>c. c \<notin> set ?xs \<longrightarrow> m' c = m c"
      using extend_loop_chain [OF d(1) le, of m 0 "[]"] by auto
    then have keep: "\<forall>c. c \<in> set (grid pg ?cap) \<longrightarrow> m' c = m c" using fresh by blast
    define pg' where "pg' = pg\<lparr>pg_free := head_of ?xs, pg_capacity := of_nat (?cap + n)\<rparr>"
    have run: "extend_free enc pg m = (pg', m')"
      using False m'(1) d(2) by (simp add: extend_free_def Let_def pg'_def n extension_def MI_MAX_EXTEND_SIZE_def MI_MIN_EXTEND_def)
    have other: "chain (block_next enc (pg_keys pg) m') p zs"
      if "chain (block_next enc (pg_keys pg) m) p zs" "set zs \<subseteq> set (grid pg ?cap)" for p zs
    proof -
      have "chain (block_next enc (pg_keys pg) m') p zs = chain (block_next enc (pg_keys pg) m) p zs"
        using keep that(2) by (intro chain_cong) (auto simp: block_next_def)
      with that(1) show ?thesis by simp
    qed
    have grids: "grid pg' = grid pg" by (simp add: pg'_def grid_def block_at_def fun_eq_iff)
    have geo: "page_geometry enc pg'" using d(1) by (simp add: page_geometry_def grids) (simp add: pg'_def)
    have sub: "set (ls @ ts) \<subseteq> set (grid pg ?cap)" using assms(1) by (simp add: page_lists_def)
    have new: "set ?xs \<subseteq> set (grid pg (?cap + n))" by (auto simp: grid_def)
    have "distinct ?xs" using le block_at_inj [OF d(1)] by (auto simp: distinct_map intro!: inj_onI)
    then have dist: "distinct (?xs @ ls @ ts)" using d(8) sub fresh by auto
    have "page_lists enc pg' m' ?xs ls ts"
      unfolding page_lists_def grids
      using geo m'(2) other [OF d(6)] other [OF d(7)] sub dist new grid_mono [of ?cap "?cap + n" pg] capn d le
      by (auto simp: pg'_def word_le_nat_alt simp del: of_nat_add)
    with run keep capn show ?thesis by (auto simp: pg'_def)
  qed
qed

section \<open>Single operations on the lists\<close>

lemma grid_update [simp]:
  "grid (pg\<lparr>pg_free := a\<rparr>) = grid pg" "grid (pg\<lparr>pg_used := u\<rparr>) = grid pg"
  "grid (pg\<lparr>pg_local_free := a\<rparr>) = grid pg" "grid (pg\<lparr>pg_capacity := u\<rparr>) = grid pg"
  "grid (pg\<lparr>pg_xthread_free := a\<rparr>) = grid pg" "grid (pg\<lparr>pg_free_is_zero := z\<rparr>) = grid pg"
  by (simp_all add: grid_def block_at_def fun_eq_iff)

lemma geometry_update [simp]:
  "page_geometry enc (pg\<lparr>pg_free := a\<rparr>) = page_geometry enc pg"
  "page_geometry enc (pg\<lparr>pg_used := u\<rparr>) = page_geometry enc pg"
  "page_geometry enc (pg\<lparr>pg_capacity := u\<rparr>) = page_geometry enc pg"
  "page_geometry enc (pg\<lparr>pg_local_free := a\<rparr>) = page_geometry enc pg"
  "page_geometry enc (pg\<lparr>pg_xthread_free := a\<rparr>) = page_geometry enc pg"
  "page_geometry enc (pg\<lparr>pg_free_is_zero := z\<rparr>) = page_geometry enc pg"
  by (simp_all add: page_geometry_def)

lemma unat_succ_below: "unat (x :: u32) < unat (y :: u32) \<Longrightarrow> unat (x + 1) = unat x + 1"
proof -
  assume "unat x < unat y"
  then have "unat x + 1 < 2 ^ 32" using u32_bound [of y] by simp
  then show ?thesis by (simp add: unat_word_ariths)
qed

lemma unat_minus_of_nat: "k \<le> unat (x :: u32) \<Longrightarrow> unat (x - of_nat k) = unat x - k"
proof -
  assume k: "k \<le> unat x"
  then have "k < 2 ^ 32" using unsigned_less [of x, where ?'a = nat] by simp
  then have "unat (of_nat k :: u32) = k" by (simp add: unat_of_nat take_bit_nat_eq_self)
  with k show ?thesis by (simp add: unat_diff_le word_le_nat_alt)
qed

lemma pop_lists:
  assumes "page_lists enc pg m (b # fs) ls ts"
  shows "fst (pop enc (pg_free pg) pg m) = b"
    and "page_lists enc (snd (pop enc (pg_free pg) pg m)) m fs ls ts"
    and "live (snd (pop enc (pg_free pg) pg m)) fs ls ts = insert b (live pg (b # fs) ls ts)"
    and "b \<notin> live pg (b # fs) ls ts"
proof -
  note d = page_listsD [OF assms]
  have u: "unat (pg_used pg + 1) = unat (pg_used pg) + 1"
    using d(10) by (intro unat_succ_below [of _ "pg_capacity pg"]) simp
  have b: "b \<in> set (grid pg (unat (pg_capacity pg)))" using assms by (simp add: page_lists_def)
  show "fst (pop enc (pg_free pg) pg m) = b" using d(2) by (simp add: pop_def)
  show "page_lists enc (snd (pop enc (pg_free pg) pg m)) m fs ls ts"
    using assms u d(2) by (simp add: page_lists_def pop_def)
  show "live (snd (pop enc (pg_free pg) pg m)) fs ls ts = insert b (live pg (b # fs) ls ts)"
    using d(8) b by (auto simp: live_def pop_def)
  show "b \<notin> live pg (b # fs) ls ts" by (simp add: live_def)
qed

lemma free_local_lists:
  assumes "page_lists enc pg m fs ls ts" "p \<in> live pg fs ls ts"
  shows "page_lists enc (fst (free_local enc p pg m)) (snd (free_local enc p pg m)) fs (p # ls) ts"
    and "live (fst (free_local enc p pg m)) fs (p # ls) ts = live pg fs ls ts - {p}"
    and "c \<noteq> p \<Longrightarrow> snd (free_local enc p pg m) c = m c"
proof -
  note d = page_listsD [OF assms(1)]
  let ?nx = "block_next enc (pg_keys pg)"
  define m1 where "m1 = block_set_next enc (pg_keys pg) p (pg_local_free pg) m"
  have p: "p \<in> set (grid pg (unat (pg_capacity pg)))" "p \<notin> set (fs @ ls @ ts)"
    using assms(2) by (simp_all add: live_def)
  then have p0: "p \<noteq> 0" using grid_nonzero [OF d(1) d(9)] by auto
  have link: "linkable enc (pg_keys pg) (head_of ls)"
    using d(11) head_of_in [of ls] links.ok_null [of enc "pg_keys pg"] by (cases "ls = []") auto
  from p(2) have pn: "p \<notin> set fs" "p \<notin> set ls" "p \<notin> set ts" by auto
  have chains: "chain (?nx m1) (head_of fs) fs" "chain (?nx m1) p (p # ls)" "chain (?nx m1) (head_of ts) ts"
    unfolding m1_def d(3)
    using d(5,7) links.chain_push [OF d(6) p0 pn(2) link] by (simp_all add: links.chain_set_other pn)
  have "finite (live pg fs ls ts)" by (simp add: live_def)
  then have "0 < card (live pg fs ls ts)" using assms(2) card_gt_0_iff by blast
  then have pos: "0 < unat (pg_used pg)" using page_lists_count(2) [OF assms(1)] by linarith
  then have u: "pg_used pg \<noteq> 0" "unat (pg_used pg - 1) = unat (pg_used pg) - 1"
    using unat_minus_of_nat [of 1 "pg_used pg"] by auto
  show "page_lists enc (fst (free_local enc p pg m)) (snd (free_local enc p pg m)) fs (p # ls) ts"
    using assms(1) chains p u pos d(2,4) by (auto simp: page_lists_def free_local_def m1_def)
  show "live (fst (free_local enc p pg m)) fs (p # ls) ts = live pg fs ls ts - {p}"
    by (auto simp: live_def free_local_def)
  show "c \<noteq> p \<Longrightarrow> snd (free_local enc p pg m) c = m c"
    by (simp add: free_local_def block_set_next_def)
qed

lemma live_collected: "live (collected pg fs ls ts) (ls @ rev ts @ fs) [] [] = live pg fs ls ts"
  by (auto simp: live_def collected_def grid_def block_at_def)

lemma migrate_next_lists:
  assumes "page_lists enc pg m fs ls (us @ h # vs)"
  shows "\<exists>pg' m' fs' ls'. migrate_next enc h pg m = Some (pg', m')
    \<and> page_lists enc pg' m' fs' ls' (us @ [h]) \<and> live pg' fs' ls' (us @ [h]) = live pg fs ls (us @ h # vs)
    \<and> (\<forall>c\<in>live pg fs ls (us @ h # vs). m' c = m c)
    \<and> pg_xthread_id pg' = pg_xthread_id pg \<and> pg_xthread_free pg' = pg_xthread_free pg"
proof (cases vs rule: rev_cases)
  case Nil
  have "chain (block_next enc (pg_keys pg) m) p (us @ [h]) \<Longrightarrow> block_next enc (pg_keys pg) m h = 0" for p
    by (induction us arbitrary: p) auto
  with page_listsD(7) [OF assms] Nil have "migrate_next enc h pg m = Some (pg, m)"
    by (simp add: migrate_next_def)
  with assms Nil show ?thesis by auto
next
  case (snoc ws z)
  let ?ts = "us @ h # vs" and ?nx = "block_next enc (pg_keys pg)"
  note d = page_listsD [OF assms]
  define m1 where "m1 = block_set_next enc (pg_keys pg) h 0 m"
  define m2 where "m2 = block_set_next enc (pg_keys pg) z (pg_local_free pg) m1"
  have dist: "distinct (us @ h # vs)" "set ls \<inter> set ?ts = {}" "set fs \<inter> set ?ts = {}" "distinct ls" using d(8) by auto
  have cut: "chain (?nx m1) (head_of ?ts) (us @ [h])" "chain (?nx m1) (?nx m h) vs"
    using links.chain_cut [OF d(7) dist(1)] by (simp_all add: m1_def)
  have nz: "?nx m h = head_of vs" "head_of vs \<noteq> 0"
    using chain_head [OF cut(2)] snoc d(11) head_of_in [of vs] by auto
  have tl: "tail_loop enc (pg_keys pg) m1 (head_of vs) 1 = Some (z, length vs)"
    using cut(2) nz(1) snoc tail_loop_chain [of enc "pg_keys pg" m1 "head_of vs" ws z 1] by simp
  have ls1: "chain (?nx m1) (head_of ls) ls" "chain (?nx m1) (head_of fs) fs"
    using d(5,6) dist by (simp_all add: m1_def links.chain_set_other)
  have link: "linkable enc (pg_keys pg) (head_of ls)"
    using d(11) head_of_in [of ls] links.ok_null [of enc "pg_keys pg"] by (cases "ls = []") auto
  have "chain (?nx m2) (head_of vs) (ws @ z # ls)"
    unfolding m2_def d(3) using cut(2) nz snoc dist ls1(1) link
    by (intro links.chain_append) auto
  then have loc: "chain (?nx m2) (head_of vs) (vs @ ls)" using snoc by simp
  have z: "z \<notin> set fs" "z \<notin> set (us @ [h])" using snoc dist by auto
  have rest: "chain (?nx m2) (head_of fs) fs" "chain (?nx m2) (head_of ?ts) (us @ [h])"
    using ls1(2) cut(1) z by (simp_all add: m2_def links.chain_set_other del: set_append)
  define pg1 where "pg1 = pg\<lparr>pg_local_free := head_of vs, pg_used := pg_used pg - of_nat (length vs)\<rparr>"
  define pg2 where "pg2 = (if pg_free pg1 = 0 then pg1\<lparr>pg_free := pg_local_free pg1, pg_local_free := 0\<rparr> else pg1)"
  have run: "migrate_next enc h pg m = Some (pg2, m2)"
    using nz tl by (simp add: migrate_next_def Let_def m2_def m1_def pg2_def pg1_def)
  have count: "length vs \<le> unat (pg_used pg)"
    using page_lists_count(2) [OF assms] by simp
  have pl1: "page_lists enc pg1 m2 fs (vs @ ls) (us @ [h])"
    using assms loc rest count d(2,4) by (auto simp: page_lists_def pg1_def unat_minus_of_nat)
  have lv: "live pg1 fs (vs @ ls) (us @ [h]) = live pg fs ls ?ts" by (auto simp: live_def pg1_def)
  have fr: "\<forall>c\<in>live pg fs ls ?ts. m2 c = m c"
    using snoc by (auto simp: live_def m2_def m1_def block_set_next_def)
  show ?thesis
  proof (cases "fs = []")
    case True
    then have pg2: "pg2 = pg1\<lparr>pg_free := head_of vs, pg_local_free := 0\<rparr>" using d(2) by (simp add: pg2_def pg1_def)
    have "page_lists enc pg2 m2 (vs @ ls) [] (us @ [h])"
      using pl1 loc True unfolding pg2 by (auto simp: page_lists_def pg1_def)
    moreover have "live pg2 (vs @ ls) [] (us @ [h]) = live pg fs ls ?ts"
      using lv True by (simp add: live_def pg2)
    ultimately show ?thesis using run fr by (auto simp: pg2 pg1_def)
  next
    case False
    then have "pg_free pg1 \<noteq> 0" using d(2,11) head_of_in [of fs] by (auto simp: pg1_def)
    then have "pg2 = pg1" by (simp add: pg2_def)
    with run pl1 lv fr show ?thesis by (auto simp: pg1_def)
  qed
qed

text \<open>
  With the whole queue behind \<open>h\<close> taken over, the page is known to be empty exactly when no block
  is live and no other thread has pushed ahead of \<open>h\<close>.
\<close>

lemma collect_partly_lists:
  assumes "page_lists enc pg m fs ls (us @ h # vs)"
  shows "\<exists>pg' m' fs' ls' ts'. collect_partly enc h pg m = Some (pg', m')
    \<and> page_lists enc pg' m' fs' ls' ts' \<and> live pg' fs' ls' ts' = live pg fs ls (us @ h # vs)
    \<and> (\<forall>c\<in>live pg fs ls (us @ h # vs). m' c = m c)
    \<and> (pg_used pg' = 0 \<longleftrightarrow> us = [] \<and> live pg fs ls (us @ h # vs) = {})
    \<and> pg_xthread_id pg' = pg_xthread_id pg
    \<and> tf_is_owned (pg_xthread_free pg') = tf_is_owned (pg_xthread_free pg)"
proof -
  let ?L = "live pg fs ls (us @ h # vs)"
  obtain pg1 m1 fs1 ls1 where run: "migrate_next enc h pg m = Some (pg1, m1)"
      and pl: "page_lists enc pg1 m1 fs1 ls1 (us @ [h])" and lv: "live pg1 fs1 ls1 (us @ [h]) = ?L"
      and fr: "\<forall>c\<in>?L. m1 c = m c"
      and keep: "pg_xthread_id pg1 = pg_xthread_id pg" "pg_xthread_free pg1 = pg_xthread_free pg"
    using migrate_next_lists [OF assms] by blast
  have h0: "h \<noteq> 0" using page_listsD(11) [OF assms] by auto
  have count: "length us + 1 + card ?L = unat (pg_used pg1)"
    using page_lists_count(2) [OF pl] lv by simp
  have fin: "finite ?L" by (simp add: live_def)
  show ?thesis
  proof (cases "pg_used pg1 = 1")
    case False
    then have "collect_partly enc h pg m = Some (pg1, m1)" using run h0 by (simp add: collect_partly_def)
    moreover have "pg_used pg1 \<noteq> 0" using count by auto
    moreover have "unat (pg_used pg1) \<noteq> 1" using False unsigned_word_eqI [of "pg_used pg1" 1, where ?'a = nat] by auto
    then have "\<not> (us = [] \<and> ?L = {})" using count by auto
    ultimately show ?thesis using pl lv fr keep
      by (intro exI [of _ pg1] exI [of _ m1] exI [of _ fs1] exI [of _ ls1] exI [of _ "us @ [h]"]) simp
  next
    case True
    then have one: "us = []" "?L = {}" using count fin by auto
    then obtain m2 where col: "collect enc pg1 m1 = Some (collected pg1 fs1 ls1 [h], m2)"
        "page_lists enc (collected pg1 fs1 ls1 [h]) m2 (ls1 @ rev [h] @ fs1) [] []"
      using collect_lists [of enc pg1 m1 fs1 ls1 "[h]"] pl by auto
    have "collect_partly enc h pg m = Some (collected pg1 fs1 ls1 [h], m2)"
      using run h0 True col(1) by (simp add: collect_partly_def)
    moreover have "live (collected pg1 fs1 ls1 [h]) (ls1 @ rev [h] @ fs1) [] [] = ?L"
      using live_collected [of pg1 fs1 ls1 "[h]"] lv one by simp
    moreover have "pg_used (collected pg1 fs1 ls1 [h]) = 0" using True by (simp add: collected_def)
    ultimately show ?thesis using col(2) one keep by (fastforce simp: collected_def)
  qed
qed

section \<open>Allocation\<close>

lemma free_null_iff: "page_lists enc pg m fs ls ts \<Longrightarrow> pg_free pg = 0 \<longleftrightarrow> fs = []"
  using head_of_in [of fs] page_listsD(2,11) [of enc pg m fs ls ts] by (cases fs) auto

lemma head_of_nonzero: "page_lists enc pg m fs ls ts \<Longrightarrow> pg_free pg \<noteq> 0 \<Longrightarrow> \<exists>b gs. fs = b # gs"
  by (cases fs) (auto dest: page_listsD(2))

lemma alloc_pop:
  assumes "page_lists enc pg m fs ls ts" "pg_free pg \<noteq> 0"
  shows "\<exists>b pg'. pop enc (pg_free pg) pg m = (b, pg') \<and> page_lists enc pg' m (tl fs) ls ts
    \<and> b \<notin> live pg fs ls ts \<and> b \<in> set fs \<and> live pg' (tl fs) ls ts = insert b (live pg fs ls ts)"
proof -
  obtain b gs where fs: "fs = b # gs" using head_of_nonzero [OF assms] by blast
  have "pop enc (pg_free pg) pg m = (b, snd (pop enc (pg_free pg) pg m))"
    using pop_lists(1) [of enc pg m b gs ls ts] assms fs by (metis prod.collapse)
  then show ?thesis using pop_lists [of enc pg m b gs ls ts] assms(1) fs by auto
qed

text \<open>What a call that ends in a successful \<open>pop\<close> or in running dry establishes.\<close>

definition alloc_result :: "bool \<Rightarrow> page \<Rightarrow> links \<Rightarrow> ptr set \<Rightarrow> ptr option \<Rightarrow> page \<Rightarrow> links \<Rightarrow> bool" where
  "alloc_result enc pg m L r pg' m' \<longleftrightarrow>
    (\<exists>fs ls ts. page_lists enc pg' m' fs ls ts \<and> (\<forall>c\<in>L. m' c = m c)
      \<and> (case r of
            Some b \<Rightarrow> b \<notin> L \<and> b \<in> set (grid pg (unat (pg_reserved pg))) \<and> live pg' fs ls ts = insert b L
          | None \<Rightarrow> live pg' fs ls ts = L \<and> L = set (grid pg (unat (pg_reserved pg)))))"

lemma alloc_result_pop:
  assumes "page_lists enc pg1 m1 fs ls ts" "pg_free pg1 \<noteq> 0" "live pg1 fs ls ts = L"
    and "grid pg1 = grid pg" "pg_reserved pg1 = pg_reserved pg" "\<forall>c\<in>L. m1 c = m c"
  shows "\<exists>b pg'. pop enc (pg_free pg1) pg1 m1 = (b, pg') \<and> alloc_result enc pg m L (Some b) pg' m1"
proof -
  obtain b pg' where b: "pop enc (pg_free pg1) pg1 m1 = (b, pg')" "page_lists enc pg' m1 (tl fs) ls ts"
      "b \<notin> L" "b \<in> set fs" "live pg' (tl fs) ls ts = insert b L"
    using alloc_pop [OF assms(1,2)] assms(3) by auto
  have "set fs \<subseteq> set (grid pg1 (unat (pg_capacity pg1)))" using assms(1) by (simp add: page_lists_def)
  moreover have "\<dots> \<subseteq> set (grid pg1 (unat (pg_reserved pg1)))"
    using page_listsD(9) [OF assms(1)] by (rule grid_mono)
  ultimately have "b \<in> set (grid pg (unat (pg_reserved pg)))" using b(4) assms(4,5) by auto
  with b assms(6) show ?thesis by (auto simp: alloc_result_def)
qed

lemma alloc_slow_result:
  assumes "page_lists enc pg m [] ls ts"
  shows "\<exists>r pg' m'. alloc_slow enc pg m = Some (r, pg', m') \<and> alloc_result enc pg m (live pg [] ls ts) r pg' m'"
proof -
  let ?L = "live pg [] ls ts" and ?pg = "collected pg [] ls ts"
  obtain m1 where col: "collect enc pg m = Some (?pg, m1)" and pl: "page_lists enc ?pg m1 (ls @ rev ts) [] []"
      and fr: "\<forall>c. c \<notin> set (ls @ ts) \<longrightarrow> m1 c = m c"
    using collect_lists [OF assms] by auto
  have same: "grid ?pg = grid pg" "pg_reserved ?pg = pg_reserved pg" "pg_capacity ?pg = pg_capacity pg"
    by (simp_all add: collected_def grid_def block_at_def fun_eq_iff)
  have lv: "live ?pg (ls @ rev ts) [] [] = ?L" using live_collected [of pg "[]" ls ts] by simp
  have keep: "\<forall>c\<in>?L. m1 c = m c" using fr by (auto simp: live_def)
  show ?thesis
  proof (cases "pg_free ?pg = 0")
    case False
    then obtain b pg' where "pop enc (pg_free ?pg) ?pg m1 = (b, pg')" "alloc_result enc pg m ?L (Some b) pg' m1"
      using alloc_result_pop [OF pl _ lv same(1,2) keep] by blast
    with False col show ?thesis by (auto simp: alloc_slow_def)
  next
    case True
    then have nil: "ls @ rev ts = []" using page_listsD(2,11) [OF pl] head_of_in [of "ls @ rev ts"] by force
    define n where "n = extension ?pg"
    define xs where "xs = map (block_at ?pg) [unat (pg_capacity pg)..<unat (pg_capacity pg) + n]"
    obtain m2 where m2: "extend_free enc ?pg m1 = (fst (extend_free enc ?pg m1), m2)"
        and pl2: "page_lists enc (fst (extend_free enc ?pg m1)) m2 xs [] []"
        and fr2: "\<forall>c. c \<in> set (grid pg (unat (pg_capacity pg))) \<longrightarrow> m2 c = m1 c"
        and ex: "fst (extend_free enc ?pg m1) = ?pg\<lparr>pg_free := head_of xs, pg_capacity := of_nat (unat (pg_capacity pg) + n)\<rparr>"
        and cap: "unat (pg_capacity (fst (extend_free enc ?pg m1))) = unat (pg_capacity pg) + n"
      using extend_free_lists [of enc ?pg m1 "[]" "[]" n] pl nil n_def by (auto simp: xs_def same)
    define pg2 where "pg2 = fst (extend_free enc ?pg m1)"
    have same2: "grid pg2 = grid pg" "pg_reserved pg2 = pg_reserved pg" by (simp_all add: pg2_def ex same)
    have L: "?L = set (grid pg (unat (pg_capacity pg)))" using nil by (simp add: live_def)
    have le: "unat (pg_capacity pg) \<le> unat (pg_reserved pg)" using page_listsD(9) [OF assms] .
    have gd: "grid pg (unat (pg_capacity pg) + n) = grid pg (unat (pg_capacity pg)) @ xs"
      by (simp add: grid_def xs_def upt_add_eq_append [of 0 "unat (pg_capacity pg)" n] collected_def block_at_def)
    have "distinct (grid pg2 (unat (pg_capacity pg2)))"
      using page_listsD(1,9) [OF pl2] by (auto simp: pg2_def intro: grid_distinct)
    then have "distinct (grid pg (unat (pg_capacity pg)) @ xs)"
      using cap by (simp add: same2 gd [symmetric] flip: pg2_def)
    then have lv2: "live pg2 xs [] [] = ?L" using gd cap unfolding L by (auto simp: live_def [of pg2] same2 simp flip: pg2_def)
    have pl2': "page_lists enc pg2 m2 xs [] []" using pl2 by (simp only: pg2_def)
    have keep2: "\<forall>c\<in>?L. m2 c = m c" using keep fr2 L by auto
    show ?thesis
    proof (cases "pg_free pg2 = 0")
      case False
      then obtain b pg' where "pop enc (pg_free pg2) pg2 m2 = (b, pg')" "alloc_result enc pg m ?L (Some b) pg' m2"
        using alloc_result_pop [OF pl2' False lv2 same2 keep2] by blast
      moreover have "extend_free enc ?pg m1 = (pg2, m2)" using m2 by (simp add: pg2_def)
      ultimately show ?thesis using col True False by (auto simp: alloc_slow_def)
    next
      case stuck: True
      then have "xs = []" using page_listsD(2,11) [OF pl2] head_of_in [of xs] by (force simp: pg2_def)
      then have "n = 0" by (auto simp: xs_def)
      then have "unat (pg_capacity pg) = unat (pg_reserved pg)"
        using le by (simp add: n_def extension_def same)
      then have "alloc_result enc pg m ?L None pg2 m2"
        using pl2 keep2 lv2 L by (auto simp: alloc_result_def simp flip: pg2_def)
      moreover have "extend_free enc ?pg m1 = (pg2, m2)" using m2 by (simp add: pg2_def)
      ultimately show ?thesis using col True stuck by (auto simp: alloc_slow_def)
    qed
  qed
qed

text \<open>
  C13. Allocation hands out a block that is not in use and never the same block twice: it always
  returns, the block it returns was carved in this page and not live before, exactly that block
  becomes live, the contents of every live block are untouched, and it fails only when every block
  the page can hold is live. The page stays well-formed.
\<close>

theorem alloc_fresh_block:
  assumes "page_lists enc pg m fs ls ts"
  shows "\<exists>r pg' m' fs' ls' ts'. alloc enc pg m = Some (r, pg', m')
    \<and> page_lists enc pg' m' fs' ls' ts' \<and> (\<forall>c\<in>live pg fs ls ts. m' c = m c)
    \<and> (case r of
          Some b \<Rightarrow> b \<notin> live pg fs ls ts \<and> b \<in> set (grid pg (unat (pg_reserved pg)))
            \<and> live pg' fs' ls' ts' = insert b (live pg fs ls ts)
        | None \<Rightarrow> live pg' fs' ls' ts' = live pg fs ls ts
            \<and> live pg fs ls ts = set (grid pg (unat (pg_reserved pg))))"
proof -
  have "\<exists>r pg' m'. alloc enc pg m = Some (r, pg', m') \<and> alloc_result enc pg m (live pg fs ls ts) r pg' m'"
  proof (cases "pg_free pg = 0")
    case True
    then have "fs = []" using page_listsD(2,11) [OF assms] head_of_in [of fs] by force
    with True alloc_slow_result [of enc pg m ls ts] assms show ?thesis by (simp add: alloc_def)
  next
    case False
    then obtain b pg' where "pop enc (pg_free pg) pg m = (b, pg')" "alloc_result enc pg m (live pg fs ls ts) (Some b) pg' m"
      using alloc_result_pop [OF assms False refl refl refl, of m] by blast
    with False show ?thesis by (auto simp: alloc_def)
  qed
  then show ?thesis unfolding alloc_result_def by blast
qed

section \<open>Initialisation, free and ownership\<close>

lemma page_start_offset: "align_up (align_up sizeof_page 16) 16 = 144"
  by (simp add: align_up_def is_power_of_two_def sizeof_page_def)

lemma init_lists:
  assumes "sp \<noteq> 0" "8 dvd unat sp" "unat sp + unat sc * 65536 < 2 ^ 64" "0 < sc"
    and "8 \<le> unat bs" "8 dvd unat bs" "unat sc * 65536 < 2 ^ 32"
    and "\<And>b. unat sp + 144 \<le> unat b \<Longrightarrow> unat b < unat sp + unat sc * 65536 \<Longrightarrow> 8 dvd unat b \<Longrightarrow> linkable enc ks b"
  shows "page_lists enc (init sp si sc bs ks z) m [] [] [] \<and> live (init sp si sc bs ks z) [] [] [] = {}
    \<and> unat (pg_reserved (init sp si sc bs ks z)) = (unat sc * 65536 - 144) div unat bs
    \<and> (\<forall>i < unat (pg_reserved (init sp si sc bs ks z)).
          unat sp + 144 \<le> unat (block_at (init sp si sc bs ks z) i)
          \<and> unat (block_at (init sp si sc bs ks z) i) + unat bs \<le> unat sp + unat sc * 65536)"
proof -
  let ?pg = "init sp si sc bs ks z"
  let ?r = "(unat sc * 65536 - 144) div unat bs"
  have sc: "1 \<le> unat sc" using assms(4) by (simp add: Suc_leI unat_gt_0 flip: word_neq_0_conv)
  have region: "unat (sc * 65536) = unat sc * 65536" using assms(7) by (subst unat_mult_small) simp_all
  have area: "unat (sc * 65536 - 144) = unat sc * 65536 - 144"
    using sc region by (subst unat_diff_le) (simp_all add: word_le_nat_alt)
  have rle: "?r * unat bs \<le> unat sc * 65536 - 144" by (rule div_times_less_eq_dividend)
  have "?r \<le> unat sc * 65536 - 144" by (rule div_le_dividend)
  then have "?r < 2 ^ 32" using assms(7) by linarith
  then have r: "unat (pg_reserved ?pg) = ?r"
    using area by (simp add: init_def page_start_offset Let_def mi_consts unsigned_ucast_eq take_bit_nat_eq_self unat_div_distrib)
  have start: "unat (pg_page_start ?pg) = unat sp + 144"
    using assms(3) sc by (simp add: init_def page_start_offset Let_def mi_consts unat_add_small)
  have nz: "pg_page_start ?pg \<noteq> 0" using start by auto
  have bs: "pg_block_size ?pg = bs" "pg_keys ?pg = ks" by (simp_all add: init_def Let_def)
  have off: "unat (block_at ?pg i) = unat sp + 144 + i * unat bs \<and> i * unat bs + unat bs \<le> unat sc * 65536 - 144"
    if "i < ?r" for i
  proof -
    have "Suc i * unat bs \<le> ?r * unat bs" using that by (intro mult_le_mono1) simp
    moreover have "Suc i * unat bs = i * unat bs + unat bs" by simp
    ultimately have le: "i * unat bs + unat bs \<le> unat sc * 65536 - 144" using rle by linarith
    then have fit: "unat sp + 144 + i * unat bs < 2 ^ 64" using assms(3) sc by linarith
    have "i \<le> i * unat bs" using assms(5) by simp
    then have "unat (of_nat i :: usize) = i" using fit by (intro unat_of_nat_small) linarith
    then have "unat (of_nat i * bs) = i * unat bs" using fit by (subst unat_mult_small) simp_all
    then have "unat (block_at ?pg i) = unat sp + 144 + i * unat bs"
      using fit start by (simp add: block_at_def bs unat_add_small)
    with le show ?thesis by simp
  qed
  have link: "linkable enc ks (block_at ?pg i)" if "i < ?r" for i
  proof (rule assms(8))
    show "unat sp + 144 \<le> unat (block_at ?pg i)" "unat (block_at ?pg i) < unat sp + unat sc * 65536"
      using off [OF that] sc assms(5) by linarith+
    have "unat (block_at ?pg i) = unat sp + 8 * 18 + i * unat bs" using off [OF that] by simp
    then show "8 dvd unat (block_at ?pg i)" using assms(2,6) by simp
  qed
  have geo: "page_geometry enc ?pg"
    unfolding page_geometry_def r start bs grid_def
  proof (intro conjI)
    show "unat sp + 144 + ?r * unat bs < 2 ^ 64" using assms(3) rle sc by linarith
  qed (use assms(2,5,6) nz link in auto)
  have empty: "pg_capacity ?pg = 0" "pg_free ?pg = 0" "pg_local_free ?pg = 0" "pg_used ?pg = 0"
      "pg_xthread_free ?pg = 1"
    by (simp_all add: init_def Let_def TF_OWNED_def)
  have "tf_block 1 = 0" by (simp add: tf_block_def TF_OWNED_def)
  then have "page_lists enc ?pg m [] [] []"
    using geo by (simp add: page_lists_def empty word_le_nat_alt)
  moreover have "live ?pg [] [] [] = {}" by (simp add: live_def empty grid_def)
  moreover have "unat sp + 144 \<le> unat (block_at ?pg i) \<and> unat (block_at ?pg i) + unat bs \<le> unat sp + unat sc * 65536"
    if "i < unat (pg_reserved ?pg)" for i
  proof -
    have "i < ?r" using that r by simp
    with off [OF this] sc show ?thesis by linarith
  qed
  ultimately show ?thesis using r by blast
qed

text \<open>
  A freshly initialised page is well-formed: empty lists, no live block, owned, and every block
  it can hold lies between the 144-byte header and the end of its slices. The number of blocks is
  the room divided by the block size.
\<close>

theorem fresh_page_well_formed:
  assumes "sp \<noteq> 0" "8 dvd unat sp" "unat sp + unat sc * 65536 < 2 ^ 64" "0 < sc"
    and "8 \<le> unat bs" "8 dvd unat bs" "unat sc * 65536 < 2 ^ 32"
    and "\<And>b. unat sp + 144 \<le> unat b \<Longrightarrow> unat b < unat sp + unat sc * 65536 \<Longrightarrow> 8 dvd unat b \<Longrightarrow> linkable enc ks b"
  shows "page_lists enc (init sp si sc bs ks z) m [] [] [] \<and> live (init sp si sc bs ks z) [] [] [] = {}
    \<and> is_owned (init sp si sc bs ks z)
    \<and> unat (pg_reserved (init sp si sc bs ks z)) = (unat sc * 65536 - 144) div unat bs
    \<and> (\<forall>i < unat (pg_reserved (init sp si sc bs ks z)).
          unat sp + 144 \<le> unat (block_at (init sp si sc bs ks z) i)
          \<and> unat (block_at (init sp si sc bs ks z) i) + unat bs \<le> unat sp + unat sc * 65536)"
proof -
  have "is_owned (init sp si sc bs ks z)"
    by (simp add: is_owned_def init_def Let_def tf_is_owned_def TF_OWNED_def)
  with init_lists [OF assms, of si z m] show ?thesis by blast
qed

lemma fresh_page_well_formed_witness:
  "page_lists False (init 65536 1 1 64 (0, 0) True) (\<lambda>_. 0) [] [] []"
  using fresh_page_well_formed [of 65536 1 64 False "(0, 0)" 1 True "\<lambda>_. 0"] by (simp add: linkable_def)

text \<open>A small page for examples: one slice of 64-byte blocks, plain links.\<close>

definition sample_page :: page where
  "sample_page = init 65536 1 1 64 (0, 0) True"

lemma sample_page_lists: "page_lists False sample_page m [] [] []" "live sample_page [] [] [] = {}"
  using init_lists [of 65536 1 64 False "(0, 0)" 1 True m] by (simp_all add: sample_page_def linkable_def)

text \<open>The same page with four blocks carved: one live and one on each list.\<close>

definition sample_used :: page where
  "sample_used = sample_page\<lparr>pg_capacity := 4, pg_used := 2, pg_free := 65744, pg_local_free := 65808,
    pg_xthread_free := 65873\<rparr>"

lemma sample_used_lists:
  "page_lists False sample_used (\<lambda>_. 0) [65744] [65808] [65872]"
  "live sample_used [65744] [65808] [65872] = {65680}"
proof -
  have s: "pg_page_start sample_page = 65680" "pg_block_size sample_page = 64"
    by (simp_all add: sample_page_def init_def Let_def page_start_offset mi_consts)
  have g: "grid sample_page 4 = [65680, 65744, 65808, 65872]"
    by (simp add: grid_def block_at_def s upt_rec)
  have geo: "page_geometry False sample_page" using sample_page_lists(1) by (simp add: page_lists_def)
  have r: "unat (pg_reserved sample_page) = 1021"
    using init_lists [of 65536 1 64 False "(0, 0)" 1 True "\<lambda>_. 0"] by (simp add: sample_page_def linkable_def)
  have "tf_block 65873 = 65872" by (simp add: tf_block_def TF_OWNED_def)
  then show "page_lists False sample_used (\<lambda>_. 0) [65744] [65808] [65872]"
    using geo g r by (simp add: page_lists_def sample_used_def block_next_def word_le_nat_alt)
  show "live sample_used [65744] [65808] [65872] = {65680}"
    using g by (auto simp: live_def sample_used_def)
qed

lemma alloc_fresh_block_witness:
  "\<exists>b pg' m'. alloc False sample_page (\<lambda>_. 0) = Some (Some b, pg', m')"
proof -
  have "set (grid sample_page (unat (pg_reserved sample_page))) \<noteq> {}"
    using init_lists [of 65536 1 64 False "(0, 0)" 1 True "\<lambda>_. 0"]
    by (simp add: grid_def linkable_def sample_page_def)
  then show ?thesis
    using alloc_fresh_block [OF sample_page_lists(1) [of "\<lambda>_. 0"]] sample_page_lists(2)
    by (auto split: option.splits)
qed

text \<open>
  Freeing a live block of a well-formed page on its owner's thread keeps the page well-formed:
  exactly that block stops being live, and no other block's memory changes.
\<close>

theorem free_local_releases:
  assumes "page_lists enc pg m fs ls ts" "p \<in> live pg fs ls ts" "free_local enc p pg m = (pg', m')"
  shows "page_lists enc pg' m' fs (p # ls) ts \<and> live pg' fs (p # ls) ts = live pg fs ls ts - {p}
    \<and> (\<forall>c. c \<noteq> p \<longrightarrow> m' c = m c)"
  using free_local_lists [OF assms(1,2)] assms(3) by auto

text \<open>
  C22. Collecting merges the three lists without losing or inventing a block: afterwards the owner
  list holds the local frees, the captured cross-thread frees in reverse and the old owner list,
  the other lists are empty, the live blocks and their memory are unchanged, ownership is kept, and
  the walk always ends. The page counts as empty exactly when no block is live.
\<close>

theorem collect_merges:
  assumes "page_lists enc pg m fs ls ts"
  shows "\<exists>pg' m'. collect enc pg m = Some (pg', m') \<and> page_lists enc pg' m' (ls @ rev ts @ fs) [] []
    \<and> live pg' (ls @ rev ts @ fs) [] [] = live pg fs ls ts \<and> (\<forall>c\<in>live pg fs ls ts. m' c = m c)
    \<and> is_owned pg' = is_owned pg
    \<and> (is_all_free pg' \<longleftrightarrow> live pg fs ls ts = {})
    \<and> (pg_free_is_zero pg' \<longrightarrow> ls = [] \<and> ts = [])"
proof -
  obtain m' where m': "collect enc pg m = Some (collected pg fs ls ts, m')"
      "page_lists enc (collected pg fs ls ts) m' (ls @ rev ts @ fs) [] []"
      "\<forall>c. c \<notin> set (ls @ ts) \<longrightarrow> m' c = m c"
    using collect_lists [OF assms] by blast
  have "unat (pg_used (collected pg fs ls ts)) = card (live pg fs ls ts)"
    using page_lists_count(2) [OF m'(2)] by (simp add: live_collected)
  moreover have "finite (live pg fs ls ts)" by (simp add: live_def)
  ultimately have "is_all_free (collected pg fs ls ts) \<longleftrightarrow> live pg fs ls ts = {}"
    by (metis card_0_eq is_all_free_def unat_eq_zero)
  moreover have "\<forall>c\<in>live pg fs ls ts. m' c = m c" using m'(3) by (auto simp: live_def)
  ultimately show ?thesis
    using m'(1,2) live_collected [of pg fs ls ts] by (auto simp: is_owned_def collected_def)
qed

lemma free_local_releases_witness:
  "live (fst (free_local False 65680 sample_used (\<lambda>_. 0))) [65744] [65680, 65808] [65872] = {}"
  using free_local_releases [OF sample_used_lists(1), of 65680] sample_used_lists(2)
  by (metis Diff_cancel insertI1 prod.collapse)

lemma collect_merges_witness:
  "\<exists>pg' m'. collect False sample_used (\<lambda>_. 0) = Some (pg', m') \<and> \<not> is_all_free pg'"
  using collect_merges [OF sample_used_lists(1)] sample_used_lists(2) by auto

text \<open>
  Another thread's free makes the page's queue one longer: the block stops being live, the page
  stays well-formed with the head word tagged as owned, and the result says whether this push
  claimed an unowned page. A later collect puts the block on the owner's list.
\<close>

theorem thread_free_push_queues:
  assumes "page_lists enc pg m fs ls ts" "b \<in> live pg fs ls ts" "thread_free_push enc b pg m = (claimed, pg', m')"
  shows "page_lists enc pg' m' fs ls (b # ts) \<and> live pg' fs ls (b # ts) = live pg fs ls ts - {b}
    \<and> is_owned pg' \<and> (claimed \<longleftrightarrow> \<not> is_owned pg) \<and> (\<forall>c. c \<noteq> b \<longrightarrow> m' c = m c)"
proof -
  note d = page_listsD [OF assms(1)]
  have b: "b \<in> set (grid pg (unat (pg_capacity pg)))" "b \<notin> set fs" "b \<notin> set ls" "b \<notin> set ts"
    using assms(2) by (auto simp: live_def)
  then obtain i where i: "b = block_at pg i" "i < unat (pg_reserved pg)" using d(9) by (auto simp: grid_def)
  then have tf: "tf_block b = b" "b \<noteq> 0"
    using block_at_even(1) [OF d(1)] block_at_nonzero [OF d(1)] by auto
  have pg': "pg' = pg\<lparr>pg_xthread_free := tf_create b True\<rparr>"
      and m': "m' = block_set_next enc (pg_keys pg) b (head_of ts) m"
      and c: "claimed \<longleftrightarrow> \<not> is_owned pg"
    using assms(3) d(4) by (auto simp: thread_free_push_def Let_def is_owned_def)
  have link: "linkable enc (pg_keys pg) (head_of ts)"
    using d(11) head_of_in [of ts] links.ok_null [of enc "pg_keys pg"] by (cases "ts = []") auto
  have "chain (block_next enc (pg_keys pg) m') b (b # ts)"
    unfolding m' using d(7) tf(2) b(4) link by (rule links.chain_push)
  moreover have "chain (block_next enc (pg_keys pg) m') (head_of fs) fs" "chain (block_next enc (pg_keys pg) m') (head_of ls) ls"
    using d(5,6) b by (simp_all add: m' links.chain_set_other)
  ultimately have "page_lists enc pg' m' fs ls (b # ts)"
    using assms(1) b tf d(2,3) by (auto simp: page_lists_def pg')
  moreover have "live pg' fs ls (b # ts) = live pg fs ls ts - {b}" by (auto simp: live_def pg')
  ultimately show ?thesis using c by (simp add: pg' m' is_owned_def block_set_next_def)
qed

lemma thread_free_push_queues_witness:
  "live (fst (snd (thread_free_push False 65680 sample_used (\<lambda>_. 0)))) [65744] [65808] [65680, 65872] = {}"
  using thread_free_push_queues [OF sample_used_lists(1), of 65680] sample_used_lists(2)
  by (metis Diff_cancel insertI1 prod.collapse)

text \<open>
  C23. The partial collect of a thread that has just claimed a page: with its own block \<open>h\<close> in the
  queue, whatever other threads pushed ahead of it, it always returns, keeps the page well-formed,
  touches no live block, and afterwards the page counts as empty exactly when no block is live and
  nobody pushed ahead of \<open>h\<close>.
\<close>

theorem collect_partly_detects_empty:
  assumes "page_lists enc pg m fs ls (us @ h # vs)"
  shows "\<exists>pg' m' fs' ls' ts'. collect_partly enc h pg m = Some (pg', m')
    \<and> page_lists enc pg' m' fs' ls' ts' \<and> live pg' fs' ls' ts' = live pg fs ls (us @ h # vs)
    \<and> (\<forall>c\<in>live pg fs ls (us @ h # vs). m' c = m c)
    \<and> (is_all_free pg' \<longleftrightarrow> us = [] \<and> live pg fs ls (us @ h # vs) = {})
    \<and> is_owned pg' = is_owned pg \<and> owner_tid pg' = owner_tid pg"
  using collect_partly_lists [OF assms] unfolding is_all_free_def is_owned_def owner_tid_def by metis

lemma collect_partly_detects_empty_witness:
  "\<exists>pg' m'. collect_partly False 65872 sample_used (\<lambda>_. 0) = Some (pg', m') \<and> \<not> is_all_free pg'"
  using collect_partly_detects_empty [of False sample_used "\<lambda>_. 0" "[65744]" "[65808]" "[]" 65872 "[]"]
    sample_used_lists by auto

text \<open>
  Double frees are seen: on a well-formed page the check of the hardened builds returns, and it
  is true exactly for the blocks already on one of the owner's lists, so never for a live block.
\<close>

theorem owner_lists_contain_exact:
  assumes "page_lists enc pg m fs ls ts"
  shows "owner_lists_contain enc b pg m = Some (b \<in> set fs \<union> set ls)
    \<and> (b \<in> live pg fs ls ts \<longrightarrow> owner_lists_contain enc b pg m = Some False)"
proof -
  note d = page_listsD [OF assms]
  have "list_contains enc (pg_keys pg) m b (pg_free pg) = Some (b \<in> set fs)"
      "list_contains enc (pg_keys pg) m b (pg_local_free pg) = Some (b \<in> set ls)"
    using d(2,3,5,6) by (simp_all add: list_contains_chain)
  then have "owner_lists_contain enc b pg m = Some (b \<in> set fs \<union> set ls)"
    by (simp add: owner_lists_contain_def split: bool.splits)
  then show ?thesis by (auto simp: live_def)
qed

lemma owner_lists_contain_exact_witness: "owner_lists_contain False 65808 sample_used (\<lambda>_. 0) = Some True"
  using owner_lists_contain_exact [OF sample_used_lists(1), of 65808] by simp

text \<open>
  The full test returns and is exact: it is true iff every block the page can hold is live, the
  situation in which an allocation fails; the page stays well-formed with the same live blocks.
\<close>

theorem is_full_exact:
  assumes "page_lists enc pg m fs ls ts"
  shows "\<exists>full pg' m' fs' ls' ts'. is_full enc pg m = Some (full, pg', m')
    \<and> (full \<longleftrightarrow> live pg fs ls ts = set (grid pg (unat (pg_reserved pg))))
    \<and> page_lists enc pg' m' fs' ls' ts' \<and> live pg' fs' ls' ts' = live pg fs ls ts"
proof -
  note d = page_listsD [OF assms]
  let ?R = "set (grid pg (unat (pg_reserved pg)))" and ?L = "live pg fs ls ts"
  have cardR: "card ?R = unat (pg_reserved pg)"
    using d(1) by (simp add: distinct_card grid_distinct)
  have cardC: "card (set (grid pg (unat (pg_capacity pg)))) = unat (pg_capacity pg)"
    using d(1,9) by (simp add: distinct_card grid_distinct)
  have count: "length fs + length ls + length ts + card ?L = unat (pg_capacity pg)"
    using page_lists_count(1) [OF assms] .
  show ?thesis
  proof (cases "pg_free pg = 0")
    case False
    then obtain b gs where "fs = b # gs" using head_of_nonzero [OF assms] by blast
    then have "card ?L \<noteq> card ?R" using count d(9) cardR by simp
    then have "?L \<noteq> ?R" by auto
    then show ?thesis using False assms by (auto simp: is_full_def)
  next
    case True
    then have fs: "fs = []" by (simp add: free_null_iff [OF assms])
    let ?pg = "collected pg fs ls ts"
    obtain m1 where m1: "collect enc pg m = Some (?pg, m1)" "page_lists enc ?pg m1 (ls @ rev ts @ fs) [] []"
      using collect_lists [OF assms] by blast
    have same: "pg_capacity ?pg = pg_capacity pg" "pg_reserved ?pg = pg_reserved pg"
      by (simp_all add: collected_def)
    define full where "full = (if pg_free ?pg \<noteq> 0 then False else pg_capacity pg \<ge> pg_reserved pg)"
    have "full \<longleftrightarrow> ?L = ?R"
    proof (cases "ls @ ts = []")
      case nil: True
      then have "pg_free ?pg = 0" using fs by (simp add: collected_def)
      moreover have "?L = set (grid pg (unat (pg_capacity pg)))" using nil fs by (simp add: live_def)
      moreover have "set (grid pg (unat (pg_capacity pg))) = ?R \<Longrightarrow> unat (pg_capacity pg) = unat (pg_reserved pg)"
        using cardR cardC by metis
      ultimately show ?thesis using d(9) by (auto simp: full_def word_le_nat_alt)
    next
      case False
      then have "pg_free ?pg \<noteq> 0" by (auto simp: free_null_iff [OF m1(2)])
      moreover have "0 < length ls + length ts" using False by simp
      then have "card ?L \<noteq> card ?R" using count d(9) cardR by linarith
      ultimately show ?thesis by (auto simp: full_def)
    qed
    moreover have "is_full enc pg m = Some (full, ?pg, m1)"
      using True m1(1) same by (simp add: is_full_def full_def)
    ultimately show ?thesis using m1(2) live_collected [of pg fs ls ts] by blast
  qed
qed

lemma is_full_exact_witness: "\<exists>pg' m'. is_full False sample_page (\<lambda>_. 0) = Some (False, pg', m')"
proof -
  have "set (grid sample_page (unat (pg_reserved sample_page))) \<noteq> {}"
    using init_lists [of 65536 1 64 False "(0, 0)" 1 True "\<lambda>_. 0"]
    by (simp add: grid_def linkable_def sample_page_def)
  then show ?thesis
    using is_full_exact [OF sample_page_lists(1) [of "\<lambda>_. 0"]] sample_page_lists(2) by auto
qed

text \<open>
  The owner id and the two page flags share one word without disturbing each other: restamping
  the owner keeps the flags, and setting or clearing a flag keeps the owner and the other flag.
\<close>

theorem owner_word_fields:
  assumes "tid AND MI_PAGE_FLAG_MASK = 0"
  shows "owner_tid (set_owner tid pg) = tid \<and> is_in_full (set_owner tid pg) = is_in_full pg
    \<and> owner_tid (set_in_full f pg) = owner_tid pg \<and> is_in_full (set_in_full f pg) = f
    \<and> owner_tid (set_has_interior pg) = owner_tid pg \<and> is_in_full (set_has_interior pg) = is_in_full pg
    \<and> xthread_id_raw (set_has_interior pg) AND MI_PAGE_HAS_INTERIOR_POINTERS \<noteq> 0"
proof -
  have m3: "MI_PAGE_FLAG_MASK = mask 2" by (simp add: mi_consts mask_eq_exp_minus_1)
  have full: "is_in_full p \<longleftrightarrow> bit (pg_xthread_id p) 0" for p
    by (simp add: is_in_full_def mi_consts and_one_eq mod_2_eq_odd bit_0)
  have "MI_PAGE_HAS_INTERIOR_POINTERS = push_bit 1 1" "MI_PAGE_IN_FULL_QUEUE = push_bit 0 1"
    by (simp_all add: mi_consts)
  note flags = this
  have tid: "n < 2 \<Longrightarrow> \<not> bit tid n" for n
  proof -
    have "\<not> bit (tid AND mask 2) n" using assms by (simp add: m3)
    then show "n < 2 \<Longrightarrow> \<not> bit tid n" by (auto simp: bit_simps)
  qed
  have int: "x AND MI_PAGE_HAS_INTERIOR_POINTERS \<noteq> 0" if "bit x 1" for x :: usize
  proof
    assume "x AND MI_PAGE_HAS_INTERIOR_POINTERS = 0"
    then have "\<not> (bit x 1 \<and> bit MI_PAGE_HAS_INTERIOR_POINTERS 1)" by (metis bit_0_eq bit_and_iff bot_apply bot_bool_def)
    with that show False by (simp add: flags bit_simps)
  qed
  show ?thesis
    unfolding full
    by (auto intro!: bit_word_eqI int
        simp: owner_tid_def set_owner_def set_in_full_def set_has_interior_def xthread_id_raw_def m3 flags tid bit_simps not_le
        dest: bit_imp_le_length)
qed

lemma owner_word_fields_witness: "owner_tid (set_owner 4096 sample_page) = 4096"
  using owner_word_fields [of 4096 sample_page] by (simp add: mi_consts)

end
