(* ===== verification/MiPageQueue.thy ===== *)
theory MiPageQueue
  imports MiPage
begin

text \<open>
  \<^verbatim>\<open>src/page_queue.rs\<close>: the doubly linked queues of pages, one per bin. The links are the
  \<open>pg_next\<close> and \<open>pg_prev\<close> cells of the page headers, so an operation works on the store of all
  page headers and the queue record.
\<close>

type_synonym pages = "ptr \<Rightarrow> page"

record page_queue =
  pq_first :: ptr
  pq_last :: ptr
  pq_count :: usize

definition pq_new :: page_queue where
  "pq_new = \<lparr>pq_first = 0, pq_last = 0, pq_count = 0\<rparr>"

definition pq_len :: "page_queue \<Rightarrow> usize" where
  "pq_len q = pq_count q"

definition pq_is_empty :: "page_queue \<Rightarrow> bool" where
  "pq_is_empty q \<longleftrightarrow> pq_count q = 0"

definition set_prev :: "ptr \<Rightarrow> ptr \<Rightarrow> pages \<Rightarrow> pages" where
  "set_prev p v ps = ps(p := (ps p)\<lparr>pg_prev := v\<rparr>)"

definition set_next :: "ptr \<Rightarrow> ptr \<Rightarrow> pages \<Rightarrow> pages" where
  "set_next p v ps = ps(p := (ps p)\<lparr>pg_next := v\<rparr>)"

definition push_front :: "ptr \<Rightarrow> page_queue \<times> pages \<Rightarrow> page_queue \<times> pages" where
  "push_front p = (\<lambda>(q, ps).
    let old_first = pq_first q;
        ps = set_prev p 0 ps;
        ps = set_next p old_first ps;
        (q, ps) = (if old_first = 0 then (q\<lparr>pq_last := p\<rparr>, ps) else (q, set_prev old_first p ps))
    in (q\<lparr>pq_first := p, pq_count := pq_count q + 1\<rparr>, ps))"

definition remove :: "ptr \<Rightarrow> page_queue \<times> pages \<Rightarrow> page_queue \<times> pages" where
  "remove p = (\<lambda>(q, ps).
    let prv = pg_prev (ps p); nxt = pg_next (ps p);
        (q, ps) = (if prv = 0 then (q\<lparr>pq_first := nxt\<rparr>, ps) else (q, set_next prv nxt ps));
        (q, ps) = (if nxt = 0 then (q\<lparr>pq_last := prv\<rparr>, ps) else (q, set_prev nxt prv ps));
        ps = set_next p 0 ps;
        ps = set_prev p 0 ps
    in (q\<lparr>pq_count := pq_count q - 1\<rparr>, ps))"

section \<open>Queues as lists\<close>

lemma links_update [simp]:
  "pg_next (set_next p v ps x) = (if x = p then v else pg_next (ps x))"
  "pg_prev (set_next p v ps x) = pg_prev (ps x)"
  "pg_prev (set_prev p v ps x) = (if x = p then v else pg_prev (ps x))"
  "pg_next (set_prev p v ps x) = pg_next (ps x)"
  by (simp_all add: set_next_def set_prev_def)

definition head_or :: "ptr list \<Rightarrow> ptr \<Rightarrow> ptr" where
  "head_or xs b = (case xs of [] \<Rightarrow> b | x # _ \<Rightarrow> x)"

definition last_or :: "ptr \<Rightarrow> ptr list \<Rightarrow> ptr" where
  "last_or a xs = (if xs = [] then a else last xs)"

lemma ends_simps [simp]:
  "head_or [] b = b" "head_or (x # xs) b = x" "last_or a [] = a" "last_or a (x # xs) = last_or x xs"
  "last_or a (xs @ ys) = last_or (last_or a xs) ys" "head_or (xs @ ys) b = head_or xs (head_or ys b)"
  by (auto simp: head_or_def last_or_def split: list.splits)

text \<open>\<open>dll ps a xs b\<close>: the pages \<open>xs\<close> are linked both ways, between \<open>a\<close> and \<open>b\<close>.\<close>

fun dll :: "pages \<Rightarrow> ptr \<Rightarrow> ptr list \<Rightarrow> ptr \<Rightarrow> bool" where
  "dll ps a [] b \<longleftrightarrow> True"
| "dll ps a (x # xs) b \<longleftrightarrow> x \<noteq> 0 \<and> pg_prev (ps x) = a \<and> pg_next (ps x) = head_or xs b \<and> dll ps x xs b"

lemma dll_append: "dll ps a (xs @ ys) b \<longleftrightarrow> dll ps a xs (head_or ys b) \<and> dll ps (last_or a xs) ys b"
  by (induction xs arbitrary: a) auto

lemma dll_cong:
  "(\<And>x. x \<in> set xs \<Longrightarrow> pg_next (ps x) = pg_next (qs x) \<and> pg_prev (ps x) = pg_prev (qs x))
    \<Longrightarrow> dll ps a xs b = dll qs a xs b"
  by (induction xs arbitrary: a) auto

lemma dll_nonzero: "dll ps a xs b \<Longrightarrow> 0 \<notin> set xs"
  by (induction xs arbitrary: a) auto

text \<open>The links at the two ends of a list, as redirected when a neighbour goes away.\<close>

lemma dll_set_end:
  "dll ps a xs b \<Longrightarrow> distinct xs \<Longrightarrow> xs \<noteq> [] \<Longrightarrow> dll (set_next (last_or a xs) v ps) a xs v"
proof (induction xs arbitrary: a)
  case (Cons x xs)
  show ?case
  proof (cases "xs = []")
    case False
    then have "last_or x xs \<in> set xs" by (simp add: last_or_def)
    with Cons False show ?thesis by (cases xs) auto
  qed (use Cons in simp)
qed simp

lemma dll_set_start:
  "dll ps a (x # xs) b \<Longrightarrow> distinct (x # xs) \<Longrightarrow> dll (set_prev x v ps) v (x # xs) b"
proof -
  assume "dll ps a (x # xs) b" "distinct (x # xs)"
  moreover from this have "dll (set_prev x v ps) x xs b = dll ps x xs b" by (intro dll_cong) auto
  ultimately show ?thesis by simp
qed

definition queue_is :: "page_queue \<times> pages \<Rightarrow> ptr list \<Rightarrow> bool" where
  "queue_is = (\<lambda>(q, ps) xs. dll ps 0 xs 0 \<and> distinct xs \<and> length xs < 2 ^ 64
    \<and> pq_first q = head_or xs 0 \<and> pq_last q = last_or 0 xs \<and> pq_count q = of_nat (length xs))"

lemma push_front_list:
  assumes "queue_is (q, ps) xs" "p \<noteq> 0" "p \<notin> set xs" "Suc (length xs) < 2 ^ 64"
  shows "queue_is (push_front p (q, ps)) (p # xs) \<and> pq_len (fst (push_front p (q, ps))) = of_nat (Suc (length xs))
    \<and> (\<forall>x. x \<notin> set (p # xs) \<longrightarrow> snd (push_front p (q, ps)) x = ps x)"
proof (cases xs)
  case Nil
  with assms show ?thesis
    by (auto simp: queue_is_def push_front_def Let_def pq_len_def) (auto simp: set_prev_def set_next_def)
next
  case (Cons y ys)
  define ps1 where "ps1 = set_next p y (set_prev p 0 ps)"
  have d: "dll ps 0 (y # ys) 0" "distinct (y # ys)" "p \<noteq> y" "p \<notin> set ys" "y \<noteq> 0"
    using assms Cons by (auto simp: queue_is_def)
  have "dll ps1 0 (y # ys) 0 = dll ps 0 (y # ys) 0" using d by (intro dll_cong) (auto simp: ps1_def)
  then have "dll (set_prev y p ps1) p (y # ys) 0" using d by (intro dll_set_start) simp_all
  then have "dll (set_prev y p ps1) 0 (p # y # ys) 0" using d assms(2) by (simp add: ps1_def)
  then show ?thesis
    using assms Cons d
    by (auto simp: queue_is_def push_front_def Let_def ps1_def pq_len_def) (auto simp: set_prev_def set_next_def)
qed

lemma remove_list:
  assumes "queue_is (q, ps) (us @ p # vs)"
  shows "queue_is (remove p (q, ps)) (us @ vs)
    \<and> pg_next (snd (remove p (q, ps)) p) = 0 \<and> pg_prev (snd (remove p (q, ps)) p) = 0
    \<and> (\<forall>x. x \<notin> set (us @ p # vs) \<longrightarrow> snd (remove p (q, ps)) x = ps x)"
proof -
  have d: "dll ps 0 us p" "dll ps (last_or 0 us) (p # vs) 0" "distinct (us @ p # vs)" "0 \<notin> set (us @ p # vs)"
    using assms dll_nonzero [of ps 0 "us @ p # vs" 0] by (auto simp: queue_is_def dll_append)
  define prv where "prv = last_or 0 us"
  define nxt where "nxt = head_or vs 0"
  have pn: "pg_prev (ps p) = prv" "pg_next (ps p) = nxt" using d(2) by (simp_all add: prv_def nxt_def)
  have prv: "prv = 0 \<longleftrightarrow> us = []" "us \<noteq> [] \<Longrightarrow> prv \<in> set us"
    using d(4) by (auto simp: prv_def last_or_def) (metis last_in_set)
  have nxt: "nxt = 0 \<longleftrightarrow> vs = []" "vs \<noteq> [] \<Longrightarrow> nxt \<in> set vs"
    using d(4) by (auto simp: nxt_def head_or_def split: list.splits)
  define ps1 where "ps1 = (if prv = 0 then ps else set_next prv nxt ps)"
  define ps2 where "ps2 = (if nxt = 0 then ps1 else set_prev nxt prv ps1)"
  define ps3 where "ps3 = set_prev p 0 (set_next p 0 ps2)"
  have us: "dll ps1 0 us nxt"
    using dll_set_end [OF d(1), of nxt] d(3) prv by (cases "us = []") (auto simp: ps1_def prv_def)
  have "dll ps1 p vs 0 = dll ps p vs 0"
    using d(3) prv by (intro dll_cong) (auto simp: ps1_def)
  then have vs1: "dll ps1 p vs 0" using d(2) by simp
  have vs: "dll ps2 prv vs 0"
  proof (cases vs)
    case (Cons v ws)
    then have "dll (set_prev v prv ps1) prv (v # ws) 0"
      using vs1 d(3) by (intro dll_set_start) simp_all
    moreover have "ps2 = set_prev v prv ps1" using Cons nxt by (simp add: ps2_def nxt_def)
    ultimately show ?thesis using Cons by simp
  qed simp
  have "dll ps2 0 us nxt = dll ps1 0 us nxt"
    using d(3) nxt by (intro dll_cong) (auto simp: ps2_def)
  with us vs have "dll ps2 0 (us @ vs) 0" by (simp add: dll_append prv_def nxt_def)
  moreover have "dll ps3 0 (us @ vs) 0 = dll ps2 0 (us @ vs) 0"
    using d(3) by (intro dll_cong) (auto simp: ps3_def)
  ultimately have "dll ps3 0 (us @ vs) 0" by simp
  moreover have "remove p (q, ps) =
      (q\<lparr>pq_first := (if prv = 0 then nxt else pq_first q), pq_last := (if nxt = 0 then prv else pq_last q),
         pq_count := pq_count q - 1\<rparr>, ps3)"
    by (simp add: remove_def Let_def pn ps3_def ps2_def ps1_def)
  moreover have "ps3 x = ps x" if "x \<notin> set (us @ p # vs)" for x
    using that prv nxt by (auto simp: ps3_def ps2_def ps1_def set_prev_def set_next_def)
  moreover have "pg_next (ps3 p) = 0" "pg_prev (ps3 p) = 0" by (simp_all add: ps3_def)
  ultimately show ?thesis
    using assms d(3) prv(1) nxt(1)
    by (cases us; cases vs rule: rev_cases) (auto simp: queue_is_def prv_def nxt_def)
qed

section \<open>The interface the heap uses\<close>

text \<open>
  A heap only pushes pages that are in no queue and removes pages from the queue they are in; what
  it relies on is how the represented list changes.
\<close>

locale page_list =
  fixes rep :: "'s \<Rightarrow> ptr list \<Rightarrow> bool"
    and push :: "ptr \<Rightarrow> 's \<Rightarrow> 's"
    and del :: "ptr \<Rightarrow> 's \<Rightarrow> 's"
    and bound :: nat
  assumes rep_push: "rep s xs \<Longrightarrow> p \<noteq> 0 \<Longrightarrow> p \<notin> set xs \<Longrightarrow> Suc (length xs) < bound \<Longrightarrow> rep (push p s) (p # xs)"
    and rep_del: "rep s (us @ p # vs) \<Longrightarrow> rep (del p s) (us @ vs)"
    and rep_distinct: "rep s xs \<Longrightarrow> distinct xs \<and> 0 \<notin> set xs \<and> length xs < bound"
begin

lemma del_push: "rep s xs \<Longrightarrow> p \<noteq> 0 \<Longrightarrow> p \<notin> set xs \<Longrightarrow> Suc (length xs) < bound \<Longrightarrow> rep (del p (push p s)) xs"
  using rep_push [of s xs p] rep_del [of "push p s" "[]" p xs] by simp

text \<open>Taking a page out and putting it back first, as a heap does with a page that gained a block.\<close>

lemma to_front: "rep s (us @ p # vs) \<Longrightarrow> rep (push p (del p s)) (p # us @ vs)"
  using rep_distinct [of s "us @ p # vs"] rep_del [of s us p vs] rep_push [of "del p s" "us @ vs" p] by auto

lemma del_in: "rep s xs \<Longrightarrow> p \<in> set xs \<Longrightarrow> rep (del p s) (remove1 p xs)"
proof -
  assume rep: "rep s xs" and "p \<in> set xs"
  then obtain us vs where xs: "xs = us @ p # vs" by (meson split_list)
  with rep have "p \<notin> set us" using rep_distinct by fastforce
  with rep xs show ?thesis by (simp add: rep_del remove1_append)
qed

end

lemma push_front_is: "queue_is s xs \<Longrightarrow> p \<noteq> 0 \<Longrightarrow> p \<notin> set xs \<Longrightarrow> Suc (length xs) < 2 ^ 64 \<Longrightarrow> queue_is (push_front p s) (p # xs)"
  using push_front_list [of "fst s" "snd s" xs p] by simp

lemma remove_is: "queue_is s (us @ p # vs) \<Longrightarrow> queue_is (remove p s) (us @ vs)"
  using remove_list [of "fst s" "snd s" us p vs] by simp

interpretation queues: page_list queue_is push_front remove "2 ^ 64"
  by unfold_locales
    (simp_all add: push_front_is remove_is, auto simp: queue_is_def dest: dll_nonzero)

lemma sample_queue: "queue_is (push_front 4096 (pq_new, \<lambda>_. sample_page)) [4096]"
  by (intro push_front_is) (simp_all add: queue_is_def pq_new_def)

text \<open>
  C29. Pushing a page that is not queued puts it first; removing a queued page, wherever it stands,
  leaves exactly the others in their order, unlinks it and touches no page outside the queue; so
  removing a page and pushing it again moves it to the front. Links and count stay consistent in
  both directions.
\<close>

theorem page_queue_lists:
  assumes "queue_is (q, ps) (us @ p # vs)"
  shows "queue_is (remove p (q, ps)) (us @ vs)
    \<and> pg_next (snd (remove p (q, ps)) p) = 0 \<and> pg_prev (snd (remove p (q, ps)) p) = 0
    \<and> (\<forall>x. x \<notin> set (us @ p # vs) \<longrightarrow> snd (remove p (q, ps)) x = ps x)
    \<and> queue_is (push_front p (remove p (q, ps))) (p # us @ vs)
    \<and> pq_len (fst (push_front p (remove p (q, ps)))) = pq_len q"
  using remove_list [OF assms] queues.to_front [OF assms] assms
  by (auto simp: queue_is_def pq_len_def split: prod.splits)

lemma page_queue_lists_witness: "queue_is (remove 4096 (push_front 4096 (pq_new, \<lambda>_. sample_page))) []"
  using page_queue_lists [of "fst (push_front 4096 (pq_new, \<lambda>_. sample_page))"
      "snd (push_front 4096 (pq_new, \<lambda>_. sample_page))" "[]" 4096 "[]"] sample_queue by simp

end
