(* ===== verification/MiChunk.thy ===== *)
theory MiChunk
  imports MiBits
begin

unbundle bit_operations_syntax

text \<open>
  \<^verbatim>\<open>src/bitmap.rs\<close>, lower half: the operations on one 64-bit field and on a chunk of eight
  fields. A chunk is a list of eight words; indexing past it panics as in the source. A
  compare-and-swap loop is the update its successful round makes.
\<close>

section \<open>Fields\<close>

definition FIELD_BITS :: nat where [mi_consts]: "FIELD_BITS = MI_SIZE_BITS"
definition CHUNK_BITS :: nat where [mi_consts]: "CHUNK_BITS = MI_BCHUNK_BITS"
definition CHUNK_FIELDS :: nat where [mi_consts]: "CHUNK_FIELDS = CHUNK_BITS div FIELD_BITS"

definition mask_n :: "nat \<Rightarrow> usize" where
  "mask_n n = (if n = FIELD_BITS then usize_max else push_bit n 1 - 1)"

definition bf_all_set :: "usize \<Rightarrow> usize \<Rightarrow> bool" where
  "bf_all_set w msk \<longleftrightarrow> w AND msk = msk"

definition bf_all_clear :: "usize \<Rightarrow> usize \<Rightarrow> bool" where
  "bf_all_clear w msk \<longleftrightarrow> w AND msk = 0"

definition bf_set_mask :: "usize \<Rightarrow> usize \<Rightarrow> bool \<times> usize" where
  "bf_set_mask old msk = (let new = old OR msk in if new = old then (False, old) else (True, new))"

definition bf_try_clear_mask :: "usize \<Rightarrow> usize \<Rightarrow> bool \<times> usize" where
  "bf_try_clear_mask old msk =
    (if old AND msk \<noteq> msk then (False, old) else let new = old AND NOT msk in (True, new))"

text \<open>The scan for a run of \<open>n\<close> set bits from position \<open>shift\<close> on.\<close>

function run_scan :: "usize \<Rightarrow> nat \<Rightarrow> nat \<Rightarrow> nat option" where
  "run_scan old n shift =
    (if shift + n \<le> FIELD_BITS
     then let probe = push_bit shift (mask_n n)
          in if old AND probe = probe then Some shift else run_scan old n (shift + 1)
     else None)"
  by pat_completeness auto
termination
  by (relation "measure (\<lambda>(_, n, shift). FIELD_BITS + 1 - shift)") auto

declare run_scan.simps [simp del]

definition bf_find_and_clear_run :: "usize \<Rightarrow> nat \<Rightarrow> (nat \<times> usize) option" where
  "bf_find_and_clear_run old n =
    (if n = 0 \<or> n > FIELD_BITS then None
     else let m = mask_n n
          in if mi_popcount old < n then None
             else case run_scan old n 0 of
                    None \<Rightarrow> None
                  | Some shift \<Rightarrow>
                      let probe = push_bit shift m; new = old AND NOT probe in Some (shift, new))"

section \<open>Chunks\<close>

type_synonym chunk = "usize list"

definition split :: "nat \<Rightarrow> nat \<times> nat" where
  "split cbit = (cbit div FIELD_BITS, cbit mod FIELD_BITS)"

definition chunk_zeroed :: chunk where
  "chunk_zeroed = replicate CHUNK_FIELDS 0"

definition field :: "chunk \<Rightarrow> nat \<Rightarrow> usize run" where
  "field ch fidx = (if fidx < length ch then Inr (ch ! fidx) else Inl Index_Out_Of_Bounds)"

definition chunk_is_set :: "chunk \<Rightarrow> nat \<Rightarrow> bool run" where
  "chunk_is_set ch cbit =
    (let (f, b) = split cbit in run_bind (field ch f) (\<lambda>w. Inr (bf_all_set w (push_bit b 1))))"

text \<open>The loop over the fields that cover \<open>remaining\<close> bits from \<open>pos\<close> on.\<close>

function for_each_field_mask :: "(usize \<Rightarrow> usize \<Rightarrow> bool) \<Rightarrow> chunk \<Rightarrow> nat \<Rightarrow> nat \<Rightarrow> bool run" where
  "for_each_field_mask pred ch pos remaining =
    (if remaining > 0
     then let (f, b) = split pos;
              here = min remaining (FIELD_BITS - b);
              msk = push_bit b (mask_n here)
          in run_bind (field ch f) (\<lambda>w.
               if \<not> pred w msk then Inr False
               else for_each_field_mask pred ch (pos + here) (remaining - here))
     else Inr True)"
  by pat_completeness auto
termination
  by (relation "measure (\<lambda>(_, _, _, remaining). remaining)") (auto simp: split_def mi_consts)

declare for_each_field_mask.simps [simp del]

definition chunk_is_set_n :: "chunk \<Rightarrow> nat \<Rightarrow> nat \<Rightarrow> bool run" where
  "chunk_is_set_n ch cbit n = for_each_field_mask bf_all_set ch cbit n"

definition chunk_is_clear_n :: "chunk \<Rightarrow> nat \<Rightarrow> nat \<Rightarrow> bool run" where
  "chunk_is_clear_n ch cbit n = for_each_field_mask bf_all_clear ch cbit n"

function chunk_set_n :: "chunk \<Rightarrow> nat \<Rightarrow> nat \<Rightarrow> chunk run" where
  "chunk_set_n ch pos remaining =
    (if remaining > 0
     then let (f, b) = split pos;
              here = min remaining (FIELD_BITS - b)
          in run_bind (field ch f) (\<lambda>w.
               chunk_set_n (ch[f := snd (bf_set_mask w (push_bit b (mask_n here)))])
                 (pos + here) (remaining - here))
     else Inr ch)"
  by pat_completeness auto
termination
  by (relation "measure (\<lambda>(_, _, remaining). remaining)") (auto simp: split_def mi_consts)

declare chunk_set_n.simps [simp del]

text \<open>
  \<open>try_clear_n\<close> clears field by field and remembers what it cleared in an array of
  \<open>CHUNK_FIELDS\<close> entries; at a field that is not all set it stops and sets them again.
\<close>

function clear_loop :: "chunk \<Rightarrow> (nat \<times> usize) list \<Rightarrow> nat \<Rightarrow> nat \<Rightarrow> (bool \<times> chunk \<times> (nat \<times> usize) list) run" where
  "clear_loop ch cleared pos remaining =
    (if remaining > 0
     then let (f, b) = split pos;
              here = min remaining (FIELD_BITS - b);
              msk = push_bit b (mask_n here)
          in run_bind (field ch f) (\<lambda>w.
               let (ok, w') = bf_try_clear_mask w msk
               in if ok
                  then if length cleared < CHUNK_FIELDS
                       then clear_loop (ch[f := w']) (cleared @ [(f, msk)]) (pos + here) (remaining - here)
                       else Inl Index_Out_Of_Bounds
                  else Inr (False, ch, cleared))
     else Inr (True, ch, cleared))"
  by pat_completeness auto
termination
  by (relation "measure (\<lambda>(_, _, _, remaining). remaining)") (auto simp: split_def mi_consts)

declare clear_loop.simps [simp del]

definition rollback :: "chunk \<Rightarrow> (nat \<times> usize) list \<Rightarrow> chunk" where
  "rollback ch cleared = foldl (\<lambda>ch (f, msk). ch[f := snd (bf_set_mask (ch ! f) msk)]) ch cleared"

definition chunk_try_clear_n :: "chunk \<Rightarrow> nat \<Rightarrow> nat \<Rightarrow> (bool \<times> chunk) run" where
  "chunk_try_clear_n ch cbit n =
    (let (f0, b0) = split cbit
     in if b0 + n \<le> FIELD_BITS
        then run_bind (field ch f0) (\<lambda>w.
               let (ok, w') = bf_try_clear_mask w (push_bit b0 (mask_n n)) in Inr (ok, ch[f0 := w']))
        else run_bind (clear_loop ch [] cbit n) (\<lambda>(ok, ch, cleared).
               if \<not> ok then Inr (False, rollback ch cleared) else Inr (True, ch)))"

definition chunk_popcount :: "chunk \<Rightarrow> nat" where
  "chunk_popcount ch = sum_list (map mi_popcount ch)"

definition chunk_is_all_clear :: "chunk \<Rightarrow> bool" where
  "chunk_is_all_clear ch \<longleftrightarrow> list_all (\<lambda>w. w = 0) ch"

section \<open>Bits of a chunk\<close>

definition cbit :: "chunk \<Rightarrow> nat \<Rightarrow> bool" where
  "cbit ch i \<longleftrightarrow> i div 64 < length ch \<and> bit (ch ! (i div 64)) (i mod 64)"

lemma mask_n_mask: "n \<le> 64 \<Longrightarrow> mask_n n = mask n"
proof (cases "n = 64")
  case True
  then show ?thesis by (simp add: mask_n_def mi_consts usize_max_def mask_eq_exp_minus_1)
qed (simp add: mask_n_def mi_consts mask_eq_exp_minus_1 push_bit_eq_mult)

lemma bit_range_mask [bm_bits]:
  "b + h \<le> 64 \<Longrightarrow> bit (push_bit b (mask_n h)) j \<longleftrightarrow> b \<le> j \<and> j < b + h"
  by (auto simp: mask_n_mask bit_simps)

lemma bf_all_set_iff [bm_bits]: "bf_all_set w msk \<longleftrightarrow> (\<forall>j<64. bit msk j \<longrightarrow> bit w j)"
  unfolding bf_all_set_def bit_eq_iff [of "w AND msk"] by (auto simp: bit_simps dest: bit_imp_le_length)

lemma bf_all_clear_iff [bm_bits]: "bf_all_clear w msk \<longleftrightarrow> (\<forall>j<64. bit msk j \<longrightarrow> \<not> bit w j)"
  unfolding bf_all_clear_def bit_eq_iff [of "w AND msk"] by (auto simp: bit_simps dest: bit_imp_le_length)

lemma bf_set_mask_snd: "snd (bf_set_mask w msk) = w OR msk"
  by (auto simp: bf_set_mask_def Let_def)

lemma bf_try_clear_mask_eq:
  "bf_try_clear_mask w msk = (bf_all_set w msk, if bf_all_set w msk then w AND NOT msk else w)"
  by (simp add: bf_try_clear_mask_def bf_all_set_def Let_def)

text \<open>One round of the field loops covers a piece of one field.\<close>

lemma piece:
  assumes "split pos = (f, b)" "h = min r (FIELD_BITS - b)"
  shows "f = pos div 64" "b = pos mod 64" "b + h \<le> 64" "0 < r \<Longrightarrow> 0 < h" "h \<le> r"
    "(pos \<le> i \<and> i < pos + h) \<longleftrightarrow> i div 64 = f \<and> b \<le> i mod 64 \<and> i mod 64 < b + h"
proof -
  show fb: "f = pos div 64" "b = pos mod 64" using assms(1) by (simp_all add: split_def mi_consts)
  have "b < 64" by (simp add: fb)
  with assms(2) show h: "b + h \<le> 64" "0 < r \<Longrightarrow> 0 < h" "h \<le> r" by (simp_all add: mi_consts)
  have "64 * f + b \<le> 64 * q + r \<and> 64 * q + r < 64 * f + b + h \<longleftrightarrow> q = f \<and> b \<le> r \<and> r < b + h"
    if "r < 64" for q r
  proof (cases q f rule: linorder_cases)
    case less
    then show ?thesis using that by linarith
  next
    case greater
    then show ?thesis using h(1) by linarith
  qed simp
  moreover have "64 * (i div 64) + i mod 64 = i" "64 * f + b = pos" by (simp_all add: fb)
  ultimately show "(pos \<le> i \<and> i < pos + h) \<longleftrightarrow> i div 64 = f \<and> b \<le> i mod 64 \<and> i mod 64 < b + h"
    by (metis mod_less_divisor zero_less_numeral)
qed

lemma cbit_update [bm_bits]:
  "f < length ch \<Longrightarrow> cbit (ch[f := w]) i \<longleftrightarrow> (if i div 64 = f then bit w (i mod 64) else cbit ch i)"
  by (auto simp: cbit_def)

lemma chunk_eqI:
  assumes "length ch = length ch'" "\<And>i. cbit ch i = cbit ch' i"
  shows "ch = ch'"
proof (rule nth_equalityI [OF assms(1)])
  fix f assume f: "f < length ch"
  show "ch ! f = ch' ! f"
  proof (rule bit_word_eqI)
    fix j assume "j < LENGTH(64)"
    then have "(f * 64 + j) div 64 = f" "(f * 64 + j) mod 64 = j" by simp_all
    then show "bit (ch ! f) j = bit (ch' ! f) j"
      using assms(2) [of "f * 64 + j"] f assms(1) by (simp add: cbit_def)
  qed
qed

text \<open>What every field loop over a range inside the chunk can use in one round.\<close>

definition is_piece :: "chunk \<Rightarrow> nat \<Rightarrow> nat \<Rightarrow> nat \<Rightarrow> nat \<Rightarrow> nat \<Rightarrow> bool" where
  "is_piece ch pos r f b h \<longleftrightarrow>
    split pos = (f, b) \<and> min r (FIELD_BITS - b) = h \<and> field ch f = Inr (ch ! f) \<and> f < 8 \<and> 0 < h \<and> h \<le> r \<and>
    f = pos div 64 \<and>
    (\<forall>i. i div 64 = f \<longrightarrow> (bit (push_bit b (mask_n h)) (i mod 64) \<longleftrightarrow> pos \<le> i \<and> i < pos + h)) \<and>
    (\<forall>i. pos \<le> i \<longrightarrow> i < pos + h \<longrightarrow> i div 64 = f) \<and>
    (\<forall>j. bit (push_bit b (mask_n h)) j \<longrightarrow> pos \<le> f * 64 + j \<and> f * 64 + j < pos + h)"

lemma round:
  assumes "length ch = 8" "pos + r \<le> 512" "0 < r"
  obtains f b h where "is_piece ch pos r f b h"
proof -
  obtain f b where s: "split pos = (f, b)" by force
  define h where "h = min r (FIELD_BITS - b)"
  note p = piece [OF s h_def]
  have f8: "f < 8" using assms(2,3) p(1) by (simp add: less_mult_imp_div_less)
  have j: "pos \<le> f * 64 + j \<and> f * 64 + j < pos + h" if "bit (push_bit b (mask_n h)) j" for j
    using that p(3) p(6) [of "f * 64 + j"] by (auto simp: bit_range_mask)
  have i: "i div 64 = f \<longrightarrow> (bit (push_bit b (mask_n h)) (i mod 64) \<longleftrightarrow> pos \<le> i \<and> i < pos + h)" for i
    using p(3,6) by (simp add: bit_range_mask)
  have fld: "field ch f = Inr (ch ! f)" using f8 assms(1) by (simp add: field_def)
  have bi: "\<forall>i. pos \<le> i \<longrightarrow> i < pos + h \<longrightarrow> i div 64 = f" using p(6) by blast
  have "0 < h" "h \<le> r" using p(4,5) assms(3) by blast+
  then have "is_piece ch pos r f b h"
    unfolding is_piece_def using s h_def [symmetric] fld f8 p(1) j i bi by blast
  then show thesis by (rule that)
qed

lemma is_pieceD:
  assumes "is_piece ch pos r f b h"
  shows "split pos = (f, b)" "min r (FIELD_BITS - b) = h" "field ch f = Inr (ch ! f)" "f < 8" "0 < h" "h \<le> r"
    "f = pos div 64"
    "\<And>i. i div 64 = f \<Longrightarrow> bit (push_bit b (mask_n h)) (i mod 64) \<longleftrightarrow> pos \<le> i \<and> i < pos + h"
    "\<And>i. pos \<le> i \<Longrightarrow> i < pos + h \<Longrightarrow> i div 64 = f"
    "\<And>j. bit (push_bit b (mask_n h)) j \<Longrightarrow> pos \<le> f * 64 + j \<and> f * 64 + j < pos + h"
  using assms unfolding is_piece_def by blast+

text \<open>The piece's bits all satisfy \<open>P\<close> iff the field satisfies it under the mask.\<close>

lemma piece_all:
  assumes "is_piece ch pos r f b h" "length ch = 8"
  shows "(\<forall>j<64. bit (push_bit b (mask_n h)) j \<longrightarrow> P (bit (ch ! f) j)) \<longleftrightarrow> (\<forall>i. pos \<le> i \<and> i < pos + h \<longrightarrow> P (cbit ch i))"
    (is "?L \<longleftrightarrow> ?R")
proof
  note R = is_pieceD [OF assms(1)]
  assume ?L
  then show ?R using R(4,8,9) assms(2) by (simp add: cbit_def)
next
  note R = is_pieceD [OF assms(1)]
  assume r: ?R
  show ?L
  proof (intro allI impI)
    fix j :: nat assume "j < 64" "bit (push_bit b (mask_n h)) j"
    then have "P (cbit ch (f * 64 + j))" using r R(10) by blast
    then show "P (bit (ch ! f) j)" using \<open>j < 64\<close> R(4) assms(2) by (simp add: cbit_def)
  qed
qed

lemma piece_update:
  assumes "is_piece ch pos r f b h" "length ch = 8"
  shows "cbit (ch[f := ch ! f OR push_bit b (mask_n h)]) i \<longleftrightarrow> cbit ch i \<or> pos \<le> i \<and> i < pos + h"
    and "cbit (ch[f := ch ! f AND NOT (push_bit b (mask_n h))]) i \<longleftrightarrow> cbit ch i \<and> \<not> (pos \<le> i \<and> i < pos + h)"
proof -
  note R = is_pieceD [OF assms(1)]
  have f: "f < length ch" using R(4) assms(2) by simp
  have "\<not> (pos \<le> i \<and> i < pos + h)" if "i div 64 \<noteq> f" using that R(9) by blast
  moreover have "cbit ch i \<longleftrightarrow> bit (ch ! f) (i mod 64)" if "i div 64 = f" using that f by (simp add: cbit_def)
  ultimately show "cbit (ch[f := ch ! f OR push_bit b (mask_n h)]) i \<longleftrightarrow> cbit ch i \<or> pos \<le> i \<and> i < pos + h"
    and "cbit (ch[f := ch ! f AND NOT (push_bit b (mask_n h))]) i \<longleftrightarrow> cbit ch i \<and> \<not> (pos \<le> i \<and> i < pos + h)"
    using R(8) [of i] f by (auto simp: cbit_update bit_or_iff bit_and_iff bit_not_iff)
qed

text \<open>A range is its first piece and the rest.\<close>

lemma range_split:
  "(h :: nat) \<le> r \<Longrightarrow> (\<forall>i. pos \<le> i \<and> i < pos + r \<longrightarrow> Q i) \<longleftrightarrow>
    (\<forall>i. pos \<le> i \<and> i < pos + h \<longrightarrow> Q i) \<and> (\<forall>i. pos + h \<le> i \<and> i < pos + h + (r - h) \<longrightarrow> Q i)"
  by (auto simp: not_less) (metis not_le)

lemma for_each_field_mask_range:
  assumes pred: "\<And>w msk. pred w msk \<longleftrightarrow> (\<forall>j<64. bit msk j \<longrightarrow> P (bit w j))"
  shows "length ch = 8 \<Longrightarrow> pos + r \<le> 512
    \<Longrightarrow> for_each_field_mask pred ch pos r = Inr (\<forall>i. pos \<le> i \<and> i < pos + r \<longrightarrow> P (cbit ch i))"
proof (induction r arbitrary: pos rule: less_induct)
  case (less r)
  show ?case
  proof (cases "r = 0")
    case True
    then show ?thesis by (subst for_each_field_mask.simps) auto
  next
    case False
    then obtain f b h where P: "is_piece ch pos r f b h" using round [OF less.prems] by blast
    note R = is_pieceD [OF P]
    have "for_each_field_mask pred ch (pos + h) (r - h)
        = Inr (\<forall>i. pos + h \<le> i \<and> i < pos + h + (r - h) \<longrightarrow> P (cbit ch i))"
      using R(5,6) less.prems False by (intro less.IH) auto
    moreover have "pred (ch ! f) (push_bit b (mask_n h)) \<longleftrightarrow> (\<forall>i. pos \<le> i \<and> i < pos + h \<longrightarrow> P (cbit ch i))"
      using piece_all [OF P less.prems(1), of P] unfolding pred .
    ultimately show ?thesis
      using False R(1-3) unfolding range_split [OF R(6), of pos "\<lambda>i. P (cbit ch i)"]
      by (subst for_each_field_mask.simps)
        (cases "pred (ch ! f) (push_bit b (mask_n h))"; simp add: Let_def)
  qed
qed

lemma chunk_is_set_n_range [bm_bits]:
  "length ch = 8 \<Longrightarrow> pos + n \<le> 512 \<Longrightarrow> chunk_is_set_n ch pos n = Inr (\<forall>i. pos \<le> i \<and> i < pos + n \<longrightarrow> cbit ch i)"
  unfolding chunk_is_set_n_def by (rule for_each_field_mask_range) (rule bf_all_set_iff)

lemma chunk_is_clear_n_range [bm_bits]:
  "length ch = 8 \<Longrightarrow> pos + n \<le> 512 \<Longrightarrow> chunk_is_clear_n ch pos n = Inr (\<forall>i. pos \<le> i \<and> i < pos + n \<longrightarrow> \<not> cbit ch i)"
  unfolding chunk_is_clear_n_def by (rule for_each_field_mask_range) (rule bf_all_clear_iff)

lemma chunk_is_set_bit [bm_bits]: "length ch = 8 \<Longrightarrow> i < 512 \<Longrightarrow> chunk_is_set ch i = Inr (cbit ch i)"
  by (auto simp: chunk_is_set_def split_def mi_consts field_def bf_all_set_iff cbit_def bit_simps)

lemma chunk_set_n_range:
  "length ch = 8 \<Longrightarrow> pos + r \<le> 512 \<Longrightarrow> \<exists>ch'. chunk_set_n ch pos r = Inr ch' \<and> length ch' = 8
    \<and> (\<forall>i. cbit ch' i \<longleftrightarrow> cbit ch i \<or> pos \<le> i \<and> i < pos + r)"
proof (induction r arbitrary: pos ch rule: less_induct)
  case (less r)
  show ?case
  proof (cases "r = 0")
    case True
    then show ?thesis using less.prems by (subst chunk_set_n.simps) auto
  next
    case False
    then obtain f b h where P: "is_piece ch pos r f b h" using round [OF less.prems] by blast
    note R = is_pieceD [OF P]
    let ?ch = "ch[f := ch ! f OR push_bit b (mask_n h)]"
    obtain ch' where ch': "chunk_set_n ?ch (pos + h) (r - h) = Inr ch'" "length ch' = 8"
        "\<forall>i. cbit ch' i \<longleftrightarrow> cbit ?ch i \<or> pos + h \<le> i \<and> i < pos + h + (r - h)"
      using less.IH [of "r - h" ?ch "pos + h"] R(5,6) less.prems False by auto
    have "chunk_set_n ch pos r = Inr ch'"
      using False R(1-3) ch'(1) by (subst chunk_set_n.simps) (simp add: Let_def bf_set_mask_snd)
    moreover have "cbit ch' i \<longleftrightarrow> cbit ch i \<or> pos \<le> i \<and> i < pos + r" for i
    proof -
      have "cbit ch' i \<longleftrightarrow> (cbit ch i \<or> pos \<le> i \<and> i < pos + h) \<or> pos + h \<le> i \<and> i < pos + h + (r - h)"
        using ch'(3) unfolding piece_update(1) [OF P less.prems(1)] by blast
      then show ?thesis using R(6) by linarith
    qed
    ultimately show ?thesis using ch'(2) by blast
  qed
qed

text \<open>Positions covered by the remembered masks.\<close>

definition covered :: "(nat \<times> usize) list \<Rightarrow> nat \<Rightarrow> bool" where
  "covered cl i \<longleftrightarrow> (\<exists>(f, msk)\<in>set cl. i div 64 = f \<and> bit msk (i mod 64))"

lemma covered_snoc: "covered (cl @ [(f, msk)]) i \<longleftrightarrow> covered cl i \<or> i div 64 = f \<and> bit msk (i mod 64)"
  by (auto simp: covered_def)

lemma rollback_bits:
  "length ch = 8 \<Longrightarrow> \<forall>(f, msk)\<in>set cl. f < 8
    \<Longrightarrow> length (rollback ch cl) = 8 \<and> (\<forall>i. cbit (rollback ch cl) i \<longleftrightarrow> cbit ch i \<or> covered cl i)"
proof (induction cl arbitrary: ch rule: rev_induct)
  case Nil
  then show ?case by (simp add: rollback_def covered_def)
next
  case (snoc e cl)
  obtain f msk where e: "e = (f, msk)" by force
  let ?ch = "rollback ch cl"
  have "rollback ch (cl @ [e]) = ?ch[f := ?ch ! f OR msk]" by (simp add: rollback_def e bf_set_mask_snd)
  moreover have IH: "length ?ch = 8" "\<forall>i. cbit ?ch i \<longleftrightarrow> cbit ch i \<or> covered cl i" "f < 8"
    using snoc e by auto
  ultimately show ?case
    by (auto simp: e covered_snoc cbit_update bit_or_iff) (auto simp: cbit_def)
qed

lemma clear_loop_range:
  "length ch = 8 \<Longrightarrow> pos + r \<le> 512 \<Longrightarrow> length cl \<le> pos div 64 \<Longrightarrow> \<forall>(f, msk)\<in>set cl. f < 8
    \<Longrightarrow> \<exists>ok ch' cl'. clear_loop ch cl pos r = Inr (ok, ch', cl') \<and> length ch' = 8 \<and> (\<forall>(f, msk)\<in>set cl'. f < 8)
      \<and> (ok \<longleftrightarrow> (\<forall>i. pos \<le> i \<and> i < pos + r \<longrightarrow> cbit ch i))
      \<and> (ok \<longrightarrow> (\<forall>i. cbit ch' i \<longleftrightarrow> cbit ch i \<and> \<not> (pos \<le> i \<and> i < pos + r)))
      \<and> (\<forall>i. cbit ch' i \<or> covered cl' i \<longleftrightarrow> cbit ch i \<or> covered cl i)"
proof (induction r arbitrary: pos ch cl rule: less_induct)
  case (less r)
  show ?case
  proof (cases "r = 0")
    case True
    then show ?thesis using less.prems by (subst clear_loop.simps) auto
  next
    case False
    then obtain f b h where P: "is_piece ch pos r f b h" using round [OF less.prems(1,2)] by blast
    note R = is_pieceD [OF P]
    let ?msk = "push_bit b (mask_n h)" and ?ch = "ch[f := ch ! f AND NOT (push_bit b (mask_n h))]"
    have set: "bf_all_set (ch ! f) ?msk \<longleftrightarrow> (\<forall>i. pos \<le> i \<and> i < pos + h \<longrightarrow> cbit ch i)"
      using piece_all [OF P less.prems(1), of "\<lambda>x. x"] by (simp add: bf_all_set_iff)
    note split_range = range_split [OF R(6), of pos "cbit ch"]
    show ?thesis
    proof (cases "bf_all_set (ch ! f) ?msk")
      case bad: False
      then have "clear_loop ch cl pos r = Inr (False, ch, cl)"
        using False R(1-3) by (subst clear_loop.simps) (simp add: Let_def bf_try_clear_mask_eq)
      moreover have "\<not> (\<forall>i. pos \<le> i \<and> i < pos + r \<longrightarrow> cbit ch i)" using bad set split_range by blast
      ultimately show ?thesis using less.prems(1,4) by blast
    next
      case True
      let ?cl = "cl @ [(f, ?msk)]"
      note upd = piece_update(2) [OF P less.prems(1)]
      have len: "length cl < 8" using less.prems(3) R(4,7) by simp
      have cov: "cbit ?ch i \<or> covered ?cl i \<longleftrightarrow> cbit ch i \<or> covered cl i" for i
      proof -
        have "i div 64 = f \<and> bit ?msk (i mod 64) \<longleftrightarrow> pos \<le> i \<and> i < pos + h" using R(8,9) by blast
        moreover have "pos \<le> i \<and> i < pos + h \<Longrightarrow> cbit ch i" using True set by blast
        ultimately show ?thesis using upd [of i] by (auto simp: covered_snoc)
      qed
      have next_field: "length ?cl \<le> (pos + h) div 64" if "h \<noteq> r"
      proof -
        have "h = 64 - b" "b = pos mod 64" using that R(1,2,6) by (auto simp: split_def mi_consts min_def split: if_splits)
        moreover have "pos = 64 * f + pos mod 64" using R(7) by simp
        ultimately have "pos + h = 64 * (f + 1)" by (simp add: algebra_simps)
        then show ?thesis using less.prems(3) R(7) by simp
      qed
      obtain ok ch' cl' where IH: "clear_loop ?ch ?cl (pos + h) (r - h) = Inr (ok, ch', cl')" "length ch' = 8"
          "\<forall>(f, msk)\<in>set cl'. f < 8"
          "ok \<longleftrightarrow> (\<forall>i. pos + h \<le> i \<and> i < pos + h + (r - h) \<longrightarrow> cbit ?ch i)"
          "ok \<longrightarrow> (\<forall>i. cbit ch' i \<longleftrightarrow> cbit ?ch i \<and> \<not> (pos + h \<le> i \<and> i < pos + h + (r - h)))"
          "\<forall>i. cbit ch' i \<or> covered cl' i \<longleftrightarrow> cbit ?ch i \<or> covered ?cl i"
      proof (cases "h = r")
        case eq: True
        have "clear_loop ?ch ?cl (pos + h) (r - h) = Inr (True, ?ch, ?cl)"
          using eq by (subst clear_loop.simps) simp
        moreover have "\<forall>(f, msk)\<in>set ?cl. f < 8" using less.prems(4) R(4) by auto
        ultimately show thesis using eq less.prems(1) by (intro that [of True ?ch ?cl]) auto
      next
        case ne: False
        have "\<forall>(f, msk)\<in>set ?cl. f < 8" using less.prems(4) R(4) by auto
        moreover have "r - h < r" "pos + h + (r - h) \<le> 512" "length ?ch = 8" using R(5,6) less.prems False by auto
        ultimately show thesis
          using less.IH [of "r - h" ?ch "pos + h" ?cl] next_field [OF ne] that by blast
      qed
      have "clear_loop ch cl pos r = Inr (ok, ch', cl')"
        using False R(1-3) True len IH(1) by (subst clear_loop.simps) (simp add: Let_def bf_try_clear_mask_eq mi_consts)
      moreover have "ok \<longleftrightarrow> (\<forall>i. pos \<le> i \<and> i < pos + r \<longrightarrow> cbit ch i)"
      proof -
        have "cbit ?ch i \<longleftrightarrow> cbit ch i" if "pos + h \<le> i" for i using that unfolding upd by linarith
        then have "ok \<longleftrightarrow> (\<forall>i. pos + h \<le> i \<and> i < pos + h + (r - h) \<longrightarrow> cbit ch i)" using IH(4) by blast
        with True set split_range show ?thesis by blast
      qed
      moreover have "ok \<longrightarrow> (\<forall>i. cbit ch' i \<longleftrightarrow> cbit ch i \<and> \<not> (pos \<le> i \<and> i < pos + r))"
      proof (intro impI allI)
        fix i assume ok
        then have "cbit ch' i \<longleftrightarrow> (cbit ch i \<and> \<not> (pos \<le> i \<and> i < pos + h)) \<and> \<not> (pos + h \<le> i \<and> i < pos + h + (r - h))"
          using IH(5) unfolding upd by blast
        then show "cbit ch' i \<longleftrightarrow> cbit ch i \<and> \<not> (pos \<le> i \<and> i < pos + r)" using R(6) by linarith
      qed
      ultimately show ?thesis using IH(2,3,6) cov by blast
    qed
  qed
qed

lemma covered_nil [simp]: "\<not> covered [] i"
  by (simp add: covered_def)

lemma chunk_try_clear_n_range:
  assumes "length ch = 8" "pos + n \<le> 512" "pos < 512"
  shows "\<exists>ok ch'. chunk_try_clear_n ch pos n = Inr (ok, ch') \<and> length ch' = 8
    \<and> (ok \<longleftrightarrow> (\<forall>i. pos \<le> i \<and> i < pos + n \<longrightarrow> cbit ch i))
    \<and> (\<forall>i. cbit ch' i \<longleftrightarrow> cbit ch i \<and> \<not> (ok \<and> pos \<le> i \<and> i < pos + n))
    \<and> (\<not> ok \<longrightarrow> ch' = ch)"
proof (cases "pos mod 64 + n \<le> 64")
  case single: True
  let ?f = "pos div 64" and ?b = "pos mod 64"
  have f: "?f < 8" using assms(3) by (simp add: less_mult_imp_div_less)
  then have fld: "field ch ?f = Inr (ch ! ?f)" using assms(1) by (simp add: field_def)
  let ?msk = "push_bit ?b (mask_n n)"
  have run: "chunk_try_clear_n ch pos n = Inr (bf_all_set (ch ! ?f) ?msk, ch[?f := if bf_all_set (ch ! ?f) ?msk then ch ! ?f AND NOT ?msk else ch ! ?f])"
    using single fld by (simp add: chunk_try_clear_n_def split_def mi_consts bf_try_clear_mask_eq)
  show ?thesis
  proof (cases "n = 0")
    case True
    then have "?msk = 0" by (simp add: mask_n_def mi_consts)
    with True run f assms(1) show ?thesis by (auto simp: bf_all_set_def)
  next
    case False
    obtain f' b' h where P: "is_piece ch pos n f' b' h" using round [OF assms(1,2)] False by blast
    note R = is_pieceD [OF P]
    have same: "f' = ?f" "b' = ?b" "h = n" using R(1,2) single by (auto simp: split_def mi_consts)
    have set: "bf_all_set (ch ! ?f) ?msk \<longleftrightarrow> (\<forall>i. pos \<le> i \<and> i < pos + n \<longrightarrow> cbit ch i)"
      using piece_all [OF P assms(1), of "\<lambda>x. x"] by (simp add: bf_all_set_iff same)
    have "cbit (ch[?f := ch ! ?f AND NOT ?msk]) i \<longleftrightarrow> cbit ch i \<and> \<not> (pos \<le> i \<and> i < pos + n)" for i
      using piece_update(2) [OF P assms(1)] by (simp add: same)
    with run set assms(1) show ?thesis by (cases "bf_all_set (ch ! ?f) ?msk") auto
  qed
next
  case False
  obtain ok ch' cl' where L: "clear_loop ch [] pos n = Inr (ok, ch', cl')" "length ch' = 8" "\<forall>(f, msk)\<in>set cl'. f < 8"
      "ok \<longleftrightarrow> (\<forall>i. pos \<le> i \<and> i < pos + n \<longrightarrow> cbit ch i)"
      "ok \<longrightarrow> (\<forall>i. cbit ch' i \<longleftrightarrow> cbit ch i \<and> \<not> (pos \<le> i \<and> i < pos + n))"
      "\<forall>i. cbit ch' i \<or> covered cl' i \<longleftrightarrow> cbit ch i"
    using clear_loop_range [OF assms(1,2), of "[]"] by auto
  have run: "chunk_try_clear_n ch pos n = Inr (if ok then (True, ch') else (False, rollback ch' cl'))"
    using False L(1) by (simp add: chunk_try_clear_n_def split_def mi_consts)
  have "rollback ch' cl' = ch"
    using rollback_bits [OF L(2,3)] L(6) assms(1) by (intro chunk_eqI) auto
  with run L(2,4,5) assms(1) show ?thesis by (cases ok) auto
qed

section \<open>Searching a chunk\<close>

text \<open>A range that tests as set is never refused, so a search loop that re-probes cannot hang.\<close>

lemma for_each_field_mask_update:
  "f < pos div 64 \<Longrightarrow> for_each_field_mask pred (ch[f := w]) pos r = for_each_field_mask pred ch pos r"
proof (induction r arbitrary: pos rule: less_induct)
  case (less r)
  obtain g b where s: "split pos = (g, b)" by force
  then have g: "g = pos div 64" "b < 64" by (auto simp: split_def mi_consts)
  have "field (ch[f := w]) g = field ch g" using less.prems g by (simp add: field_def)
  moreover define h where "h = min r (FIELD_BITS - b)"
  moreover have "for_each_field_mask pred (ch[f := w]) (pos + h) (r - h) = for_each_field_mask pred ch (pos + h) (r - h)"
    if "0 < r"
    using that h_def less.prems g(2) div_le_mono [of pos "pos + h" 64] by (intro less.IH) (auto simp: mi_consts)
  ultimately show ?case
    by (subst (1 2) for_each_field_mask.simps) (simp add: s Let_def cong: if_cong flip: h_def)
qed

lemma clear_loop_not_refused:
  "for_each_field_mask bf_all_set ch pos r = Inr True \<Longrightarrow> clear_loop ch cl pos r \<noteq> Inr (False, x)"
proof (induction r arbitrary: pos ch cl rule: less_induct)
  case (less r)
  show ?case
  proof (cases "r = 0")
    case True
    then show ?thesis by (subst clear_loop.simps) simp
  next
    case False
    obtain f b where s: "split pos = (f, b)" by force
    define h where "h = min r (FIELD_BITS - b)"
    define msk where "msk = push_bit b (mask_n h)"
    have fb: "f = pos div 64" "b = pos mod 64" using s by (auto simp: split_def mi_consts)
    have h: "0 < h" "h \<le> r" using False fb(2) by (auto simp: h_def mi_consts)
    obtain w where w: "field ch f = Inr w" "bf_all_set w msk" and rest: "for_each_field_mask bf_all_set ch (pos + h) (r - h) = Inr True"
      using less.prems False by (subst (asm) for_each_field_mask.simps)
        (auto simp: s Let_def run_bind_eq_Inr simp flip: h_def msk_def split: if_splits)
    have "for_each_field_mask bf_all_set (ch[f := w AND NOT msk]) (pos + h) (r - h) = Inr True"
    proof (cases "h = r")
      case True
      then show ?thesis by (subst for_each_field_mask.simps) simp
    next
      case False
      then have "h = 64 - pos mod 64" by (simp add: h_def fb mi_consts min_def split: if_splits)
      moreover have "pos = 64 * f + pos mod 64" using fb by simp
      ultimately have "pos + h = 64 * (f + 1)" by (simp add: algebra_simps)
      then show ?thesis using rest for_each_field_mask_update [of f "pos + h" bf_all_set ch _ "r - h"] by simp
    qed
    then have "clear_loop (ch[f := w AND NOT msk]) (cl @ [(f, msk)]) (pos + h) (r - h) \<noteq> Inr (False, x)"
      using h by (intro less.IH) simp_all
    then show ?thesis
      using False w by (subst clear_loop.simps) (simp add: s Let_def bf_try_clear_mask_eq flip: h_def msk_def)
  qed
qed

lemma chunk_try_clear_n_not_refused:
  assumes "chunk_is_set_n ch pos n = Inr True"
  shows "chunk_try_clear_n ch pos n \<noteq> Inr (False, ch')"
proof (cases "pos mod 64 + n \<le> 64 \<and> 0 < n")
  case True
  then have "n \<le> 64 - pos mod 64" by linarith
  then have "min n (64 - pos mod 64) = n" by simp
  then show ?thesis
    using True assms unfolding chunk_is_set_n_def
    by (subst (asm) for_each_field_mask.simps)
      (auto simp: chunk_try_clear_n_def split_def mi_consts Let_def run_bind_eq_Inr bf_try_clear_mask_eq split: if_splits)
next
  case False
  show ?thesis
  proof (cases "n = 0")
    case True
    then show ?thesis
      by (auto simp: chunk_try_clear_n_def split_def mi_consts run_bind_eq_Inr bf_try_clear_mask_eq mask_n_def bf_all_set_def)
  next
    case ne: False
    have "clear_loop ch [] pos n \<noteq> Inr (False, x)" for x
      using assms unfolding chunk_is_set_n_def by (rule clear_loop_not_refused)
    then show ?thesis
      using False ne by (auto simp: chunk_try_clear_n_def split_def mi_consts run_bind_eq_Inr split: if_splits)
  qed
qed

text \<open>The scan of the fields in turn, and the scan over all start positions.\<close>

fun find_in_fields :: "chunk \<Rightarrow> nat \<Rightarrow> nat list \<Rightarrow> (nat \<times> chunk) option run" where
  "find_in_fields ch n [] = Inr None"
| "find_in_fields ch n (f # fs) =
    run_bind (field ch f) (\<lambda>w.
      case bf_find_and_clear_run w n of
        Some (b, w') \<Rightarrow> Inr (Some (f * FIELD_BITS + b, ch[f := w']))
      | None \<Rightarrow> find_in_fields ch n fs)"

function find_spanning :: "chunk \<Rightarrow> nat \<Rightarrow> nat \<Rightarrow> (nat \<times> chunk) option run" where
  "find_spanning ch n start =
    (if start + n \<le> CHUNK_BITS
     then run_bind (chunk_is_set_n ch start n) (\<lambda>is_set.
            if is_set
            then run_bind (chunk_try_clear_n ch start n) (\<lambda>(ok, ch').
                   if ok then Inr (Some (start, ch'))
                   else find_spanning ch' n start)
            else find_spanning ch n (start + 1))
     else Inr None)"
  by pat_completeness auto
termination
  by (relation "measure (\<lambda>(_, n, start). CHUNK_BITS + 1 - start)")
    (auto dest: chunk_try_clear_n_not_refused)

declare find_spanning.simps [simp del]

definition find_and_clear_n :: "chunk \<Rightarrow> nat \<Rightarrow> (nat \<times> chunk) option run" where
  "find_and_clear_n ch n =
    (if n = 0 \<or> n > CHUNK_BITS then Inr None
     else run_bind (if n \<le> FIELD_BITS then find_in_fields ch n [0..<CHUNK_FIELDS] else Inr None) (\<lambda>found.
            case found of
              Some r \<Rightarrow> Inr (Some r)
            | None \<Rightarrow>
                let free = chunk_popcount ch
                in if free < n then Inr None else find_spanning ch n 0))"

subsection \<open>Runs in a field\<close>

lemma run_scan_Some:
  "run_scan w n s = Some k \<Longrightarrow> s \<le> k \<and> k + n \<le> 64 \<and> bf_all_set w (push_bit k (mask_n n))"
proof (induction w n s rule: run_scan.induct)
  case (1 w n s)
  then show ?case
    by (subst (asm) run_scan.simps) (auto simp: Let_def mi_consts bf_all_set_def split: if_splits)
qed

lemma run_scan_None:
  "run_scan w n s = None \<Longrightarrow> s \<le> k \<Longrightarrow> k + n \<le> 64 \<Longrightarrow> \<not> bf_all_set w (push_bit k (mask_n n))"
proof (induction w n s rule: run_scan.induct)
  case (1 w n s)
  have "s + n \<le> 64" using "1.prems" by simp
  moreover have "\<not> bf_all_set w (push_bit s (mask_n n))" and "run_scan w n (s + 1) = None"
    using "1.prems"(1) calculation by (subst (asm) run_scan.simps; simp add: Let_def mi_consts bf_all_set_def split: if_splits)+
  ultimately show ?case
    using "1.IH" "1.prems" by (cases "k = s") (auto simp: mi_consts bf_all_set_def Let_def)
qed

lemma popcount_run: "k + n \<le> 64 \<Longrightarrow> bf_all_set w (push_bit k (mask_n n)) \<Longrightarrow> n \<le> mi_popcount w"
proof -
  assume k: "k + n \<le> 64" and w: "bf_all_set w (push_bit k (mask_n n))"
  have "[0..<64] = [0..<k] @ [k..<k + n] @ [k + n..<64]"
    using k by (metis append_assoc le_add1 le_add_diff_inverse upt_add_eq_append zero_le add_0)
  moreover have "filter (bit w) [k..<k + n] = [k..<k + n]"
    using w k by (intro filter_True) (auto simp: bf_all_set_iff bit_range_mask)
  ultimately show ?thesis by (simp add: mi_popcount_def)
qed

lemma bf_find_and_clear_run_spec:
  assumes "0 < n" "n \<le> 64"
  shows "case bf_find_and_clear_run w n of
      Some (k, w') \<Rightarrow> k + n \<le> 64 \<and> bf_all_set w (push_bit k (mask_n n)) \<and> w' = w AND NOT (push_bit k (mask_n n))
    | None \<Rightarrow> (\<forall>k. k + n \<le> 64 \<longrightarrow> \<not> bf_all_set w (push_bit k (mask_n n)))"
proof (cases "mi_popcount w < n")
  case True
  then have "bf_find_and_clear_run w n = None" using assms by (simp add: bf_find_and_clear_run_def mi_consts)
  with True popcount_run show ?thesis by fastforce
next
  case False
  then show ?thesis
    using assms run_scan_Some [of w n 0] run_scan_None [of w n 0]
    by (auto simp: bf_find_and_clear_run_def mi_consts Let_def split: option.splits)
qed

subsection \<open>Counting\<close>

lemma mi_popcount_card: "mi_popcount w = card {j. j < 64 \<and> bit w j}"
proof -
  have "mi_popcount w = card (set (filter (bit w) [0..<64]))"
    unfolding mi_popcount_def by (rule distinct_card [symmetric]) simp
  moreover have "set (filter (bit w) [0..<64]) = {j. j < 64 \<and> bit w j}" by auto
  ultimately show ?thesis by simp
qed

lemma cbit_bound: "cbit ch i \<Longrightarrow> i < 64 * length ch"
  by (auto simp: cbit_def div_less_iff_less_mult mult.commute)

lemma cbit_Cons: "cbit (w # ch) i \<longleftrightarrow> (if i < 64 then bit w i else cbit ch (i - 64))"
proof (cases "i < 64")
  case False
  then have "i div 64 = Suc ((i - 64) div 64)" "i mod 64 = (i - 64) mod 64"
    by (simp_all add: le_div_geq le_mod_geq)
  with False show ?thesis by (simp add: cbit_def)
qed (simp add: cbit_def)

lemma chunk_popcount_card: "chunk_popcount ch = card {i. cbit ch i}"
proof (induction ch)
  case Nil
  then show ?case by (simp add: chunk_popcount_def cbit_def)
next
  case (Cons w ch)
  have fin: "finite {i. cbit ch i}" by (rule finite_subset [of _ "{..<64 * length ch}"]) (auto dest: cbit_bound)
  have "{i. cbit (w # ch) i} = {j. j < 64 \<and> bit w j} \<union> (\<lambda>i. i + 64) ` {i. cbit ch i}"
  proof (rule set_eqI)
    fix x
    show "x \<in> {i. cbit (w # ch) i} \<longleftrightarrow> x \<in> {j. j < 64 \<and> bit w j} \<union> (\<lambda>i. i + 64) ` {i. cbit ch i}"
    proof (cases "x < 64")
      case False
      then have "x = (x - 64) + 64" by simp
      with False show ?thesis by (auto simp: cbit_Cons)
    qed (auto simp: cbit_Cons)
  qed
  moreover have "{j. j < 64 \<and> bit w j} \<inter> (\<lambda>i. i + 64) ` {i. cbit ch i} = {}" by auto
  moreover have "card ((\<lambda>i. i + 64) ` {i. cbit ch i}) = card {i. cbit ch i}" by (rule card_image) (simp add: inj_on_def)
  ultimately have "card {i. cbit (w # ch) i} = mi_popcount w + card {i. cbit ch i}"
    using fin by (simp add: card_Un_disjoint mi_popcount_card)
  with Cons show ?case by (simp add: chunk_popcount_def)
qed

subsection \<open>The search is sound and complete\<close>

definition free_run :: "chunk \<Rightarrow> nat \<Rightarrow> nat \<Rightarrow> bool" where
  "free_run ch k n \<longleftrightarrow> k + n \<le> 512 \<and> (\<forall>i. k \<le> i \<and> i < k + n \<longrightarrow> cbit ch i)"

text \<open>A search result: the run that was taken, or the absence of any run from \<open>start\<close> on.\<close>

definition taken :: "chunk \<Rightarrow> nat \<Rightarrow> nat \<Rightarrow> chunk \<Rightarrow> bool" where
  "taken ch n k ch' \<longleftrightarrow> free_run ch k n \<and> length ch' = 8
    \<and> (\<forall>i. cbit ch' i \<longleftrightarrow> cbit ch i \<and> \<not> (k \<le> i \<and> i < k + n))"

lemma free_run_popcount: "length ch = 8 \<Longrightarrow> free_run ch k n \<Longrightarrow> n \<le> chunk_popcount ch"
proof -
  assume l: "length ch = 8" and r: "free_run ch k n"
  have "finite {i. cbit ch i}" by (rule finite_subset [of _ "{..<64 * length ch}"]) (auto dest: cbit_bound)
  then have "card {k..<k + n} \<le> card {i. cbit ch i}"
    using r by (intro card_mono) (auto simp: free_run_def)
  then show ?thesis by (simp add: chunk_popcount_card)
qed

lemma find_spanning_spec:
  assumes "length ch = 8" "0 < n"
  shows "(\<exists>k ch'. find_spanning ch n start = Inr (Some (k, ch')) \<and> taken ch n k ch')
    \<or> find_spanning ch n start = Inr None \<and> (\<forall>k\<ge>start. \<not> free_run ch k n)"
proof (induction "513 - start" arbitrary: start rule: less_induct)
  case less
  show ?case
  proof (cases "start + n \<le> 512")
    case False
    then show ?thesis by (subst (1 2) find_spanning.simps) (auto simp: mi_consts free_run_def)
  next
    case True
    have set: "chunk_is_set_n ch start n = Inr (free_run ch start n)"
      using chunk_is_set_n_range [OF assms(1) True] True by (simp add: free_run_def)
    show ?thesis
    proof (cases "free_run ch start n")
      case yes: True
      have "start < 512" using True assms(2) by simp
      then obtain ch' where "chunk_try_clear_n ch start n = Inr (True, ch')" "length ch' = 8"
          "\<forall>i. cbit ch' i \<longleftrightarrow> cbit ch i \<and> \<not> (start \<le> i \<and> i < start + n)"
        using chunk_try_clear_n_range [OF assms(1) True] yes by (auto simp: free_run_def)
      moreover from this have "find_spanning ch n start = Inr (Some (start, ch'))"
        using True set yes by (subst find_spanning.simps) (simp add: mi_consts)
      ultimately show ?thesis using yes by (auto simp: taken_def)
    next
      case no: False
      have step: "find_spanning ch n start = find_spanning ch n (start + 1)"
        using True set no by (subst find_spanning.simps) (simp add: mi_consts)
      have "513 - (start + 1) < 513 - start" using True by simp
      then have "(\<exists>k ch'. find_spanning ch n (start + 1) = Inr (Some (k, ch')) \<and> taken ch n k ch')
          \<or> find_spanning ch n (start + 1) = Inr None \<and> (\<forall>k\<ge>start + 1. \<not> free_run ch k n)"
        by (rule less)
      then show ?thesis unfolding step using no by (metis le_antisym not_less_eq_eq Suc_eq_plus1)
    qed
  qed
qed

lemma find_in_fields_spec:
  assumes "length ch = 8" "0 < n" "n \<le> 64" "\<forall>f\<in>set fs. f < 8"
  shows "(\<exists>k ch'. find_in_fields ch n fs = Inr (Some (k, ch')) \<and> taken ch n k ch') \<or> find_in_fields ch n fs = Inr None"
  using assms(4)
proof (induction fs)
  case (Cons f fs)
  then have fld: "field ch f = Inr (ch ! f)" using assms(1) by (simp add: field_def)
  show ?case
  proof (cases "bf_find_and_clear_run (ch ! f) n")
    case None
    with Cons fld show ?thesis by simp
  next
    case (Some r)
    then obtain b where b: "bf_find_and_clear_run (ch ! f) n = Some (b, ch ! f AND NOT (push_bit b (mask_n n)))"
        "b + n \<le> 64" "bf_all_set (ch ! f) (push_bit b (mask_n n))"
      using bf_find_and_clear_run_spec [OF assms(2,3), of "ch ! f"] by (auto split: prod.splits)
    have pos: "f * 64 + b + n \<le> 512" "b < 64" using b(2) Cons.prems assms(2) by auto
    obtain f' b' h where P: "is_piece ch (f * 64 + b) n f' b' h" using round [OF assms(1) pos(1) assms(2)] by blast
    note R = is_pieceD [OF P]
    have same: "f' = f" "b' = b" "h = n" using R(1,2) pos(2) b(2) by (auto simp: split_def mi_consts)
    have "\<forall>i. f * 64 + b \<le> i \<and> i < f * 64 + b + n \<longrightarrow> cbit ch i"
      using piece_all [OF P assms(1), of "\<lambda>x. x"] b(3) by (simp add: bf_all_set_iff same)
    then have "taken ch n (f * 64 + b) (ch[f := ch ! f AND NOT (push_bit b (mask_n n))])"
      using piece_update(2) [OF P assms(1)] pos(1) assms(1) by (simp add: taken_def free_run_def same)
    then show ?thesis using fld b(1) by (simp add: mi_consts)
  qed
qed simp

lemma find_and_clear_n_spec:
  assumes "length ch = 8" "0 < n" "n \<le> 512"
  shows "(\<exists>k ch'. find_and_clear_n ch n = Inr (Some (k, ch')) \<and> taken ch n k ch')
    \<or> find_and_clear_n ch n = Inr None \<and> (\<forall>k. \<not> free_run ch k n)"
proof -
  define r where "r = (if n \<le> 64 then find_in_fields ch n [0..<8] else Inr None)"
  have r: "(\<exists>k ch'. r = Inr (Some (k, ch')) \<and> taken ch n k ch') \<or> r = Inr None"
    using find_in_fields_spec [OF assms(1,2), of "[0..<8]"] by (auto simp: r_def)
  have run: "find_and_clear_n ch n = run_bind r (\<lambda>found. case found of Some x \<Rightarrow> Inr (Some x)
      | None \<Rightarrow> if chunk_popcount ch < n then Inr None else find_spanning ch n 0)"
    using assms by (simp add: find_and_clear_n_def mi_consts r_def)
  show ?thesis
  proof (cases "r = Inr None")
    case True
    show ?thesis
    proof (cases "chunk_popcount ch < n")
      case lt: True
      then have "\<not> free_run ch k n" for k using free_run_popcount [OF assms(1)] by force
      then show ?thesis using run True lt by simp
    next
      case False
      then show ?thesis using find_spanning_spec [OF assms(1,2), of 0] run True by simp
    qed
  next
    case False
    with r run show ?thesis by auto
  qed
qed

text \<open>
  Claiming \<open>n\<close> contiguous bits of a chunk finds a run whenever there is one, also across field
  boundaries, clears exactly that run, and reports failure only when no such run exists; it never
  panics and always ends.
\<close>

theorem chunk_find_and_clear_complete:
  assumes "length ch = 8" "0 < n" "n \<le> 512"
  shows "(\<exists>k ch'. find_and_clear_n ch n = Inr (Some (k, ch')) \<and> k + n \<le> 512 \<and> length ch' = 8
        \<and> (\<forall>i. k \<le> i \<and> i < k + n \<longrightarrow> cbit ch i)
        \<and> (\<forall>i. cbit ch' i \<longleftrightarrow> cbit ch i \<and> \<not> (k \<le> i \<and> i < k + n)))
    \<or> find_and_clear_n ch n = Inr None \<and> (\<forall>k. \<not> (k + n \<le> 512 \<and> (\<forall>i. k \<le> i \<and> i < k + n \<longrightarrow> cbit ch i)))"
  using find_and_clear_n_spec [OF assms] unfolding taken_def free_run_def by blast

lemma chunk_find_and_clear_complete_witness:
  "find_and_clear_n chunk_zeroed 3 = Inr None"
  using chunk_find_and_clear_complete [of chunk_zeroed 3] by (auto simp: chunk_zeroed_def mi_consts cbit_def)

end
