(* ===== verification/MiBitmap.thy ===== *)
theory MiBitmap
  imports MiChunk
begin

unbundle bit_operations_syntax

text \<open>
  \<^verbatim>\<open>src/bitmap.rs\<close>, upper half: a bitmap is a chunkmap, with one bit per chunk that may be
  non-empty, and its chunks. Operations return the updated bitmap; indexing past the chunks or
  past the fields of a chunk panics as in the source. Each operation is one thread's execution
  without interference.
\<close>

record bitmap =
  bm_chunkmap :: chunk
  bm_chunks :: "chunk list"

definition chunk_count :: "bitmap \<Rightarrow> nat" where
  "chunk_count bm = length (bm_chunks bm)"

definition max_bits :: "bitmap \<Rightarrow> nat" where
  "max_bits bm = length (bm_chunks bm) * CHUNK_BITS"

definition chunk_of :: "nat \<Rightarrow> nat \<times> nat" where
  "chunk_of idx = (idx div CHUNK_BITS, idx mod CHUNK_BITS)"

definition chunk_at :: "bitmap \<Rightarrow> nat \<Rightarrow> chunk run" where
  "chunk_at bm c = (if c < length (bm_chunks bm) then Inr (bm_chunks bm ! c) else Inl Index_Out_Of_Bounds)"

definition put_chunk :: "nat \<Rightarrow> chunk \<Rightarrow> bitmap \<Rightarrow> bitmap" where
  "put_chunk c ch bm = bm\<lparr>bm_chunks := (bm_chunks bm)[c := ch]\<rparr>"

definition chunkmap_set :: "nat \<Rightarrow> bitmap \<Rightarrow> bitmap run" where
  "chunkmap_set cidx bm =
    (let (f, b) = split cidx
     in run_bind (field (bm_chunkmap bm) f) (\<lambda>w.
          Inr (bm\<lparr>bm_chunkmap := (bm_chunkmap bm)[f := snd (bf_set_mask w (push_bit b 1))]\<rparr>)))"

definition chunkmap_clear_if_empty :: "nat \<Rightarrow> bitmap \<Rightarrow> bitmap run" where
  "chunkmap_clear_if_empty cidx bm =
    run_bind (chunk_at bm cidx) (\<lambda>ch.
      if \<not> chunk_is_all_clear ch then Inr bm
      else let (f, b) = split cidx
           in run_bind (field (bm_chunkmap bm) f) (\<lambda>w.
                let (ok, w') = bf_try_clear_mask w (push_bit b 1);
                    bm = bm\<lparr>bm_chunkmap := (bm_chunkmap bm)[f := w']\<rparr>
                in if ok
                   then run_bind (chunk_at bm cidx) (\<lambda>ch.
                          if \<not> chunk_is_all_clear ch
                          then Inr (bm\<lparr>bm_chunkmap := (bm_chunkmap bm)[f := snd (bf_set_mask w' (push_bit b 1))]\<rparr>)
                          else Inr bm)
                   else Inr bm))"

definition set_n :: "nat \<Rightarrow> nat \<Rightarrow> bitmap \<Rightarrow> (bool \<times> bitmap) run" where
  "set_n idx n bm =
    (let (c, b) = chunk_of idx
     in run_bind (chunk_at bm c) (\<lambda>ch.
        run_bind (chunk_is_clear_n ch b n) (\<lambda>before_clear.
        run_bind (chunk_set_n ch b n) (\<lambda>ch.
        run_bind (chunkmap_set c (put_chunk c ch bm)) (\<lambda>bm.
          Inr (before_clear, bm))))))"

definition clear_n :: "nat \<Rightarrow> nat \<Rightarrow> bitmap \<Rightarrow> (bool \<times> bitmap) run" where
  "clear_n idx n bm =
    (let (c, b) = chunk_of idx
     in run_bind (chunk_at bm c) (\<lambda>ch.
        run_bind (chunk_try_clear_n ch b n) (\<lambda>(ok, ch).
          let bm = put_chunk c ch bm
          in if ok then run_bind (chunkmap_clear_if_empty c bm) (\<lambda>bm. Inr (ok, bm)) else Inr (ok, bm))))"

definition set_bit1 :: "nat \<Rightarrow> bitmap \<Rightarrow> (bool \<times> bitmap) run" where
  "set_bit1 idx bm = set_n idx 1 bm"

definition clear_bit1 :: "nat \<Rightarrow> bitmap \<Rightarrow> (bool \<times> bitmap) run" where
  "clear_bit1 idx bm = clear_n idx 1 bm"

definition is_set :: "nat \<Rightarrow> bitmap \<Rightarrow> bool run" where
  "is_set idx bm =
    (let (c, b) = chunk_of idx in run_bind (chunk_at bm c) (\<lambda>ch. chunk_is_set ch b))"

definition is_set_n :: "nat \<Rightarrow> nat \<Rightarrow> bitmap \<Rightarrow> bool run" where
  "is_set_n idx n bm =
    (let (c, b) = chunk_of idx
     in if b + n > CHUNK_BITS then Inr False else run_bind (chunk_at bm c) (\<lambda>ch. chunk_is_set_n ch b n))"

definition is_clear_n :: "nat \<Rightarrow> nat \<Rightarrow> bitmap \<Rightarrow> bool run" where
  "is_clear_n idx n bm =
    (let (c, b) = chunk_of idx
     in if b + n > CHUNK_BITS then Inr False else run_bind (chunk_at bm c) (\<lambda>ch. chunk_is_clear_n ch b n))"

lemma chunk_of_rest: "(c, b) = chunk_of pos \<Longrightarrow> b < 512"
  by (auto simp: chunk_of_def mi_consts)

text \<open>\<open>unsafe_set_n\<close>: the bulk set over several chunks used while a bitmap is built.\<close>

function unsafe_set_n :: "nat \<Rightarrow> nat \<Rightarrow> bitmap \<Rightarrow> bitmap run" where
  "unsafe_set_n pos remaining bm =
    (if remaining > 0
     then let (c, b) = chunk_of pos; here = min remaining (CHUNK_BITS - b)
          in run_bind (chunk_at bm c) (\<lambda>ch.
             run_bind (chunk_set_n ch b here) (\<lambda>ch.
             run_bind (chunkmap_set c (put_chunk c ch bm)) (\<lambda>bm.
               unsafe_set_n (pos + here) (remaining - here) bm)))
     else Inr bm)"
  by pat_completeness auto
termination
  by (relation "measure (\<lambda>(_, remaining, _). remaining)") (auto simp: mi_consts dest: chunk_of_rest)

declare unsafe_set_n.simps [simp del]

section \<open>Searches\<close>

text \<open>The round-robin scan of the chunks \<open>cs\<close>, skipping those the chunkmap marks empty.\<close>

fun find_in_chunks :: "nat \<Rightarrow> nat list \<Rightarrow> bitmap \<Rightarrow> (nat option \<times> bitmap) run" where
  "find_in_chunks n [] bm = Inr (None, bm)"
| "find_in_chunks n (c # cs) bm =
    run_bind (chunk_is_set (bm_chunkmap bm) c) (\<lambda>marked.
      if \<not> marked then find_in_chunks n cs bm
      else run_bind (chunk_at bm c) (\<lambda>ch.
           run_bind (find_and_clear_n ch n) (\<lambda>found.
             case found of
               None \<Rightarrow> find_in_chunks n cs bm
             | Some (b, ch) \<Rightarrow>
                 run_bind (chunkmap_clear_if_empty c (put_chunk c ch bm)) (\<lambda>bm.
                   Inr (Some (c * CHUNK_BITS + b), bm)))))"

text \<open>The order in which the chunks are visited.\<close>

definition chunk_order :: "nat \<Rightarrow> nat \<Rightarrow> nat list" where
  "chunk_order start cc = map (\<lambda>k. (start + k) mod cc) [0..<cc]"

function range_is_set :: "nat \<Rightarrow> nat \<Rightarrow> bitmap \<Rightarrow> bool run" where
  "range_is_set pos remaining bm =
    (if remaining > 0
     then let (c, b) = chunk_of pos; here = min remaining (CHUNK_BITS - b)
          in run_bind (chunk_at bm c) (\<lambda>ch.
             run_bind (chunk_is_set_n ch b here) (\<lambda>ok.
               if \<not> ok then Inr False else range_is_set (pos + here) (remaining - here) bm))
     else Inr True)"
  by pat_completeness auto
termination
  by (relation "measure (\<lambda>(_, remaining, _). remaining)") (auto simp: mi_consts dest: chunk_of_rest)

declare range_is_set.simps [simp del]

text \<open>Clearing chunk by chunk; \<open>done\<close> counts the bits cleared so far.\<close>

function range_clear_loop :: "nat \<Rightarrow> nat \<Rightarrow> nat \<Rightarrow> bitmap \<Rightarrow> (bool \<times> nat \<times> bitmap) run" where
  "range_clear_loop pos remaining don bm =
    (if remaining > 0
     then let (c, b) = chunk_of pos; here = min remaining (CHUNK_BITS - b)
          in run_bind (chunk_at bm c) (\<lambda>ch.
             run_bind (chunk_try_clear_n ch b here) (\<lambda>(ok, ch).
               let bm = put_chunk c ch bm
               in if ok then range_clear_loop (pos + here) (remaining - here) (don + here) bm
                  else Inr (False, don, bm)))
     else Inr (True, don, bm))"
  by pat_completeness auto
termination
  by (relation "measure (\<lambda>(_, remaining, _). remaining)") (auto simp: mi_consts dest: chunk_of_rest)

declare range_clear_loop.simps [simp del]

function range_rollback :: "nat \<Rightarrow> nat \<Rightarrow> bitmap \<Rightarrow> bitmap run" where
  "range_rollback rpos rb bm =
    (if rb > 0
     then let (c, b) = chunk_of rpos; here = min rb (CHUNK_BITS - b)
          in run_bind (chunk_at bm c) (\<lambda>ch.
             run_bind (chunk_set_n ch b here) (\<lambda>ch.
               range_rollback (rpos + here) (rb - here) (put_chunk c ch bm)))
     else Inr bm)"
  by pat_completeness auto
termination
  by (relation "measure (\<lambda>(_, rb, _). rb)") (auto simp: mi_consts dest: chunk_of_rest)

declare range_rollback.simps [simp del]

fun drop_empty :: "nat list \<Rightarrow> bitmap \<Rightarrow> bitmap run" where
  "drop_empty [] bm = Inr bm"
| "drop_empty (c # cs) bm =
    (if c < length (bm_chunks bm) then run_bind (chunkmap_clear_if_empty c bm) (drop_empty cs)
     else drop_empty cs bm)"

definition range_try_clear :: "nat \<Rightarrow> nat \<Rightarrow> bitmap \<Rightarrow> (bool \<times> bitmap) run" where
  "range_try_clear idx n bm =
    run_bind (range_clear_loop idx n 0 bm) (\<lambda>(ok, don, bm).
      if \<not> ok then run_bind (range_rollback idx don bm) (\<lambda>bm. Inr (False, bm))
      else run_bind (drop_empty (map (\<lambda>off. idx div CHUNK_BITS + off) [0..<nat_div_ceil n CHUNK_BITS + 1]) bm)
             (\<lambda>bm. Inr (True, bm)))"

text \<open>A range that tests as set is never refused, so re-probing the same start cannot hang.\<close>

lemma chunk_at_put_other: "c \<noteq> d \<Longrightarrow> chunk_at (put_chunk c ch bm) d = chunk_at bm d"
  by (simp add: chunk_at_def put_chunk_def)

lemma range_is_set_put:
  "c < pos div 512 \<Longrightarrow> range_is_set pos r (put_chunk c ch bm) = range_is_set pos r bm"
proof (induction r arbitrary: pos rule: less_induct)
  case (less r)
  obtain d b where s: "chunk_of pos = (d, b)" by force
  then have d: "d = pos div 512" "b < 512" by (auto simp: chunk_of_def mi_consts)
  define h where "h = min r (CHUNK_BITS - b)"
  have "chunk_at (put_chunk c ch bm) d = chunk_at bm d" using less.prems d by (intro chunk_at_put_other) simp
  moreover have "range_is_set (pos + h) (r - h) (put_chunk c ch bm) = range_is_set (pos + h) (r - h) bm" if "0 < r"
    using that h_def less.prems d(2) div_le_mono [of pos "pos + h" 512] by (intro less.IH) (auto simp: mi_consts)
  ultimately show ?case
    by (subst (1 2) range_is_set.simps) (simp add: s Let_def cong: if_cong flip: h_def)
qed

lemma range_clear_loop_not_refused:
  "range_is_set pos r bm = Inr True \<Longrightarrow> range_clear_loop pos r don bm \<noteq> Inr (False, x)"
proof (induction r arbitrary: pos bm don rule: less_induct)
  case (less r)
  show ?case
  proof (cases "r = 0")
    case True
    then show ?thesis by (subst range_clear_loop.simps) simp
  next
    case False
    obtain c b where s: "chunk_of pos = (c, b)" by force
    define h where "h = min r (CHUNK_BITS - b)"
    have cb: "c = pos div 512" "b = pos mod 512" using s by (auto simp: chunk_of_def mi_consts)
    have h: "0 < h" "h \<le> r" using False cb(2) by (auto simp: h_def mi_consts)
    obtain ch where ch: "chunk_at bm c = Inr ch" "chunk_is_set_n ch b h = Inr True"
        and rest: "range_is_set (pos + h) (r - h) bm = Inr True"
      using less.prems False by (subst (asm) range_is_set.simps)
        (auto simp: s Let_def run_bind_eq_Inr simp flip: h_def split: if_splits)
    have "range_is_set (pos + h) (r - h) (put_chunk c ch' bm) = Inr True" for ch'
    proof (cases "h = r")
      case True
      then show ?thesis by (subst range_is_set.simps) simp
    next
      case False
      then have "h = 512 - pos mod 512" by (simp add: h_def cb mi_consts min_def split: if_splits)
      moreover have "pos = 512 * c + pos mod 512" using cb by simp
      ultimately have "pos + h = 512 * (c + 1)" by (simp add: algebra_simps)
      then show ?thesis using rest range_is_set_put [of c "pos + h" "r - h" ch' bm] by simp
    qed
    then have "range_clear_loop (pos + h) (r - h) (don + h) (put_chunk c ch' bm) \<noteq> Inr (False, x)" for ch'
      using h by (intro less.IH) simp_all
    then show ?thesis
      using False ch chunk_try_clear_n_not_refused [OF ch(2)]
      by (subst range_clear_loop.simps) (auto simp: s Let_def run_bind_eq_Inr simp flip: h_def split: if_splits)
  qed
qed

lemma range_try_clear_not_refused:
  "range_is_set idx n bm = Inr True \<Longrightarrow> range_try_clear idx n bm \<noteq> Inr (False, bm')"
  using range_clear_loop_not_refused [of idx n bm 0]
  by (auto simp: range_try_clear_def run_bind_eq_Inr split: if_splits)

text \<open>The linear scan for a run across chunks; a lost race probes the same start again.\<close>

function find_huge :: "nat \<Rightarrow> nat \<Rightarrow> nat \<Rightarrow> bitmap \<Rightarrow> (nat option \<times> bitmap) run" where
  "find_huge tot n start bm =
    (if start + n \<le> tot
     then run_bind (range_is_set start n bm) (\<lambda>all_set.
            if all_set
            then run_bind (range_try_clear start n bm) (\<lambda>(ok, bm').
                   if ok then Inr (Some start, bm') else find_huge tot n start bm')
            else find_huge tot n (start + 1) bm)
     else Inr (None, bm))"
  by pat_completeness auto
termination
  by (relation "measure (\<lambda>(tot, n, start, _). tot + 1 - start)")
    (auto dest: range_try_clear_not_refused)

declare find_huge.simps [simp del]

definition try_find_and_clear_n_huge :: "nat \<Rightarrow> bitmap \<Rightarrow> (nat option \<times> bitmap) run" where
  "try_find_and_clear_n_huge n bm = (let tot = max_bits bm in find_huge tot n 0 bm)"

definition try_find_and_clear_n :: "nat \<Rightarrow> nat \<Rightarrow> bitmap \<Rightarrow> (nat option \<times> bitmap) run" where
  "try_find_and_clear_n n tseq bm =
    (if n = 0 then Inr (None, bm)
     else let cc = chunk_count bm
          in if n \<le> CHUNK_BITS
             then let start = (if cc = 0 then 0 else tseq mod cc)
                  in find_in_chunks n (chunk_order start cc) bm
             else try_find_and_clear_n_huge n bm)"

definition try_find_and_clear :: "nat \<Rightarrow> bitmap \<Rightarrow> (nat option \<times> bitmap) run" where
  "try_find_and_clear tseq bm = try_find_and_clear_n 1 tseq bm"

text \<open>
  \<open>try_find_and_claim\<close>: the callback \<open>claim\<close> has a state of its own and decides for every set bit
  offered to it. The inner scan visits the bits of one chunk.
\<close>

fun claim_in_chunk :: "(nat \<Rightarrow> 's \<Rightarrow> bool \<times> 's) \<Rightarrow> nat \<Rightarrow> nat list \<Rightarrow> bitmap \<Rightarrow> 's \<Rightarrow> (nat option \<times> bitmap \<times> 's) run" where
  "claim_in_chunk claim c [] bm s = Inr (None, bm, s)"
| "claim_in_chunk claim c (b # bs) bm s =
    run_bind (chunk_at bm c) (\<lambda>ch.
    run_bind (chunk_is_set ch b) (\<lambda>on.
      if on
      then let idx = c * CHUNK_BITS + b; (ok, s) = claim idx s
           in if ok then run_bind (clear_bit1 idx bm) (\<lambda>(_, bm). Inr (Some idx, bm, s))
              else claim_in_chunk claim c bs bm s
      else claim_in_chunk claim c bs bm s))"

fun claim_in_chunks :: "(nat \<Rightarrow> 's \<Rightarrow> bool \<times> 's) \<Rightarrow> nat list \<Rightarrow> bitmap \<Rightarrow> 's \<Rightarrow> (nat option \<times> bitmap \<times> 's) run" where
  "claim_in_chunks claim [] bm s = Inr (None, bm, s)"
| "claim_in_chunks claim (c # cs) bm s =
    run_bind (chunk_is_set (bm_chunkmap bm) c) (\<lambda>marked.
      if \<not> marked then claim_in_chunks claim cs bm s
      else run_bind (claim_in_chunk claim c [0..<CHUNK_BITS] bm s) (\<lambda>(r, bm, s).
             case r of Some idx \<Rightarrow> Inr (Some idx, bm, s) | None \<Rightarrow> claim_in_chunks claim cs bm s))"

definition try_find_and_claim :: "nat \<Rightarrow> (nat \<Rightarrow> 's \<Rightarrow> bool \<times> 's) \<Rightarrow> bitmap \<Rightarrow> 's \<Rightarrow> (nat option \<times> bitmap \<times> 's) run" where
  "try_find_and_claim tseq claim bm s =
    (let cc = chunk_count bm
     in if cc = 0 then Inr (None, bm, s)
        else let start = tseq mod cc in claim_in_chunks claim (chunk_order start cc) bm s)"

definition bm_popcount :: "bitmap \<Rightarrow> nat" where
  "bm_popcount bm = sum_list (map chunk_popcount (bm_chunks bm))"

section \<open>The set a bitmap represents\<close>

definition bm_ok :: "bitmap \<Rightarrow> bool" where
  "bm_ok bm \<longleftrightarrow> length (bm_chunkmap bm) = 8 \<and> length (bm_chunks bm) \<le> 512 \<and> (\<forall>ch\<in>set (bm_chunks bm). length ch = 8)"

definition bm_bit :: "bitmap \<Rightarrow> nat \<Rightarrow> bool" where
  "bm_bit bm i \<longleftrightarrow> i div 512 < length (bm_chunks bm) \<and> cbit (bm_chunks bm ! (i div 512)) (i mod 512)"

text \<open>The chunkmap never marks a chunk with a set bit as empty.\<close>

definition conservative :: "bitmap \<Rightarrow> bool" where
  "conservative bm \<longleftrightarrow> (\<forall>i. bm_bit bm i \<longrightarrow> cbit (bm_chunkmap bm) (i div 512))"

text \<open>The invariant of a bitmap, and the bits it marks free.\<close>

definition bm_inv :: "bitmap \<Rightarrow> bool" where
  "bm_inv bm \<longleftrightarrow> bm_ok bm \<and> conservative bm"

definition bits_of :: "bitmap \<Rightarrow> nat set" where
  "bits_of bm = {i. bm_bit bm i}"

lemma bm_okD:
  assumes "bm_ok bm"
  shows "length (bm_chunkmap bm) = 8" "length (bm_chunks bm) \<le> 512" "c < length (bm_chunks bm) \<Longrightarrow> length (bm_chunks bm ! c) = 8"
  using assms by (auto simp: bm_ok_def)

text \<open>A range inside one chunk, and one round of the loops over chunks.\<close>

lemma chunk_piece:
  assumes "chunk_of pos = (c, b)" "b + h \<le> 512"
  shows "pos \<le> i \<and> i < pos + h \<longleftrightarrow> i div 512 = c \<and> b \<le> i mod 512 \<and> i mod 512 < b + h"
proof -
  have cb: "c = pos div 512" "b = pos mod 512" using assms(1) by (auto simp: chunk_of_def mi_consts)
  have "b < 512" by (simp add: cb)
  have "512 * c + b \<le> 512 * q + r \<and> 512 * q + r < 512 * c + b + h \<longleftrightarrow> q = c \<and> b \<le> r \<and> r < b + h"
    if "r < 512" for q r
  proof (cases q c rule: linorder_cases)
    case less
    then show ?thesis using that by linarith
  next
    case greater
    then show ?thesis using assms(2) by linarith
  qed simp
  moreover have "512 * (i div 512) + i mod 512 = i" "512 * c + b = pos" by (simp_all add: cb)
  ultimately show ?thesis by (metis mod_less_divisor zero_less_numeral)
qed

lemma chunk_range_all:
  assumes "chunk_of pos = (c, b)" "b + h \<le> 512" "c < length (bm_chunks bm)"
  shows "(\<forall>j. b \<le> j \<and> j < b + h \<longrightarrow> Q (cbit (bm_chunks bm ! c) j)) \<longleftrightarrow> (\<forall>i. pos \<le> i \<and> i < pos + h \<longrightarrow> Q (bm_bit bm i))"
proof
  assume a: "\<forall>j. b \<le> j \<and> j < b + h \<longrightarrow> Q (cbit (bm_chunks bm ! c) j)"
  show "\<forall>i. pos \<le> i \<and> i < pos + h \<longrightarrow> Q (bm_bit bm i)"
    using a chunk_piece [OF assms(1,2)] assms(3) by (simp add: bm_bit_def)
next
  assume a: "\<forall>i. pos \<le> i \<and> i < pos + h \<longrightarrow> Q (bm_bit bm i)"
  show "\<forall>j. b \<le> j \<and> j < b + h \<longrightarrow> Q (cbit (bm_chunks bm ! c) j)"
  proof (intro allI impI)
    fix j assume j: "b \<le> j \<and> j < b + h"
    then have "(c * 512 + j) div 512 = c" "(c * 512 + j) mod 512 = j" using assms(2) by auto
    moreover from this have "pos \<le> c * 512 + j \<and> c * 512 + j < pos + h" using j chunk_piece [OF assms(1,2)] by simp
    then have "Q (bm_bit bm (c * 512 + j))" using a by blast
    ultimately show "Q (cbit (bm_chunks bm ! c) j)" using assms(3) by (simp add: bm_bit_def)
  qed
qed

lemma chunks_put [simp]:
  "bm_chunkmap (put_chunk c ch bm) = bm_chunkmap bm" "length (bm_chunks (put_chunk c ch bm)) = length (bm_chunks bm)"
  by (simp_all add: put_chunk_def)

lemma bm_bit_put:
  "c < length (bm_chunks bm) \<Longrightarrow> bm_bit (put_chunk c ch bm) i \<longleftrightarrow> (if i div 512 = c then cbit ch (i mod 512) else bm_bit bm i)"
  by (auto simp: bm_bit_def put_chunk_def)

lemma bm_ok_put: "bm_ok bm \<Longrightarrow> length ch = 8 \<Longrightarrow> bm_ok (put_chunk c ch bm)"
  by (auto simp: bm_ok_def put_chunk_def dest!: set_update_subset_insert [THEN subsetD])

lemma chunk_at_ok: "c < length (bm_chunks bm) \<Longrightarrow> chunk_at bm c = Inr (bm_chunks bm ! c)"
  by (simp add: chunk_at_def)

lemma chunk_is_all_clear_iff: "chunk_is_all_clear ch \<longleftrightarrow> (\<forall>i. \<not> cbit ch i)"
proof
  assume "chunk_is_all_clear ch"
  then show "\<forall>i. \<not> cbit ch i" by (auto simp: chunk_is_all_clear_def list_all_length cbit_def)
next
  assume a: "\<forall>i. \<not> cbit ch i"
  have "ch ! f = 0" if "f < length ch" for f
  proof (rule bit_word_eqI)
    fix j assume "j < LENGTH(64)"
    then show "bit (ch ! f) j = bit (0::usize) j" using a [rule_format, of "f * 64 + j"] that by (simp add: cbit_def)
  qed
  then show "chunk_is_all_clear ch" by (simp add: chunk_is_all_clear_def list_all_length)
qed

lemma field_bit:
  assumes "length ch = 8" "c < 512" "split c = (f, b)"
  shows "field ch f = Inr (ch ! f)" "f < 8" "b < 64"
    "cbit (ch[f := ch ! f OR push_bit b 1]) j \<longleftrightarrow> cbit ch j \<or> j = c"
    "cbit (ch[f := ch ! f AND NOT (push_bit b 1)]) j \<longleftrightarrow> cbit ch j \<and> j \<noteq> c"
    "bf_all_set (ch ! f) (push_bit b 1) \<longleftrightarrow> cbit ch c"
proof -
  have fb: "f = c div 64" "b = c mod 64" using assms(3) by (auto simp: split_def mi_consts)
  show f: "f < 8" and b: "b < 64" using assms(2) by (simp_all add: fb less_mult_imp_div_less)
  show "field ch f = Inr (ch ! f)" using f assms(1) by (simp add: field_def)
  have eq: "j = c \<longleftrightarrow> j div 64 = f \<and> j mod 64 = b" unfolding fb by (metis div_mult_mod_eq)
  have pb: "bit (push_bit b (1::usize)) k \<longleftrightarrow> k = b \<and> k < 64" for k by (auto simp: bit_simps)
  have up: "cbit (ch[f := w]) j \<longleftrightarrow> (if j div 64 = f then bit w (j mod 64) else cbit ch j)" for w
    using f assms(1) by (intro cbit_update) simp
  have old: "j div 64 = f \<Longrightarrow> cbit ch j \<longleftrightarrow> bit (ch ! f) (j mod 64)" using f assms(1) by (simp add: cbit_def)
  have jm: "j mod 64 < 64" by simp
  have w1: "bit (ch ! f OR push_bit b 1) k \<longleftrightarrow> bit (ch ! f) k \<or> k = b" if "k < 64" for k
    unfolding bit_or_iff pb using that by blast
  have w2: "bit (ch ! f AND NOT (push_bit b 1)) k \<longleftrightarrow> bit (ch ! f) k \<and> k \<noteq> b" if "k < 64" for k
    unfolding bit_and_iff bit_not_iff pb using that by (auto simp: possible_bit_def)
  show "cbit (ch[f := ch ! f OR push_bit b 1]) j \<longleftrightarrow> cbit ch j \<or> j = c"
    unfolding up eq w1 [OF jm] using old by auto
  show "cbit (ch[f := ch ! f AND NOT (push_bit b 1)]) j \<longleftrightarrow> cbit ch j \<and> j \<noteq> c"
    unfolding up eq w2 [OF jm] using old by auto
  show "bf_all_set (ch ! f) (push_bit b 1) \<longleftrightarrow> cbit ch c"
    using f b assms(1) unfolding bf_all_set_iff pb cbit_def fb [symmetric] by auto
qed

lemma chunkmap_set_spec:
  assumes "bm_ok bm" "c < 512"
  shows "\<exists>bm'. chunkmap_set c bm = Inr bm' \<and> bm_chunks bm' = bm_chunks bm \<and> bm_ok bm'
    \<and> (\<forall>j. cbit (bm_chunkmap bm') j \<longleftrightarrow> cbit (bm_chunkmap bm) j \<or> j = c)"
proof -
  obtain f b where s: "split c = (f, b)" by force
  note F = field_bit [OF bm_okD(1) [OF assms(1)] assms(2) s]
  let ?bm = "bm\<lparr>bm_chunkmap := (bm_chunkmap bm)[f := bm_chunkmap bm ! f OR push_bit b 1]\<rparr>"
  have "chunkmap_set c bm = Inr ?bm" using s F(1) by (simp add: chunkmap_set_def bf_set_mask_snd)
  moreover have "bm_ok ?bm" using assms(1) by (simp add: bm_ok_def)
  ultimately show ?thesis using F(4) by (intro exI [of _ ?bm]) simp
qed

lemma chunkmap_clear_if_empty_spec:
  assumes "bm_ok bm" "c < length (bm_chunks bm)"
  shows "\<exists>bm'. chunkmap_clear_if_empty c bm = Inr bm' \<and> bm_chunks bm' = bm_chunks bm \<and> bm_ok bm'
    \<and> (\<forall>j. cbit (bm_chunkmap bm') j \<longleftrightarrow> cbit (bm_chunkmap bm) j \<and> \<not> (j = c \<and> chunk_is_all_clear (bm_chunks bm ! c)))"
proof (cases "chunk_is_all_clear (bm_chunks bm ! c)")
  case False
  then show ?thesis using assms chunk_at_ok by (simp add: chunkmap_clear_if_empty_def)
next
  case True
  obtain f b where s: "split c = (f, b)" by force
  have "c < 512" using assms bm_okD(2) by fastforce
  note F = field_bit [OF bm_okD(1) [OF assms(1)] this s]
  let ?cm = "bm_chunkmap bm"
  let ?bm = "bm\<lparr>bm_chunkmap := ?cm[f := if cbit ?cm c then ?cm ! f AND NOT (push_bit b 1) else ?cm ! f]\<rparr>"
  have "chunkmap_clear_if_empty c bm = Inr ?bm"
    using s F(1,6) True assms(2) by (simp add: chunkmap_clear_if_empty_def chunk_at_def bf_try_clear_mask_eq)
  moreover have "bm_ok ?bm" using assms(1) by (simp add: bm_ok_def)
  moreover have "cbit (bm_chunkmap ?bm) j \<longleftrightarrow> cbit ?cm j \<and> j \<noteq> c" for j using F(5) [of j] by auto
  ultimately show ?thesis using True by (intro exI [of _ ?bm]) simp
qed

lemma bm_bit_chunks: "bm_chunks bm' = bm_chunks bm \<Longrightarrow> bm_bit bm' = bm_bit bm"
  by (simp add: bm_bit_def fun_eq_iff)

text \<open>Dropping the mark of an empty chunk keeps the invariant and the bits.\<close>

lemma chunkmap_clear_keeps:
  assumes "bm_inv bm" "c < length (bm_chunks bm)"
  shows "\<exists>bm'. chunkmap_clear_if_empty c bm = Inr bm' \<and> bm_inv bm' \<and> bm_chunks bm' = bm_chunks bm"
proof -
  obtain bm' where bm': "chunkmap_clear_if_empty c bm = Inr bm'" "bm_chunks bm' = bm_chunks bm" "bm_ok bm'"
      "\<forall>j. cbit (bm_chunkmap bm') j \<longleftrightarrow> cbit (bm_chunkmap bm) j \<and> \<not> (j = c \<and> chunk_is_all_clear (bm_chunks bm ! c))"
    using chunkmap_clear_if_empty_spec [of bm c] assms by (auto simp: bm_inv_def)
  have "conservative bm'"
    unfolding conservative_def bm_bit_chunks [OF bm'(2)]
  proof (intro allI impI)
    fix i assume i: "bm_bit bm i"
    then have "cbit (bm_chunkmap bm) (i div 512)" using assms(1) by (auto simp: bm_inv_def conservative_def)
    moreover have "\<not> (i div 512 = c \<and> chunk_is_all_clear (bm_chunks bm ! c))"
      using i by (auto simp: bm_bit_def chunk_is_all_clear_iff)
    ultimately show "cbit (bm_chunkmap bm') (i div 512)" using bm'(4) by blast
  qed
  with bm' show ?thesis by (auto simp: bm_inv_def)
qed

section \<open>Single ranges\<close>

lemma set_n_spec:
  assumes "bm_inv bm" "idx div 512 < length (bm_chunks bm)" "idx mod 512 + n \<le> 512"
  shows "\<exists>bm'. set_n idx n bm = Inr (\<forall>i. idx \<le> i \<and> i < idx + n \<longrightarrow> \<not> bm_bit bm i, bm') \<and> bm_inv bm'
    \<and> length (bm_chunks bm') = length (bm_chunks bm)
    \<and> (\<forall>i. bm_bit bm' i \<longleftrightarrow> bm_bit bm i \<or> idx \<le> i \<and> i < idx + n)"
proof -
  let ?c = "idx div 512" and ?b = "idx mod 512"
  have s: "chunk_of idx = (?c, ?b)" by (simp add: chunk_of_def mi_consts)
  have ok: "bm_ok bm" using assms(1) by (simp add: bm_inv_def)
  let ?ch = "bm_chunks bm ! ?c"
  have len: "length ?ch = 8" using bm_okD(3) [OF ok assms(2)] .
  have c512: "?c < 512" using assms(2) bm_okD(2) [OF ok] by linarith
  obtain ch' where ch': "chunk_set_n ?ch ?b n = Inr ch'" "length ch' = 8"
      "\<forall>j. cbit ch' j \<longleftrightarrow> cbit ?ch j \<or> ?b \<le> j \<and> j < ?b + n"
    using chunk_set_n_range [OF len assms(3)] by blast
  obtain bm' where bm': "chunkmap_set ?c (put_chunk ?c ch' bm) = Inr bm'" "bm_chunks bm' = bm_chunks (put_chunk ?c ch' bm)"
      "bm_ok bm'" "\<forall>j. cbit (bm_chunkmap bm') j \<longleftrightarrow> cbit (bm_chunkmap bm) j \<or> j = ?c"
    using chunkmap_set_spec [OF bm_ok_put [OF ok ch'(2)] c512] by auto
  have bits: "bm_bit bm' i \<longleftrightarrow> bm_bit bm i \<or> idx \<le> i \<and> i < idx + n" for i
    unfolding bm_bit_chunks [OF bm'(2)] bm_bit_put [OF assms(2)] chunk_piece [OF s assms(3)]
    using ch'(3) assms(2) by (simp add: bm_bit_def)
  have "conservative bm'"
    unfolding conservative_def
  proof (intro allI impI)
    fix i assume "bm_bit bm' i"
    then have "bm_bit bm i \<or> i div 512 = ?c" unfolding bits chunk_piece [OF s assms(3)] by blast
    then show "cbit (bm_chunkmap bm') (i div 512)"
      using bm'(4) assms(1) by (auto simp: bm_inv_def conservative_def)
  qed
  moreover have "set_n idx n bm = Inr (\<forall>i. idx \<le> i \<and> i < idx + n \<longrightarrow> \<not> bm_bit bm i, bm')"
    using chunk_range_all [OF s assms(3,2), of Not] ch'(1) bm'(1) chunk_is_clear_n_range [OF len assms(3)]
    by (simp add: set_n_def s chunk_at_ok [OF assms(2)])
  ultimately show ?thesis using bits bm'(2,3) by (auto simp: bm_inv_def)
qed

lemma clear_n_spec:
  assumes "bm_inv bm" "idx div 512 < length (bm_chunks bm)" "idx mod 512 + n \<le> 512"
  shows "\<exists>ok bm'. clear_n idx n bm = Inr (ok, bm') \<and> bm_inv bm' \<and> length (bm_chunks bm') = length (bm_chunks bm)
    \<and> (ok \<longleftrightarrow> (\<forall>i. idx \<le> i \<and> i < idx + n \<longrightarrow> bm_bit bm i))
    \<and> (\<forall>i. bm_bit bm' i \<longleftrightarrow> bm_bit bm i \<and> \<not> (ok \<and> idx \<le> i \<and> i < idx + n))"
proof -
  let ?c = "idx div 512" and ?b = "idx mod 512"
  have s: "chunk_of idx = (?c, ?b)" by (simp add: chunk_of_def mi_consts)
  have ok: "bm_ok bm" using assms(1) by (simp add: bm_inv_def)
  let ?ch = "bm_chunks bm ! ?c"
  have len: "length ?ch = 8" using bm_okD(3) [OF ok assms(2)] .
  have b: "?b < 512" by simp
  obtain ok ch' where ch': "chunk_try_clear_n ?ch ?b n = Inr (ok, ch')" "length ch' = 8"
      "ok \<longleftrightarrow> (\<forall>j. ?b \<le> j \<and> j < ?b + n \<longrightarrow> cbit ?ch j)"
      "\<forall>j. cbit ch' j \<longleftrightarrow> cbit ?ch j \<and> \<not> (ok \<and> ?b \<le> j \<and> j < ?b + n)"
    using chunk_try_clear_n_range [OF len assms(3) b] by blast
  let ?bm = "put_chunk ?c ch' bm"
  have okn: "ok \<longleftrightarrow> (\<forall>i. idx \<le> i \<and> i < idx + n \<longrightarrow> bm_bit bm i)"
    using chunk_range_all [OF s assms(3,2), of "\<lambda>x. x"] ch'(3) by simp
  have bits: "bm_bit ?bm i \<longleftrightarrow> bm_bit bm i \<and> \<not> (ok \<and> idx \<le> i \<and> i < idx + n)" for i
    unfolding bm_bit_put [OF assms(2)] chunk_piece [OF s assms(3)]
    using ch'(4) assms(2) by (simp add: bm_bit_def)
  have inv: "bm_inv ?bm"
    using assms(1) bits bm_ok_put [OF ok ch'(2)] by (auto simp: bm_inv_def conservative_def)
  obtain bm' where "chunkmap_clear_if_empty ?c ?bm = Inr bm'" "bm_inv bm'" "bm_chunks bm' = bm_chunks ?bm"
    using chunkmap_clear_keeps [OF inv] assms(2) by auto
  note after = this
  define bm2 where "bm2 = (if ok then bm' else ?bm)"
  have "bm_bit bm2 = bm_bit ?bm" "bm_inv bm2" "length (bm_chunks bm2) = length (bm_chunks bm)"
    using after(2,3) inv bm_bit_chunks [OF after(3)] by (simp_all add: bm2_def)
  moreover have "clear_n idx n bm = Inr (ok, bm2)"
    using ch'(1) s after(1) by (simp add: clear_n_def chunk_at_ok [OF assms(2)] bm2_def)
  ultimately have "clear_n idx n bm = Inr (ok, bm2) \<and> bm_inv bm2 \<and> length (bm_chunks bm2) = length (bm_chunks bm)
      \<and> (\<forall>i. bm_bit bm2 i \<longleftrightarrow> bm_bit bm i \<and> \<not> (ok \<and> idx \<le> i \<and> i < idx + n))"
    using bits by simp
  with okn show ?thesis by blast
qed

lemma is_set_spec:
  "bm_ok bm \<Longrightarrow> idx div 512 < length (bm_chunks bm) \<Longrightarrow> is_set idx bm = Inr (bm_bit bm idx)"
  by (simp add: is_set_def chunk_of_def mi_consts chunk_at_ok chunk_is_set_bit bm_okD bm_bit_def)

lemma is_set_n_spec:
  assumes "bm_ok bm" "idx div 512 < length (bm_chunks bm)" "idx mod 512 + n \<le> 512"
  shows "is_set_n idx n bm = Inr (\<forall>i. idx \<le> i \<and> i < idx + n \<longrightarrow> bm_bit bm i)"
    and "is_clear_n idx n bm = Inr (\<forall>i. idx \<le> i \<and> i < idx + n \<longrightarrow> \<not> bm_bit bm i)"
proof -
  have s: "chunk_of idx = (idx div 512, idx mod 512)" by (simp add: chunk_of_def mi_consts)
  note len = bm_okD(3) [OF assms(1,2)]
  show "is_set_n idx n bm = Inr (\<forall>i. idx \<le> i \<and> i < idx + n \<longrightarrow> bm_bit bm i)"
    using chunk_range_all [OF s assms(3,2), of "\<lambda>x. x"] chunk_is_set_n_range [OF len assms(3)] assms(2,3)
    by (simp add: is_set_n_def s chunk_at_ok mi_consts)
  show "is_clear_n idx n bm = Inr (\<forall>i. idx \<le> i \<and> i < idx + n \<longrightarrow> \<not> bm_bit bm i)"
    using chunk_range_all [OF s assms(3,2), of Not] chunk_is_clear_n_range [OF len assms(3)] assms(2,3)
    by (simp add: is_clear_n_def s chunk_at_ok mi_consts)
qed

text \<open>A set that runs over the end of its chunk panics.\<close>

lemma chunk_set_n_overflow:
  "length ch = 8 \<Longrightarrow> pos \<le> 512 \<Longrightarrow> 512 < pos + r \<Longrightarrow> chunk_set_n ch pos r = Inl Index_Out_Of_Bounds"
proof (induction r arbitrary: pos ch rule: less_induct)
  case (less r)
  obtain f b where s: "split pos = (f, b)" by force
  define h where "h = min r (FIELD_BITS - b)"
  have fb: "f = pos div 64" "b = pos mod 64" using s by (auto simp: split_def mi_consts)
  have r0: "0 < r" using less.prems by simp
  have h0: "0 < h" using r0 fb(2) by (simp add: h_def mi_consts)
  show ?case
  proof (cases "pos = 512")
    case True
    then have "f = 8" by (simp add: fb)
    with r0 less.prems(1) show ?thesis by (subst chunk_set_n.simps) (simp add: s field_def)
  next
    case False
    then have "f < 8" using less.prems(2) by (simp add: fb less_mult_imp_div_less)
    have "pos = 64 * f + b" "b < 64" by (simp_all add: fb)
    moreover have "h \<le> 64 - b" by (simp add: h_def mi_consts)
    ultimately have "pos + h \<le> 512" using \<open>f < 8\<close> by linarith
    then have "chunk_set_n (ch[f := w]) (pos + h) (r - h) = Inl Index_Out_Of_Bounds" for w
      using h0 r0 less.prems by (intro less.IH) (auto simp: h_def)
    then show ?thesis
      using r0 \<open>f < 8\<close> less.prems(1) by (subst chunk_set_n.simps) (simp add: s field_def Let_def flip: h_def)
  qed
qed

lemma set_n_crossing:
  assumes "bm_ok bm" "idx div 512 < length (bm_chunks bm)" "512 < idx mod 512 + n"
  shows "set_n idx n bm = Inl Index_Out_Of_Bounds"
proof -
  have "chunk_set_n (bm_chunks bm ! (idx div 512)) (idx mod 512) n = Inl Index_Out_Of_Bounds"
    using assms bm_okD(3) [OF assms(1,2)] by (intro chunk_set_n_overflow) auto
  moreover have "e = Index_Out_Of_Bounds" for e by (cases e) simp
  ultimately show ?thesis
    using assms(2)
    by (cases "chunk_is_clear_n (bm_chunks bm ! (idx div 512)) (idx mod 512) n")
      (simp_all add: set_n_def chunk_of_def mi_consts chunk_at_ok)
qed

section \<open>Claiming a run inside a chunk\<close>

text \<open>The range was set, and is exactly what the bitmap loses.\<close>

definition claimed :: "bitmap \<Rightarrow> nat \<Rightarrow> nat \<Rightarrow> bitmap \<Rightarrow> bool" where
  "claimed bm n k bm' \<longleftrightarrow> k + n \<le> max_bits bm \<and> {k..<k + n} \<subseteq> bits_of bm \<and> bits_of bm' = bits_of bm - {k..<k + n}
    \<and> bm_inv bm' \<and> length (bm_chunks bm') = length (bm_chunks bm)"

definition chunk_run :: "bitmap \<Rightarrow> nat \<Rightarrow> nat \<Rightarrow> bool" where
  "chunk_run bm k n \<longleftrightarrow> k mod 512 + n \<le> 512 \<and> {k..<k + n} \<subseteq> bits_of bm"

lemma subset_bits: "{k..<k + n} \<subseteq> bits_of bm \<longleftrightarrow> (\<forall>i. k \<le> i \<and> i < k + n \<longrightarrow> bm_bit bm i)"
  by (auto simp: bits_of_def)

lemma find_in_chunks_spec:
  assumes "bm_inv bm" "0 < n" "n \<le> 512"
  shows "\<forall>c\<in>set cs. c < length (bm_chunks bm) \<Longrightarrow>
    (\<exists>k bm'. find_in_chunks n cs bm = Inr (Some k, bm') \<and> claimed bm n k bm' \<and> k mod 512 + n \<le> 512)
    \<or> find_in_chunks n cs bm = Inr (None, bm) \<and> (\<forall>k. k div 512 \<in> set cs \<longrightarrow> \<not> chunk_run bm k n)"
proof (induction cs)
  case Nil
  then show ?case by simp
next
  case (Cons c cs)
  have ok: "bm_ok bm" using assms(1) by (simp add: bm_inv_def)
  have c: "c < length (bm_chunks bm)" using Cons.prems by simp
  then have c512: "c < 512" using bm_okD(2) [OF ok] by linarith
  have mark: "chunk_is_set (bm_chunkmap bm) c = Inr (cbit (bm_chunkmap bm) c)"
    using bm_okD(1) [OF ok] c512 by (rule chunk_is_set_bit)
  let ?ch = "bm_chunks bm ! c"
  have len: "length ?ch = 8" using bm_okD(3) [OF ok c] .
  have IH: "(\<exists>k bm'. find_in_chunks n cs bm = Inr (Some k, bm') \<and> claimed bm n k bm' \<and> k mod 512 + n \<le> 512)
    \<or> find_in_chunks n cs bm = Inr (None, bm) \<and> (\<forall>k. k div 512 \<in> set cs \<longrightarrow> \<not> chunk_run bm k n)"
    using Cons by simp
  have piece: "chunk_run bm k n \<longleftrightarrow> free_run ?ch (k mod 512) n" if "k div 512 = c" for k
  proof -
    have s: "chunk_of k = (c, k mod 512)" using that by (simp add: chunk_of_def mi_consts)
    show ?thesis
      using chunk_range_all [OF s _ c, of n "\<lambda>x. x"] by (auto simp: chunk_run_def free_run_def subset_bits)
  qed
  show ?case
  proof (cases "cbit (bm_chunkmap bm) c")
    case False
    have "\<not> chunk_run bm k n" if "k div 512 = c" for k
    proof
      assume "chunk_run bm k n"
      then have "bm_bit bm k" using assms(2) by (simp add: chunk_run_def subset_bits)
      then show False using assms(1) False that by (auto simp: bm_inv_def conservative_def)
    qed
    with IH mark False show ?thesis by auto
  next
    case True
    show ?thesis
    proof (cases "find_and_clear_n ?ch n = Inr None")
      case none: True
      then have "\<not> free_run ?ch k n" for k using find_and_clear_n_spec [OF len assms(2,3)] by auto
      then have "\<not> chunk_run bm k n" if "k div 512 = c" for k using piece [OF that] by simp
      with IH mark True none show ?thesis by (auto simp: chunk_at_ok [OF c])
    next
      case False
      then obtain b ch' where b: "find_and_clear_n ?ch n = Inr (Some (b, ch'))" "taken ?ch n b ch'"
        using find_and_clear_n_spec [OF len assms(2,3)] by auto
      have run: "b + n \<le> 512" "b < 512" using b(2) assms(2) by (auto simp: taken_def free_run_def)
      let ?k = "c * 512 + b" and ?bm = "put_chunk c ch' bm"
      have k: "?k div 512 = c" "?k mod 512 = b" using run(2) by auto
      then have s: "chunk_of ?k = (c, b)" by (simp add: chunk_of_def mi_consts)
      have "chunk_run bm ?k n" using b(2) piece [OF k(1)] k(2) by (simp add: taken_def)
      then have sub: "{?k..<?k + n} \<subseteq> bits_of bm" by (simp add: chunk_run_def)
      have bits: "bm_bit ?bm i \<longleftrightarrow> bm_bit bm i \<and> \<not> (?k \<le> i \<and> i < ?k + n)" for i
        unfolding bm_bit_put [OF c] chunk_piece [OF s run(1)]
        using b(2) c by (simp add: taken_def bm_bit_def)
      have "bm_ok ?bm" using ok b(2) by (simp add: bm_ok_put taken_def)
      then have "bm_inv ?bm" using assms(1) bits by (auto simp: bm_inv_def conservative_def)
      then obtain bm' where bm': "chunkmap_clear_if_empty c ?bm = Inr bm'" "bm_inv bm'" "bm_chunks bm' = bm_chunks ?bm"
        using chunkmap_clear_keeps [of ?bm c] c by auto
      have "bits_of bm' = bits_of bm - {?k..<?k + n}"
        unfolding bits_of_def bm_bit_chunks [OF bm'(3)] bits by auto
      moreover have "?k + n \<le> max_bits bm"
      proof -
        have "Suc c * 512 \<le> length (bm_chunks bm) * 512" using c by (intro mult_le_mono1) simp
        then show ?thesis using run(1) by (simp add: max_bits_def mi_consts)
      qed
      ultimately have "claimed bm n ?k bm'" using sub bm'(2,3) by (simp add: claimed_def)
      moreover have "find_in_chunks n (c # cs) bm = Inr (Some ?k, bm')"
        using mark True b(1) bm'(1) by (simp add: chunk_at_ok [OF c] mi_consts)
      ultimately show ?thesis using k(2) run(1) by (intro disjI1 exI [of _ ?k] exI [of _ bm']) simp
    qed
  qed
qed

lemma chunk_order_all: "0 < cc \<Longrightarrow> set (chunk_order start cc) = {..<cc}"
proof -
  assume cc: "0 < cc"
  have "c \<in> (\<lambda>k. (start + k) mod cc) ` {..<cc}" if "c < cc" for c
  proof
    let ?k = "(c + (cc - start mod cc)) mod cc"
    have "(start + ?k) mod cc = (start mod cc + (c + (cc - start mod cc))) mod cc"
      by (metis mod_add_left_eq mod_add_right_eq)
    also have "start mod cc + (c + (cc - start mod cc)) = c + cc"
      using mod_less_divisor [OF cc, of start] by linarith
    also have "(c + cc) mod cc = c" using that by simp
    finally show "c = (start + ?k) mod cc" ..
    show "?k \<in> {..<cc}" using cc by simp
  qed
  then show ?thesis using cc by (auto simp: chunk_order_def atLeast0LessThan)
qed

section \<open>Runs across chunks\<close>

lemma round_chunk:
  assumes "bm_ok bm" "pos + r \<le> 512 * length (bm_chunks bm)" "0 < r"
  obtains c b h where "chunk_of pos = (c, b)" "min r (CHUNK_BITS - b) = h" "c < length (bm_chunks bm)" "0 < h" "h \<le> r"
    "b + h \<le> 512" "b < 512" "chunk_at bm c = Inr (bm_chunks bm ! c)" "length (bm_chunks bm ! c) = 8"
    "pos + h + (r - h) \<le> 512 * length (bm_chunks bm)"
proof -
  let ?c = "pos div 512" and ?b = "pos mod 512"
  have "pos < length (bm_chunks bm) * 512" using assms(2,3) by simp
  then have c: "?c < length (bm_chunks bm)" by (rule less_mult_imp_div_less)
  show thesis
    by (rule that [of ?c ?b "min r (512 - ?b)"])
      (use c assms bm_okD(3) [OF assms(1) c] in \<open>auto simp: chunk_of_def mi_consts chunk_at_ok\<close>)
qed

lemma range_is_set_spec:
  "bm_ok bm \<Longrightarrow> pos + r \<le> 512 * length (bm_chunks bm) \<Longrightarrow> range_is_set pos r bm = Inr (\<forall>i. pos \<le> i \<and> i < pos + r \<longrightarrow> bm_bit bm i)"
proof (induction r arbitrary: pos rule: less_induct)
  case (less r)
  show ?case
  proof (cases "r = 0")
    case True
    then show ?thesis by (subst range_is_set.simps) auto
  next
    case False
    then obtain c b h where R: "chunk_of pos = (c, b)" "min r (CHUNK_BITS - b) = h" "c < length (bm_chunks bm)" "0 < h" "h \<le> r"
        "b + h \<le> 512" "chunk_at bm c = Inr (bm_chunks bm ! c)" "length (bm_chunks bm ! c) = 8"
        "pos + h + (r - h) \<le> 512 * length (bm_chunks bm)"
      using round_chunk [OF less.prems] by (metis gr0I)
    have rest: "range_is_set (pos + h) (r - h) bm = Inr (\<forall>i. pos + h \<le> i \<and> i < pos + h + (r - h) \<longrightarrow> bm_bit bm i)"
      using R(4,5,9) less.prems(1) by (intro less.IH) auto
    have here: "chunk_is_set_n (bm_chunks bm ! c) b h = Inr (\<forall>i. pos \<le> i \<and> i < pos + h \<longrightarrow> bm_bit bm i)"
      using chunk_is_set_n_range [OF R(8,6)] chunk_range_all [OF R(1,6,3), of "\<lambda>x. x"] by simp
    show ?thesis
      unfolding range_split [OF R(5), of pos "bm_bit bm"]
      using False R(1,2,7) here rest by (subst range_is_set.simps) (simp add: Let_def)
  qed
qed

text \<open>What the loop has done when it stops: the first \<open>k\<close> bits of the range were set and are now clear.\<close>

definition cleared_upto :: "bitmap \<Rightarrow> nat \<Rightarrow> nat \<Rightarrow> bool \<Rightarrow> nat \<Rightarrow> bitmap \<Rightarrow> bool" where
  "cleared_upto bm pos r ok k bm' \<longleftrightarrow> k \<le> r \<and> bm_ok bm' \<and> bm_chunkmap bm' = bm_chunkmap bm
    \<and> length (bm_chunks bm') = length (bm_chunks bm)
    \<and> {pos..<pos + k} \<subseteq> bits_of bm \<and> bits_of bm' = bits_of bm - {pos..<pos + k}
    \<and> (if ok then k = r else \<not> {pos..<pos + r} \<subseteq> bits_of bm)"

lemma range_append: "h \<le> r \<Longrightarrow> {pos..<pos + r} = {pos..<pos + h} \<union> {pos + h..<pos + h + (r - h)}" for pos :: nat
  by auto

lemma range_clear_loop_spec:
  "bm_ok bm \<Longrightarrow> pos + r \<le> 512 * length (bm_chunks bm) \<Longrightarrow>
    \<exists>ok k bm'. range_clear_loop pos r don bm = Inr (ok, don + k, bm') \<and> cleared_upto bm pos r ok k bm'"
proof (induction r arbitrary: pos don bm rule: less_induct)
  case (less r)
  show ?case
  proof (cases "r = 0")
    case True
    then have "range_clear_loop pos r don bm = Inr (True, don + 0, bm)" by (subst range_clear_loop.simps) simp
    moreover have "cleared_upto bm pos r True 0 bm" using True less.prems by (simp add: cleared_upto_def)
    ultimately show ?thesis by blast
  next
    case False
    then obtain c b h where R: "chunk_of pos = (c, b)" "min r (CHUNK_BITS - b) = h" "c < length (bm_chunks bm)" "0 < h" "h \<le> r"
        "b + h \<le> 512" "b < 512" "chunk_at bm c = Inr (bm_chunks bm ! c)" "length (bm_chunks bm ! c) = 8"
        "pos + h + (r - h) \<le> 512 * length (bm_chunks bm)"
      using round_chunk [OF less.prems] by (metis gr0I)
    obtain ok ch' where T: "chunk_try_clear_n (bm_chunks bm ! c) b h = Inr (ok, ch')" "length ch' = 8"
        "ok \<longleftrightarrow> (\<forall>j. b \<le> j \<and> j < b + h \<longrightarrow> cbit (bm_chunks bm ! c) j)"
        "\<forall>j. cbit ch' j \<longleftrightarrow> cbit (bm_chunks bm ! c) j \<and> \<not> (ok \<and> b \<le> j \<and> j < b + h)" "\<not> ok \<longrightarrow> ch' = bm_chunks bm ! c"
      using chunk_try_clear_n_range [OF R(9,6,7)] by blast
    let ?bm = "put_chunk c ch' bm"
    have okh: "ok \<longleftrightarrow> {pos..<pos + h} \<subseteq> bits_of bm"
      using chunk_range_all [OF R(1,6,3), of "\<lambda>x. x"] T(3) by (simp add: subset_bits)
    have "bm_bit ?bm i \<longleftrightarrow> bm_bit bm i \<and> \<not> (ok \<and> pos \<le> i \<and> i < pos + h)" for i
      unfolding bm_bit_put [OF R(3)] chunk_piece [OF R(1,6)] using T(4) R(3) by (simp add: bm_bit_def)
    then have bits: "bits_of ?bm = (if ok then bits_of bm - {pos..<pos + h} else bits_of bm)"
      by (intro set_eqI) (simp add: bits_of_def)
    have okp: "bm_ok ?bm" using less.prems(1) T(2) by (rule bm_ok_put)
    note whole = range_append [OF R(5), of pos]
    show ?thesis
    proof (cases ok)
      case nok: False
      then have "range_clear_loop pos r don bm = Inr (False, don + 0, ?bm)"
        using False R(1,2,8) T(1) by (subst range_clear_loop.simps) (simp add: Let_def)
      moreover have "cleared_upto bm pos r False 0 ?bm"
        using nok okh okp bits whole by (auto simp: cleared_upto_def)
      ultimately show ?thesis by blast
    next
      case ok: True
      have "r - h < r" "pos + h + (r - h) \<le> 512 * length (bm_chunks ?bm)" using R(4,5,10) False by auto
      then obtain ok' k bm' where I: "range_clear_loop (pos + h) (r - h) (don + h) ?bm = Inr (ok', don + h + k, bm')"
          "cleared_upto ?bm (pos + h) (r - h) ok' k bm'"
        using less.IH [OF _ okp] by blast
      have "range_clear_loop pos r don bm = Inr (ok', don + (h + k), bm')"
        using False R(1,2,8) T(1) ok I(1) by (subst range_clear_loop.simps) (simp add: Let_def add.assoc)
      moreover have split_k: "{pos..<pos + (h + k)} = {pos..<pos + h} \<union> {pos + h..<pos + h + k}" by auto
      have "cleared_upto bm pos r ok' (h + k) bm'"
        using I(2) ok okh R(5) bits unfolding cleared_upto_def split_k whole by (auto split: if_splits)
      ultimately show ?thesis by blast
    qed
  qed
qed

lemma range_rollback_spec:
  "bm_ok bm \<Longrightarrow> pos + r \<le> 512 * length (bm_chunks bm) \<Longrightarrow> \<exists>bm'. range_rollback pos r bm = Inr bm' \<and> bm_ok bm'
    \<and> bm_chunkmap bm' = bm_chunkmap bm \<and> length (bm_chunks bm') = length (bm_chunks bm)
    \<and> (\<forall>i. bm_bit bm' i \<longleftrightarrow> bm_bit bm i \<or> pos \<le> i \<and> i < pos + r)"
proof (induction r arbitrary: pos bm rule: less_induct)
  case (less r)
  show ?case
  proof (cases "r = 0")
    case True
    then show ?thesis using less.prems by (subst range_rollback.simps) auto
  next
    case False
    then obtain c b h where R: "chunk_of pos = (c, b)" "min r (CHUNK_BITS - b) = h" "c < length (bm_chunks bm)" "0 < h" "h \<le> r"
        "b + h \<le> 512" "b < 512" "chunk_at bm c = Inr (bm_chunks bm ! c)" "length (bm_chunks bm ! c) = 8"
        "pos + h + (r - h) \<le> 512 * length (bm_chunks bm)"
      using round_chunk [OF less.prems] by (metis gr0I)
    obtain ch' where S: "chunk_set_n (bm_chunks bm ! c) b h = Inr ch'" "length ch' = 8"
        "\<forall>j. cbit ch' j \<longleftrightarrow> cbit (bm_chunks bm ! c) j \<or> b \<le> j \<and> j < b + h"
      using chunk_set_n_range [OF R(9,6)] by blast
    let ?bm = "put_chunk c ch' bm"
    have bits: "bm_bit ?bm i \<longleftrightarrow> bm_bit bm i \<or> pos \<le> i \<and> i < pos + h" for i
      unfolding bm_bit_put [OF R(3)] chunk_piece [OF R(1,6)] using S(3) R(3) by (simp add: bm_bit_def)
    have "r - h < r" "bm_ok ?bm" "pos + h + (r - h) \<le> 512 * length (bm_chunks ?bm)"
      using R(4,5,10) False less.prems(1) S(2) by (auto intro: bm_ok_put)
    from less.IH [OF this] obtain bm' where I: "range_rollback (pos + h) (r - h) ?bm = Inr bm'" "bm_ok bm'"
        "bm_chunkmap bm' = bm_chunkmap ?bm" "length (bm_chunks bm') = length (bm_chunks ?bm)"
        "\<forall>i. bm_bit bm' i \<longleftrightarrow> bm_bit ?bm i \<or> pos + h \<le> i \<and> i < pos + h + (r - h)"
      by blast
    have "range_rollback pos r bm = Inr bm'"
      using False R(1,2,8) S(1) I(1) by (subst range_rollback.simps) (simp add: Let_def)
    moreover have "bm_bit bm' i \<longleftrightarrow> bm_bit bm i \<or> pos \<le> i \<and> i < pos + r" for i
    proof -
      have "bm_bit bm' i \<longleftrightarrow> (bm_bit bm i \<or> pos \<le> i \<and> i < pos + h) \<or> pos + h \<le> i \<and> i < pos + h + (r - h)"
        using I(5) bits by blast
      then show ?thesis using R(5) by linarith
    qed
    ultimately show ?thesis using I(2-4) by simp
  qed
qed

lemma drop_empty_spec: "bm_inv bm \<Longrightarrow> \<exists>bm'. drop_empty cs bm = Inr bm' \<and> bm_inv bm' \<and> bm_chunks bm' = bm_chunks bm"
proof (induction cs arbitrary: bm)
  case (Cons c cs)
  show ?case
  proof (cases "c < length (bm_chunks bm)")
    case True
    then obtain bm1 where "chunkmap_clear_if_empty c bm = Inr bm1" "bm_inv bm1" "bm_chunks bm1 = bm_chunks bm"
      using chunkmap_clear_keeps [OF Cons.prems] by blast
    moreover from this obtain bm2 where "drop_empty cs bm1 = Inr bm2" "bm_inv bm2" "bm_chunks bm2 = bm_chunks bm1"
      using Cons.IH by blast
    ultimately show ?thesis using True by auto
  qed (use Cons in auto)
qed simp

lemma range_try_clear_spec:
  assumes "bm_inv bm" "idx + n \<le> 512 * length (bm_chunks bm)"
  shows "\<exists>ok bm'. range_try_clear idx n bm = Inr (ok, bm') \<and> bm_inv bm' \<and> length (bm_chunks bm') = length (bm_chunks bm)
    \<and> (ok \<longleftrightarrow> {idx..<idx + n} \<subseteq> bits_of bm) \<and> bits_of bm' = (if ok then bits_of bm - {idx..<idx + n} else bits_of bm)"
proof -
  have "bm_ok bm" using assms(1) by (simp add: bm_inv_def)
  from range_clear_loop_spec [OF this assms(2), of 0]
  obtain ok k bm1 where L0: "range_clear_loop idx n 0 bm = Inr (ok, 0 + k, bm1)" "cleared_upto bm idx n ok k bm1" by blast
  then have L: "range_clear_loop idx n 0 bm = Inr (ok, k, bm1)" "k \<le> n" "bm_ok bm1" "bm_chunkmap bm1 = bm_chunkmap bm"
      "length (bm_chunks bm1) = length (bm_chunks bm)" "{idx..<idx + k} \<subseteq> bits_of bm"
      "bits_of bm1 = bits_of bm - {idx..<idx + k}"
    by (simp_all add: cleared_upto_def)
  have sub: "ok \<longleftrightarrow> {idx..<idx + n} \<subseteq> bits_of bm" and kn: "ok \<Longrightarrow> k = n"
    using L0(2) by (auto simp: cleared_upto_def split: if_splits)
  show ?thesis
  proof (cases ok)
    case True
    have "conservative bm1" using L(4,7) assms(1) by (auto simp: bm_inv_def conservative_def bits_of_def)
    then obtain bm2 where D: "drop_empty (map (\<lambda>off. idx div CHUNK_BITS + off) [0..<nat_div_ceil n CHUNK_BITS + 1]) bm1 = Inr bm2"
        "bm_inv bm2" "bm_chunks bm2 = bm_chunks bm1"
      using drop_empty_spec [of bm1] L(3) by (auto simp: bm_inv_def)
    have "range_try_clear idx n bm = Inr (True, bm2)" using L(1) True D(1) by (simp add: range_try_clear_def)
    moreover have "bits_of bm2 = bits_of bm - {idx..<idx + n}"
      using L(7) kn [OF True] bm_bit_chunks [OF D(3)] by (simp add: bits_of_def)
    ultimately show ?thesis using D(2,3) L(5) True sub by auto
  next
    case False
    obtain bm2 where B: "range_rollback idx k bm1 = Inr bm2" "bm_ok bm2" "bm_chunkmap bm2 = bm_chunkmap bm1"
        "length (bm_chunks bm2) = length (bm_chunks bm1)" "\<forall>i. bm_bit bm2 i \<longleftrightarrow> bm_bit bm1 i \<or> idx \<le> i \<and> i < idx + k"
      using range_rollback_spec [OF L(3), of idx k] L(2,5) assms(2) by auto
    have "bits_of bm2 = bits_of bm1 \<union> {idx..<idx + k}" using B(5) by (intro set_eqI) (simp add: bits_of_def)
    then have "bits_of bm2 = bits_of bm" using L(6,7) by blast
    then have same: "bm_bit bm2 i \<longleftrightarrow> bm_bit bm i" for i unfolding bits_of_def by (metis mem_Collect_eq)
    then have "bm_inv bm2" using B(2,3) L(4) assms(1) by (simp add: bm_inv_def conservative_def)
    moreover have "range_try_clear idx n bm = Inr (False, bm2)" using L(1) False B(1) by (simp add: range_try_clear_def)
    ultimately show ?thesis using B(4) L(5) False sub same by (auto simp: bits_of_def)
  qed
qed

lemma max_bits_eq: "max_bits bm = 512 * length (bm_chunks bm)"
  by (simp add: max_bits_def mi_consts)

lemma find_huge_spec:
  assumes "bm_inv bm"
  shows "(\<exists>k bm'. find_huge (max_bits bm) n start bm = Inr (Some k, bm') \<and> claimed bm n k bm')
    \<or> find_huge (max_bits bm) n start bm = Inr (None, bm)
        \<and> (\<forall>k\<ge>start. k + n \<le> max_bits bm \<longrightarrow> \<not> {k..<k + n} \<subseteq> bits_of bm)"
proof (induction "max_bits bm + 1 - start" arbitrary: start rule: less_induct)
  case less
  show ?case
  proof (cases "start + n \<le> max_bits bm")
    case False
    then show ?thesis by (subst (1 2) find_huge.simps) auto
  next
    case True
    have ok: "bm_ok bm" using assms by (simp add: bm_inv_def)
    have in_range: "start + n \<le> 512 * length (bm_chunks bm)" using True by (simp add: max_bits_eq)
    have probe: "range_is_set start n bm = Inr ({start..<start + n} \<subseteq> bits_of bm)"
      using range_is_set_spec [OF ok in_range] by (simp add: subset_bits)
    show ?thesis
    proof (cases "{start..<start + n} \<subseteq> bits_of bm")
      case yes: True
      then obtain bm' where "range_try_clear start n bm = Inr (True, bm')" "bm_inv bm'"
          "length (bm_chunks bm') = length (bm_chunks bm)" "bits_of bm' = bits_of bm - {start..<start + n}"
        using range_try_clear_spec [OF assms in_range] by auto
      then have "find_huge (max_bits bm) n start bm = Inr (Some start, bm')" "claimed bm n start bm'"
        using True probe yes by (subst find_huge.simps, simp_all add: claimed_def)
      then show ?thesis by blast
    next
      case no: False
      have step: "find_huge (max_bits bm) n start bm = find_huge (max_bits bm) n (start + 1) bm"
        using True probe no by (subst find_huge.simps) simp
      have "max_bits bm + 1 - (start + 1) < max_bits bm + 1 - start" using True by simp
      from less [OF this] show ?thesis
        unfolding step using no by (metis le_antisym not_less_eq_eq Suc_eq_plus1)
    qed
  qed
qed

section \<open>Properties of the bitmap\<close>

lemma bitmap_claim_in_chunk_spec:
  assumes "bm_inv bm" "0 < n" "n \<le> CHUNK_BITS"
  shows "(\<exists>k bm'. try_find_and_clear_n n tseq bm = Inr (Some k, bm') \<and> k + n \<le> max_bits bm
        \<and> k mod CHUNK_BITS + n \<le> CHUNK_BITS \<and> {k..<k + n} \<subseteq> bits_of bm
        \<and> bits_of bm' = bits_of bm - {k..<k + n} \<and> bm_inv bm' \<and> max_bits bm' = max_bits bm)
    \<or> try_find_and_clear_n n tseq bm = Inr (None, bm)
        \<and> (\<forall>k. k mod CHUNK_BITS + n \<le> CHUNK_BITS \<longrightarrow> \<not> {k..<k + n} \<subseteq> bits_of bm)"
proof -
  let ?cc = "chunk_count bm"
  have n512: "n \<le> 512" using assms(3) by (simp add: mi_consts)
  define start where "start = (if ?cc = 0 then 0 else tseq mod ?cc)"
  have run: "try_find_and_clear_n n tseq bm = find_in_chunks n (chunk_order start ?cc) bm"
    using assms(2,3) by (simp add: try_find_and_clear_n_def start_def Let_def)
  have cover: "set (chunk_order start ?cc) = {..<?cc}"
    using chunk_order_all [of ?cc start] by (cases "?cc = 0") (auto simp: chunk_order_def)
  then have "\<forall>c\<in>set (chunk_order start ?cc). c < length (bm_chunks bm)" by (simp add: chunk_count_def)
  from find_in_chunks_spec [OF assms(1,2) n512 this]
  show ?thesis
  proof
    assume "\<exists>k bm'. find_in_chunks n (chunk_order start ?cc) bm = Inr (Some k, bm') \<and> claimed bm n k bm' \<and> k mod 512 + n \<le> 512"
    then show ?thesis unfolding run by (auto simp: claimed_def mi_consts max_bits_def)
  next
    assume none: "find_in_chunks n (chunk_order start ?cc) bm = Inr (None, bm)
      \<and> (\<forall>k. k div 512 \<in> set (chunk_order start ?cc) \<longrightarrow> \<not> chunk_run bm k n)"
    have "\<not> {k..<k + n} \<subseteq> bits_of bm" if "k mod 512 + n \<le> 512" for k
    proof
      assume sub: "{k..<k + n} \<subseteq> bits_of bm"
      then have "bm_bit bm k" using assms(2) by (simp add: subset_bits)
      then have "k div 512 < ?cc" by (simp add: chunk_count_def bm_bit_def)
      then have "k div 512 \<in> set (chunk_order start ?cc)" by (simp only: cover lessThan_iff)
      with none sub that show False by (simp add: chunk_run_def)
    qed
    with none show ?thesis unfolding run by (simp add: mi_consts)
  qed
qed

text \<open>
  C14. Claiming \<open>n\<close> contiguous free slices is sound and complete for runs inside a chunk: on success
  the range was free before, lies in the bitmap and inside one chunk, and is exactly what the bitmap
  loses; on failure nothing changed and no chunk holds such a run, whatever start chunk \<open>tseq\<close>
  selects. The operation always ends without a panic and keeps the bitmap's invariant, in
  particular the chunkmap never hides a free slice from later searches.
\<close>

theorem bitmap_claim_in_chunk:
  assumes "bm_inv bm" "0 < n" "n \<le> CHUNK_BITS"
  shows "(\<exists>k bm'. try_find_and_clear_n n tseq bm = Inr (Some k, bm') \<and> k + n \<le> max_bits bm
        \<and> k mod CHUNK_BITS + n \<le> CHUNK_BITS \<and> {k..<k + n} \<subseteq> bits_of bm
        \<and> bits_of bm' = bits_of bm - {k..<k + n} \<and> bm_inv bm' \<and> max_bits bm' = max_bits bm)
    \<or> try_find_and_clear_n n tseq bm = Inr (None, bm)
        \<and> (\<forall>k. k mod CHUNK_BITS + n \<le> CHUNK_BITS \<longrightarrow> \<not> {k..<k + n} \<subseteq> bits_of bm)"
  by (rule bitmap_claim_in_chunk_spec [OF assms])

text \<open>A one-chunk bitmap for examples: sixteen free slices.\<close>

definition sample_bitmap :: bitmap where
  "sample_bitmap = \<lparr>bm_chunkmap = 1 # replicate 7 0, bm_chunks = [0xFFFF # replicate 7 0]\<rparr>"

lemma sample_bitmap_inv: "bm_inv sample_bitmap" and sample_bitmap_max: "max_bits sample_bitmap = 512"
proof -
  have "cbit (1 # replicate 7 0) 0" by (simp add: cbit_def)
  then show "bm_inv sample_bitmap"
    by (auto simp: bm_inv_def bm_ok_def conservative_def bm_bit_def sample_bitmap_def)
  show "max_bits sample_bitmap = 512" by (simp add: max_bits_def sample_bitmap_def mi_consts)
qed

lemma sample_bitmap_bits: "i < 16 \<Longrightarrow> bm_bit sample_bitmap i"
proof -
  assume i: "i < 16"
  then have "bit (mask 16 :: usize) i" by (simp add: bit_mask_iff)
  moreover have "(mask 16 :: usize) = 0xFFFF" by (simp add: mask_eq_exp_minus_1)
  ultimately have "bit (0xFFFF :: usize) i" by metis
  with i show ?thesis by (simp add: bm_bit_def cbit_def sample_bitmap_def)
qed

lemma bitmap_claim_in_chunk_witness:
  "\<exists>k bm'. try_find_and_clear_n 4 0 sample_bitmap = Inr (Some k, bm') \<and> bits_of bm' = bits_of sample_bitmap - {k..<k + 4}"
proof -
  have "{0..<0 + 4} \<subseteq> bits_of sample_bitmap" using sample_bitmap_bits by (auto simp: bits_of_def)
  then have "\<not> (\<forall>k. k mod CHUNK_BITS + 4 \<le> CHUNK_BITS \<longrightarrow> \<not> {k..<k + 4} \<subseteq> bits_of sample_bitmap)"
    by (intro notI) (auto dest!: spec [of _ 0] simp: mi_consts)
  then show ?thesis
    using bitmap_claim_in_chunk [OF sample_bitmap_inv, of 4 0] by (auto simp: mi_consts)
qed

lemma bitmap_claim_huge_spec:
  assumes "bm_inv bm" "CHUNK_BITS < n"
  shows "(\<exists>k bm'. try_find_and_clear_n n tseq bm = Inr (Some k, bm') \<and> k + n \<le> max_bits bm
        \<and> {k..<k + n} \<subseteq> bits_of bm \<and> bits_of bm' = bits_of bm - {k..<k + n} \<and> bm_inv bm' \<and> max_bits bm' = max_bits bm)
    \<or> try_find_and_clear_n n tseq bm = Inr (None, bm) \<and> (\<forall>k. \<not> {k..<k + n} \<subseteq> bits_of bm)"
proof -
  have n0: "n \<noteq> 0" "\<not> n \<le> CHUNK_BITS" using assms(2) by auto
  have run: "try_find_and_clear_n n tseq bm = find_huge (max_bits bm) n 0 bm"
    using n0 by (simp add: try_find_and_clear_n_def try_find_and_clear_n_huge_def Let_def)
  have out: "k + n \<le> max_bits bm" if "{k..<k + n} \<subseteq> bits_of bm" for k
  proof -
    have "k + n - 1 \<in> {k..<k + n}" using n0(1) by simp
    then have "bm_bit bm (k + n - 1)" using that by (auto simp: bits_of_def)
    then have "(k + n - 1) div 512 < length (bm_chunks bm)" by (simp add: bm_bit_def)
    then show ?thesis using n0(1) by (simp add: max_bits_eq div_less_iff_less_mult mult.commute)
  qed
  from find_huge_spec [OF assms(1), of n 0] show ?thesis
    unfolding run using out by (auto simp: claimed_def max_bits_eq)
qed

text \<open>
  C26. Runs longer than a chunk are searched across chunk boundaries: on success the range was free,
  lies in the bitmap and is exactly what the bitmap loses; on failure nothing changed and the
  bitmap holds no such run anywhere. The scan ends although it re-probes after a lost race.
\<close>

theorem bitmap_claim_huge:
  assumes "bm_inv bm" "CHUNK_BITS < n"
  shows "(\<exists>k bm'. try_find_and_clear_n n tseq bm = Inr (Some k, bm') \<and> k + n \<le> max_bits bm
        \<and> {k..<k + n} \<subseteq> bits_of bm \<and> bits_of bm' = bits_of bm - {k..<k + n} \<and> bm_inv bm' \<and> max_bits bm' = max_bits bm)
    \<or> try_find_and_clear_n n tseq bm = Inr (None, bm) \<and> (\<forall>k. \<not> {k..<k + n} \<subseteq> bits_of bm)"
  by (rule bitmap_claim_huge_spec [OF assms])

lemma bitmap_claim_huge_witness: "try_find_and_clear_n 600 0 sample_bitmap = Inr (None, sample_bitmap)"
  using bitmap_claim_huge [OF sample_bitmap_inv, of 600 0] by (auto simp: mi_consts sample_bitmap_max [unfolded mi_consts])

lemma bitmap_set_clear_spec:
  assumes "bm_inv bm" "idx + n \<le> max_bits bm" "idx mod CHUNK_BITS + n \<le> CHUNK_BITS" "0 < n"
  shows "(\<exists>bm'. set_n idx n bm = Inr ({idx..<idx + n} \<inter> bits_of bm = {}, bm') \<and> bm_inv bm'
        \<and> max_bits bm' = max_bits bm \<and> bits_of bm' = bits_of bm \<union> {idx..<idx + n})
    \<and> (\<exists>bm'. clear_n idx n bm = Inr ({idx..<idx + n} \<subseteq> bits_of bm, bm') \<and> bm_inv bm' \<and> max_bits bm' = max_bits bm
        \<and> bits_of bm' = (if {idx..<idx + n} \<subseteq> bits_of bm then bits_of bm - {idx..<idx + n} else bits_of bm))
    \<and> is_set_n idx n bm = Inr ({idx..<idx + n} \<subseteq> bits_of bm)
    \<and> is_clear_n idx n bm = Inr ({idx..<idx + n} \<inter> bits_of bm = {})"
proof -
  have c: "idx div 512 < length (bm_chunks bm)"
    using assms(2,4) by (simp add: max_bits_eq div_less_iff_less_mult mult.commute)
  have fit: "idx mod 512 + n \<le> 512" using assms(3) by (simp add: mi_consts)
  have none: "{idx..<idx + n} \<inter> bits_of bm = {} \<longleftrightarrow> (\<forall>i. idx \<le> i \<and> i < idx + n \<longrightarrow> \<not> bm_bit bm i)"
    unfolding bits_of_def by auto
  obtain bm1 where s: "set_n idx n bm = Inr (\<forall>i. idx \<le> i \<and> i < idx + n \<longrightarrow> \<not> bm_bit bm i, bm1)" "bm_inv bm1"
      "length (bm_chunks bm1) = length (bm_chunks bm)" "\<forall>i. bm_bit bm1 i \<longleftrightarrow> bm_bit bm i \<or> idx \<le> i \<and> i < idx + n"
    using set_n_spec [OF assms(1) c fit] by blast
  obtain ok bm2 where r: "clear_n idx n bm = Inr (ok, bm2)" "bm_inv bm2" "length (bm_chunks bm2) = length (bm_chunks bm)"
      "ok \<longleftrightarrow> {idx..<idx + n} \<subseteq> bits_of bm" "\<forall>i. bm_bit bm2 i \<longleftrightarrow> bm_bit bm i \<and> \<not> (ok \<and> idx \<le> i \<and> i < idx + n)"
    unfolding subset_bits using clear_n_spec [OF assms(1) c fit] by blast
  have "bits_of bm1 = bits_of bm \<union> {idx..<idx + n}" using s(4) by (intro set_eqI) (simp add: bits_of_def)
  moreover have "bits_of bm2 = (if ok then bits_of bm - {idx..<idx + n} else bits_of bm)"
    using r(5) by (intro set_eqI) (simp add: bits_of_def)
  ultimately show ?thesis
    using s(1-3) r(1-4) is_set_n_spec [OF _ c fit] assms(1) unfolding none subset_bits [symmetric]
    by (simp add: max_bits_eq bm_inv_def none)
qed

text \<open>
  Freeing and claiming a fixed range inside a chunk: setting adds exactly the range and reports
  whether none of it was set; clearing succeeds exactly when all of it is set, removes exactly the
  range, and otherwise restores every bit it had already cleared.
\<close>

theorem bitmap_set_clear:
  assumes "bm_inv bm" "idx + n \<le> max_bits bm" "idx mod CHUNK_BITS + n \<le> CHUNK_BITS" "0 < n"
  shows "(\<exists>bm'. set_n idx n bm = Inr ({idx..<idx + n} \<inter> bits_of bm = {}, bm') \<and> bm_inv bm'
        \<and> max_bits bm' = max_bits bm \<and> bits_of bm' = bits_of bm \<union> {idx..<idx + n})
    \<and> (\<exists>bm'. clear_n idx n bm = Inr ({idx..<idx + n} \<subseteq> bits_of bm, bm') \<and> bm_inv bm' \<and> max_bits bm' = max_bits bm
        \<and> bits_of bm' = (if {idx..<idx + n} \<subseteq> bits_of bm then bits_of bm - {idx..<idx + n} else bits_of bm))
    \<and> is_set_n idx n bm = Inr ({idx..<idx + n} \<subseteq> bits_of bm)
    \<and> is_clear_n idx n bm = Inr ({idx..<idx + n} \<inter> bits_of bm = {})"
  by (rule bitmap_set_clear_spec [OF assms])

lemma bitmap_set_clear_witness:
  "\<exists>bm'. set_n 100 10 sample_bitmap = Inr (True, bm') \<or> set_n 100 10 sample_bitmap = Inr (False, bm')"
  using bitmap_set_clear [OF sample_bitmap_inv, of 100 10] sample_bitmap_max by (auto simp: mi_consts)

text \<open>
  Setting a range that crosses the end of its chunk panics: the loop over the fields of the
  chunk indexes past the last one. So the ranges of the huge search, which may span chunks, cannot
  be returned with \<open>set_n\<close>.
\<close>

theorem set_n_crossing_panics:
  assumes "bm_inv bm" "idx < max_bits bm" "CHUNK_BITS < idx mod CHUNK_BITS + n"
  shows "set_n idx n bm = Inl Index_Out_Of_Bounds"
  using assms set_n_crossing [of bm idx n]
  by (simp add: bm_inv_def mi_consts max_bits_def div_less_iff_less_mult)

lemma set_n_crossing_panics_witness: "set_n 0 513 sample_bitmap = Inl Index_Out_Of_Bounds"
  using set_n_crossing_panics [OF sample_bitmap_inv, of 0 513] sample_bitmap_max by (simp add: mi_consts)

section \<open>Claiming with a callback\<close>

text \<open>One accepted offer, or a refusal for each of the offered bits \<open>I\<close> that is set.\<close>

definition claim_result :: "(nat \<Rightarrow> 's \<Rightarrow> bool \<times> 's) \<Rightarrow> bitmap \<Rightarrow> nat set \<Rightarrow> nat option \<times> bitmap \<times> 's \<Rightarrow> bool" where
  "claim_result claim bm I = (\<lambda>(r, bm', s').
    case r of
      Some idx \<Rightarrow> idx \<in> bits_of bm \<and> bits_of bm' = bits_of bm - {idx} \<and> bm_inv bm' \<and> max_bits bm' = max_bits bm
        \<and> (\<exists>s0. claim idx s0 = (True, s'))
    | None \<Rightarrow> bm' = bm \<and> (\<forall>idx\<in>I \<inter> bits_of bm. \<exists>s0. \<not> fst (claim idx s0)))"

lemma claim_result_extend:
  assumes "claim_result claim bm I x" "\<forall>i\<in>J \<inter> bits_of bm. \<exists>s0. \<not> fst (claim i s0)"
  shows "claim_result claim bm (J \<union> I) x"
proof -
  obtain r bm' s' where "x = (r, bm', s')" by (cases x)
  with assms show ?thesis by (cases r) (auto simp: claim_result_def)
qed

lemma claim_in_chunk_spec:
  assumes "bm_inv bm" "c < length (bm_chunks bm)"
  shows "\<forall>b\<in>set bs. b < 512 \<Longrightarrow>
    \<exists>x. claim_in_chunk claim c bs bm s = Inr x \<and> claim_result claim bm ((\<lambda>b. c * 512 + b) ` set bs) x"
proof (induction bs arbitrary: s)
  case Nil
  then show ?case by (simp add: claim_result_def)
next
  case (Cons b bs)
  have ok: "bm_ok bm" using assms(1) by (simp add: bm_inv_def)
  have b: "b < 512" using Cons.prems by simp
  let ?i = "c * 512 + b"
  have i: "?i div 512 = c" "?i mod 512 = b" using b by auto
  have on: "chunk_is_set (bm_chunks bm ! c) b = Inr (bm_bit bm ?i)"
    using chunk_is_set_bit [OF bm_okD(3) [OF ok assms(2)] b] i assms(2) by (simp add: bm_bit_def)
  obtain ac s1 where cl: "claim ?i s = (ac, s1)" by force
  show ?case
  proof (cases "bm_bit bm ?i \<and> ac")
    case True
    have "?i mod 512 + 1 \<le> 512" "?i div 512 < length (bm_chunks bm)" using b assms(2) i by auto
    from clear_n_spec [OF assms(1) this(2,1)]
    obtain ok2 bm' where C: "clear_n ?i 1 bm = Inr (ok2, bm')" "bm_inv bm'" "length (bm_chunks bm') = length (bm_chunks bm)"
        "ok2 \<longleftrightarrow> (\<forall>j. ?i \<le> j \<and> j < ?i + 1 \<longrightarrow> bm_bit bm j)"
        "\<forall>j. bm_bit bm' j \<longleftrightarrow> bm_bit bm j \<and> \<not> (ok2 \<and> ?i \<le> j \<and> j < ?i + 1)"
      by blast
    have ok2 using C(4) True by (metis less_Suc_eq_le le_antisym Suc_eq_plus1)
    then have "bm_bit bm' j \<longleftrightarrow> bm_bit bm j \<and> j \<noteq> ?i" for j
    proof -
      have "?i \<le> j \<and> j < ?i + 1 \<longleftrightarrow> j = ?i" by linarith
      then show ?thesis using C(5) \<open>ok2\<close> by metis
    qed
    then have "bits_of bm' = bits_of bm - {?i}" by (intro set_eqI) (simp add: bits_of_def)
    moreover have "claim_in_chunk claim c (b # bs) bm s = Inr (Some ?i, bm', s1)"
      using True cl on C(1) by (simp add: chunk_at_ok [OF assms(2)] mi_consts clear_bit1_def)
    moreover have "?i \<in> bits_of bm" "max_bits bm' = max_bits bm" "claim ?i s = (True, s1)"
      using True cl C(3) by (simp_all add: bits_of_def max_bits_def)
    ultimately show ?thesis
      using C(2) by (intro exI [of _ "(Some ?i, bm', s1)"]) (simp add: claim_result_def, blast)
  next
    case False
    have "\<exists>s'. claim_in_chunk claim c (b # bs) bm s = claim_in_chunk claim c bs bm s'"
      using False cl on by (auto simp: chunk_at_ok [OF assms(2)] mi_consts)
    then obtain s' where step: "claim_in_chunk claim c (b # bs) bm s = claim_in_chunk claim c bs bm s'" ..
    have "\<not> fst (claim ?i s)" if "?i \<in> bits_of bm" using False cl that by (simp add: bits_of_def)
    then have "\<forall>i\<in>{?i} \<inter> bits_of bm. \<exists>s0. \<not> fst (claim i s0)" by blast
    moreover obtain x where x: "claim_in_chunk claim c bs bm s' = Inr x" "claim_result claim bm ((\<lambda>b. c * 512 + b) ` set bs) x"
      using Cons.IH [of s'] Cons.prems by auto
    ultimately have "claim_result claim bm ({?i} \<union> (\<lambda>b. c * 512 + b) ` set bs) x"
      using claim_result_extend by blast
    then show ?thesis unfolding step using x(1) by simp
  qed
qed

lemma claim_in_chunks_spec:
  assumes "bm_inv bm"
  shows "\<forall>c\<in>set cs. c < length (bm_chunks bm) \<Longrightarrow>
    \<exists>x. claim_in_chunks claim cs bm s = Inr x \<and> claim_result claim bm {i. i div 512 \<in> set cs} x"
proof (induction cs arbitrary: s)
  case Nil
  then show ?case by (simp add: claim_result_def)
next
  case (Cons c cs)
  have ok: "bm_ok bm" using assms by (simp add: bm_inv_def)
  have c: "c < length (bm_chunks bm)" using Cons.prems by simp
  then have "c < 512" using bm_okD(2) [OF ok] by linarith
  then have mark: "chunk_is_set (bm_chunkmap bm) c = Inr (cbit (bm_chunkmap bm) c)"
    using bm_okD(1) [OF ok] by (intro chunk_is_set_bit)
  have all: "(\<lambda>b. c * 512 + b) ` set [0..<512] = {i. i div 512 = c}"
  proof (intro set_eqI iffI)
    fix i assume "i \<in> {i. i div 512 = c}"
    then have "i = c * 512 + i mod 512" by auto
    then show "i \<in> (\<lambda>b. c * 512 + b) ` set [0..<512]" by (intro image_eqI [of _ _ "i mod 512"]) auto
  qed auto
  have extend: "claim_result claim bm {i. i div 512 \<in> set (c # cs)} x"
    if "claim_result claim bm {i. i div 512 \<in> set cs} x" "\<forall>i\<in>{i. i div 512 = c} \<inter> bits_of bm. \<exists>s0. \<not> fst (claim i s0)" for x
  proof -
    have "{i. i div 512 \<in> set (c # cs)} = {i. i div 512 = c} \<union> {i. i div 512 \<in> set cs}" by auto
    then show ?thesis using claim_result_extend [OF that] by simp
  qed
  show ?case
  proof (cases "cbit (bm_chunkmap bm) c")
    case False
    have "{i. i div 512 = c} \<inter> bits_of bm = {}"
      using assms False by (auto simp: bm_inv_def conservative_def bits_of_def)
    then show ?thesis using extend Cons.IH [of s] Cons.prems mark False by auto
  next
    case True
    obtain r bm' s' where x: "claim_in_chunk claim c [0..<512] bm s = Inr (r, bm', s')"
        "claim_result claim bm {i. i div 512 = c} (r, bm', s')"
      using claim_in_chunk_spec [OF assms c, of "[0..<512]" claim s] unfolding all by auto
    show ?thesis
    proof (cases r)
      case (Some idx)
      then show ?thesis using x mark True by (auto simp: mi_consts claim_result_def)
    next
      case None
      then have "bm' = bm" "\<forall>i\<in>{i. i div 512 = c} \<inter> bits_of bm. \<exists>s0. \<not> fst (claim i s0)"
        using x(2) by (simp_all add: claim_result_def)
      then show ?thesis using extend Cons.IH [of s'] Cons.prems x(1) None mark True by (auto simp: mi_consts)
    qed
  qed
qed

lemma bitmap_find_and_claim_spec:
  assumes "bm_inv bm"
  shows "\<exists>r bm' s'. try_find_and_claim tseq claim bm s = Inr (r, bm', s') \<and>
    (case r of
       Some idx \<Rightarrow> idx \<in> bits_of bm \<and> bits_of bm' = bits_of bm - {idx} \<and> bm_inv bm' \<and> max_bits bm' = max_bits bm
         \<and> (\<exists>s0. claim idx s0 = (True, s'))
     | None \<Rightarrow> bm' = bm \<and> (\<forall>idx\<in>bits_of bm. \<exists>s0. \<not> fst (claim idx s0)))"
proof (cases "chunk_count bm = 0")
  case True
  then have "bits_of bm = {}" by (auto simp: bits_of_def bm_bit_def chunk_count_def)
  with True show ?thesis by (simp add: try_find_and_claim_def)
next
  case False
  let ?cs = "chunk_order (tseq mod chunk_count bm) (chunk_count bm)"
  have cover: "set ?cs = {..<chunk_count bm}" using False by (intro chunk_order_all) simp
  obtain x where x: "claim_in_chunks claim ?cs bm s = Inr x" "claim_result claim bm {i. i div 512 \<in> set ?cs} x"
    using claim_in_chunks_spec [OF assms, of ?cs claim s] cover by (auto simp: chunk_count_def)
  have "{i. i div 512 \<in> set ?cs} \<inter> bits_of bm = bits_of bm"
    unfolding cover by (auto simp: bits_of_def bm_bit_def chunk_count_def)
  moreover obtain r bm' s' where xe: "x = (r, bm', s')" by (cases x)
  ultimately show ?thesis
    using x False unfolding xe by (cases r) (simp_all add: try_find_and_claim_def claim_result_def Let_def)
qed

text \<open>
  C27. Claiming with a callback: a bit is returned only if it was set and the callback accepted it,
  and then exactly that bit is cleared; bits the callback refuses stay set; if nothing is returned
  the bitmap is unchanged and the callback refused every set bit. It always ends without a panic.
\<close>

theorem bitmap_find_and_claim:
  assumes "bm_inv bm"
  shows "\<exists>r bm' s'. try_find_and_claim tseq claim bm s = Inr (r, bm', s') \<and>
    (case r of
       Some idx \<Rightarrow> idx \<in> bits_of bm \<and> bits_of bm' = bits_of bm - {idx} \<and> bm_inv bm' \<and> max_bits bm' = max_bits bm
         \<and> (\<exists>s0. claim idx s0 = (True, s'))
     | None \<Rightarrow> bm' = bm \<and> (\<forall>idx\<in>bits_of bm. \<exists>s0. \<not> fst (claim idx s0)))"
  by (rule bitmap_find_and_claim_spec [OF assms])

lemma bitmap_find_and_claim_witness:
  "\<exists>r bm' s'. try_find_and_claim 3 (\<lambda>i s. (i = 2, s + i)) sample_bitmap (0::nat) = Inr (r, bm', s') \<and> (r = None \<or> r = Some 2)"
  using bitmap_find_and_claim [OF sample_bitmap_inv, of 3 "\<lambda>i s. (i = 2, s + i)" 0]
  by (auto split: option.splits)


section \<open>The interface the arenas use\<close>

lemma unsafe_set_n_spec:
  "bm_inv bm \<Longrightarrow> pos + r \<le> 512 * length (bm_chunks bm) \<Longrightarrow> \<exists>bm'. unsafe_set_n pos r bm = Inr bm' \<and> bm_inv bm'
    \<and> length (bm_chunks bm') = length (bm_chunks bm) \<and> (\<forall>i. bm_bit bm' i \<longleftrightarrow> bm_bit bm i \<or> pos \<le> i \<and> i < pos + r)"
proof (induction r arbitrary: pos bm rule: less_induct)
  case (less r)
  show ?case
  proof (cases "r = 0")
    case True
    then show ?thesis using less.prems by (subst unsafe_set_n.simps) auto
  next
    case False
    have ok: "bm_ok bm" using less.prems(1) by (simp add: bm_inv_def)
    obtain c b h where R: "chunk_of pos = (c, b)" "min r (CHUNK_BITS - b) = h" "c < length (bm_chunks bm)" "0 < h" "h \<le> r"
        "b + h \<le> 512" "chunk_at bm c = Inr (bm_chunks bm ! c)" "length (bm_chunks bm ! c) = 8"
        "pos + h + (r - h) \<le> 512 * length (bm_chunks bm)"
      using round_chunk [OF ok less.prems(2)] False by (metis gr0I)
    have cb: "pos div 512 = c" "pos mod 512 = b" using R(1) by (auto simp: chunk_of_def mi_consts)
    obtain bm1 where S: "set_n pos h bm = Inr (\<forall>i. pos \<le> i \<and> i < pos + h \<longrightarrow> \<not> bm_bit bm i, bm1)" "bm_inv bm1"
        "length (bm_chunks bm1) = length (bm_chunks bm)" "\<forall>i. bm_bit bm1 i \<longleftrightarrow> bm_bit bm i \<or> pos \<le> i \<and> i < pos + h"
      using set_n_spec [OF less.prems(1), of pos h] R(3,6) cb by auto
    have step: "unsafe_set_n pos r bm = unsafe_set_n (pos + h) (r - h) bm1"
      using S(1) False R(1,2) chunk_is_clear_n_range [OF R(8,6)]
      by (subst unsafe_set_n.simps) (auto simp: set_n_def R(7) Let_def run_bind_eq_Inr)
    have "r - h < r" "pos + h + (r - h) \<le> 512 * length (bm_chunks bm1)" using R(4,9) False S(3) by simp_all
    from less.IH [OF this(1) S(2) this(2)] obtain bm' where I: "unsafe_set_n (pos + h) (r - h) bm1 = Inr bm'" "bm_inv bm'"
        "length (bm_chunks bm') = length (bm_chunks bm1)"
        "\<forall>i. bm_bit bm' i \<longleftrightarrow> bm_bit bm1 i \<or> pos + h \<le> i \<and> i < pos + h + (r - h)"
      by blast
    have "bm_bit bm' i \<longleftrightarrow> bm_bit bm i \<or> pos \<le> i \<and> i < pos + r" for i
    proof -
      have "bm_bit bm' i \<longleftrightarrow> (bm_bit bm i \<or> pos \<le> i \<and> i < pos + h) \<or> pos + h \<le> i \<and> i < pos + h + (r - h)"
        using I(4) S(4) by blast
      then show ?thesis using R(5) by linarith
    qed
    with step I(1-3) S(3) show ?thesis by simp
  qed
qed

text \<open>
  An arena claims runs of slices, gives ranges back, and takes a given range if all of it is free.
  Ranges of the latter two stay inside a unit of \<open>unit\<close> slices.
\<close>

locale slice_set =
  fixes ok :: "'b \<Rightarrow> bool"
    and free :: "'b \<Rightarrow> nat set"
    and lim :: "'b \<Rightarrow> nat"
    and unit_size :: nat
    and claim :: "nat \<Rightarrow> nat \<Rightarrow> 'b \<Rightarrow> (nat option \<times> 'b) run"
    and put :: "nat \<Rightarrow> nat \<Rightarrow> 'b \<Rightarrow> (bool \<times> 'b) run"
    and take :: "nat \<Rightarrow> nat \<Rightarrow> 'b \<Rightarrow> (bool \<times> 'b) run"
  assumes claim_unit: "ok s \<Longrightarrow> 0 < n \<Longrightarrow> n \<le> unit_size \<Longrightarrow>
      (\<exists>k s'. claim n t s = Inr (Some k, s') \<and> k + n \<le> lim s \<and> k mod unit_size + n \<le> unit_size
        \<and> {k..<k + n} \<subseteq> free s \<and> free s' = free s - {k..<k + n} \<and> ok s' \<and> lim s' = lim s)
      \<or> claim n t s = Inr (None, s) \<and> (\<forall>k. k mod unit_size + n \<le> unit_size \<longrightarrow> \<not> {k..<k + n} \<subseteq> free s)"
    and claim_long: "ok s \<Longrightarrow> unit_size < n \<Longrightarrow>
      (\<exists>k s'. claim n t s = Inr (Some k, s') \<and> k + n \<le> lim s
        \<and> {k..<k + n} \<subseteq> free s \<and> free s' = free s - {k..<k + n} \<and> ok s' \<and> lim s' = lim s)
      \<or> claim n t s = Inr (None, s) \<and> (\<forall>k. \<not> {k..<k + n} \<subseteq> free s)"
    and put_free: "ok s \<Longrightarrow> 0 < n \<Longrightarrow> k + n \<le> lim s \<Longrightarrow> k mod unit_size + n \<le> unit_size \<Longrightarrow>
      \<exists>s'. put k n s = Inr ({k..<k + n} \<inter> free s = {}, s') \<and> ok s' \<and> lim s' = lim s \<and> free s' = free s \<union> {k..<k + n}"
    and take_free: "ok s \<Longrightarrow> 0 < n \<Longrightarrow> k + n \<le> lim s \<Longrightarrow> k mod unit_size + n \<le> unit_size \<Longrightarrow>
      \<exists>s'. take k n s = Inr ({k..<k + n} \<subseteq> free s, s') \<and> ok s' \<and> lim s' = lim s
        \<and> free s' = (if {k..<k + n} \<subseteq> free s then free s - {k..<k + n} else free s)"
begin

text \<open>Giving back what was claimed or taken restores the set.\<close>

lemma claim_put:
  assumes "ok s" "0 < n" "n \<le> unit_size" "claim n t s = Inr (Some k, s')"
  shows "\<exists>s''. put k n s' = Inr (True, s'') \<and> ok s'' \<and> free s'' = free s \<and> lim s'' = lim s"
proof -
  have c: "k + n \<le> lim s" "k mod unit_size + n \<le> unit_size" "{k..<k + n} \<subseteq> free s" "free s' = free s - {k..<k + n}"
      "ok s'" "lim s' = lim s"
    using claim_unit [OF assms(1-3), of t] assms(4) by auto
  then show ?thesis using put_free [of s' n k] assms(2) by auto
qed

lemma take_put:
  assumes "ok s" "0 < n" "k + n \<le> lim s" "k mod unit_size + n \<le> unit_size" "take k n s = Inr (True, s')"
  shows "\<exists>s''. put k n s' = Inr (True, s'') \<and> ok s'' \<and> free s'' = free s \<and> lim s'' = lim s"
proof -
  have "{k..<k + n} \<subseteq> free s" "ok s'" "lim s' = lim s" "free s' = free s - {k..<k + n}"
    using take_free [OF assms(1-4)] assms(5) by auto
  then show ?thesis using put_free [of s' n k] assms(2-4) by auto
qed

lemma claim_fits: "ok s \<Longrightarrow> 0 < n \<Longrightarrow> claim n t s = Inr (Some k, s') \<Longrightarrow>
    k + n \<le> lim s \<and> {k..<k + n} \<subseteq> free s \<and> free s' = free s - {k..<k + n} \<and> ok s' \<and> lim s' = lim s
    \<and> (n \<le> unit_size \<longrightarrow> k mod unit_size + n \<le> unit_size)"
  using claim_unit [of s n t] claim_long [of s n t] by (cases "n \<le> unit_size") auto

lemma claim_returns: "ok s \<Longrightarrow> 0 < n \<Longrightarrow> \<exists>r s'. claim n t s = Inr (r, s') \<and> (r = None \<longrightarrow> s' = s)"
  using claim_unit [of s n t] claim_long [of s n t] by (cases "n \<le> unit_size") auto

end

interpretation slices: slice_set bm_inv bits_of max_bits CHUNK_BITS try_find_and_clear_n set_n clear_n
proof
  fix s :: bitmap and n t k :: nat
  assume inv: "bm_inv s"
  show "0 < n \<Longrightarrow> n \<le> CHUNK_BITS \<Longrightarrow>
      (\<exists>k s'. try_find_and_clear_n n t s = Inr (Some k, s') \<and> k + n \<le> max_bits s \<and> k mod CHUNK_BITS + n \<le> CHUNK_BITS
        \<and> {k..<k + n} \<subseteq> bits_of s \<and> bits_of s' = bits_of s - {k..<k + n} \<and> bm_inv s' \<and> max_bits s' = max_bits s)
      \<or> try_find_and_clear_n n t s = Inr (None, s)
        \<and> (\<forall>k. k mod CHUNK_BITS + n \<le> CHUNK_BITS \<longrightarrow> \<not> {k..<k + n} \<subseteq> bits_of s)"
    by (rule bitmap_claim_in_chunk_spec [OF inv])
  show "CHUNK_BITS < n \<Longrightarrow>
      (\<exists>k s'. try_find_and_clear_n n t s = Inr (Some k, s') \<and> k + n \<le> max_bits s
        \<and> {k..<k + n} \<subseteq> bits_of s \<and> bits_of s' = bits_of s - {k..<k + n} \<and> bm_inv s' \<and> max_bits s' = max_bits s)
      \<or> try_find_and_clear_n n t s = Inr (None, s) \<and> (\<forall>k. \<not> {k..<k + n} \<subseteq> bits_of s)"
    by (rule bitmap_claim_huge_spec [OF inv])
  assume a: "0 < n" "k + n \<le> max_bits s" "k mod CHUNK_BITS + n \<le> CHUNK_BITS"
  show "\<exists>s'. set_n k n s = Inr ({k..<k + n} \<inter> bits_of s = {}, s') \<and> bm_inv s' \<and> max_bits s' = max_bits s
      \<and> bits_of s' = bits_of s \<union> {k..<k + n}"
    using bitmap_set_clear_spec [OF inv a(2,3,1)] by blast
  show "\<exists>s'. clear_n k n s = Inr ({k..<k + n} \<subseteq> bits_of s, s') \<and> bm_inv s' \<and> max_bits s' = max_bits s
      \<and> bits_of s' = (if {k..<k + n} \<subseteq> bits_of s then bits_of s - {k..<k + n} else bits_of s)"
    using bitmap_set_clear_spec [OF inv a(2,3,1)] by blast
qed

end
