(* ===== verification/MiPageMap.thy ===== *)
theory MiPageMap
  imports MiBits
begin

unbundle bit_operations_syntax

text \<open>
  \<^verbatim>\<open>src/page_map.rs\<close>: the two-level map from address slices to page headers. The top table and
  the submaps are mapped from the OS on demand; \<open>ok k\<close> says whether the \<open>k\<close>-th mapping the module
  asks for succeeds. Entries of the top table are pointers: either to the one static \<open>ZERO_SUBMAP\<close>
  or to a submap of its own, kept in a store, so that a write through an entry reaches every entry
  that points at the same submap.
\<close>

section \<open>State and constants\<close>

definition SUB_SHIFT :: nat where "SUB_SHIFT = 13"
definition SUB_COUNT :: usize where "SUB_COUNT = push_bit SUB_SHIFT 1"
definition TOP_SHIFT :: nat where "TOP_SHIFT = MI_MAX_VABITS - SUB_SHIFT - MI_ARENA_SLICE_SHIFT"
definition TOP_COUNT :: usize where "TOP_COUNT = push_bit TOP_SHIFT 1"

lemma page_map_consts [mi_consts]:
  "SUB_SHIFT = 13" "SUB_COUNT = 8192" "TOP_SHIFT = 18" "TOP_COUNT = 262144"
  by (simp_all add: SUB_SHIFT_def SUB_COUNT_def TOP_SHIFT_def TOP_COUNT_def mi_consts push_bit_eq_mult)

datatype submap_ptr = Zero_Submap | Submap nat

type_synonym submap = "usize \<Rightarrow> ptr"

record page_map =
  pm_top :: "(usize \<Rightarrow> submap_ptr) option"
  pm_zero :: submap
  pm_subs :: "nat \<Rightarrow> submap"
  pm_maps :: nat

text \<open>The statics before the first call; the memory of later mappings reads as null.\<close>

definition pm_start :: page_map where
  "pm_start = \<lparr>pm_top = None, pm_zero = (\<lambda>_. 0), pm_subs = (\<lambda>_ _. 0), pm_maps = 0\<rparr>"

section \<open>Operations\<close>

definition pm_slice_index :: "ptr \<Rightarrow> usize" where
  "pm_slice_index addr = drop_bit MI_ARENA_SLICE_SHIFT addr"

definition pm_split :: "usize \<Rightarrow> usize \<times> usize" where
  "pm_split u = (drop_bit SUB_SHIFT u, u AND (SUB_COUNT - 1))"

definition ensure_top :: "(nat \<Rightarrow> bool) \<Rightarrow> page_map \<Rightarrow> page_map" where
  "ensure_top ok pm =
    (case pm_top pm of
       Some _ \<Rightarrow> pm
     | None \<Rightarrow>
         let k = pm_maps pm; pm = pm\<lparr>pm_maps := Suc k\<rparr>
         in if ok k then pm\<lparr>pm_top := Some (\<lambda>_. Zero_Submap)\<rparr> else pm)"

definition ensure_submap :: "(nat \<Rightarrow> bool) \<Rightarrow> usize \<Rightarrow> page_map \<Rightarrow> submap_ptr \<times> page_map" where
  "ensure_submap ok top_idx pm =
    (case pm_top pm of
       None \<Rightarrow> (Zero_Submap, pm)
     | Some t \<Rightarrow>
         if t top_idx \<noteq> Zero_Submap then (t top_idx, pm)
         else let k = pm_maps pm; pm = pm\<lparr>pm_maps := Suc k\<rparr>
              in if ok k then (Submap k, pm\<lparr>pm_top := Some (t(top_idx := Submap k))\<rparr>)
                 else (Zero_Submap, pm))"

text \<open>A load and a store through a submap pointer.\<close>

fun submap_load :: "submap_ptr \<Rightarrow> usize \<Rightarrow> page_map \<Rightarrow> ptr" where
  "submap_load Zero_Submap i pm = pm_zero pm i"
| "submap_load (Submap k) i pm = pm_subs pm k i"

fun submap_store :: "submap_ptr \<Rightarrow> usize \<Rightarrow> ptr \<Rightarrow> page_map \<Rightarrow> page_map" where
  "submap_store Zero_Submap i v pm = pm\<lparr>pm_zero := (pm_zero pm)(i := v)\<rparr>"
| "submap_store (Submap k) i v pm = pm\<lparr>pm_subs := (pm_subs pm)(k := (pm_subs pm k)(i := v))\<rparr>"

text \<open>The loop of \<open>unregister\<close> from slice \<open>s\<close> on, \<open>n\<close> slices to go.\<close>

fun unregister_loop :: "usize \<Rightarrow> (usize \<Rightarrow> submap_ptr) \<Rightarrow> nat \<Rightarrow> nat \<Rightarrow> page_map \<Rightarrow> page_map" where
  "unregister_loop u0 t s 0 pm = pm"
| "unregister_loop u0 t s (Suc n) pm =
    (let (top_idx, sub_idx) = pm_split (u0 + of_nat s)
     in if top_idx \<ge> TOP_COUNT then pm
        else if t top_idx = Zero_Submap then unregister_loop u0 t (Suc s) n pm
        else unregister_loop u0 t (Suc s) n (submap_store (t top_idx) sub_idx 0 pm))"

definition unregister :: "ptr \<Rightarrow> nat \<Rightarrow> page_map \<Rightarrow> page_map" where
  "unregister addr slice_count pm =
    (case pm_top pm of
       None \<Rightarrow> pm
     | Some t \<Rightarrow> unregister_loop (pm_slice_index addr) t 0 slice_count pm)"

fun register_loop :: "(nat \<Rightarrow> bool) \<Rightarrow> ptr \<Rightarrow> ptr \<Rightarrow> nat \<Rightarrow> nat \<Rightarrow> page_map \<Rightarrow> bool \<times> page_map" where
  "register_loop ok addr page s 0 pm = (True, pm)"
| "register_loop ok addr page s (Suc n) pm =
    (let (top_idx, sub_idx) = pm_split (pm_slice_index addr + of_nat s);
         (sm, pm) = (if top_idx < TOP_COUNT then ensure_submap ok top_idx pm else (Zero_Submap, pm))
     in if sm = Zero_Submap then (False, unregister addr s pm)
        else register_loop ok addr page (Suc s) n (submap_store sm sub_idx page pm))"

definition register :: "(nat \<Rightarrow> bool) \<Rightarrow> ptr \<Rightarrow> nat \<Rightarrow> ptr \<Rightarrow> page_map \<Rightarrow> bool \<times> page_map" where
  "register ok addr slice_count page pm =
    (let pm = ensure_top ok pm
     in if pm_top pm = None then (False, pm) else register_loop ok addr page 0 slice_count pm)"

definition lookup :: "ptr \<Rightarrow> page_map \<Rightarrow> ptr" where
  "lookup addr pm =
    (case pm_top pm of
       None \<Rightarrow> 0
     | Some t \<Rightarrow>
         let (top_idx, sub_idx) = pm_split (pm_slice_index addr)
         in if top_idx \<ge> TOP_COUNT then 0 else submap_load (t top_idx) sub_idx pm)"

section \<open>The map the tables stand for\<close>

text \<open>
  \<open>slot pm u\<close> is what slice number \<open>u\<close> reads as. The invariant: the shared submap is all null, and
  no two top entries share a submap that a mapping returned.
\<close>

definition slot :: "page_map \<Rightarrow> usize \<Rightarrow> ptr" where
  "slot pm u =
    (case pm_top pm of
       None \<Rightarrow> 0
     | Some t \<Rightarrow>
         if fst (pm_split u) \<ge> TOP_COUNT then 0 else submap_load (t (fst (pm_split u))) (snd (pm_split u)) pm)"

definition pm_inv :: "page_map \<Rightarrow> bool" where
  "pm_inv pm \<longleftrightarrow> pm_zero pm = (\<lambda>_. 0) \<and> (\<forall>k\<ge>pm_maps pm. pm_subs pm k = (\<lambda>_. 0))
    \<and> (\<forall>t. pm_top pm = Some t \<longrightarrow>
          (\<forall>i k. t i = Submap k \<longrightarrow> k < pm_maps pm) \<and> (\<forall>i j k. t i = Submap k \<longrightarrow> t j = Submap k \<longrightarrow> i = j))"

definition in_map :: "usize \<Rightarrow> bool" where
  "in_map u \<longleftrightarrow> fst (pm_split u) < TOP_COUNT"

lemma lookup_slot: "lookup addr pm = slot pm (pm_slice_index addr)"
  by (simp add: lookup_def slot_def split: option.splits prod.splits)

lemma pm_split_inj: "pm_split u = pm_split v \<longleftrightarrow> u = v"
proof
  assume "pm_split u = pm_split v"
  then have "drop_bit 13 u = drop_bit 13 v" "take_bit 13 u = take_bit 13 v"
    using pow2_minus_1_mask [where 'a = 64, of 13] by (simp_all add: pm_split_def mi_consts take_bit_eq_mask)
  then show "u = v" by (metis bits_ident)
qed simp

lemma in_map_iff: "in_map u \<longleftrightarrow> unat u < 2 ^ 31"
  by (simp add: in_map_def pm_split_def mi_consts word_less_nat_alt drop_bit_eq_div unat_div_distrib
      div_less_iff_less_mult)

lemma pm_inv_start: "pm_inv pm_start"
  by (simp add: pm_inv_def pm_start_def)


text \<open>The slices of a range that starts at slice \<open>u\<close>.\<close>

definition window :: "usize \<Rightarrow> nat \<Rightarrow> usize set" where
  "window u n = {w. unat u \<le> unat w \<and> unat w < unat u + n}"

lemma window_Suc: "unat u + n < 2 ^ 64 \<Longrightarrow> window u (Suc n) = insert (u + of_nat n) (window u n)"
proof -
  assume "unat u + n < 2 ^ 64"
  then have "unat (u + of_nat n) = unat u + n" by (simp add: unat_add_small unat_of_nat_small)
  then show ?thesis by (auto simp: window_def word_unat_eq_iff)
qed

lemma window_0 [simp]: "window u 0 = {}"
  by (auto simp: window_def)

lemma slot_out: "\<not> in_map u \<Longrightarrow> slot pm u = 0"
  by (auto simp: slot_def in_map_def split: option.splits)

definition real_entry :: "usize \<Rightarrow> submap_ptr \<Rightarrow> page_map \<Rightarrow> bool" where
  "real_entry u sm pm \<longleftrightarrow> in_map u \<and> sm \<noteq> Zero_Submap \<and> (\<exists>t. pm_top pm = Some t \<and> t (fst (pm_split u)) = sm)"

lemma store_slot:
  assumes "pm_inv pm" "real_entry u sm pm"
  shows "pm_inv (submap_store sm (snd (pm_split u)) v pm)"
    and "pm_top (submap_store sm (snd (pm_split u)) v pm) = pm_top pm"
    and "slot (submap_store sm (snd (pm_split u)) v pm) = (slot pm)(u := v)"
proof -
  obtain t k where t: "pm_top pm = Some t" "t (fst (pm_split u)) = Submap k" "in_map u" "sm = Submap k"
    using assms(2) by (cases sm) (auto simp: real_entry_def)
  have inj: "t i = Submap k \<longleftrightarrow> i = fst (pm_split u)" for i
    using assms(1) t by (auto simp: pm_inv_def)
  have k: "k < pm_maps pm" using assms(1) t by (auto simp: pm_inv_def)
  show "pm_inv (submap_store sm (snd (pm_split u)) v pm)"
    using assms(1) k t unfolding pm_inv_def by (simp add: le_less_trans not_le [symmetric])
  show "pm_top (submap_store sm (snd (pm_split u)) v pm) = pm_top pm" using t by simp
  have pair: "fst (pm_split w) = fst (pm_split u) \<and> snd (pm_split w) = snd (pm_split u) \<longleftrightarrow> w = u" for w
    using pm_split_inj [of w u] by (simp add: prod_eq_iff)
  show "slot (submap_store sm (snd (pm_split u)) v pm) = (slot pm)(u := v)"
  proof
    fix w
    show "slot (submap_store sm (snd (pm_split u)) v pm) w = ((slot pm)(u := v)) w"
    proof (cases "t (fst (pm_split w))")
      case Zero_Submap
      with t have "w \<noteq> u" by auto
      with t Zero_Submap show ?thesis by (simp add: slot_def)
    next
      case (Submap j)
      then show ?thesis
        using t inj [of "fst (pm_split w)"] pair [of w] by (auto simp: slot_def in_map_def)
    qed
  qed
qed

lemma submap_load_frame:
  "submap_load x i (pm\<lparr>pm_maps := k\<rparr>) = submap_load x i pm"
  "submap_load x i (pm\<lparr>pm_top := tt\<rparr>) = submap_load x i pm"
  "submap_load x i (pm\<lparr>pm_maps := k, pm_top := tt\<rparr>) = submap_load x i pm"
  by (cases x; simp)+

lemma ensure_submap_slot:
  assumes "pm_inv pm" "pm_top pm = Some t" "ensure_submap ok (fst (pm_split u)) pm = (sm, pm')" "in_map u"
  shows "pm_inv pm'" "slot pm' = slot pm" "\<exists>t'. pm_top pm' = Some t'"
    "sm \<noteq> Zero_Submap \<Longrightarrow> real_entry u sm pm'" "(\<forall>k. ok k) \<Longrightarrow> sm \<noteq> Zero_Submap"
proof -
  let ?i = "fst (pm_split u)" and ?k = "pm_maps pm"
  consider (old) "t ?i \<noteq> Zero_Submap" "sm = t ?i" "pm' = pm"
    | (new) "t ?i = Zero_Submap" "ok ?k" "sm = Submap ?k"
        "pm' = pm\<lparr>pm_maps := Suc ?k, pm_top := Some (t(?i := Submap ?k))\<rparr>"
    | (oom) "t ?i = Zero_Submap" "\<not> ok ?k" "sm = Zero_Submap" "pm' = pm\<lparr>pm_maps := Suc ?k\<rparr>"
    using assms(2,3) by (auto simp: ensure_submap_def Let_def split: if_splits)
  then have "pm_inv pm' \<and> slot pm' = slot pm \<and> (\<exists>t'. pm_top pm' = Some t')
      \<and> (sm \<noteq> Zero_Submap \<longrightarrow> real_entry u sm pm') \<and> ((\<forall>k. ok k) \<longrightarrow> sm \<noteq> Zero_Submap)"
  proof cases
    case old
    then show ?thesis using assms by (auto simp: real_entry_def)
  next
    case new
    have fresh: "t i \<noteq> Submap ?k" for i using assms(1,2) by (auto simp: pm_inv_def)
    have old: "k < Suc ?k" if "t i = Submap k" for i k
      using assms(1,2) that by (auto simp: pm_inv_def less_SucI)
    have one: "i = j" if "(t(?i := Submap ?k)) i = Submap k" "(t(?i := Submap ?k)) j = Submap k" for i j k
      using assms(1,2) that fresh unfolding pm_inv_def by (metis fun_upd_apply submap_ptr.inject)
    have "pm_inv pm'"
      unfolding pm_inv_def
    proof (intro conjI allI impI)
      fix t' i k assume "pm_top pm' = Some t'" "t' i = Submap k"
      with new(4) old show "k < pm_maps pm'" by (auto split: if_splits)
    next
      fix t' i j k assume "pm_top pm' = Some t'" "t' i = Submap k" "t' j = Submap k"
      with new(4) show "i = j" by (intro one) simp_all
    qed (use assms(1) new(4) in \<open>simp_all add: pm_inv_def\<close>)
    moreover have "slot pm' w = slot pm w" for w
    proof -
      have null: "submap_load (Submap ?k) i pm = 0" "submap_load Zero_Submap i pm = 0" for i
        using assms(1) by (simp_all add: pm_inv_def)
      show ?thesis
      proof (cases "fst (pm_split w) = ?i")
        case True
        with new assms(2) null show ?thesis by (simp add: slot_def submap_load_frame del: submap_load.simps)
      next
        case False
        with new assms(2) show ?thesis by (simp add: slot_def submap_load_frame del: submap_load.simps)
      qed
    qed
    then have "slot pm' = slot pm" by blast
    ultimately show ?thesis using new assms(4) by (auto simp: real_entry_def)
  next
    case oom
    then have "slot pm' = slot pm"
      by (simp add: slot_def fun_eq_iff submap_load_frame split: option.splits)
    moreover have "pm_inv pm'"
      using oom(4) assms(1,2) unfolding pm_inv_def by (simp add: less_SucI)
    ultimately show ?thesis using oom assms(2) by auto
  qed
  then show "pm_inv pm'" "slot pm' = slot pm" "\<exists>t'. pm_top pm' = Some t'"
    "sm \<noteq> Zero_Submap \<Longrightarrow> real_entry u sm pm'" "(\<forall>k. ok k) \<Longrightarrow> sm \<noteq> Zero_Submap" by blast+
qed


lemma unregister_loop_slot:
  assumes "pm_inv pm" "pm_top pm = Some t" "unat u0 + s + n < 2 ^ 64"
  shows "pm_inv (unregister_loop u0 t s n pm) \<and> pm_top (unregister_loop u0 t s n pm) = Some t
    \<and> slot (unregister_loop u0 t s n pm) =
        (\<lambda>w. if w \<in> window (u0 + of_nat s) n then 0 else slot pm w)"
  using assms
proof (induction n arbitrary: s pm)
  case (Suc n)
  let ?u = "u0 + of_nat s"
  have u: "unat ?u = unat u0 + s" "unat (u0 + of_nat (Suc s)) = unat u0 + Suc s"
    using Suc.prems by (simp_all only: unat_add_small unat_of_nat_small)
  then have win: "window ?u (Suc n) = insert ?u (window (u0 + of_nat (Suc s)) n)"
    by (auto simp: window_def word_unat_eq_iff simp del: of_nat_Suc)
  show ?case
  proof (cases "in_map ?u")
    case False
    then have "\<not> in_map w" if "w \<in> window ?u (Suc n)" for w
      using that by (auto simp: in_map_iff window_def)
    then have "slot pm w = 0" if "w \<in> window ?u (Suc n)" for w using that slot_out by blast
    with False Suc.prems show ?thesis by (auto simp: in_map_def Let_def split: prod.splits)
  next
    case True
    show ?thesis
    proof (cases "t (fst (pm_split ?u)) = Zero_Submap")
      case zero: True
      then have "slot pm ?u = 0" using Suc.prems(1,2) by (simp add: slot_def pm_inv_def)
      with Suc.IH [of pm "Suc s"] Suc.prems True zero win show ?thesis
        by (auto simp: in_map_def Let_def fun_eq_iff split: prod.splits)
    next
      case real: False
      let ?pm = "submap_store (t (fst (pm_split ?u))) (snd (pm_split ?u)) 0 pm"
      have "real_entry ?u (t (fst (pm_split ?u))) pm"
        using True real Suc.prems(2) by (auto simp: real_entry_def)
      note st = store_slot [OF Suc.prems(1) this, of 0]
      have "unregister_loop u0 t s (Suc n) pm = unregister_loop u0 t (Suc s) n ?pm"
        using True real by (simp add: in_map_def Let_def case_prod_beta)
      with Suc.IH [of ?pm "Suc s"] Suc.prems st win show ?thesis
        by (auto simp: fun_eq_iff)
    qed
  qed
qed simp

lemma unregister_slot:
  assumes "pm_inv pm" "unat (pm_slice_index addr) + n < 2 ^ 64"
  shows "pm_inv (unregister addr n pm)" "pm_top (unregister addr n pm) = pm_top pm"
    "slot (unregister addr n pm) = (\<lambda>w. if w \<in> window (pm_slice_index addr) n then 0 else slot pm w)"
proof -
  have "pm_inv (unregister addr n pm) \<and> pm_top (unregister addr n pm) = pm_top pm \<and>
    slot (unregister addr n pm) = (\<lambda>w. if w \<in> window (pm_slice_index addr) n then 0 else slot pm w)"
  proof (cases "pm_top pm")
    case None
    then show ?thesis using assms(1) by (simp add: unregister_def slot_def fun_eq_iff)
  next
    case (Some t)
    with unregister_loop_slot [OF assms(1) Some, of "pm_slice_index addr" 0 n] assms(2) show ?thesis
      by (simp add: unregister_def)
  qed
  then show "pm_inv (unregister addr n pm)" "pm_top (unregister addr n pm) = pm_top pm"
    "slot (unregister addr n pm) = (\<lambda>w. if w \<in> window (pm_slice_index addr) n then 0 else slot pm w)"
    by blast+
qed

text \<open>
  What registering \<open>n\<close> slices from \<open>u\<close> on does: all of them on success; on failure those already
  written are null again and no other slice changed.
\<close>

definition registered :: "usize \<Rightarrow> nat \<Rightarrow> ptr \<Rightarrow> page_map \<Rightarrow> bool \<times> page_map \<Rightarrow> bool" where
  "registered u n page pm = (\<lambda>(r, pm'). pm_inv pm' \<and>
    (if r then slot pm' = (\<lambda>w. if w \<in> window u n then page else slot pm w)
     else \<exists>k\<le>n. slot pm' = (\<lambda>w. if w \<in> window u k then 0 else slot pm w)))"

lemma register_loop_slot:
  assumes "pm_inv pm" "pm_top pm = Some t" "u0 = pm_slice_index addr" "unat u0 + s + n < 2 ^ 64"
    "slot pm = (\<lambda>w. if w \<in> window u0 s then page else slot pm0 w)"
  shows "registered u0 (s + n) page pm0 (register_loop ok addr page s n pm)
    \<and> (fst (register_loop ok addr page s n pm) \<longrightarrow> n = 0 \<or> unat u0 + s + n \<le> 2 ^ 31)
    \<and> ((\<forall>k. ok k) \<longrightarrow> unat u0 + s + n \<le> 2 ^ 31 \<longrightarrow> fst (register_loop ok addr page s n pm))"
  using assms
proof (induction n arbitrary: s pm t)
  case 0
  then show ?case by (simp add: registered_def)
next
  case (Suc n)
  let ?u = "u0 + of_nat s"
  have u: "unat ?u = unat u0 + s" using Suc.prems by (simp add: unat_add_small unat_of_nat_small)
  define r where "r = (if in_map ?u then ensure_submap ok (fst (pm_split ?u)) pm else (Zero_Submap, pm))"
  obtain sm pm' where r: "r = (sm, pm')" by fastforce
  have eq: "register_loop ok addr page s (Suc n) pm =
      (if sm = Zero_Submap then (False, unregister addr s pm')
       else register_loop ok addr page (Suc s) n (submap_store sm (snd (pm_split ?u)) page pm'))"
    using r Suc.prems(3) by (cases "in_map ?u") (simp_all add: r_def in_map_def Let_def case_prod_beta)
  have e: "pm_inv pm' \<and> slot pm' = slot pm \<and> (\<exists>t'. pm_top pm' = Some t')
      \<and> (sm \<noteq> Zero_Submap \<longrightarrow> real_entry ?u sm pm') \<and> (in_map ?u \<longrightarrow> (\<forall>k. ok k) \<longrightarrow> sm \<noteq> Zero_Submap)
      \<and> (\<not> in_map ?u \<longrightarrow> sm = Zero_Submap)"
    using ensure_submap_slot [OF Suc.prems(1,2), of ok ?u sm pm'] r Suc.prems(1,2)
    by (cases "in_map ?u") (simp_all add: r_def)
  show ?case
  proof (cases "sm = Zero_Submap")
    case True
    have "slot (unregister addr s pm') = (\<lambda>w. if w \<in> window u0 s then 0 else slot pm0 w)"
      using unregister_slot(3) [of pm' addr s] e Suc.prems by auto
    moreover have "pm_inv (unregister addr s pm')" using unregister_slot(1) [of pm' addr s] e Suc.prems by auto
    moreover have "\<not> ((\<forall>k. ok k) \<and> unat u0 + s + Suc n \<le> 2 ^ 31)"
      using True e u by (auto simp: in_map_iff)
    ultimately show ?thesis using True eq by (auto simp: registered_def intro: exI [of _ s])
  next
    case False
    let ?pm = "submap_store sm (snd (pm_split ?u)) page pm'"
    have re: "real_entry ?u sm pm'" using False e by blast
    note st = store_slot [of pm' ?u sm page, OF conjunct1 [OF e] re]
    obtain t' where t': "pm_top ?pm = Some t'" using st(2) e by auto
    have "window u0 (Suc s) = insert ?u (window u0 s)" using Suc.prems(4) by (intro window_Suc) simp
    then have "slot ?pm = (\<lambda>w. if w \<in> window u0 (Suc s) then page else slot pm0 w)"
      using st(3) e Suc.prems(5) by (auto simp: fun_eq_iff)
    then have ih: "registered u0 (Suc s + n) page pm0 (register_loop ok addr page (Suc s) n ?pm)
      \<and> (fst (register_loop ok addr page (Suc s) n ?pm) \<longrightarrow> n = 0 \<or> unat u0 + Suc s + n \<le> 2 ^ 31)
      \<and> ((\<forall>k. ok k) \<longrightarrow> unat u0 + Suc s + n \<le> 2 ^ 31 \<longrightarrow> fst (register_loop ok addr page (Suc s) n ?pm))"
      using Suc.prems(3,4) by (intro Suc.IH [OF st(1) t']) simp_all
    have lt: "unat u0 + s < 2 ^ 31" using re u by (simp add: real_entry_def in_map_iff)
    obtain R where R: "register_loop ok addr page s (Suc n) pm = R"
        "register_loop ok addr page (Suc s) n ?pm = R"
      using False eq by presburger
    have sum: "unat u0 + s + Suc n = unat u0 + Suc s + n" "s + Suc n = Suc s + n" by simp_all
    have one: "unat u0 + Suc s + n \<le> 2 ^ 31" if "n = 0" using lt that by simp
    show ?thesis unfolding R(1) sum using ih [unfolded R(2)] one by blast
  qed
qed


lemma ensure_top_slot:
  assumes "pm_inv pm"
  shows "pm_inv (ensure_top ok pm)" "slot (ensure_top ok pm) = slot pm"
    "(\<forall>k. ok k) \<Longrightarrow> pm_top (ensure_top ok pm) \<noteq> None"
proof -
  have "pm_inv (ensure_top ok pm) \<and> slot (ensure_top ok pm) = slot pm
    \<and> ((\<forall>k. ok k) \<longrightarrow> pm_top (ensure_top ok pm) \<noteq> None)"
  proof (cases "pm_top pm")
    case None
    then have e: "ensure_top ok pm = (if ok (pm_maps pm)
        then pm\<lparr>pm_maps := Suc (pm_maps pm), pm_top := Some (\<lambda>_. Zero_Submap)\<rparr>
        else pm\<lparr>pm_maps := Suc (pm_maps pm)\<rparr>)"
      by (simp add: ensure_top_def Let_def)
    have "pm_inv (ensure_top ok pm)" using assms None unfolding e by (simp add: pm_inv_def)
    moreover have "slot (ensure_top ok pm) w = slot pm w" for w
      using assms None unfolding e by (simp add: pm_inv_def slot_def)
    then have "slot (ensure_top ok pm) = slot pm" by blast
    ultimately show ?thesis by (simp add: e)
  qed (use assms in \<open>simp add: ensure_top_def\<close>)
  then show "pm_inv (ensure_top ok pm)" "slot (ensure_top ok pm) = slot pm"
    "(\<forall>k. ok k) \<Longrightarrow> pm_top (ensure_top ok pm) \<noteq> None" by blast+
qed

lemma register_slot:
  assumes "pm_inv pm" "unat (pm_slice_index addr) + n < 2 ^ 64"
  shows "registered (pm_slice_index addr) n page pm (register ok addr n page pm)"
    "fst (register ok addr n page pm) \<Longrightarrow> n = 0 \<or> unat (pm_slice_index addr) + n \<le> 2 ^ 31"
    "(\<forall>k. ok k) \<Longrightarrow> unat (pm_slice_index addr) + n \<le> 2 ^ 31 \<Longrightarrow> fst (register ok addr n page pm)"
proof -
  let ?pm = "ensure_top ok pm"
  note top = ensure_top_slot [OF assms(1), of ok]
  have "registered (pm_slice_index addr) n page pm (register ok addr n page pm)
    \<and> (fst (register ok addr n page pm) \<longrightarrow> n = 0 \<or> unat (pm_slice_index addr) + n \<le> 2 ^ 31)
    \<and> ((\<forall>k. ok k) \<longrightarrow> unat (pm_slice_index addr) + n \<le> 2 ^ 31 \<longrightarrow> fst (register ok addr n page pm))"
  proof (cases "pm_top ?pm")
    case None
    with top show ?thesis by (auto simp: register_def Let_def registered_def intro: exI [of _ 0])
  next
    case (Some t)
    with register_loop_slot [OF top(1) Some refl, of addr 0 n page pm ok] top assms(2)
    show ?thesis by (simp add: register_def Let_def)
  qed
  then show "registered (pm_slice_index addr) n page pm (register ok addr n page pm)"
    "fst (register ok addr n page pm) \<Longrightarrow> n = 0 \<or> unat (pm_slice_index addr) + n \<le> 2 ^ 31"
    "(\<forall>k. ok k) \<Longrightarrow> unat (pm_slice_index addr) + n \<le> 2 ^ 31 \<Longrightarrow> fst (register ok addr n page pm)"
    by blast+
qed


section \<open>The interface the heap uses\<close>

text \<open>
  The heap registers the slices of a new page, drops them when it gives the page back, and looks
  up the page of the pointers it is handed. These laws are all it relies on.
\<close>

locale slice_map =
  fixes ok_state :: "'s \<Rightarrow> bool"
    and read_slot :: "'s \<Rightarrow> usize \<Rightarrow> ptr"
    and look :: "ptr \<Rightarrow> 's \<Rightarrow> ptr"
    and reg :: "ptr \<Rightarrow> nat \<Rightarrow> ptr \<Rightarrow> 's \<Rightarrow> bool \<times> 's"
    and unreg :: "ptr \<Rightarrow> nat \<Rightarrow> 's \<Rightarrow> 's"
    and dom_ok :: "ptr \<Rightarrow> nat \<Rightarrow> bool"
  assumes look_slot: "look a s = read_slot s (pm_slice_index a)"
    and reg_true: "ok_state s \<Longrightarrow> dom_ok a n \<Longrightarrow> reg a n p s = (True, s') \<Longrightarrow>
        ok_state s' \<and> read_slot s' = (\<lambda>w. if w \<in> window (pm_slice_index a) n then p else read_slot s w)"
    and reg_false: "ok_state s \<Longrightarrow> dom_ok a n \<Longrightarrow> reg a n p s = (False, s') \<Longrightarrow>
        ok_state s' \<and> (\<exists>k\<le>n. read_slot s' = (\<lambda>w. if w \<in> window (pm_slice_index a) k then 0 else read_slot s w))"
    and unreg_slot: "ok_state s \<Longrightarrow> dom_ok a n \<Longrightarrow>
        ok_state (unreg a n s) \<and>
        read_slot (unreg a n s) = (\<lambda>w. if w \<in> window (pm_slice_index a) n then 0 else read_slot s w)"
begin

lemma reg_failed: "ok_state s \<Longrightarrow> dom_ok a n \<Longrightarrow> \<forall>w\<in>window (pm_slice_index a) n. read_slot s w = 0 \<Longrightarrow> reg a n p s = (False, s') \<Longrightarrow> read_slot s' = read_slot s"
proof -
  assume a: "ok_state s" "dom_ok a n" "\<forall>w\<in>window (pm_slice_index a) n. read_slot s w = 0" "reg a n p s = (False, s')"
  then obtain k where "k \<le> n" "read_slot s' = (\<lambda>w. if w \<in> window (pm_slice_index a) k then 0 else read_slot s w)"
    using reg_false by blast
  moreover have "w \<in> window (pm_slice_index a) n" if "w \<in> window (pm_slice_index a) k" "k \<le> n" for w k
    using that by (simp add: window_def)
  ultimately show ?thesis using a(3) by (auto simp: fun_eq_iff)
qed

lemma reg_unreg: "ok_state s \<Longrightarrow> dom_ok a n \<Longrightarrow> \<forall>w\<in>window (pm_slice_index a) n. read_slot s w = 0 \<Longrightarrow> reg a n p s = (True, s')
    \<Longrightarrow> read_slot (unreg a n s') = read_slot s"
  using reg_true [of s a n p s'] unreg_slot [of s' a n] by (auto simp: fun_eq_iff)

lemma look_reg: "ok_state s \<Longrightarrow> dom_ok a n \<Longrightarrow> reg a n p s = (True, s') \<Longrightarrow>
    look q s' = (if pm_slice_index q \<in> window (pm_slice_index a) n then p else look q s)"
  using reg_true [of s a n p s'] by (simp add: look_slot)

lemma look_unreg: "ok_state s \<Longrightarrow> dom_ok a n \<Longrightarrow>
    look q (unreg a n s) = (if pm_slice_index q \<in> window (pm_slice_index a) n then 0 else look q s)"
  using unreg_slot [of s a n] by (simp add: look_slot)

end

text \<open>Ranges that stay inside the 64-bit slice numbers, and slices that read as null.\<close>

definition reg_range :: "ptr \<Rightarrow> nat \<Rightarrow> bool" where
  "reg_range a n \<longleftrightarrow> unat (pm_slice_index a) + n < 2 ^ 64"

definition unmapped :: "ptr \<Rightarrow> nat \<Rightarrow> page_map \<Rightarrow> bool" where
  "unmapped a n pm \<longleftrightarrow> (\<forall>w\<in>window (pm_slice_index a) n. slot pm w = 0)"

interpretation pmap: slice_map pm_inv slot lookup "register ok" unregister reg_range
proof
  fix a n p and s s' :: page_map
  assume s: "pm_inv s" "reg_range a n"
  show "register ok a n p s = (True, s') \<Longrightarrow>
      pm_inv s' \<and> slot s' = (\<lambda>w. if w \<in> window (pm_slice_index a) n then p else slot s w)"
    using register_slot(1) [OF s(1), of a n p ok] s(2) by (simp add: registered_def reg_range_def)
  show "register ok a n p s = (False, s') \<Longrightarrow>
      pm_inv s' \<and> (\<exists>k\<le>n. slot s' = (\<lambda>w. if w \<in> window (pm_slice_index a) k then 0 else slot s w))"
    using register_slot(1) [OF s(1), of a n p ok] s(2) by (simp add: registered_def reg_range_def)
  show "pm_inv (unregister a n s) \<and>
      slot (unregister a n s) = (\<lambda>w. if w \<in> window (pm_slice_index a) n then 0 else slot s w)"
    using unregister_slot [OF s(1), of a n] s(2) by (simp add: reg_range_def)
qed (rule lookup_slot)


section \<open>Properties\<close>

text \<open>
  C33. Registering a page makes every address of its slices look up to that page and changes no
  other address; unregistering makes exactly those addresses look up to null. The shared submap is
  never written and no two table entries come to share a submap.
\<close>

theorem page_map_registers:
  assumes "pm_inv pm" "reg_range a n" "register ok a n page pm = (True, pm')"
  shows "pm_inv pm' \<and> pm_inv (unregister a n pm')
    \<and> (\<forall>q. lookup q pm' = (if pm_slice_index q \<in> window (pm_slice_index a) n then page else lookup q pm))
    \<and> (\<forall>q. lookup q (unregister a n pm') =
          (if pm_slice_index q \<in> window (pm_slice_index a) n then 0 else lookup q pm))"
proof -
  have inv: "pm_inv pm'" using pmap.reg_true [OF assms] by blast
  with pmap.unreg_slot [OF inv assms(2)] pmap.look_reg [OF assms] pmap.look_unreg [OF inv assms(2)]
  show ?thesis by simp
qed

lemma page_map_registers_witness:
  "lookup 1048593 (snd (register (\<lambda>_. True) 1048576 4 1048576 pm_start)) = 1048576"
proof -
  have r: "reg_range 1048576 4" "pm_slice_index 1048576 = 16" "pm_slice_index 1048593 = 16"
    by (simp_all add: reg_range_def pm_slice_index_def mi_consts drop_bit_eq_div)
  moreover have "fst (register (\<lambda>_. True) 1048576 4 1048576 pm_start)"
    using r by (intro register_slot(3) [OF pm_inv_start]) simp_all
  then obtain pm' where "register (\<lambda>_. True) 1048576 4 1048576 pm_start = (True, pm')"
    by (metis prod.collapse)
  ultimately show ?thesis
    using page_map_registers [OF pm_inv_start r(1), of "\<lambda>_. True" 1048576 pm']
    by (simp add: window_def)
qed

text \<open>
  C34. Registration is all or nothing: when a mapping is refused or the range leaves the 47-bit
  address space, it reports failure and, on slices that were unmapped, every lookup reads as
  before. A non-empty range is accepted only inside the address space, and there it can only fail
  for want of memory.
\<close>

theorem page_map_all_or_nothing:
  assumes "pm_inv pm" "reg_range a n" "unmapped a n pm" "register ok a n page pm = (r, pm')"
  shows "pm_inv pm' \<and> (\<not> r \<longrightarrow> (\<forall>q. lookup q pm' = lookup q pm))
    \<and> (r \<longrightarrow> n = 0 \<or> unat (pm_slice_index a) + n \<le> 2 ^ 31)
    \<and> ((\<forall>k. ok k) \<and> unat (pm_slice_index a) + n \<le> 2 ^ 31 \<longrightarrow> r)"
proof -
  note u = assms(3) [unfolded unmapped_def]
  have "pm_inv pm' \<and> (\<forall>q. lookup q pm' = lookup q pm)" if "\<not> r"
    using pmap.reg_failed [OF assms(1,2) u, of ok page pm'] pmap.reg_false [OF assms(1,2), of ok page pm']
      assms(4) that by (simp add: lookup_slot)
  moreover have "pm_inv pm'" if r
    using pmap.reg_true [OF assms(1,2), of ok page pm'] assms(4) that by simp
  moreover have "n = 0 \<or> unat (pm_slice_index a) + n \<le> 2 ^ 31" if r
    using register_slot(2) [OF assms(1), of a n ok page] assms(2,4) that by (simp add: reg_range_def)
  moreover have r if "\<forall>k. ok k" "unat (pm_slice_index a) + n \<le> 2 ^ 31"
    using register_slot(3) [OF assms(1), of a n ok page] assms(2,4) that by (simp add: reg_range_def)
  ultimately show ?thesis by blast
qed

text \<open>The second mapping is refused: the table is there, the submap is not.\<close>

lemma page_map_all_or_nothing_witness:
  "lookup 1048593 (snd (register (\<lambda>k. k = 0) 1048576 1 1048576 pm_start)) = 0"
proof -
  have r: "reg_range 1048576 1" "pm_slice_index 1048576 = 16"
    by (simp_all add: reg_range_def pm_slice_index_def mi_consts drop_bit_eq_div)
  have f: "\<not> fst (register (\<lambda>k. k = 0) 1048576 1 1048576 pm_start)"
    by (simp add: register_def ensure_top_def pm_start_def r pm_split_def mi_consts drop_bit_eq_div
        ensure_submap_def Let_def)
  have u: "unmapped 1048576 1 pm_start" by (simp add: unmapped_def slot_def pm_start_def)
  obtain pm' where "register (\<lambda>k. k = 0) 1048576 1 1048576 pm_start = (False, pm')"
    using f by (metis prod.collapse)
  then show ?thesis
    using page_map_all_or_nothing [OF pm_inv_start r(1) u, of "\<lambda>k. k = 0" 1048576 False pm']
    by (simp add: lookup_def pm_start_def)
qed

end
