(* ===== verification/MiPrim.thy ===== *)
theory MiPrim
  imports MiBits
begin

unbundle bit_operations_syntax

text \<open>
  \<^verbatim>\<open>src/prim/mod.rs\<close> and \<^verbatim>\<open>src/prim/linux.rs\<close>: the primitive layer over \<^verbatim>\<open>libc\<close>. The C
  library and the kernel are a parameter: a record of functions that say how each call turns out,
  given the log of all calls made so far. The state of the process's mappings is that log, which
  keeps the failed calls too, so the answer to a repeated call may differ.
\<close>

section \<open>The system below\<close>

datatype advice = Hugepage | Dontneed | Free_Lazily

text \<open>\<open>Mmap addr size rw\<close> and \<open>Mprotect addr size rw\<close>: \<open>rw\<close> stands for
  \<^verbatim>\<open>PROT_READ | PROT_WRITE\<close>, its absence for \<^verbatim>\<open>PROT_NONE\<close>.\<close>

datatype os_call =
    Mmap ptr usize bool
  | Munmap ptr usize
  | Mprotect ptr usize bool
  | Madvise ptr usize advice

type_synonym os_log = "(os_call \<times> bool) list"
type_synonym errno = int

record libc =
  c_mmap :: "os_log \<Rightarrow> usize \<Rightarrow> bool \<Rightarrow> errno + ptr"
  c_ret :: "os_log \<Rightarrow> os_call \<Rightarrow> errno"

type_synonym 'a prim_result = "errno + 'a"

text \<open>Issue a call; \<^verbatim>\<open>check\<close> of the source: \<open>0\<close> is success, anything else an error.\<close>

definition sys_call :: "libc \<Rightarrow> os_call \<Rightarrow> os_log \<Rightarrow> unit prim_result \<times> os_log" where
  "sys_call lc c lg = (let r = c_ret lc lg c in if r = 0 then (Inr (), lg @ [(c, True)]) else (Inl r, lg @ [(c, False)]))"

record os_mem_config =
  oc_page_size :: usize
  oc_large_page_size :: usize
  oc_alloc_granularity :: usize
  oc_physical_memory :: usize
  oc_virtual_address_bits :: nat
  oc_has_overcommit :: bool
  oc_has_partial_free :: bool
  oc_has_virtual_reserve :: bool
  oc_has_transparent_huge_pages :: bool

record prim_alloc_rec =
  pa_addr :: ptr
  pa_is_large :: bool
  pa_is_zero :: bool

section \<open>The Linux implementation\<close>

definition saturating_mul_usize :: "usize \<Rightarrow> usize \<Rightarrow> usize" where
  "saturating_mul_usize x y = (case checked_mul x y of None \<Rightarrow> usize_max | Some z \<Rightarrow> z)"

text \<open>\<^verbatim>\<open>mem_config\<close>, given the two answers of \<^verbatim>\<open>sysconf\<close>.\<close>

definition mem_config :: "int \<Rightarrow> int \<Rightarrow> os_mem_config" where
  "mem_config sc_pagesize sc_phys_pages =
    (let page_size = (if sc_pagesize > 0 then of_int sc_pagesize else 4096);
         physical_memory = (if sc_phys_pages > 0 then saturating_mul_usize (of_int sc_phys_pages) page_size else 0)
     in \<lparr> oc_page_size = page_size, oc_large_page_size = 2 * 1024 * 1024, oc_alloc_granularity = page_size,
          oc_physical_memory = physical_memory, oc_virtual_address_bits = MI_MAX_VABITS,
          oc_has_overcommit = True, oc_has_partial_free = True, oc_has_virtual_reserve = True,
          oc_has_transparent_huge_pages = False \<rparr>)"

definition prim_alloc :: "libc \<Rightarrow> usize \<Rightarrow> bool \<Rightarrow> os_log \<Rightarrow> prim_alloc_rec prim_result \<times> os_log" where
  "prim_alloc lc sz commit lg =
    (case c_mmap lc lg sz commit of
       Inl e \<Rightarrow> (Inl e, lg @ [(Mmap 0 sz commit, False)])
     | Inr p \<Rightarrow>
         let lg = lg @ [(Mmap p sz commit, True)];
             lg = (if commit \<and> sz \<ge> 2 * 1024 * 1024 then snd (sys_call lc (Madvise p sz Hugepage) lg) else lg)
         in (Inr \<lparr>pa_addr = p, pa_is_large = False, pa_is_zero = True\<rparr>, lg))"

definition prim_free :: "libc \<Rightarrow> ptr \<Rightarrow> usize \<Rightarrow> os_log \<Rightarrow> unit prim_result \<times> os_log" where
  "prim_free lc a sz lg = sys_call lc (Munmap a sz) lg"

definition prim_commit :: "libc \<Rightarrow> ptr \<Rightarrow> usize \<Rightarrow> os_log \<Rightarrow> bool prim_result \<times> os_log" where
  "prim_commit lc a sz lg =
    (case sys_call lc (Mprotect a sz True) lg of
       (Inl e, lg) \<Rightarrow> (Inl e, lg)
     | (Inr _, lg) \<Rightarrow> (Inr False, lg))"

text \<open>\<open>hard\<close>: the build has the feature \<^verbatim>\<open>debug\<close> or \<^verbatim>\<open>secure\<close>.\<close>

definition prim_decommit :: "bool \<Rightarrow> libc \<Rightarrow> ptr \<Rightarrow> usize \<Rightarrow> os_log \<Rightarrow> bool prim_result \<times> os_log" where
  "prim_decommit hard lc a sz lg =
    (case sys_call lc (Madvise a sz Dontneed) lg of
       (Inl e, lg) \<Rightarrow> (Inl e, lg)
     | (Inr _, lg) \<Rightarrow>
         if hard then (case sys_call lc (Mprotect a sz False) lg of
                         (Inl e, lg) \<Rightarrow> (Inl e, lg)
                       | (Inr _, lg) \<Rightarrow> (Inr True, lg))
         else (Inr False, lg))"

definition prim_reset :: "libc \<Rightarrow> ptr \<Rightarrow> usize \<Rightarrow> os_log \<Rightarrow> unit prim_result \<times> os_log" where
  "prim_reset lc a sz lg =
    (case sys_call lc (Madvise a sz Free_Lazily) lg of
       (Inr u, lg) \<Rightarrow> (Inr u, lg)
     | (Inl _, lg) \<Rightarrow> sys_call lc (Madvise a sz Dontneed) lg)"

definition prim_reuse :: "ptr \<Rightarrow> usize \<Rightarrow> os_log \<Rightarrow> unit prim_result \<times> os_log" where
  "prim_reuse a sz lg = (Inr (), lg)"

definition prim_protect :: "libc \<Rightarrow> ptr \<Rightarrow> usize \<Rightarrow> bool \<Rightarrow> os_log \<Rightarrow> unit prim_result \<times> os_log" where
  "prim_protect lc a sz protect lg = sys_call lc (Mprotect a sz (\<not> protect)) lg"

text \<open>\<^verbatim>\<open>clock_now_msecs\<close>, given the return value and the time \<^verbatim>\<open>clock_gettime\<close> stores.\<close>

definition clock_now_msecs :: "int \<Rightarrow> int \<Rightarrow> int \<Rightarrow> int" where
  "clock_now_msecs r tv_sec tv_nsec = (if r \<noteq> 0 then 0 else tv_sec * 1000 + tv_nsec div 1000000)"

section \<open>Bytes: environment and the NUMA node list\<close>

definition is_ascii_digit :: "u8 \<Rightarrow> bool" where
  "is_ascii_digit c \<longleftrightarrow> 48 \<le> c \<and> c \<le> 57"

text \<open>
  \<^verbatim>\<open>getenv\<close>: the C value is copied into a buffer of \<open>out_len\<close> bytes, of which the last is never
  used. The result is the copied bytes, so \<^verbatim>\<open>Some(n)\<close> of the source is their number.
\<close>

fun copy_env :: "nat \<Rightarrow> u8 list \<Rightarrow> nat \<Rightarrow> u8 list" where
  "copy_env out_len [] i = []"
| "copy_env out_len (c # cs) i =
    (if i + 1 < out_len then (if c = 0 then [] else c # copy_env out_len cs (i + 1)) else [])"

definition getenv :: "(string \<Rightarrow> u8 list option) \<Rightarrow> string \<Rightarrow> nat \<Rightarrow> u8 list option" where
  "getenv env name out_len =
    (if length name \<ge> 256 then None
     else case env name of None \<Rightarrow> None | Some v \<Rightarrow> Some (copy_env out_len v 0))"

lemma copy_env_take: "0 \<notin> set v \<Longrightarrow> copy_env n v i = take (n - 1 - i) v"
proof (induction v arbitrary: i)
  case (Cons c v)
  then show ?case
    by (cases "i + 1 < n") (auto simp: take_Cons' less_diff_conv Suc_diff_Suc)
qed simp

lemma getenv_take:
  "length name < 256 \<Longrightarrow> env name = Some v \<Longrightarrow> 0 \<notin> set v \<Longrightarrow> getenv env name n = Some (take (n - 1) v)"
  by (simp add: getenv_def copy_env_take)

text \<open>The parser of \<^verbatim>\<open>numa_node_count\<close>: state \<open>(max_node, cur, have)\<close>; the file read is \<open>buf\<close>.\<close>

fun numa_scan :: "u8 list \<Rightarrow> usize \<times> usize \<times> bool \<Rightarrow> usize \<times> usize \<times> bool" where
  "numa_scan [] s = s"
| "numa_scan (c # cs) (max_node, cur, have) =
    (if is_ascii_digit c then numa_scan cs (max_node, cur * 10 + (ucast (c - 48) :: usize), True)
     else numa_scan cs ((if have \<and> cur > max_node then cur else max_node), 0, False))"

definition numa_node_count :: "u8 list \<Rightarrow> usize" where
  "numa_node_count buf =
    (if buf = [] then 1
     else let (max_node, cur, have) = numa_scan buf (0, 0, False);
              max_node = (if have \<and> cur > max_node then cur else max_node)
          in max_node + 1)"

lemma numa_example: "numa_node_count [48, 45, 51, 10] = 4"
  by (simp add: numa_node_count_def is_ascii_digit_def)

section \<open>What the log says\<close>

text \<open>The bytes of a range, and the bytes that are mapped and accessible after a log.\<close>

definition bytes :: "ptr \<Rightarrow> usize \<Rightarrow> nat set" where
  "bytes a n = {unat a ..< unat a + unat n}"

fun mapped_step :: "os_call \<times> bool \<Rightarrow> nat set \<Rightarrow> nat set" where
  "mapped_step (Mmap a n rw, True) M = M \<union> bytes a n"
| "mapped_step (Munmap a n, True) M = M - bytes a n"
| "mapped_step _ M = M"

fun access_step :: "os_call \<times> bool \<Rightarrow> nat set \<Rightarrow> nat set" where
  "access_step (Mmap a n rw, True) M = (if rw then M \<union> bytes a n else M - bytes a n)"
| "access_step (Munmap a n, True) M = M - bytes a n"
| "access_step (Mprotect a n rw, True) M = (if rw then M \<union> bytes a n else M - bytes a n)"
| "access_step _ M = M"

definition mapped :: "os_log \<Rightarrow> nat set" where
  "mapped lg = fold mapped_step lg {}"

definition accessible :: "os_log \<Rightarrow> nat set" where
  "accessible lg = fold access_step lg {}"

lemma log_append [simp]:
  "mapped [] = {}" "accessible [] = {}"
  "mapped (lg @ ls) = fold mapped_step ls (mapped lg)"
  "accessible (lg @ ls) = fold access_step ls (accessible lg)"
  by (simp_all add: mapped_def accessible_def)

lemma madvise_frame [simp]:
  "mapped (snd (sys_call lc (Madvise a n v) lg)) = mapped lg"
  "accessible (snd (sys_call lc (Madvise a n v) lg)) = accessible lg"
  by (simp_all add: sys_call_def Let_def)

end
