(* ===== verification/MiOptions.thy ===== *)
theory MiOptions
  imports MiPrim
begin

text \<open>
  \<^verbatim>\<open>src/options.rs\<close>: the runtime options, seeded once from the environment. Values are \<^verbatim>\<open>i64\<close>;
  they are kept as integers with the checked and saturating operations written out. \<open>env\<close> is the
  process environment.
\<close>

section \<open>Options\<close>

datatype opt =
  Verbose | Show_Stats | Eager_Commit | Purge_Decommits | Purge_Delay | Arena_Reserve | Arena_Purge_Mult

definition from_index :: "int \<Rightarrow> opt option" where
  "from_index i =
    (if i = 0 then Some Verbose else if i = 1 then Some Show_Stats else if i = 2 then Some Eager_Commit
     else if i = 3 then Some Purge_Decommits else if i = 4 then Some Purge_Delay
     else if i = 5 then Some Arena_Reserve else if i = 6 then Some Arena_Purge_Mult else None)"

text \<open>\<^verbatim>\<open>opt as usize\<close>.\<close>

fun opt_index :: "opt \<Rightarrow> nat" where
  "opt_index Verbose = 0" | "opt_index Show_Stats = 1" | "opt_index Eager_Commit = 2"
| "opt_index Purge_Decommits = 3" | "opt_index Purge_Delay = 4" | "opt_index Arena_Reserve = 5"
| "opt_index Arena_Purge_Mult = 6"

definition OPT_COUNT :: nat where "OPT_COUNT = 7"

fun env_name :: "opt \<Rightarrow> string" where
  "env_name Verbose = ''MIMALLOC_VERBOSE''"
| "env_name Show_Stats = ''MIMALLOC_SHOW_STATS''"
| "env_name Eager_Commit = ''MIMALLOC_EAGER_COMMIT''"
| "env_name Purge_Decommits = ''MIMALLOC_PURGE_DECOMMITS''"
| "env_name Purge_Delay = ''MIMALLOC_PURGE_DELAY''"
| "env_name Arena_Reserve = ''MIMALLOC_ARENA_RESERVE''"
| "env_name Arena_Purge_Mult = ''MIMALLOC_ARENA_PURGE_MULT''"

fun default_value :: "opt \<Rightarrow> int" where
  "default_value Eager_Commit = 1"
| "default_value Purge_Decommits = 1"
| "default_value Purge_Delay = 1000"
| "default_value Arena_Purge_Mult = 1"
| "default_value _ = 0"

section \<open>Parsing\<close>

definition i64_min :: int where "i64_min = - (2 ^ 63)"
definition i64_max :: int where "i64_max = 2 ^ 63 - 1"

definition checked_i64 :: "int \<Rightarrow> int option" where
  "checked_i64 v = (if i64_min \<le> v \<and> v \<le> i64_max then Some v else None)"

definition saturating_mul_i64 :: "int \<Rightarrow> int \<Rightarrow> int" where
  "saturating_mul_i64 x y = max i64_min (min i64_max (x * y))"

fun parse_digits :: "u8 list \<Rightarrow> int \<Rightarrow> int option" where
  "parse_digits [] v = Some v"
| "parse_digits (c # cs) v =
    (if \<not> is_ascii_digit c then Some v
     else case checked_i64 (v * 10) of
            None \<Rightarrow> None
          | Some w \<Rightarrow> (case checked_i64 (w + uint (c - 48)) of None \<Rightarrow> None | Some v \<Rightarrow> parse_digits cs v))"

definition parse_i64 :: "u8 list \<Rightarrow> int option" where
  "parse_i64 b =
    (let (neg, digits) = (case b of c # cs \<Rightarrow> if c = 45 then (True, cs) else (False, b) | [] \<Rightarrow> (False, b))
     in if digits = [] \<or> \<not> is_ascii_digit (hd digits) then None
        else case parse_digits digits 0 of None \<Rightarrow> None | Some v \<Rightarrow> Some (if neg then - v else v))"

definition env_value :: "(string \<Rightarrow> u8 list option) \<Rightarrow> opt \<Rightarrow> int" where
  "env_value env q =
    (case getenv env (env_name q) 64 of
       None \<Rightarrow> default_value q
     | Some b \<Rightarrow>
         if b = [] then default_value q
         else if is_ascii_digit (hd b) \<or> hd b = 45 then
           (case parse_i64 b of None \<Rightarrow> default_value q | Some v \<Rightarrow> v)
         else if hd b \<in> {121, 89, 116, 84} then 1 else 0)"

section \<open>The option table\<close>

record opt_state =
  os_ready :: bool
  os_vals :: "int list"

definition opt_start :: opt_state where
  "opt_start = \<lparr>os_ready = False, os_vals = replicate OPT_COUNT 0\<rparr>"

definition ensure_init :: "(string \<Rightarrow> u8 list option) \<Rightarrow> opt_state \<Rightarrow> opt_state" where
  "ensure_init env s =
    (if os_ready s then s
     else \<lparr>os_ready = True,
           os_vals = map (\<lambda>(i, v). case from_index (int i) of Some q \<Rightarrow> env_value env q | None \<Rightarrow> v)
                       (enumerate 0 (os_vals s))\<rparr>)"

definition opt_get :: "(string \<Rightarrow> u8 list option) \<Rightarrow> opt \<Rightarrow> opt_state \<Rightarrow> int \<times> opt_state" where
  "opt_get env q s = (let s = ensure_init env s in (os_vals s ! opt_index q, s))"

definition opt_set :: "(string \<Rightarrow> u8 list option) \<Rightarrow> opt \<Rightarrow> int \<Rightarrow> opt_state \<Rightarrow> opt_state" where
  "opt_set env q v s = (let s = ensure_init env s in s\<lparr>os_vals := (os_vals s)[opt_index q := v]\<rparr>)"

definition is_enabled :: "(string \<Rightarrow> u8 list option) \<Rightarrow> opt \<Rightarrow> opt_state \<Rightarrow> bool \<times> opt_state" where
  "is_enabled env q s = (let (v, s) = opt_get env q s in (v \<noteq> 0, s))"

definition opt_enable :: "(string \<Rightarrow> u8 list option) \<Rightarrow> opt \<Rightarrow> opt_state \<Rightarrow> opt_state" where
  "opt_enable env q s = opt_set env q 1 s"

definition opt_disable :: "(string \<Rightarrow> u8 list option) \<Rightarrow> opt \<Rightarrow> opt_state \<Rightarrow> opt_state" where
  "opt_disable env q s = opt_set env q 0 s"

text \<open>
  The accessors other components use. They run after the table is initialised, so they take the
  values \<open>vals q\<close> the table holds.
\<close>

type_synonym opt_vals = "opt \<Rightarrow> int"

definition vals_of :: "(string \<Rightarrow> u8 list option) \<Rightarrow> opt_state \<Rightarrow> opt_vals" where
  "vals_of env s q = fst (opt_get env q s)"

definition eager_commit :: "opt_vals \<Rightarrow> bool" where
  "eager_commit vals \<longleftrightarrow> vals Eager_Commit \<noteq> 0"

definition purge_delay :: "opt_vals \<Rightarrow> int" where
  "purge_delay vals = vals Purge_Delay"

definition purge_decommits :: "opt_vals \<Rightarrow> bool" where
  "purge_decommits vals \<longleftrightarrow> vals Purge_Decommits \<noteq> 0"

definition arena_purge_delay :: "opt_vals \<Rightarrow> int" where
  "arena_purge_delay vals = saturating_mul_i64 (purge_delay vals) (max 1 (vals Arena_Purge_Mult))"


section \<open>Decimal numbers\<close>

text \<open>The way a number is written in the environment.\<close>

fun dec :: "nat \<Rightarrow> u8 list" where
  "dec n = (if n < 10 then [48 + of_nat n] else dec (n div 10) @ [48 + of_nat (n mod 10)])"

definition decimal :: "int \<Rightarrow> u8 list" where
  "decimal v = (if v < 0 then 45 # dec (nat (- v)) else dec (nat v))"

definition dval :: "u8 list \<Rightarrow> int \<Rightarrow> int" where
  "dval xs v = foldl (\<lambda>a c. a * 10 + uint (c - 48)) v xs"

lemma dval_simps [simp]:
  "dval [] v = v" "dval (c # cs) v = dval cs (v * 10 + uint (c - 48))"
  "dval (xs @ [c]) v = dval xs v * 10 + uint (c - 48)"
  by (simp_all add: dval_def)

lemma dval_ge: "0 \<le> v \<Longrightarrow> v \<le> dval xs v"
proof (induction xs arbitrary: v)
  case (Cons c cs)
  have "v \<le> v * 10 + uint (c - 48)" using Cons.prems by (simp add: add_nonneg_nonneg add_increasing2)
  also have "\<dots> \<le> dval cs (v * 10 + uint (c - 48))" using Cons.prems by (intro Cons.IH) simp
  finally show ?case by simp
qed simp

lemma parse_digits_val:
  "list_all is_ascii_digit xs \<Longrightarrow> 0 \<le> v \<Longrightarrow> v \<le> i64_max
    \<Longrightarrow> parse_digits xs v = (if dval xs v \<le> i64_max then Some (dval xs v) else None)"
proof (induction xs arbitrary: v)
  case (Cons c cs)
  let ?d = "uint (c - 48)"
  have w: "v * 10 + ?d \<le> dval cs (v * 10 + ?d)" using Cons.prems by (intro dval_ge) simp
  have lo: "i64_min \<le> v * 10" "i64_min \<le> v * 10 + ?d"
  proof -
    have "i64_min \<le> 0" "0 \<le> ?d" by (simp_all add: i64_min_def)
    then show "i64_min \<le> v * 10" "i64_min \<le> v * 10 + ?d" using Cons.prems(2) by linarith+
  qed
  show ?case
  proof (cases "v * 10 + ?d \<le> i64_max")
    case True
    then have "v * 10 \<le> i64_max" using uint_nonnegative [of "c - 48"] by linarith
    with True lo Cons show ?thesis by (simp add: checked_i64_def)
  next
    case False
    with w lo Cons.prems show ?thesis by (auto simp: checked_i64_def)
  qed
qed simp

lemma digit_char:
  assumes "n < 10"
  shows "is_ascii_digit (48 + of_nat n)" "uint ((48 + of_nat n :: u8) - 48) = int n" "(48 + of_nat n :: u8) \<noteq> 45"
proof -
  have "unat (of_nat n :: u8) = n" using assms by (simp add: unat_of_nat take_bit_nat_eq_self)
  then have u: "uint (of_nat n :: u8) = int n" by (simp add: uint_nat)
  then show "uint ((48 + of_nat n :: u8) - 48) = int n" by simp
  have "unat (48 + of_nat n :: u8) = 48 + n"
    using assms \<open>unat (of_nat n :: u8) = n\<close> by (simp add: unat_word_ariths)
  moreover have "unat (48 + of_nat n :: u8) = unat (45 :: u8)" if "(48 + of_nat n :: u8) = 45"
    using that by (rule arg_cong)
  ultimately show "is_ascii_digit (48 + of_nat n)" "(48 + of_nat n :: u8) \<noteq> 45"
    using assms by (auto simp: is_ascii_digit_def word_le_nat_alt)
qed

lemma dec_facts: "list_all is_ascii_digit (dec n) \<and> dval (dec n) 0 = int n \<and> dec n \<noteq> [] \<and> hd (dec n) \<noteq> 45"
proof (induction n rule: dec.induct)
  case (1 n)
  show ?case
  proof (cases "n < 10")
    case True
    then have e: "dec n = [48 + of_nat n]" by (subst dec.simps) simp
    from digit_char [OF True] show ?thesis unfolding e by simp
  next
    case False
    have d: "n mod 10 < 10" by simp
    from False have e: "dec n = dec (n div 10) @ [48 + of_nat (n mod 10)]" by (subst dec.simps) simp
    have "int (n div 10) * 10 + int (n mod 10) = int n" by presburger
    with 1 [OF False] digit_char [OF d] show ?thesis unfolding e by (simp add: dval_simps)
  qed
qed

declare dec.simps [simp del]

section \<open>Properties\<close>

lemma parse_digits_stop: "parse_digits xs v = parse_digits (takeWhile is_ascii_digit xs) v"
  by (induction xs v rule: parse_digits.induct) (simp_all split: option.split)

text \<open>
  C35. An option's text is read as an optional minus sign and the digits up to the first other character: it is
  refused when there is no digit and when the number is above \<open>2\<^sup>6\<^sup>3 - 1\<close>, with either sign, so never
  wrapped; what follows the digits does not matter. So every 64-bit value but the least one,
  \<open>- 2\<^sup>6\<^sup>3\<close>, is read back from its decimal text, and every other number is refused.
\<close>

theorem parse_decimal:
  "parse_i64 b = (let neg = (b \<noteq> [] \<and> hd b = 45); digits = takeWhile is_ascii_digit (if neg then tl b else b); n = dval digits 0
     in if digits = [] \<or> i64_max < n then None else Some (if neg then - n else n))
   \<and> parse_i64 (decimal v) = (if \<bar>v\<bar> \<le> i64_max then Some v else None)"
proof
  let ?neg = "b \<noteq> [] \<and> hd b = 45"
  let ?cs = "if ?neg then tl b else b"
  let ?ds = "takeWhile is_ascii_digit ?cs"
  have all: "list_all is_ascii_digit ?ds" by (auto simp: list_all_iff dest: set_takeWhileD)
  have d: "parse_digits ?cs 0 = (if dval ?ds 0 \<le> i64_max then Some (dval ?ds 0) else None)"
    using parse_digits_stop [of ?cs 0] parse_digits_val [OF all, of 0] by (simp add: i64_max_def)
  have e: "?ds = [] \<longleftrightarrow> ?cs = [] \<or> \<not> is_ascii_digit (hd ?cs)" by (cases ?cs) simp_all
  have "parse_i64 b = (if ?cs = [] \<or> \<not> is_ascii_digit (hd ?cs) then None
      else case parse_digits ?cs 0 of None \<Rightarrow> None | Some v \<Rightarrow> Some (if ?neg then - v else v))"
    unfolding parse_i64_def Let_def by (cases b) (simp_all split: option.split)
  then show "parse_i64 b = (let neg = ?neg; digits = takeWhile is_ascii_digit (if neg then tl b else b); n = dval digits 0
      in if digits = [] \<or> i64_max < n then None else Some (if neg then - n else n))"
    unfolding d e [symmetric] Let_def by (simp add: not_le)
next
  have p: "parse_digits (dec n) 0 = (if int n \<le> i64_max then Some (int n) else None)" for n
    using parse_digits_val [of "dec n" 0] dec_facts [of n] by (simp add: i64_max_def)
  have dig: "\<exists>c cs. dec n = c # cs \<and> is_ascii_digit c \<and> c \<noteq> 45" for n
    using dec_facts [of n] by (cases "dec n") auto
  show "parse_i64 (decimal v) = (if \<bar>v\<bar> \<le> i64_max then Some v else None)"
  proof (cases "v < 0")
    case True
    obtain c cs where c: "dec (nat (- v)) = c # cs" "is_ascii_digit c" using dig by blast
    with True p [of "nat (- v)"] show ?thesis by (simp add: parse_i64_def decimal_def)
  next
    case False
    obtain c cs where c: "dec (nat v) = c # cs" "is_ascii_digit c" "c \<noteq> 45" using dig by blast
    with False p [of "nat v"] show ?thesis by (simp add: parse_i64_def decimal_def)
  qed
qed

lemma from_index_opt [simp]: "from_index (int (opt_index q)) = Some q"
  by (cases q) (simp_all add: from_index_def)

lemma opt_index_lt: "opt_index q < OPT_COUNT"
  by (cases q) (simp_all add: OPT_COUNT_def)

lemma opt_index_inj: "opt_index p = opt_index q \<longleftrightarrow> p = q"
  by (metis from_index_opt option.inject)

definition opt_ok :: "opt_state \<Rightarrow> bool" where
  "opt_ok s \<longleftrightarrow> length (os_vals s) = OPT_COUNT"

lemma ensure_init_facts:
  assumes "opt_ok s"
  shows "opt_ok (ensure_init env s)" "os_ready (ensure_init env s)"
    "\<not> os_ready s \<Longrightarrow> os_vals (ensure_init env s) ! opt_index q = env_value env q"
  using assms opt_index_lt [of q]
  by (auto simp: ensure_init_def opt_ok_def nth_enumerate_eq)

text \<open>
  The first access reads each option from the environment, or takes its default, and no later
  access does so again; an option keeps its value until it is set, reads as the value last set, and
  setting one leaves every other option alone.
\<close>

theorem option_table:
  assumes "opt_ok s"
  shows "vals_of env (snd (opt_get env q s)) = vals_of env s
    \<and> (\<not> os_ready s \<longrightarrow> vals_of env s q = env_value env q)
    \<and> vals_of env2 (snd (opt_get env q s)) = vals_of env s
    \<and> vals_of env2 (opt_set env q v s) = (vals_of env s)(q := v)"
proof -
  let ?t = "ensure_init env s"
  note t = ensure_init_facts [OF assms, of env]
  have again: "ensure_init env2 ?t = ?t" for env2 using t(2) by (simp add: ensure_init_def)
  have get: "vals_of env s = (\<lambda>q. os_vals ?t ! opt_index q)" by (simp add: vals_of_def opt_get_def Let_def fun_eq_iff)
  have "os_vals (opt_set env q v s) ! opt_index p = (if p = q then v else os_vals ?t ! opt_index p)" for p
    using t(1) opt_index_lt [of q] by (auto simp: opt_set_def Let_def opt_ok_def nth_list_update opt_index_inj)
  moreover have "ensure_init env2 (opt_set env q v s) = opt_set env q v s"
    using t(2) by (simp add: ensure_init_def opt_set_def Let_def)
  ultimately have "vals_of env2 (opt_set env q v s) = (vals_of env s)(q := v)"
    by (simp add: get fun_eq_iff) (simp add: vals_of_def opt_get_def Let_def)
  with t(3) [of q] again show ?thesis by (simp add: get fun_eq_iff) (simp add: vals_of_def opt_get_def Let_def)
qed

lemma option_table_witness:
  "vals_of (\<lambda>_. None) (opt_set (\<lambda>_. None) Verbose 2 opt_start) Purge_Delay = 1000"
proof -
  have ok: "opt_ok opt_start" by (simp add: opt_ok_def opt_start_def)
  show ?thesis
    using option_table [OF ok, of "\<lambda>_. None" Purge_Delay "\<lambda>_. None" 2]
      option_table [OF ok, of "\<lambda>_. None" Verbose "\<lambda>_. None" 2]
    by (simp add: opt_start_def env_value_def getenv_def)
qed

text \<open>The effective delay keeps the sign of the option, so purging is disabled exactly by a
  negative delay and immediate exactly for zero.\<close>

lemma arena_purge_delay_sign:
  "arena_purge_delay vals < 0 \<longleftrightarrow> purge_delay vals < 0" "arena_purge_delay vals = 0 \<longleftrightarrow> purge_delay vals = 0"
proof -
  let ?d = "purge_delay vals" and ?m = "max 1 (vals Arena_Purge_Mult)"
  have "0 < ?m" by simp
  then have "?d * ?m < 0 \<longleftrightarrow> ?d < 0" "?d * ?m = 0 \<longleftrightarrow> ?d = 0"
    by (auto simp: mult_less_0_iff simp del: less_max_iff_disj)
  then show "arena_purge_delay vals < 0 \<longleftrightarrow> purge_delay vals < 0" "arena_purge_delay vals = 0 \<longleftrightarrow> purge_delay vals = 0"
    unfolding arena_purge_delay_def saturating_mul_i64_def i64_min_def i64_max_def
    by (auto simp: max_def min_def split: if_splits)
qed

end
