(* ===== verification/MiOs.thy ===== *)
theory MiOs
  imports MiOptions MiLayout
begin

unbundle bit_operations_syntax

text \<open>
  \<^verbatim>\<open>src/os.rs\<close>: reserving, committing, purging and releasing OS memory over the primitive layer,
  with the provenance record of every region. \<open>cfg\<close> is the configuration the process queried once.
\<close>

section \<open>Provenance\<close>

datatype mem_kind = Kind_None | Kind_Static | Kind_Meta | Kind_Os | Kind_Os_Huge | Kind_Arena

record mem_id =
  mi_kind :: mem_kind
  mi_base :: ptr
  mi_size :: usize
  mi_is_pinned :: bool
  mi_initially_committed :: bool
  mi_initially_zero :: bool

definition memid_none :: mem_id where
  "memid_none = \<lparr>mi_kind = Kind_None, mi_base = 0, mi_size = 0, mi_is_pinned = False,
     mi_initially_committed = False, mi_initially_zero = False\<rparr>"

definition is_os :: "mem_id \<Rightarrow> bool" where
  "is_os m \<longleftrightarrow> mi_kind m = Kind_Os \<or> mi_kind m = Kind_Os_Huge"

section \<open>Operations\<close>

text \<open>
  The parameters \<^verbatim>\<open>try_align\<close> and \<^verbatim>\<open>allow_large\<close> are left out: the Linux primitive ignores
  both.
\<close>

definition page_size :: "os_mem_config \<Rightarrow> usize" where
  "page_size cfg = oc_page_size cfg"

definition has_partial_free :: "os_mem_config \<Rightarrow> bool" where
  "has_partial_free cfg = oc_has_partial_free cfg"

definition good_alloc_size :: "os_mem_config \<Rightarrow> usize \<Rightarrow> usize" where
  "good_alloc_size cfg sz =
    (let align = (if sz < 512 * 1024 then page_size cfg
                  else if sz < 256 * 1024 * 1024 then 4 * 1024 * 1024
                  else of_nat MI_ARENA_SLICE_SIZE)
     in align_up sz (max align (page_size cfg)))"

definition page_align_conservative :: "os_mem_config \<Rightarrow> ptr \<Rightarrow> usize \<Rightarrow> (ptr \<times> usize) option" where
  "page_align_conservative cfg addr sz =
    (let ps = page_size cfg; start = addr; stop = start + sz;
         astart = align_up start ps; aend = align_down stop ps
     in if aend \<le> astart then None else Some (astart, aend - astart))"

definition os_memid :: "ptr \<Rightarrow> usize \<Rightarrow> bool \<Rightarrow> prim_alloc_rec \<Rightarrow> mem_id" where
  "os_memid base sz commit a =
    \<lparr>mi_kind = Kind_Os, mi_base = base, mi_size = sz, mi_is_pinned = pa_is_large a,
     mi_initially_committed = commit, mi_initially_zero = pa_is_zero a\<rparr>"

text \<open>The first attempt of \<open>alloc_aligned\<close>: a mapping that happens to be aligned.\<close>

definition try_direct :: "libc \<Rightarrow> usize \<Rightarrow> usize \<Rightarrow> bool \<Rightarrow> os_log \<Rightarrow> (ptr \<times> mem_id) option \<times> os_log" where
  "try_direct lc sz alignment commit lg =
    (case prim_alloc lc sz commit lg of
       (Inl _, lg) \<Rightarrow> (None, lg)
     | (Inr a, lg) \<Rightarrow>
         if is_aligned (pa_addr a) alignment then (Some (pa_addr a, os_memid (pa_addr a) sz commit a), lg)
         else (None, snd (prim_free lc (pa_addr a) sz lg)))"

text \<open>The second: over-allocate by the alignment and give the two ends back.\<close>

definition over_allocate :: "libc \<Rightarrow> usize \<Rightarrow> usize \<Rightarrow> bool \<Rightarrow> os_log \<Rightarrow> (ptr \<times> mem_id) option \<times> os_log" where
  "over_allocate lc sz alignment commit lg =
    (let over = sz + alignment
     in case prim_alloc lc over commit lg of
          (Inl _, lg) \<Rightarrow> (None, lg)
        | (Inr a, lg) \<Rightarrow>
            let base = pa_addr a; aligned = align_up base alignment;
                pre = aligned - base; mid = sz; post = over - pre - mid;
                lg = (if pre > 0 then snd (prim_free lc base pre lg) else lg);
                lg = (if post > 0 then snd (prim_free lc (aligned + mid) post lg) else lg)
            in (Some (aligned, os_memid aligned mid commit a), lg))"

definition alloc_aligned ::
    "libc \<Rightarrow> os_mem_config \<Rightarrow> usize \<Rightarrow> usize \<Rightarrow> bool \<Rightarrow> os_log \<Rightarrow> (ptr \<times> mem_id) option \<times> os_log" where
  "alloc_aligned lc cfg sz alignment commit lg =
    (if sz = 0 then (None, lg)
     else let ps = page_size cfg; alignment = max alignment ps; sz = align_up sz ps;
              direct = (alignment \<le> oc_alloc_granularity cfg \<or> alignment \<le> sz div 4);
              (r, lg) = (if direct then try_direct lc sz alignment commit lg else (None, lg))
          in if r \<noteq> None then (r, lg)
             else if sz \<ge> usize_max - alignment then (None, lg)
             else if has_partial_free cfg then over_allocate lc sz alignment commit lg
             else (None, lg))"

definition os_alloc :: "libc \<Rightarrow> os_mem_config \<Rightarrow> usize \<Rightarrow> bool \<Rightarrow> os_log \<Rightarrow> (ptr \<times> mem_id) option \<times> os_log" where
  "os_alloc lc cfg sz commit lg = alloc_aligned lc cfg sz (page_size cfg) commit lg"

definition os_free :: "libc \<Rightarrow> mem_id \<Rightarrow> os_log \<Rightarrow> os_log" where
  "os_free lc m lg =
    (if is_os m \<and> mi_base m \<noteq> 0 \<and> mi_size m > 0 then snd (prim_free lc (mi_base m) (mi_size m) lg) else lg)"

definition os_commit :: "libc \<Rightarrow> os_mem_config \<Rightarrow> ptr \<Rightarrow> usize \<Rightarrow> os_log \<Rightarrow> bool option \<times> os_log" where
  "os_commit lc cfg addr sz lg =
    (case page_align_conservative cfg addr sz of
       None \<Rightarrow> (Some True, lg)
     | Some (p, n) \<Rightarrow> (case prim_commit lc p n lg of (Inl _, lg) \<Rightarrow> (None, lg) | (Inr z, lg) \<Rightarrow> (Some z, lg)))"

definition os_decommit :: "bool \<Rightarrow> libc \<Rightarrow> os_mem_config \<Rightarrow> ptr \<Rightarrow> usize \<Rightarrow> os_log \<Rightarrow> os_log" where
  "os_decommit hard lc cfg addr sz lg =
    (case page_align_conservative cfg addr sz of
       None \<Rightarrow> lg | Some (p, n) \<Rightarrow> snd (prim_decommit hard lc p n lg))"

definition os_reset :: "libc \<Rightarrow> os_mem_config \<Rightarrow> ptr \<Rightarrow> usize \<Rightarrow> os_log \<Rightarrow> os_log" where
  "os_reset lc cfg addr sz lg =
    (case page_align_conservative cfg addr sz of
       None \<Rightarrow> lg | Some (p, n) \<Rightarrow> snd (prim_reset lc p n lg))"

definition purge_ex ::
    "bool \<Rightarrow> libc \<Rightarrow> os_mem_config \<Rightarrow> opt_vals \<Rightarrow> ptr \<Rightarrow> usize \<Rightarrow> bool \<Rightarrow> os_log \<Rightarrow> bool \<times> os_log" where
  "purge_ex hard lc cfg vals addr sz allow_reset lg =
    (if purge_delay vals < 0 then (False, lg)
     else if purge_decommits vals then (True, os_decommit hard lc cfg addr sz lg)
     else if allow_reset then (False, os_reset lc cfg addr sz lg)
     else (False, lg))"

definition purge :: "bool \<Rightarrow> libc \<Rightarrow> os_mem_config \<Rightarrow> opt_vals \<Rightarrow> ptr \<Rightarrow> usize \<Rightarrow> os_log \<Rightarrow> os_log" where
  "purge hard lc cfg vals addr sz lg = snd (purge_ex hard lc cfg vals addr sz True lg)"

section \<open>Laws of the system calls\<close>

text \<open>
  What the POSIX manual promises: a mapping is page-aligned, not null, inside the user half of the
  address space and disjoint from what is mapped; unmapping whole pages succeeds.
\<close>

definition mmap_law :: "libc \<Rightarrow> os_mem_config \<Rightarrow> bool" where
  "mmap_law lc cfg \<longleftrightarrow>
    (\<forall>lg n rw p. c_mmap lc lg n rw = Inr p \<longrightarrow>
       p \<noteq> 0 \<and> unat (page_size cfg) dvd unat p \<and> unat p + unat n < 2 ^ 63 \<and> bytes p n \<inter> mapped lg = {})"

definition munmap_law :: "libc \<Rightarrow> os_mem_config \<Rightarrow> bool" where
  "munmap_law lc cfg \<longleftrightarrow>
    (\<forall>lg a n. unat (page_size cfg) dvd unat a \<longrightarrow> c_ret lc lg (Munmap a n) = 0)"

definition cfg_ok :: "os_mem_config \<Rightarrow> bool" where
  "cfg_ok cfg \<longleftrightarrow> (\<exists>k<30. page_size cfg = 2 ^ k) \<and> has_partial_free cfg"

lemma mmap_lawD:
  assumes "mmap_law lc cfg" "c_mmap lc lg n rw = Inr p"
  shows "p \<noteq> 0" "unat (page_size cfg) dvd unat p" "unat p + unat n < 2 ^ 63" "bytes p n \<inter> mapped lg = {}"
  using assms unfolding mmap_law_def by blast+

lemma prim_alloc_mapped:
  assumes "prim_alloc lc n rw lg = (r, lg')"
  shows "case r of Inl e \<Rightarrow> mapped lg' = mapped lg
    | Inr a \<Rightarrow> c_mmap lc lg n rw = Inr (pa_addr a) \<and> mapped lg' = mapped lg \<union> bytes (pa_addr a) n"
  using assms by (auto simp: prim_alloc_def Let_def split: sum.splits if_splits)

lemma prim_free_mapped:
  "munmap_law lc cfg \<Longrightarrow> unat (page_size cfg) dvd unat a \<Longrightarrow>
    mapped (snd (prim_free lc a n lg)) = mapped lg - bytes a n"
  by (simp add: prim_free_def sys_call_def munmap_law_def Let_def)


section \<open>Aligned allocation\<close>

definition pow2_word :: "usize \<Rightarrow> nat \<Rightarrow> bool" where
  "pow2_word x k \<longleftrightarrow> k < 64 \<and> x = 2 ^ k"

text \<open>A region handed out: aligned, disjoint from what was mapped, and exactly the new mapping.\<close>

definition fresh_region :: "os_log \<Rightarrow> os_log \<Rightarrow> usize \<Rightarrow> usize \<Rightarrow> bool \<Rightarrow> ptr \<Rightarrow> mem_id \<Rightarrow> bool" where
  "fresh_region lg lg' sz alignment commit p m \<longleftrightarrow>
    p \<noteq> 0 \<and> unat alignment dvd unat p \<and> unat p + unat sz < 2 ^ 63 \<and> bytes p sz \<inter> mapped lg = {}
    \<and> mapped lg' = mapped lg \<union> bytes p sz
    \<and> mi_kind m = Kind_Os \<and> mi_base m = p \<and> mi_size m = sz \<and> mi_initially_committed m = commit"

lemma max_pow2: "pow2_word x i \<Longrightarrow> pow2_word y j \<Longrightarrow> pow2_word (max x y) (max i j)"
  by (auto simp: pow2_word_def max_def word_le_nat_alt unat_pow2 not_le dest: power_le_imp_le_exp [rotated])

lemma try_direct_fresh:
  assumes "cfg_ok cfg" "mmap_law lc cfg" "munmap_law lc cfg" "pow2_word alignment k"
    and "try_direct lc sz alignment commit lg = (r, lg')"
  shows "case r of None \<Rightarrow> mapped lg' = mapped lg | Some (p, m) \<Rightarrow> fresh_region lg lg' sz alignment commit p m"
proof -
  obtain q lg1 where a: "prim_alloc lc sz commit lg = (q, lg1)" by fastforce
  note am = prim_alloc_mapped [OF a]
  show ?thesis
  proof (cases q)
    case (Inl e)
    with assms(5) a am show ?thesis by (auto simp: try_direct_def)
  next
    case (Inr b)
    let ?p = "pa_addr b"
    have c: "c_mmap lc lg sz commit = Inr ?p" and m: "mapped lg1 = mapped lg \<union> bytes ?p sz"
      using am Inr by simp_all
    note law = mmap_lawD [OF assms(2) c] m
    show ?thesis
    proof (cases "is_aligned ?p alignment")
      case True
      then have "unat alignment dvd unat ?p"
        using assms(4) is_aligned_dvd [of k ?p] by (auto simp: pow2_word_def unat_pow2)
      with True assms(5) a Inr law show ?thesis
        by (auto simp: try_direct_def fresh_region_def os_memid_def)
    next
      case False
      have "mapped (snd (prim_free lc ?p sz lg1)) = mapped lg"
        using prim_free_mapped [OF assms(3) law(2), of sz lg1] law(4,5) by auto
      with False assms(5) a Inr show ?thesis by (auto simp: try_direct_def)
    qed
  qed
qed

lemma cut_ends:
  fixes a b c d x :: nat
  assumes "a \<le> b" "b \<le> c" "c \<le> d" "a \<le> x \<Longrightarrow> x < d \<Longrightarrow> \<not> m"
  shows "(m \<or> a \<le> x \<and> x < d) \<and> \<not> (a \<le> x \<and> x < b) \<and> \<not> (c \<le> x \<and> x < d)
    \<longleftrightarrow> m \<or> b \<le> x \<and> x < c"
  using assms by (cases m) auto

text \<open>The two ends of an over-allocated mapping.\<close>

lemma trim_bytes:
  assumes "unat base \<le> unat al" "unat al + unat mid \<le> unat base + unat over" "unat base + unat over < 2 ^ 64"
    and "bytes base over \<inter> M = {}"
  shows "M \<union> bytes base over - bytes base (al - base) - bytes (al + mid) (over - (al - base) - mid)
      = M \<union> bytes al mid"
    and "unat (al - base) = unat al - unat base"
    and "unat (al + mid) = unat al + unat mid"
    and "unat (over - (al - base) - mid) = unat base + unat over - (unat al + unat mid)"
proof -
  have pre: "unat (al - base) = unat al - unat base"
    using assms(1) by (intro unat_diff_le) (simp add: word_le_nat_alt)
  have mid: "unat (al + mid) = unat al + unat mid"
    using assms(2,3) by (intro unat_add_small) linarith
  have p1: "unat (over - (al - base)) = unat over - (unat al - unat base)"
    using assms(1,2) by (subst unat_diff_le) (simp_all add: word_le_nat_alt pre)
  have p2: "unat (over - (al - base) - mid) = unat over - (unat al - unat base) - unat mid"
    using assms(1,2) by (subst unat_diff_le) (simp_all add: word_le_nat_alt p1)
  show "unat (al - base) = unat al - unat base" by (rule pre)
  show "unat (al + mid) = unat al + unat mid" by (rule mid)
  show post: "unat (over - (al - base) - mid) = unat base + unat over - (unat al + unat mid)"
    unfolding p2 using assms(1,2) by linarith
  have "bytes base (al - base) = {unat base ..< unat al}" unfolding bytes_def pre using assms(1) by simp
  moreover have "bytes (al + mid) (over - (al - base) - mid) = {unat al + unat mid ..< unat base + unat over}"
    unfolding bytes_def post mid using assms(2) by simp
  moreover have "bytes base over = {unat base ..< unat base + unat over}" "bytes al mid = {unat al ..< unat al + unat mid}"
    by (simp_all add: bytes_def)
  ultimately show "M \<union> bytes base over - bytes base (al - base) - bytes (al + mid) (over - (al - base) - mid)
      = M \<union> bytes al mid"
  proof -
    assume e: "bytes base (al - base) = {unat base ..< unat al}"
      "bytes (al + mid) (over - (al - base) - mid) = {unat al + unat mid ..< unat base + unat over}"
      "bytes base over = {unat base ..< unat base + unat over}" "bytes al mid = {unat al ..< unat al + unat mid}"
    have "x \<notin> M" if "unat base \<le> x" "x < unat base + unat over" for x
      using assms(4) that e(3) by auto
    then have "(x \<in> M \<or> unat base \<le> x \<and> x < unat base + unat over) \<and> \<not> (unat base \<le> x \<and> x < unat al)
        \<and> \<not> (unat al + unat mid \<le> x \<and> x < unat base + unat over)
        \<longleftrightarrow> x \<in> M \<or> unat al \<le> x \<and> x < unat al + unat mid" for x
      using assms(1,2) by (intro cut_ends) simp_all
    then show ?thesis unfolding e by (intro set_eqI) simp
  qed
qed


lemma over_allocate_fresh:
  assumes "cfg_ok cfg" "mmap_law lc cfg" "munmap_law lc cfg" "pow2_word alignment k"
    and "unat (page_size cfg) dvd unat sz" "unat (page_size cfg) dvd unat alignment"
    and "unat sz + unat alignment < 2 ^ 64"
    and "over_allocate lc sz alignment commit lg = (r, lg')"
  shows "case r of None \<Rightarrow> mapped lg' = mapped lg | Some (p, m) \<Rightarrow> fresh_region lg lg' sz alignment commit p m"
proof -
  let ?ps = "unat (page_size cfg)"
  obtain q lg1 where a: "prim_alloc lc (sz + alignment) commit lg = (q, lg1)" by fastforce
  note am = prim_alloc_mapped [OF a]
  show ?thesis
  proof (cases q)
    case (Inl e)
    with assms(8) a am show ?thesis by (auto simp: over_allocate_def Let_def)
  next
    case (Inr b)
    let ?base = "pa_addr b"
    let ?al = "align_up ?base alignment"
    let ?pre = "?al - ?base" and ?post = "(sz + alignment) - (?al - ?base) - sz"
    have over: "unat (sz + alignment) = unat sz + unat alignment" using assms(7) by (simp add: unat_add_small)
    have c: "c_mmap lc lg (sz + alignment) commit = Inr ?base"
      and m: "mapped lg1 = mapped lg \<union> bytes ?base (sz + alignment)"
      using am Inr by simp_all
    note law = mmap_lawD [OF assms(2) c]
    have al0: "alignment \<noteq> 0" and al: "unat alignment = 2 ^ k" and k: "k < 64"
      using assms(4) unat_pow2 [of k] by (auto simp: pow2_word_def)
    have fit: "unat ?base + unat alignment \<le> 2 ^ 64" using law(3) over by simp
    have up: "unat ?al = nat_div_ceil (unat ?base) (unat alignment) * unat alignment"
      by (rule align_up_unat [OF al0 fit])
    have pos: "0 < unat alignment" using al by simp
    have ge: "unat ?base \<le> unat ?al" and lt: "unat ?al < unat ?base + unat alignment"
      unfolding up using pos by (simp_all add: nat_div_ceil_le nat_div_ceil_bound)
    note tr = trim_bytes [of ?base ?al sz "sz + alignment" "mapped lg"]
    have le: "unat ?al + unat sz \<le> unat ?base + unat (sz + alignment)" using lt over by linarith
    have b64: "unat ?base + unat (sz + alignment) < 2 ^ 64" using law(3) by simp
    note tr = tr [OF ge le b64 law(4)]
    have dal: "?ps dvd unat ?al" unfolding up using assms(6) by simp
    have dtail: "?ps dvd unat (?al + sz)" unfolding tr(3) using dal assms(5) by simp
    define lg2 where "lg2 = (if ?pre > 0 then snd (prim_free lc ?base ?pre lg1) else lg1)"
    define lg3 where "lg3 = (if ?post > 0 then snd (prim_free lc (?al + sz) ?post lg2) else lg2)"
    have z: "bytes x 0 = {}" for x by (simp add: bytes_def)
    have "mapped lg2 = mapped lg1 - bytes ?base ?pre"
      using prim_free_mapped [OF assms(3) law(2)] by (auto simp: lg2_def z word_gt_0)
    moreover have "mapped lg3 = mapped lg2 - bytes (?al + sz) ?post"
      using prim_free_mapped [OF assms(3) dtail] by (auto simp: lg3_def z word_gt_0)
    ultimately have m3: "mapped lg3 = mapped lg \<union> bytes ?al sz" using tr(1) m by simp
    have "over_allocate lc sz alignment commit lg = (Some (?al, os_memid ?al sz commit b), lg3)"
      using a Inr unfolding over_allocate_def Let_def lg3_def lg2_def by (simp only: prod.case sum.case)
    with assms(8) have r: "r = Some (?al, os_memid ?al sz commit b)" "lg' = lg3" by simp_all
    have "bytes ?al sz \<subseteq> bytes ?base (sz + alignment)" using ge le by (auto simp: bytes_def)
    with law(4) have dis: "bytes ?al sz \<inter> mapped lg = {}" by blast
    have "?al \<noteq> 0" using ge law(1) by (metis le_zero_eq unat_eq_zero)
    moreover have "unat ?al + unat sz < 2 ^ 63" using le law(3) by linarith
    moreover have "unat alignment dvd unat ?al" unfolding up by simp
    ultimately show ?thesis using m3 dis by (simp add: r fresh_region_def os_memid_def)
  qed
qed

lemma alloc_aligned_fresh:
  assumes "cfg_ok cfg" "mmap_law lc cfg" "munmap_law lc cfg" "pow2_word alignment k"
    and "unat sz + unat (page_size cfg) \<le> 2 ^ 64"
    and "alloc_aligned lc cfg sz alignment commit lg = (r, lg')"
  shows "case r of None \<Rightarrow> mapped lg' = mapped lg
    | Some (p, m) \<Rightarrow> fresh_region lg lg' (align_up sz (page_size cfg)) (max alignment (page_size cfg)) commit p m"
proof (cases "sz = 0")
  case True
  with assms(6) show ?thesis by (simp add: alloc_aligned_def)
next
  case False
  let ?ps = "page_size cfg" and ?sz = "align_up sz (page_size cfg)" and ?a = "max alignment (page_size cfg)"
  obtain j where "j < 30" "?ps = 2 ^ j" and hp: "has_partial_free cfg" using assms(1) by (auto simp: cfg_ok_def)
  then have j: "pow2_word ?ps j" by (simp add: pow2_word_def)
  have a: "pow2_word ?a (max k j)" by (rule max_pow2 [OF assms(4) j])
  have dvd_a: "unat ?ps dvd unat ?a"
    using a j by (auto simp: pow2_word_def unat_pow2 le_imp_power_dvd)
  have ps0: "?ps \<noteq> 0" using j unat_pow2 [of j] by (auto simp: pow2_word_def)
  have dvd_sz: "unat ?ps dvd unat ?sz" using align_up_unat [OF ps0 assms(5)] by simp
  define d where "d = (if ?a \<le> oc_alloc_granularity cfg \<or> ?a \<le> ?sz div 4
    then try_direct lc ?sz ?a commit lg else (None, lg))"
  obtain r1 lg1 where d1: "d = (r1, lg1)" by fastforce
  have e: "alloc_aligned lc cfg sz alignment commit lg =
      (if r1 \<noteq> None then (r1, lg1) else if ?sz \<ge> usize_max - ?a then (None, lg1)
       else over_allocate lc ?sz ?a commit lg1)"
    using False d1 hp by (auto simp: alloc_aligned_def Let_def d_def)
  have f1: "case r1 of None \<Rightarrow> mapped lg1 = mapped lg | Some (p, m) \<Rightarrow> fresh_region lg lg1 ?sz ?a commit p m"
    using try_direct_fresh [OF assms(1-3) a, of ?sz commit lg r1 lg1] d1 by (auto simp: d_def split: if_splits)
  show ?thesis
  proof (cases r1)
    case (Some x)
    with e assms(6) f1 show ?thesis by auto
  next
    case None
    show ?thesis
    proof (cases "?sz \<ge> usize_max - ?a")
      case True
      with e None assms(6) f1 show ?thesis by auto
    next
      case lt: False
      have "unat (usize_max - ?a) = 2 ^ 64 - 1 - unat ?a"
        using unat_bound [of ?a] by (subst unat_diff_le)
          (auto simp: usize_max_def word_le_nat_alt unsigned_minus_1_eq_mask mask_eq_exp_minus_1)
      moreover have "unat ?sz < unat (usize_max - ?a)" using lt by (simp only: not_le word_less_nat_alt)
      ultimately have fit: "unat ?sz + unat ?a < 2 ^ 64" by linarith
      have "mapped lg1 = mapped lg" using f1 None by simp
      moreover have "over_allocate lc ?sz ?a commit lg1 = (r, lg')" using e None lt assms(6) by simp
      ultimately show ?thesis
        using over_allocate_fresh [OF assms(1-3) a dvd_sz dvd_a fit, of commit lg1 r lg']
        unfolding fresh_region_def by (cases r) (simp_all add: case_prod_beta)
    qed
  qed
qed


section \<open>Ranges of whole pages\<close>

text \<open>A range that starts and ends on page boundaries is passed to the primitive layer as it is.\<close>

lemma page_align_whole:
  assumes "cfg_ok cfg" "unat (page_size cfg) dvd unat a" "unat (page_size cfg) dvd unat n" "0 < unat n"
    and "unat a + unat n < 2 ^ 63"
  shows "page_align_conservative cfg a n = Some (a, n)"
proof -
  let ?ps = "page_size cfg"
  obtain j where "j < 30" "?ps = 2 ^ j" using assms(1) by (auto simp: cfg_ok_def)
  then have p: "unat ?ps = 2 ^ j" "j < 30" by (simp_all add: unat_pow2)
  then have ps0: "?ps \<noteq> 0" and pos: "0 < unat ?ps" by auto
  have "(2::nat) ^ j \<le> 2 ^ 30" using p(2) by (intro power_increasing) simp_all
  then have fit: "unat a + unat ?ps \<le> 2 ^ 64" using assms(5) p(1) by simp
  obtain q where q: "unat a = q * unat ?ps" using assms(2) by (auto simp: dvd_def mult.commute)
  have up: "align_up a ?ps = a"
    using align_up_unat [OF ps0 fit] pos by (simp add: q word_unat_eq_iff)
  have sum: "unat (a + n) = unat a + unat n" using assms(5) by (simp add: unat_add_small)
  have "unat ?ps dvd unat (a + n)" unfolding sum using assms(2,3) by simp
  then obtain r where r: "unat (a + n) = r * unat ?ps" by (auto simp: dvd_def mult.commute)
  have down: "align_down (a + n) ?ps = a + n"
    using align_down_unat [OF ps0, of "a + n"] pos r by (simp add: word_unat_eq_iff)
  have "\<not> a + n \<le> a" using sum assms(4) by (simp add: word_le_nat_alt)
  then show ?thesis using up down by (simp add: page_align_conservative_def Let_def)
qed

lemma prim_commit_access:
  assumes "prim_commit lc a n lg = (r, lg')"
  shows "mapped lg' = mapped lg \<and> accessible lg' = (case r of Inl _ \<Rightarrow> accessible lg | Inr _ \<Rightarrow> accessible lg \<union> bytes a n)"
  using assms by (auto simp: prim_commit_def sys_call_def Let_def split: if_splits)

lemma os_commit_access:
  assumes "page_align_conservative cfg a n = Some (a, n)" "os_commit lc cfg a n lg = (r, lg')"
  shows "mapped lg' = mapped lg \<and> accessible lg' = (if r = None then accessible lg else accessible lg \<union> bytes a n)"
  using assms prim_commit_access [of lc a n lg] by (auto simp: os_commit_def split: sum.splits prod.splits)

text \<open>A purge unmaps nothing, and makes nothing outside the range inaccessible.\<close>

lemma purge_ex_access:
  assumes "page_align_conservative cfg a n = Some (a, n)" "purge_ex hard lc cfg vals a n allow lg = (r, lg')"
  shows "mapped lg' = mapped lg" "accessible lg - bytes a n \<subseteq> accessible lg'" "accessible lg' \<subseteq> accessible lg"
    "\<not> r \<Longrightarrow> accessible lg' = accessible lg" "\<not> hard \<Longrightarrow> accessible lg' = accessible lg"
    "r \<longleftrightarrow> 0 \<le> purge_delay vals \<and> purge_decommits vals"
  using assms
  by (auto simp: purge_ex_def os_decommit_def os_reset_def prim_decommit_def prim_reset_def sys_call_def Let_def
      split: if_splits)

section \<open>Properties\<close>

text \<open>
  C36. An aligned allocation that succeeds returns a region that is aligned as asked, at least as
  long as asked, disjoint from everything mapped before and inside the user address space; the
  process has gained exactly that region (the unaligned ends of an over-allocation are gone), and
  freeing its record gives exactly it back. One that fails leaves the mappings as they were.
\<close>

theorem os_alloc_aligned_exact:
  assumes "cfg_ok cfg" "mmap_law lc cfg" "munmap_law lc cfg" "pow2_word alignment k"
    and "unat sz + unat (page_size cfg) \<le> 2 ^ 64"
    and "alloc_aligned lc cfg sz alignment commit lg = (r, lg')"
  shows "case r of None \<Rightarrow> mapped lg' = mapped lg
    | Some (p, m) \<Rightarrow> p \<noteq> 0 \<and> unat alignment dvd unat p \<and> unat sz \<le> unat (mi_size m) \<and> mi_base m = p
        \<and> unat p + unat (mi_size m) < 2 ^ 63 \<and> bytes p (mi_size m) \<inter> mapped lg = {}
        \<and> mapped lg' = mapped lg \<union> bytes p (mi_size m) \<and> mapped (os_free lc m lg') = mapped lg"
proof (cases r)
  case None
  with alloc_aligned_fresh [OF assms] show ?thesis by simp
next
  case (Some x)
  obtain p m where x: "x = (p, m)" by fastforce
  let ?ps = "page_size cfg" and ?sz = "align_up sz (page_size cfg)"
  have f: "fresh_region lg lg' ?sz (max alignment ?ps) commit p m"
    using alloc_aligned_fresh [OF assms] Some x by simp
  obtain j where j: "j < 30" "?ps = 2 ^ j" using assms(1) by (auto simp: cfg_ok_def)
  then have pj: "pow2_word ?ps j" "unat ?ps = 2 ^ j" by (simp_all add: pow2_word_def unat_pow2)
  have ps0: "?ps \<noteq> 0" using pj(2) by auto
  have ge: "unat sz \<le> unat ?sz" using align_up_unat [OF ps0 assms(5)] pj(2) by (simp add: nat_div_ceil_le)
  have dvd: "unat x dvd unat (max x y)" if "pow2_word x i" "pow2_word y l" for x y i l
    using that max_pow2 [OF that] by (auto simp: pow2_word_def unat_pow2 le_imp_power_dvd)
  have d1: "unat alignment dvd unat p" and d2: "unat ?ps dvd unat p"
    using f dvd [OF assms(4) pj(1)] dvd [OF pj(1) assms(4)] dvd_trans
    by (auto simp: fresh_region_def max.commute)
  have "mapped (os_free lc m lg') = mapped lg"
  proof (cases "?sz = 0")
    case True
    with f show ?thesis by (simp add: os_free_def fresh_region_def bytes_def)
  next
    case False
    with f have "os_free lc m lg' = snd (prim_free lc p ?sz lg')"
      by (simp add: os_free_def fresh_region_def is_os_def word_gt_0)
    then show ?thesis using f prim_free_mapped [OF assms(3) d2, of ?sz lg'] by (auto simp: fresh_region_def)
  qed
  with f d1 ge show ?thesis by (simp add: Some x fresh_region_def)
qed

text \<open>A system that maps the first request at a page that is not aligned to the 64 KiB asked for.\<close>

definition sample_libc :: libc where
  "sample_libc = \<lparr> c_mmap = (\<lambda>lg n rw. if lg = [] \<and> n < 1048576 then Inr 4096 else Inl 12), c_ret = (\<lambda>_ _. 0) \<rparr>"

definition sample_cfg :: os_mem_config where
  "sample_cfg = mem_config 4096 1000"

lemma sample_cfg_fields: "oc_alloc_granularity sample_cfg = 4096" "has_partial_free sample_cfg"
  by (simp_all add: sample_cfg_def mem_config_def has_partial_free_def)

lemma sample_env:
  "page_size sample_cfg = 2 ^ 12" "cfg_ok sample_cfg" "mmap_law sample_libc sample_cfg" "munmap_law sample_libc sample_cfg"
proof -
  show ps: "page_size sample_cfg = 2 ^ 12" by (simp add: sample_cfg_def page_size_def mem_config_def Let_def)
  show "cfg_ok sample_cfg"
    unfolding cfg_ok_def ps by (intro conjI exI [of _ 12]) (simp_all add: has_partial_free_def sample_cfg_def mem_config_def)
  show "mmap_law sample_libc sample_cfg"
    unfolding mmap_law_def ps by (auto simp: sample_libc_def word_less_nat_alt split: if_splits)
  show "munmap_law sample_libc sample_cfg" by (simp add: munmap_law_def sample_libc_def)
qed

lemma os_alloc_aligned_exact_witness:
  "fst (alloc_aligned sample_libc sample_cfg 8192 65536 False []) = Some (65536, os_memid 65536 8192 False \<lparr>pa_addr = 4096, pa_is_large = False, pa_is_zero = True\<rparr>)
   \<and> mapped (snd (alloc_aligned sample_libc sample_cfg 8192 65536 False [])) = bytes 65536 8192"
proof -
  obtain r lg' where a: "alloc_aligned sample_libc sample_cfg 8192 65536 False [] = (r, lg')" by fastforce
  have k: "pow2_word 65536 16" by (simp add: pow2_word_def)
  have s: "unat (8192 :: usize) + unat (page_size sample_cfg) \<le> 2 ^ 64" by (simp add: sample_env(1))
  have v: "r = Some (65536, os_memid 65536 8192 False \<lparr>pa_addr = 4096, pa_is_large = False, pa_is_zero = True\<rparr>)"
    using a by (simp add: alloc_aligned_def Let_def sample_env(1) align_up_def is_power_of_two_def
        sample_cfg_fields over_allocate_def prim_alloc_def sample_libc_def usize_max_def)
  show ?thesis
    using os_alloc_aligned_exact [OF sample_env(2-4) k s a] a v by (simp add: os_memid_def)
qed

end
