(* ===== verification/MiArenaMeta.thy ===== *)
theory MiArenaMeta
  imports MiBitmap MiOs
begin

unbundle bit_operations_syntax

text \<open>
  \<^verbatim>\<open>src/arena_meta.rs\<close>: the allocator of the library's own records. Its chunks are OS regions of
  512 blocks of 64 bytes, each with a bitmap of its free blocks in its first blocks; the list of
  chunks starts at the one mapped last. An operation is one execution under the lock.
\<close>

section \<open>State and operations\<close>

definition META_BLOCK_SIZE :: nat where [mi_consts]: "META_BLOCK_SIZE = 64"
definition META_BLOCKS :: nat where "META_BLOCKS = CHUNK_BITS"
definition META_REGION_SIZE :: nat where "META_REGION_SIZE = META_BLOCK_SIZE * META_BLOCKS"

lemma meta_consts [mi_consts]: "META_BLOCKS = 512" "META_REGION_SIZE = 32768"
  by (simp_all add: META_BLOCKS_def META_REGION_SIZE_def mi_consts)

text \<open>
  \<^verbatim>\<open>size_of::<MetaChunk>()\<close>: a pointer and a \<^verbatim>\<open>MemId\<close> in the first 64 bytes, two 64-byte aligned
  bitmap chunks, and the last field padded to the alignment.
\<close>

definition sizeof_meta_chunk :: usize where "sizeof_meta_chunk = 256"

record meta_chunk =
  mc_memid :: mem_id
  mc_bitmap :: bitmap
  mc_first_data_block :: nat

type_synonym meta = "meta_chunk list"

definition region_base :: "meta_chunk \<Rightarrow> ptr" where
  "region_base c = mi_base (mc_memid c)"

definition block_ptr :: "meta_chunk \<Rightarrow> nat \<Rightarrow> ptr" where
  "block_ptr c idx = region_base c + of_nat (idx * META_BLOCK_SIZE)"

definition meta_owns :: "meta_chunk \<Rightarrow> ptr \<Rightarrow> bool" where
  "meta_owns c p \<longleftrightarrow> p \<ge> region_base c \<and> p < region_base c + of_nat META_REGION_SIZE"

text \<open>Mapped memory is zeroed, so both bitmap chunks of a new header start empty.\<close>

definition push_new_chunk ::
    "libc \<Rightarrow> os_mem_config \<Rightarrow> meta \<times> os_log \<Rightarrow> (bool \<times> meta \<times> os_log) run" where
  "push_new_chunk lc cfg = (\<lambda>(ms, lg).
    case os_alloc lc cfg (of_nat META_REGION_SIZE) True lg of
      (None, lg) \<Rightarrow> Inr (False, ms, lg)
    | (Some (region, memid), lg) \<Rightarrow>
        let header_blocks = unat (div_ceil sizeof_meta_chunk (of_nat META_BLOCK_SIZE));
            bm = \<lparr>bm_chunkmap = chunk_zeroed, bm_chunks = [chunk_zeroed]\<rparr>
        in run_bind (unsafe_set_n header_blocks (META_BLOCKS - header_blocks) bm) (\<lambda>bm.
             Inr (True, \<lparr>mc_memid = memid, mc_bitmap = bm, mc_first_data_block = header_blocks\<rparr> # ms, lg)))"

text \<open>The walk over the chunks for a free run.\<close>

fun meta_walk :: "nat \<Rightarrow> meta \<Rightarrow> (ptr option \<times> meta) run" where
  "meta_walk blocks [] = Inr (None, [])"
| "meta_walk blocks (c # cs) =
    run_bind (try_find_and_clear_n blocks 0 (mc_bitmap c)) (\<lambda>(r, bm).
      case r of
        Some idx \<Rightarrow> Inr (Some (block_ptr c idx), c\<lparr>mc_bitmap := bm\<rparr> # cs)
      | None \<Rightarrow> run_bind (meta_walk blocks cs) (\<lambda>(q, cs). Inr (q, c\<lparr>mc_bitmap := bm\<rparr> # cs)))"

definition meta_zalloc ::
    "libc \<Rightarrow> os_mem_config \<Rightarrow> usize \<Rightarrow> meta \<times> os_log \<Rightarrow> (ptr option \<times> meta \<times> os_log) run" where
  "meta_zalloc lc cfg sz = (\<lambda>(ms, lg).
    let blocks = unat (div_ceil sz (of_nat META_BLOCK_SIZE))
    in if blocks = 0 \<or> blocks > META_BLOCKS then Inr (None, ms, lg)
       else run_bind (meta_walk blocks ms) (\<lambda>(r, ms).
         if r \<noteq> None then Inr (r, ms, lg)
         else run_bind (push_new_chunk lc cfg (ms, lg)) (\<lambda>(pushed, ms, lg).
           case ms of
             c # cs \<Rightarrow>
               if \<not> pushed then Inr (None, ms, lg)
               else run_bind (try_find_and_clear_n blocks 0 (mc_bitmap c)) (\<lambda>(r, bm).
                 Inr (map_option (block_ptr c) r, c\<lparr>mc_bitmap := bm\<rparr> # cs, lg))
           | [] \<Rightarrow> Inr (None, ms, lg))))"

fun meta_free :: "ptr \<Rightarrow> usize \<Rightarrow> meta \<Rightarrow> meta run" where
  "meta_free p sz [] = Inr []"
| "meta_free p sz (c # cs) =
    (if meta_owns c p then
       (let blocks = unat (div_ceil sz (of_nat META_BLOCK_SIZE)); off = p - region_base c;
            idx = unat (off div of_nat META_BLOCK_SIZE)
        in run_bind (set_n idx blocks (mc_bitmap c)) (\<lambda>(_, bm). Inr (c\<lparr>mc_bitmap := bm\<rparr> # cs)))
     else run_bind (meta_free p sz cs) (\<lambda>cs. Inr (c # cs)))"

section \<open>Free bytes\<close>

definition chunk_free :: "meta_chunk \<Rightarrow> nat set" where
  "chunk_free c = {a. unat (region_base c) \<le> a \<and> (a - unat (region_base c)) div 64 \<in> bits_of (mc_bitmap c)}"

definition free_bytes :: "meta \<Rightarrow> nat set" where
  "free_bytes ms = (\<Union>c\<in>set ms. chunk_free c)"

definition region :: "meta_chunk \<Rightarrow> nat set" where
  "region c = {unat (region_base c) ..< unat (region_base c) + 32768}"

definition chunk_good :: "meta_chunk \<Rightarrow> bool" where
  "chunk_good c \<longleftrightarrow> bm_inv (mc_bitmap c) \<and> max_bits (mc_bitmap c) = 512 \<and> bits_of (mc_bitmap c) \<subseteq> {4..<512}
    \<and> unat (region_base c) + 32768 < 2 ^ 63 \<and> region_base c \<noteq> 0"

fun meta_ok :: "meta \<Rightarrow> os_log \<Rightarrow> bool" where
  "meta_ok [] lg \<longleftrightarrow> True"
| "meta_ok (c # cs) lg \<longleftrightarrow> chunk_good c \<and> region c \<subseteq> mapped lg
    \<and> (\<forall>d\<in>set cs. region c \<inter> region d = {}) \<and> meta_ok cs lg"

lemma chunk_free_region: "chunk_good c \<Longrightarrow> chunk_free c \<subseteq> region c"
  by (auto simp: chunk_good_def chunk_free_def region_def subset_iff)

text \<open>The bytes of the blocks \<open>k, \<dots>, k + n - 1\<close> of a chunk.\<close>

definition blocks_at :: "meta_chunk \<Rightarrow> nat \<Rightarrow> nat \<Rightarrow> nat set" where
  "blocks_at c k n = {unat (region_base c) + 64 * k ..< unat (region_base c) + 64 * (k + n)}"

lemma blocks_at_iff:
  "a \<in> blocks_at c k n \<longleftrightarrow> unat (region_base c) \<le> a \<and> (a - unat (region_base c)) div 64 \<in> {k..<k + n}"
proof -
  have "64 * k \<le> d \<and> d < 64 * (k + n) \<longleftrightarrow> k \<le> d div 64 \<and> d div 64 < k + n" for d :: nat
    by (simp add: div_less_iff_less_mult less_eq_div_iff_mult_less_eq mult.commute)
  from this [of "a - unat (region_base c)"] show ?thesis
    by (cases "unat (region_base c) \<le> a") (auto simp: blocks_at_def le_diff_conv2 less_diff_conv2 algebra_simps)
qed

lemma chunk_free_update:
  "bits_of bm = bits_of (mc_bitmap c) - {k..<k + n} \<Longrightarrow> chunk_free (c\<lparr>mc_bitmap := bm\<rparr>) = chunk_free c - blocks_at c k n"
  "bits_of bm = bits_of (mc_bitmap c) \<union> {k..<k + n} \<Longrightarrow> chunk_free (c\<lparr>mc_bitmap := bm\<rparr>) = chunk_free c \<union> blocks_at c k n"
  by (auto simp: chunk_free_def blocks_at_iff region_base_def)

lemma blocks_sub: "{k..<k + n} \<subseteq> bits_of (mc_bitmap c) \<Longrightarrow> blocks_at c k n \<subseteq> chunk_free c"
  by (auto simp: chunk_free_def blocks_at_iff subset_iff)

lemma block_ptr_unat:
  assumes "chunk_good c" "k \<le> 512"
  shows "unat (block_ptr c k) = unat (region_base c) + 64 * k"
proof -
  have b: "unat (region_base c) + 32768 < 2 ^ 63" using assms(1) by (simp add: chunk_good_def)
  have o: "unat (of_nat (k * 64) :: usize) = k * 64" using assms(2) by (intro unat_of_nat_small) simp
  show "unat (block_ptr c k) = unat (region_base c) + 64 * k"
    unfolding block_ptr_def mi_consts using b assms(2) o by (subst unat_add_small) simp_all
qed

lemma block_ptr_bytes:
  "chunk_good c \<Longrightarrow> k + n \<le> 512 \<Longrightarrow> unat sz = 64 * n \<Longrightarrow> bytes (block_ptr c k) sz = blocks_at c k n"
  by (simp add: bytes_def blocks_at_def block_ptr_unat algebra_simps)

text \<open>One chunk: a claim of \<open>n\<close> blocks, and giving blocks back.\<close>

lemma chunk_claim:
  assumes "chunk_good c" "0 < n" "n \<le> 512"
  shows "(\<exists>k bm. try_find_and_clear_n n t (mc_bitmap c) = Inr (Some k, bm) \<and> 4 \<le> k \<and> k + n \<le> 512
      \<and> chunk_good (c\<lparr>mc_bitmap := bm\<rparr>) \<and> blocks_at c k n \<subseteq> chunk_free c
      \<and> chunk_free (c\<lparr>mc_bitmap := bm\<rparr>) = chunk_free c - blocks_at c k n)
    \<or> try_find_and_clear_n n t (mc_bitmap c) = Inr (None, mc_bitmap c)"
proof -
  have c: "bm_inv (mc_bitmap c)" "max_bits (mc_bitmap c) = 512" "bits_of (mc_bitmap c) \<subseteq> {4..<512}"
    using assms(1) by (simp_all add: chunk_good_def)
  have n: "n \<le> CHUNK_BITS" using assms(3) by (simp add: mi_consts)
  from slices.claim_unit [OF c(1) assms(2) n, of t] show ?thesis
  proof (elim disjE exE conjE)
    fix k bm
    assume a: "try_find_and_clear_n n t (mc_bitmap c) = Inr (Some k, bm)" "k + n \<le> max_bits (mc_bitmap c)"
      "{k..<k + n} \<subseteq> bits_of (mc_bitmap c)" "bits_of bm = bits_of (mc_bitmap c) - {k..<k + n}" "bm_inv bm"
      "max_bits bm = max_bits (mc_bitmap c)"
    have "k \<in> bits_of (mc_bitmap c)" using a(3) assms(2) by auto
    then have "4 \<le> k" using c(3) by auto
    moreover have "chunk_good (c\<lparr>mc_bitmap := bm\<rparr>)"
      using a(4-6) assms(1) by (auto simp: chunk_good_def region_base_def)
    ultimately show ?thesis
      using a(1,2) c(2) chunk_free_update(1) [OF a(4)] blocks_sub [OF a(3)] by auto
  qed blast
qed

lemma chunk_give:
  assumes "chunk_good c" "0 < n" "4 \<le> k" "k + n \<le> 512"
  shows "\<exists>r bm. set_n k n (mc_bitmap c) = Inr (r, bm) \<and> chunk_good (c\<lparr>mc_bitmap := bm\<rparr>)
    \<and> chunk_free (c\<lparr>mc_bitmap := bm\<rparr>) = chunk_free c \<union> blocks_at c k n"
proof -
  have c: "bm_inv (mc_bitmap c)" "max_bits (mc_bitmap c) = 512" "bits_of (mc_bitmap c) \<subseteq> {4..<512}"
    using assms(1) by (simp_all add: chunk_good_def)
  have k: "k + n \<le> max_bits (mc_bitmap c)" "k mod CHUNK_BITS + n \<le> CHUNK_BITS"
    using assms(2,4) c(2) by (simp_all add: mi_consts)
  obtain bm where b: "set_n k n (mc_bitmap c) = Inr ({k..<k + n} \<inter> bits_of (mc_bitmap c) = {}, bm)" "bm_inv bm"
      "max_bits bm = max_bits (mc_bitmap c)" "bits_of bm = bits_of (mc_bitmap c) \<union> {k..<k + n}"
    using slices.put_free [OF c(1) assms(2) k] by blast
  have "chunk_good (c\<lparr>mc_bitmap := bm\<rparr>)"
    using b(2-4) assms by (auto simp: chunk_good_def region_base_def)
  then show ?thesis using b(1) chunk_free_update(2) [OF b(4)] by blast
qed


section \<open>The list of chunks\<close>

lemma region_base_frame [simp]:
  "region_base (c\<lparr>mc_bitmap := bm\<rparr>) = region_base c" "region (c\<lparr>mc_bitmap := bm\<rparr>) = region c"
  "blocks_at (c\<lparr>mc_bitmap := bm\<rparr>) k n = blocks_at c k n" "block_ptr (c\<lparr>mc_bitmap := bm\<rparr>) k = block_ptr c k"
  "meta_owns (c\<lparr>mc_bitmap := bm\<rparr>) p = meta_owns c p"
  by (simp_all add: region_base_def region_def blocks_at_def block_ptr_def meta_owns_def)

lemma same_regions:
  assumes "map region_base ds = map region_base cs"
  shows "(\<Union>d\<in>set ds. region d) = (\<Union>d\<in>set cs. region d)"
proof -
  have e: "(\<Union>d\<in>set es. region d) = (\<Union>b\<in>set (map region_base es). {unat b ..< unat b + 32768})" for es
    by (simp add: region_def)
  show ?thesis unfolding e assms ..
qed

lemma meta_ok_Cons:
  "meta_ok (c # cs) lg \<longleftrightarrow> chunk_good c \<and> region c \<subseteq> mapped lg \<and> region c \<inter> (\<Union>d\<in>set cs. region d) = {} \<and> meta_ok cs lg"
  by auto

declare meta_ok.simps(2) [simp del]

lemma free_bytes_Cons [simp]: "free_bytes [] = {}" "free_bytes (c # cs) = chunk_free c \<union> free_bytes cs"
  by (simp_all add: free_bytes_def)

lemma free_bytes_regions: "meta_ok ms lg \<Longrightarrow> free_bytes ms \<subseteq> (\<Union>c\<in>set ms. region c)"
  by (induction ms) (auto simp: meta_ok_Cons dest: chunk_free_region)

lemma regions_mapped: "meta_ok ms lg \<Longrightarrow> (\<Union>c\<in>set ms. region c) \<subseteq> mapped lg"
  by (induction ms) (auto simp: meta_ok_Cons)

lemma blocks_region: "k + n \<le> 512 \<Longrightarrow> blocks_at c k n \<subseteq> region c"
  by (auto simp: blocks_at_def region_def)

text \<open>\<open>placed ms n p B\<close>: \<open>p\<close> starts a run of \<open>n\<close> data blocks with bytes \<open>B\<close> in one of the chunks.\<close>

definition placed :: "meta \<Rightarrow> nat \<Rightarrow> ptr \<Rightarrow> nat set \<Rightarrow> bool" where
  "placed ms n p B \<longleftrightarrow> (\<exists>c\<in>set ms. \<exists>k. 4 \<le> k \<and> k + n \<le> 512 \<and> p = block_ptr c k \<and> B = blocks_at c k n)"

lemma placed_Cons:
  "placed (c # cs) n p B \<longleftrightarrow> (\<exists>k. 4 \<le> k \<and> k + n \<le> 512 \<and> p = block_ptr c k \<and> B = blocks_at c k n) \<or> placed cs n p B"
  by (auto simp: placed_def)

lemma placed_regions: "placed ms n p B \<Longrightarrow> B \<subseteq> (\<Union>c\<in>set ms. region c)"
proof -
  assume "placed ms n p B"
  then obtain c k where "c \<in> set ms" "k + n \<le> 512" "B = blocks_at c k n" by (auto simp: placed_def)
  then show ?thesis using blocks_region [of k n c] by blast
qed

text \<open>What a claim does: the run comes out of the free bytes, everything else stays.\<close>

definition carved :: "meta \<Rightarrow> os_log \<Rightarrow> nat \<Rightarrow> ptr \<Rightarrow> meta \<Rightarrow> bool" where
  "carved ms lg n p ms' \<longleftrightarrow> (\<exists>B. placed ms' n p B \<and> B \<subseteq> free_bytes ms \<and> free_bytes ms' = free_bytes ms - B)
    \<and> meta_ok ms' lg \<and> map region_base ms' = map region_base ms"

lemma carved_head:
  assumes "meta_ok (c # cs) lg" "chunk_good (c\<lparr>mc_bitmap := bm\<rparr>)" "4 \<le> k" "k + n \<le> 512"
    "blocks_at c k n \<subseteq> chunk_free c" "chunk_free (c\<lparr>mc_bitmap := bm\<rparr>) = chunk_free c - blocks_at c k n"
  shows "carved (c # cs) lg n (block_ptr c k) (c\<lparr>mc_bitmap := bm\<rparr> # cs)"
proof -
  have "blocks_at c k n \<inter> free_bytes cs = {}"
    using blocks_region [OF assms(4), of c] free_bytes_regions [of cs lg] assms(1) by (auto simp: meta_ok_Cons)
  then have "free_bytes (c\<lparr>mc_bitmap := bm\<rparr> # cs) = free_bytes (c # cs) - blocks_at c k n"
    using assms(6) by auto
  moreover have "placed (c\<lparr>mc_bitmap := bm\<rparr> # cs) n (block_ptr c k) (blocks_at c k n)"
    using assms(3,4) by (auto simp: placed_Cons)
  ultimately show ?thesis
    using assms(1,2,5) by (auto simp: carved_def meta_ok_Cons intro!: exI [of _ "blocks_at c k n"])
qed

lemma carved_tail:
  assumes "meta_ok (c # cs) lg" "carved cs lg n p ds"
  shows "carved (c # cs) lg n p (c # ds)"
proof -
  obtain B where B: "placed ds n p B" "B \<subseteq> free_bytes cs" "free_bytes ds = free_bytes cs - B"
      "meta_ok ds lg" "map region_base ds = map region_base cs"
    using assms(2) by (auto simp: carved_def)
  note reg = same_regions [OF B(5)]
  have "B \<inter> chunk_free c = {}"
    using B(2) free_bytes_regions [of cs lg] chunk_free_region [of c] assms(1) by (fastforce simp: meta_ok_Cons)
  then have "free_bytes (c # ds) = free_bytes (c # cs) - B" using B(3) by auto
  moreover have "meta_ok (c # ds) lg" using assms(1) B(4) reg by (simp add: meta_ok_Cons)
  ultimately show ?thesis
    using B by (auto simp: carved_def placed_Cons intro!: exI [of _ B])
qed

lemma meta_walk_spec:
  "meta_ok ms lg \<Longrightarrow> 0 < n \<Longrightarrow> n \<le> 512 \<Longrightarrow>
    (\<exists>p ms'. meta_walk n ms = Inr (Some p, ms') \<and> carved ms lg n p ms') \<or> meta_walk n ms = Inr (None, ms)"
proof (induction ms)
  case (Cons c cs)
  have good: "chunk_good c" using Cons.prems(1) by (simp add: meta_ok_Cons)
  from chunk_claim [OF good Cons.prems(2,3), of 0] show ?case
  proof (elim disjE exE conjE)
    fix k bm assume "try_find_and_clear_n n 0 (mc_bitmap c) = Inr (Some k, bm)" "4 \<le> k" "k + n \<le> 512"
      "chunk_good (c\<lparr>mc_bitmap := bm\<rparr>)" "blocks_at c k n \<subseteq> chunk_free c"
      "chunk_free (c\<lparr>mc_bitmap := bm\<rparr>) = chunk_free c - blocks_at c k n"
    then show ?thesis using carved_head [OF Cons.prems(1), of bm k n] by simp
  next
    assume none: "try_find_and_clear_n n 0 (mc_bitmap c) = Inr (None, mc_bitmap c)"
    have "meta_ok cs lg" using Cons.prems(1) by (simp add: meta_ok_Cons)
    from Cons.IH [OF this Cons.prems(2,3)] show ?thesis
      using none carved_tail [OF Cons.prems(1)] by (elim disjE exE) auto
  qed
qed simp

lemma meta_free_spec:
  assumes "unat (div_ceil sz (of_nat META_BLOCK_SIZE)) = n" "0 < n"
  shows "meta_ok ms lg \<Longrightarrow> placed ms n p B \<Longrightarrow> \<exists>ms'. meta_free p sz ms = Inr ms' \<and> meta_ok ms' lg
    \<and> map region_base ms' = map region_base ms \<and> free_bytes ms' = free_bytes ms \<union> B"
proof (induction ms)
  case (Cons c cs)
  have good: "chunk_good c" and ok: "meta_ok cs lg" and dis: "region c \<inter> (\<Union>d\<in>set cs. region d) = {}"
    using Cons.prems(1) by (simp_all add: meta_ok_Cons)
  have reg: "unat (region_base c) + 32768 < 2 ^ 63" using good by (simp add: chunk_good_def)
  have owns: "meta_owns c q \<longleftrightarrow> unat q \<in> region c" for q
  proof -
    have "unat (region_base c + of_nat META_REGION_SIZE) = unat (region_base c) + 32768"
      unfolding mi_consts using reg by (subst unat_add_small) simp_all
    then show ?thesis by (simp add: meta_owns_def region_def word_le_nat_alt word_less_nat_alt)
  qed
  show ?case
  proof (cases "meta_owns c p")
    case False
    have "placed cs n p B"
    proof (rule ccontr)
      assume "\<not> placed cs n p B"
      with Cons.prems(2) obtain k where k: "4 \<le> k" "k + n \<le> 512" "p = block_ptr c k" by (auto simp: placed_Cons)
      have "unat p = unat (region_base c) + 64 * k"
        using block_ptr_unat [OF good, of k] k(2,3) by simp
      then show False using False k(2) assms(2) owns by (simp add: region_def)
    qed
    from Cons.IH [OF ok this] obtain ds where ds: "meta_free p sz cs = Inr ds" "meta_ok ds lg"
        "map region_base ds = map region_base cs" "free_bytes ds = free_bytes cs \<union> B" by blast
    then show ?thesis
      using False Cons.prems(1) same_regions [OF ds(3)] by (auto simp: meta_ok_Cons)
  next
    case True
    have "\<not> placed cs n p B"
    proof
      assume "placed cs n p B"
      then obtain d k where d: "d \<in> set cs" "4 \<le> k" "k + n \<le> 512" "p = block_ptr d k" by (auto simp: placed_def)
      have "chunk_good d" using ok d(1) by (induction cs) (auto simp: meta_ok_Cons)
      then have "unat p = unat (region_base d) + 64 * k"
        using block_ptr_unat [of d k] d(3,4) by simp
      then have "unat p \<in> region d" using d(3) assms(2) by (simp add: region_def)
      then show False using True owns dis d(1) by auto
    qed
    with Cons.prems(2) obtain k where k: "4 \<le> k" "k + n \<le> 512" "p = block_ptr c k" "B = blocks_at c k n"
      by (auto simp: placed_Cons)
    have up: "unat p = unat (region_base c) + 64 * k"
      using block_ptr_unat [OF good, of k] k(2,3) by simp
    have "unat (p - region_base c) = 64 * k" using up by (subst unat_diff_le) (simp_all add: word_le_nat_alt)
    then have idx: "unat ((p - region_base c) div of_nat META_BLOCK_SIZE) = k"
      by (simp add: unat_div_distrib mi_consts)
    obtain r bm where g: "set_n k n (mc_bitmap c) = Inr (r, bm)" "chunk_good (c\<lparr>mc_bitmap := bm\<rparr>)"
        "chunk_free (c\<lparr>mc_bitmap := bm\<rparr>) = chunk_free c \<union> blocks_at c k n"
      using chunk_give [OF good assms(2) k(1,2)] by blast
    have "meta_free p sz (c # cs) = Inr (c\<lparr>mc_bitmap := bm\<rparr> # cs)"
      using True idx g(1) assms(1) by (simp add: Let_def)
    then show ?thesis using g(2,3) k(4) Cons.prems(1) by (auto simp: meta_ok_Cons)
  qed
qed (simp add: placed_def)


section \<open>New chunks\<close>

definition fresh_chunk :: "os_log \<Rightarrow> os_log \<Rightarrow> meta_chunk \<Rightarrow> bool" where
  "fresh_chunk lg lg' c \<longleftrightarrow> chunk_good c \<and> bits_of (mc_bitmap c) = {4..<512}
    \<and> region c \<inter> mapped lg = {} \<and> region c \<subseteq> mapped lg' \<and> mapped lg \<subseteq> mapped lg'"

lemma zero_bitmap: "bm_inv \<lparr>bm_chunkmap = chunk_zeroed, bm_chunks = [chunk_zeroed]\<rparr>"
    "bits_of \<lparr>bm_chunkmap = chunk_zeroed, bm_chunks = [chunk_zeroed]\<rparr> = {}"
proof -
  have "\<not> cbit chunk_zeroed i" for i by (simp add: cbit_def chunk_zeroed_def)
  then have "\<not> bm_bit \<lparr>bm_chunkmap = chunk_zeroed, bm_chunks = [chunk_zeroed]\<rparr> i" for i
    by (cases "i div 512") (simp_all add: bm_bit_def)
  then show "bits_of \<lparr>bm_chunkmap = chunk_zeroed, bm_chunks = [chunk_zeroed]\<rparr> = {}"
    "bm_inv \<lparr>bm_chunkmap = chunk_zeroed, bm_chunks = [chunk_zeroed]\<rparr>"
    by (simp_all add: bits_of_def bm_inv_def conservative_def bm_ok_def chunk_zeroed_def mi_consts)
qed

lemma push_new_chunk_spec:
  assumes "cfg_ok cfg" "mmap_law lc cfg" "munmap_law lc cfg"
  shows "\<exists>pushed ms' lg'. push_new_chunk lc cfg (ms, lg) = Inr (pushed, ms', lg')
    \<and> (if pushed then \<exists>c. ms' = c # ms \<and> fresh_chunk lg lg' c else ms' = ms \<and> mapped lg' = mapped lg)"
proof -
  obtain r lg' where a: "os_alloc lc cfg (of_nat META_REGION_SIZE) True lg = (r, lg')" by fastforce
  obtain j where j: "j < 30" "page_size cfg = 2 ^ j" using assms(1) by (auto simp: cfg_ok_def)
  then have pj: "pow2_word (page_size cfg) j" "unat (page_size cfg) = 2 ^ j" by (simp_all add: pow2_word_def unat_pow2)
  have "(2::nat) ^ j \<le> 2 ^ 30" using j(1) by (intro power_increasing) simp_all
  then have fit: "unat (32768 :: usize) + unat (page_size cfg) \<le> 2 ^ 64" using pj(2) by simp
  have ps0: "page_size cfg \<noteq> 0" using pj(2) by auto
  have ge: "32768 \<le> unat (align_up 32768 (page_size cfg))"
    using align_up_unat [OF ps0 fit] nat_div_ceil_le [of "unat (page_size cfg)" 32768] pj(2) by simp
  have a': "alloc_aligned lc cfg 32768 (page_size cfg) True lg = (r, lg')" using a by (simp add: os_alloc_def mi_consts)
  note f = alloc_aligned_fresh [OF assms pj(1) fit a']
  show ?thesis
  proof (cases r)
    case None
    with f a show ?thesis by (intro exI [of _ False]) (simp add: push_new_chunk_def)
  next
    case (Some x)
    obtain p m where x: "x = (p, m)" by fastforce
    have g: "fresh_region lg lg' (align_up 32768 (page_size cfg)) (page_size cfg) True p m" using f Some x by simp
    let ?bm = "\<lparr>bm_chunkmap = chunk_zeroed, bm_chunks = [chunk_zeroed]\<rparr>"
    obtain bm where bm: "unsafe_set_n 4 508 ?bm = Inr bm" "bm_inv bm" "length (bm_chunks bm) = 1"
        "\<forall>i. bm_bit bm i \<longleftrightarrow> bm_bit ?bm i \<or> 4 \<le> i \<and> i < 4 + 508"
      using unsafe_set_n_spec [OF zero_bitmap(1), of 4 508] by auto
    let ?c = "\<lparr>mc_memid = m, mc_bitmap = bm, mc_first_data_block = 4\<rparr>"
    have "\<not> bm_bit ?bm i" for i using zero_bitmap(2) by (auto simp: bits_of_def)
    then have bits: "bits_of bm = {4..<512}" using bm(4) by (auto simp: bits_of_def)
    have hb: "unat (div_ceil sizeof_meta_chunk (of_nat META_BLOCK_SIZE)) = 4"
      by (simp add: unat_div_ceil sizeof_meta_chunk_def mi_consts nat_div_ceil_def)
    have "push_new_chunk lc cfg (ms, lg) = Inr (True, ?c # ms, lg')"
      using a Some x bm(1) hb by (simp add: push_new_chunk_def mi_consts)
    moreover have base: "region_base ?c = p" using g by (simp add: region_base_def fresh_region_def)
    have sub: "region ?c \<subseteq> bytes p (align_up 32768 (page_size cfg))"
      using ge base by (auto simp: region_def bytes_def)
    have "fresh_chunk lg lg' ?c"
      using g base bm(2,3) bits ge sub
      by (auto simp: fresh_chunk_def chunk_good_def fresh_region_def max_bits_eq)
    ultimately show ?thesis by auto
  qed
qed

section \<open>Properties\<close>

text \<open>What a caller of \<open>meta_zalloc\<close> gets: \<open>B\<close> are the bytes of the blocks handed out.\<close>

definition zalloc_result :: "meta \<times> os_log \<Rightarrow> usize \<Rightarrow> ptr \<Rightarrow> meta \<Rightarrow> os_log \<Rightarrow> bool" where
  "zalloc_result = (\<lambda>(ms, lg) sz p ms' lg'.
    let B = {unat p ..< unat p + 64 * nat_div_ceil (unat sz) 64}
    in p \<noteq> 0 \<and> unat sz \<le> 508 * 64 \<and> unat p + unat sz < 2 ^ 63 \<and> bytes p sz \<subseteq> B \<and> B \<subseteq> free_bytes ms \<union> (mapped lg' - mapped lg)
      \<and> B \<inter> free_bytes ms' = {} \<and> free_bytes ms \<subseteq> free_bytes ms' \<union> B
      \<and> (\<exists>ms''. meta_free p sz ms' = Inr ms'' \<and> meta_ok ms'' lg' \<and> free_bytes ms'' = free_bytes ms' \<union> B))"

lemma meta_ok_mapped: "meta_ok ms lg \<Longrightarrow> mapped lg \<subseteq> mapped lg' \<Longrightarrow> meta_ok ms lg'"
  by (induction ms) (auto simp: meta_ok_Cons)

lemma carved_result:
  assumes "meta_ok ms lg" "carved ms lg n p ms'" "n = nat_div_ceil (unat sz) 64" "0 < n"
  shows "zalloc_result (ms, lg) sz p ms' lg"
proof -
  obtain B where B: "placed ms' n p B" "B \<subseteq> free_bytes ms" "free_bytes ms' = free_bytes ms - B" "meta_ok ms' lg"
    using assms(2) by (auto simp: carved_def)
  obtain c k where c: "c \<in> set ms'" "4 \<le> k" "k + n \<le> 512" "p = block_ptr c k" "B = blocks_at c k n"
    using B(1) by (auto simp: placed_def)
  have good: "chunk_good c" using B(4) c(1) by (induction ms') (auto simp: meta_ok_Cons)
  have up: "unat p = unat (region_base c) + 64 * k" using block_ptr_unat [OF good, of k] c(3,4) by simp
  have Beq: "B = {unat p ..< unat p + 64 * n}" using c(5) up by (simp add: blocks_at_def algebra_simps)
  have le: "unat sz \<le> 64 * n" using nat_div_ceil_le [of 64 "unat sz"] assms(3) by (simp add: mult.commute)
  have fit: "unat sz \<le> 508 * 64" using le c(2,3) by linarith
  have lt: "unat p + 64 * n < 2 ^ 63" using up c(3) good by (simp add: chunk_good_def)
  have n: "unat (div_ceil sz (of_nat META_BLOCK_SIZE)) = n" using assms(3) by (simp add: unat_div_ceil mi_consts)
  have "p \<noteq> 0" using up c(2) by auto
  then show ?thesis
    using B(2,3) Beq le lt fit meta_free_spec [OF n assms(4) B(4,1)] assms(3)
    by (auto simp: zalloc_result_def Let_def bytes_def)
qed

lemma meta_zalloc_spec:
  assumes "cfg_ok cfg" "mmap_law lc cfg" "munmap_law lc cfg" "meta_ok ms lg" "0 < sz"
  shows "\<exists>r ms' lg'. meta_zalloc lc cfg sz (ms, lg) = Inr (r, ms', lg') \<and> meta_ok ms' lg' \<and> mapped lg \<subseteq> mapped lg' \<and>
    (case r of Some p \<Rightarrow> zalloc_result (ms, lg) sz p ms' lg'
     | None \<Rightarrow> free_bytes ms \<subseteq> free_bytes ms' \<and> (unat sz \<le> 508 * 64 \<longrightarrow> ms' = ms \<and> mapped lg' = mapped lg))"
proof -
  define n where "n = nat_div_ceil (unat sz) 64"
  have nn: "unat (div_ceil sz (of_nat META_BLOCK_SIZE)) = n" by (simp add: n_def unat_div_ceil mi_consts)
  have n0: "0 < n" using assms(5) nat_div_ceil_le [of 64 "unat sz"] by (cases "n = 0") (auto simp: n_def word_less_nat_alt)
  have n508: "n \<le> 508" if "unat sz \<le> 508 * 64"
    using that nat_div_ceil_least [of 64 "unat sz" 508] by (simp add: n_def)
  show ?thesis
  proof (cases "n \<le> 512")
    case False
    with n0 nn have "meta_zalloc lc cfg sz (ms, lg) = Inr (None, ms, lg)" by (simp add: meta_zalloc_def Let_def mi_consts)
    then show ?thesis using assms(4) by simp
  next
    case True
    from meta_walk_spec [OF assms(4) n0 True] show ?thesis
    proof (elim disjE exE conjE)
      fix p ms' assume w: "meta_walk n ms = Inr (Some p, ms')" and c: "carved ms lg n p ms'"
      then have "meta_zalloc lc cfg sz (ms, lg) = Inr (Some p, ms', lg)"
        using n0 True nn by (simp add: meta_zalloc_def Let_def mi_consts)
      moreover have "meta_ok ms' lg" using c by (simp add: carved_def)
      ultimately show ?thesis using carved_result [OF assms(4) c n_def n0] by simp
    next
      assume w: "meta_walk n ms = Inr (None, ms)"
      obtain pushed ms1 lg1 where p: "push_new_chunk lc cfg (ms, lg) = Inr (pushed, ms1, lg1)"
          "if pushed then \<exists>c. ms1 = c # ms \<and> fresh_chunk lg lg1 c else ms1 = ms \<and> mapped lg1 = mapped lg"
        using push_new_chunk_spec [OF assms(1-3)] by blast
      show ?thesis
      proof (cases pushed)
        case False
        with w p n0 True nn have "meta_zalloc lc cfg sz (ms, lg) = Inr (None, ms, lg1)"
          by (auto simp: meta_zalloc_def Let_def mi_consts split: list.splits)
        moreover have "meta_ok ms lg1" using False p(2) assms(4) meta_ok_mapped [of ms lg lg1] by simp
        ultimately show ?thesis using False p(2) by simp
      next
        case pushed: True
        then obtain c where c: "ms1 = c # ms" "fresh_chunk lg lg1 c" using p(2) by auto
        have good: "chunk_good c" and sub: "mapped lg \<subseteq> mapped lg1" using c(2) by (simp_all add: fresh_chunk_def)
        have ok1: "meta_ok (c # ms) lg1"
          using c(2) regions_mapped [OF assms(4)] meta_ok_mapped [OF assms(4) sub] by (auto simp: meta_ok_Cons fresh_chunk_def)
        have run: "meta_zalloc lc cfg sz (ms, lg) =
            run_bind (try_find_and_clear_n n 0 (mc_bitmap c)) (\<lambda>(r, bm).
              Inr (map_option (block_ptr c) r, c\<lparr>mc_bitmap := bm\<rparr> # ms, lg1))"
          using w p(1) c(1) pushed n0 True nn by (simp add: meta_zalloc_def Let_def mi_consts)
        from chunk_claim [OF good n0 True, of 0] show ?thesis
        proof (elim disjE exE conjE)
          fix k bm assume k: "try_find_and_clear_n n 0 (mc_bitmap c) = Inr (Some k, bm)" "4 \<le> k" "k + n \<le> 512"
            "chunk_good (c\<lparr>mc_bitmap := bm\<rparr>)" "blocks_at c k n \<subseteq> chunk_free c"
            "chunk_free (c\<lparr>mc_bitmap := bm\<rparr>) = chunk_free c - blocks_at c k n"
          have cv: "carved (c # ms) lg1 n (block_ptr c k) (c\<lparr>mc_bitmap := bm\<rparr> # ms)"
            by (rule carved_head [OF ok1 k(4,2,3,5,6)])
          have "chunk_free c \<subseteq> mapped lg1 - mapped lg"
            using chunk_free_region [OF good] c(2) by (auto simp: fresh_chunk_def)
          then have "zalloc_result (ms, lg) sz (block_ptr c k) (c\<lparr>mc_bitmap := bm\<rparr> # ms) lg1"
            using carved_result [OF ok1 cv n_def n0] unfolding zalloc_result_def Let_def by auto
          moreover have "meta_ok (c\<lparr>mc_bitmap := bm\<rparr> # ms) lg1" using cv by (simp add: carved_def)
          ultimately show ?thesis using run k(1) sub by simp
        next
          assume none: "try_find_and_clear_n n 0 (mc_bitmap c) = Inr (None, mc_bitmap c)"
          have "\<not> n \<le> 508"
          proof
            assume "n \<le> 508"
            then have "(4::nat) mod CHUNK_BITS + n \<le> CHUNK_BITS" "{4..<4 + n} \<subseteq> bits_of (mc_bitmap c)"
              using c(2) by (auto simp: fresh_chunk_def mi_consts)
            then show False
              using slices.claim_unit [of "mc_bitmap c" n 0] none n0 True good by (auto simp: chunk_good_def mi_consts)
          qed
          moreover have "meta_ok (c\<lparr>mc_bitmap := mc_bitmap c\<rparr> # ms) lg1" using ok1 by simp
          ultimately show ?thesis using run none n508 sub by auto
        qed
      qed
    qed
  qed
qed

text \<open>
  C37. A block of metadata comes out of blocks that were free, or out of a region just mapped, holds
  the size asked for, at most 508 blocks, and is disjoint from everything still free; nothing else
  changes hands, and freeing it gives exactly its bytes back. The call never panics, and for sizes up to 508 blocks it
  fails only if the OS refuses a region, with nothing changed.
\<close>

theorem meta_blocks_disjoint:
  assumes "cfg_ok cfg" "mmap_law lc cfg" "munmap_law lc cfg" "meta_ok ms lg" "0 < sz"
  shows "\<exists>r ms' lg'. meta_zalloc lc cfg sz (ms, lg) = Inr (r, ms', lg') \<and> meta_ok ms' lg' \<and> mapped lg \<subseteq> mapped lg' \<and>
    (case r of Some p \<Rightarrow> zalloc_result (ms, lg) sz p ms' lg'
     | None \<Rightarrow> free_bytes ms \<subseteq> free_bytes ms' \<and> (unat sz \<le> 508 * 64 \<longrightarrow> ms' = ms \<and> mapped lg' = mapped lg))"
  by (rule meta_zalloc_spec [OF assms])

lemma meta_blocks_disjoint_witness:
  "\<exists>r ms' lg'. meta_zalloc sample_libc sample_cfg 192 ([], []) = Inr (r, ms', lg') \<and> meta_ok ms' lg'"
  using meta_blocks_disjoint [OF sample_env(2-4), of "[]" "[]" 192] by auto

end
