(* ===== verification/MiOsLog.thy ===== *)
theory MiOsLog
  imports MiOs
begin

text \<open>
  \<^verbatim>\<open>src/os.rs\<close>: what an extension of the log of system calls leaves alone. The allocations of the OS
  layer map and unmap only addresses that were not mapped before, so they keep what is mapped and
  what is accessible.
\<close>

section \<open>Extensions of the log outside a set of addresses\<close>

text \<open>
  A call that succeeds and touches no byte of \<open>M\<close>; with \<open>rw\<close>, what it maps can be accessed at once.
\<close>

fun call_outside :: "nat set \<Rightarrow> bool \<Rightarrow> os_call \<times> bool \<Rightarrow> bool" where
  "call_outside M rw (Mmap a n w, True) \<longleftrightarrow> bytes a n \<inter> M = {} \<and> (rw \<longrightarrow> w)"
| "call_outside M rw (Munmap a n, True) \<longleftrightarrow> bytes a n \<inter> M = {}"
| "call_outside M rw (Mprotect a n w, ok) \<longleftrightarrow> False"
| "call_outside M rw _ \<longleftrightarrow> True"

definition extends :: "nat set \<Rightarrow> bool \<Rightarrow> os_log \<Rightarrow> os_log \<Rightarrow> bool" where
  "extends M rw lg lg' \<longleftrightarrow> (\<exists>ls. lg' = lg @ ls \<and> (\<forall>x\<in>set ls. call_outside M rw x))"

lemma extends_refl [simp, intro]: "extends M rw lg lg"
  by (simp add: extends_def)

lemma extends_trans: "extends M rw lg lg1 \<Longrightarrow> extends M rw lg1 lg2 \<Longrightarrow> extends M rw lg lg2"
  by (fastforce simp: extends_def)

lemma call_outside_mono: "call_outside M rw x \<Longrightarrow> N \<subseteq> M \<Longrightarrow> (rw' \<Longrightarrow> rw) \<Longrightarrow> call_outside N rw' x"
  by (induction M rw x rule: call_outside.induct) auto

lemma extends_mono: "extends M rw lg lg' \<Longrightarrow> N \<subseteq> M \<Longrightarrow> (rw' \<Longrightarrow> rw) \<Longrightarrow> extends N rw' lg lg'"
  unfolding extends_def using call_outside_mono by blast

lemma call_outside_keeps:
  assumes "call_outside M rw x"
  shows "access_step x A \<inter> M = A \<inter> M" "mapped_step x B \<inter> M = B \<inter> M"
    "rw \<Longrightarrow> B - M \<subseteq> A \<Longrightarrow> mapped_step x B - M \<subseteq> access_step x A"
  using assms by (induction M rw x rule: call_outside.induct) auto

lemma fold_outside:
  assumes "\<forall>x\<in>set ls. call_outside M rw x"
  shows "fold access_step ls A \<inter> M = A \<inter> M" "fold mapped_step ls B \<inter> M = B \<inter> M"
    "rw \<Longrightarrow> B - M \<subseteq> A \<Longrightarrow> fold mapped_step ls B - M \<subseteq> fold access_step ls A"
proof -
  show "fold access_step ls A \<inter> M = A \<inter> M"
    using assms by (induction ls arbitrary: A) (simp_all add: call_outside_keeps(1) [of M rw])
  show "fold mapped_step ls B \<inter> M = B \<inter> M"
    using assms by (induction ls arbitrary: B) (simp_all add: call_outside_keeps(2) [of M rw])
  show "fold mapped_step ls B - M \<subseteq> fold access_step ls A" if "rw" "B - M \<subseteq> A"
    using assms that(2)
  proof (induction ls arbitrary: A B)
    case (Cons x ls)
    then have "call_outside M rw x" by simp
    from Cons.IH [OF _ call_outside_keeps(3) [OF this that(1) Cons.prems(2)]] Cons.prems(1) show ?case by simp
  qed simp
qed

text \<open>What is mapped and accessible in \<open>M\<close> does not change; with \<open>rw\<close>, what is new is accessible.\<close>

lemma extends_access:
  assumes "extends M rw lg lg'"
  shows "accessible lg' \<inter> M = accessible lg \<inter> M" "mapped lg' \<inter> M = mapped lg \<inter> M"
    "rw \<Longrightarrow> mapped lg - M \<subseteq> accessible lg \<Longrightarrow> mapped lg' - M \<subseteq> accessible lg'"
proof -
  obtain ls where ls: "lg' = lg @ ls" "\<forall>x\<in>set ls. call_outside M rw x" using assms by (auto simp: extends_def)
  show "accessible lg' \<inter> M = accessible lg \<inter> M" "mapped lg' \<inter> M = mapped lg \<inter> M"
    using fold_outside(1,2) [OF ls(2)] by (simp_all add: ls(1))
  show "mapped lg' - M \<subseteq> accessible lg'" if "rw" "mapped lg - M \<subseteq> accessible lg"
    using fold_outside(3) [OF ls(2) that] by (simp add: ls(1))
qed

section \<open>The OS layer\<close>

lemma prim_alloc_extends:
  assumes "prim_alloc lc n rw lg = (r, lg')" "\<And>p. c_mmap lc lg n rw = Inr p \<Longrightarrow> bytes p n \<inter> M = {}"
  shows "extends M rw lg lg'"
  using assms by (auto simp: prim_alloc_def sys_call_def Let_def extends_def split: sum.splits if_splits)

lemma prim_free_extends: "bytes a n \<inter> M = {} \<Longrightarrow> extends M rw lg (snd (prim_free lc a n lg))"
  by (auto simp: prim_free_def sys_call_def extends_def Let_def)

lemma os_free_extends: "bytes (mi_base m) (mi_size m) \<inter> M = {} \<Longrightarrow> extends M rw lg (os_free lc m lg)"
  by (simp add: os_free_def prim_free_extends)

lemma try_direct_extends:
  assumes "mmap_law lc cfg" "try_direct lc sz alignment rw lg = (r, lg')" "M \<subseteq> mapped lg"
  shows "extends M rw lg lg'"
proof -
  obtain q lg1 where a: "prim_alloc lc sz rw lg = (q, lg1)" by fastforce
  have fresh: "bytes p sz \<inter> M = {}" if "c_mmap lc lg sz rw = Inr p" for p
    using mmap_lawD(4) [OF assms(1) that] assms(3) by blast
  have e1: "extends M rw lg lg1" by (rule prim_alloc_extends [OF a fresh])
  show ?thesis
  proof (cases q)
    case (Inl e)
    with a assms(2) e1 show ?thesis by (simp add: try_direct_def)
  next
    case (Inr b)
    have "bytes (pa_addr b) sz \<inter> M = {}" using prim_alloc_mapped [OF a] Inr fresh by simp
    from extends_trans [OF e1 prim_free_extends [OF this]] show ?thesis
      using a Inr assms(2) e1 by (auto simp: try_direct_def split: if_splits)
  qed
qed

lemma over_allocate_extends:
  assumes "mmap_law lc cfg" "pow2_word alignment k" "unat sz + unat alignment < 2 ^ 64"
    "over_allocate lc sz alignment rw lg = (r, lg')" "M \<subseteq> mapped lg"
  shows "extends M rw lg lg'"
proof -
  obtain q lg1 where a: "prim_alloc lc (sz + alignment) rw lg = (q, lg1)" by fastforce
  have fresh: "bytes p (sz + alignment) \<inter> M = {}" if "c_mmap lc lg (sz + alignment) rw = Inr p" for p
    using mmap_lawD(4) [OF assms(1) that] assms(5) by blast
  have e1: "extends M rw lg lg1" by (rule prim_alloc_extends [OF a fresh])
  show ?thesis
  proof (cases q)
    case (Inl e)
    with a assms(4) e1 show ?thesis by (simp add: over_allocate_def Let_def)
  next
    case (Inr b)
    let ?base = "pa_addr b" and ?over = "sz + alignment"
    let ?al = "align_up ?base alignment"
    have c: "c_mmap lc lg ?over rw = Inr ?base" using prim_alloc_mapped [OF a] Inr by simp
    note law = mmap_lawD [OF assms(1) c]
    have over: "unat ?over = unat sz + unat alignment" using assms(3) by (simp add: unat_add_small)
    have al0: "alignment \<noteq> 0" using assms(2) unat_pow2 [of k] by (auto simp: pow2_word_def)
    have pos: "0 < unat alignment" using al0 by (simp add: unat_gt_0)
    have up: "unat ?al = nat_div_ceil (unat ?base) (unat alignment) * unat alignment"
      using law(3) over by (intro align_up_unat [OF al0]) simp
    have ge: "unat ?base \<le> unat ?al" and lt: "unat ?al < unat ?base + unat alignment"
      unfolding up using pos by (simp_all add: nat_div_ceil_le nat_div_ceil_bound)
    have le: "unat ?al + unat sz \<le> unat ?base + unat ?over" using lt over by linarith
    have b64: "unat ?base + unat ?over < 2 ^ 64" using law(3) by simp
    have none: "bytes ?base ?over \<inter> {} = {}" by simp
    note tr = trim_bytes [OF ge le b64 none]
    let ?pre = "?al - ?base" and ?post = "?over - (?al - ?base) - sz"
    have sub1: "bytes ?base ?pre \<subseteq> bytes ?base ?over" using ge le unfolding bytes_def tr(2) by auto
    have sub2: "bytes (?al + sz) ?post \<subseteq> bytes ?base ?over"
      using ge le unfolding bytes_def tr(3,4) by auto
    have m: "bytes ?base ?over \<inter> M = {}" by (rule fresh [OF c])
    have d1: "bytes ?base ?pre \<inter> M = {}" using sub1 m by blast
    have d2: "bytes (?al + sz) ?post \<inter> M = {}" using sub2 m by blast
    have e2: "extends M rw lg (if ?pre > 0 then snd (prim_free lc ?base ?pre lg1) else lg1)" (is "extends M rw lg ?lg2")
      using e1 extends_trans [OF e1 prim_free_extends [OF d1]] by simp
    have "extends M rw lg (if ?post > 0 then snd (prim_free lc (?al + sz) ?post ?lg2) else ?lg2)"
      using e2 extends_trans [OF e2 prim_free_extends [OF d2]] by simp
    then show ?thesis
      using a Inr assms(4) unfolding over_allocate_def Let_def by (simp only: prod.case sum.case) simp
  qed
qed

lemma alloc_aligned_extends:
  assumes "cfg_ok cfg" "mmap_law lc cfg" "munmap_law lc cfg" "pow2_word alignment k"
    and "alloc_aligned lc cfg sz alignment rw lg = (r, lg')"
  shows "extends (mapped lg) rw lg lg'"
proof (cases "sz = 0")
  case True
  with assms(5) show ?thesis by (simp add: alloc_aligned_def)
next
  case False
  let ?sz = "align_up sz (page_size cfg)" and ?a = "max alignment (page_size cfg)"
  obtain j where "j < 30" "page_size cfg = 2 ^ j" using assms(1) by (auto simp: cfg_ok_def)
  then have a: "pow2_word ?a (max k j)" using max_pow2 [OF assms(4), of "page_size cfg" j] by (simp add: pow2_word_def)
  define d where "d = (if ?a \<le> oc_alloc_granularity cfg \<or> ?a \<le> ?sz div 4 then try_direct lc ?sz ?a rw lg else (None, lg))"
  obtain r1 lg1 where d1: "d = (r1, lg1)" by fastforce
  have hp: "has_partial_free cfg" using assms(1) by (auto simp: cfg_ok_def)
  have e: "alloc_aligned lc cfg sz alignment rw lg =
      (if r1 \<noteq> None then (r1, lg1) else if ?sz \<ge> usize_max - ?a then (None, lg1)
       else over_allocate lc ?sz ?a rw lg1)"
    using False d1 hp by (auto simp: alloc_aligned_def Let_def d_def)
  have x1: "extends (mapped lg) rw lg lg1"
    using try_direct_extends [OF assms(2), of ?sz ?a rw lg r1 lg1 "mapped lg"] d1 by (auto simp: d_def split: if_splits)
  have m1: "mapped lg \<subseteq> mapped lg1" using extends_access(2) [OF x1] by blast
  show ?thesis
  proof (cases "r1 \<noteq> None \<or> ?sz \<ge> usize_max - ?a")
    case True
    with e assms(5) x1 show ?thesis by (auto split: if_splits)
  next
    case lt: False
    have "unat (usize_max - ?a) = 2 ^ 64 - 1 - unat ?a"
      using unat_bound [of ?a] by (subst unat_diff_le)
        (auto simp: usize_max_def word_le_nat_alt unsigned_minus_1_eq_mask mask_eq_exp_minus_1)
    moreover have "unat ?sz < unat (usize_max - ?a)" using lt by (simp only: not_le word_less_nat_alt de_Morgan_disj)
    ultimately have fit: "unat ?sz + unat ?a < 2 ^ 64" by linarith
    have "over_allocate lc ?sz ?a rw lg1 = (r, lg')" using e lt assms(5) by simp
    from extends_trans [OF x1 over_allocate_extends [OF assms(2) a fit this m1]] show ?thesis .
  qed
qed

text \<open>A committed allocation can be accessed.\<close>

lemma alloc_aligned_accessible:
  assumes "cfg_ok cfg" "mmap_law lc cfg" "munmap_law lc cfg" "pow2_word alignment k"
    and "unat sz + unat (page_size cfg) \<le> 2 ^ 64" "alloc_aligned lc cfg sz alignment True lg = (Some (p, m), lg')"
  shows "bytes p (align_up sz (page_size cfg)) \<subseteq> accessible lg'"
proof -
  have f: "bytes p (align_up sz (page_size cfg)) \<inter> mapped lg = {}" "bytes p (align_up sz (page_size cfg)) \<subseteq> mapped lg'"
    using alloc_aligned_fresh [OF assms(1-6)] by (simp_all add: fresh_region_def)
  have "mapped lg' - mapped lg \<subseteq> accessible lg'"
    using extends_access(3) [OF alloc_aligned_extends [OF assms(1-4,6)]] by simp
  with f show ?thesis by blast
qed

end
