(* ===== verification/MiMetaUse.thy ===== *)
theory MiMetaUse
  imports MiArenaMeta MiOsLog
begin

text \<open>
  \<^verbatim>\<open>src/arena_meta.rs\<close>: the blocks in use. A block handed out stays in use, and disjoint from every
  other block handed out, until it is freed.
\<close>

definition block_bytes :: "ptr \<Rightarrow> nat \<Rightarrow> nat set" where
  "block_bytes p n = {unat p ..< unat p + 64 * n}"

definition regions :: "meta \<Rightarrow> nat set" where
  "regions ms = (\<Union>c\<in>set ms. region c)"

text \<open>\<open>n\<close> blocks from \<open>p\<close> are in use.\<close>

definition holds :: "meta \<Rightarrow> nat \<Rightarrow> ptr \<Rightarrow> bool" where
  "holds ms n p \<longleftrightarrow> placed ms n p (block_bytes p n) \<and> block_bytes p n \<inter> free_bytes ms = {}"

lemma regions_Cons [simp]: "regions [] = {}" "regions (c # cs) = region c \<union> regions cs"
  by (simp_all add: regions_def)

lemma meta_chunk_good: "meta_ok ms lg \<Longrightarrow> c \<in> set ms \<Longrightarrow> chunk_good c"
  by (induction ms) (auto simp: meta_ok_Cons)

lemma placed_bytes:
  assumes "meta_ok ms lg" "placed ms n p B"
  shows "B = block_bytes p n" "p \<noteq> 0" "0 < n \<Longrightarrow> unat p \<in> B"
proof -
  obtain c k where c: "c \<in> set ms" "4 \<le> k" "k + n \<le> 512" "p = block_ptr c k" "B = blocks_at c k n"
    using assms(2) by (auto simp: placed_def)
  have "unat p = unat (region_base c) + 64 * k"
    using block_ptr_unat [OF meta_chunk_good [OF assms(1) c(1)], of k] c(3,4) by simp
  then show "B = block_bytes p n" "p \<noteq> 0" "0 < n \<Longrightarrow> unat p \<in> B"
    using c(2,5) by (auto simp: block_bytes_def blocks_at_def algebra_simps)
qed

lemma holds_regions: "holds ms n p \<Longrightarrow> block_bytes p n \<subseteq> regions ms"
  using placed_regions [of ms n p "block_bytes p n"] by (simp add: holds_def regions_def)

lemma holds_nonzero: "meta_ok ms lg \<Longrightarrow> holds ms n p \<Longrightarrow> p \<noteq> 0"
  by (auto simp: holds_def dest: placed_bytes(2))

lemma regions_mapped': "meta_ok ms lg \<Longrightarrow> regions ms \<subseteq> mapped lg"
  using regions_mapped by (simp add: regions_def)

lemma placed_same:
  assumes "map region_base ms' = map region_base ms"
  shows "placed ms' n p B = placed ms n p B" "regions ms' = regions ms"
proof -
  have sub: "placed ms n p B \<Longrightarrow> placed ms' n p B" if "map region_base ms' = map region_base ms" for ms ms'
  proof -
    assume "placed ms n p B"
    then obtain c k where c: "c \<in> set ms" "4 \<le> k" "k + n \<le> 512" "p = block_ptr c k" "B = blocks_at c k n"
      by (auto simp: placed_def)
    have "region_base c \<in> set (map region_base ms')" using that c(1) by simp
    then obtain d where "d \<in> set ms'" "region_base d = region_base c" by auto
    then show "placed ms' n p B"
      using c unfolding placed_def by (intro bexI [of _ d] exI [of _ k]) (simp_all add: block_ptr_def blocks_at_def)
  qed
  show "placed ms' n p B = placed ms n p B" using sub assms by metis
  show "regions ms' = regions ms" unfolding regions_def by (rule same_regions [OF assms])
qed

text \<open>A claim in the chunks that exist.\<close>

lemma carved_holds:
  assumes "meta_ok ms lg" "carved ms lg n p ms'" "0 < n"
  shows "holds ms' n p" "holds ms m q \<Longrightarrow> holds ms' m q" "holds ms m q \<Longrightarrow> block_bytes q m \<inter> block_bytes p n = {}"
    "regions ms' = regions ms"
proof -
  obtain B where B: "placed ms' n p B" "B \<subseteq> free_bytes ms" "free_bytes ms' = free_bytes ms - B" "meta_ok ms' lg"
      "map region_base ms' = map region_base ms"
    using assms(2) by (auto simp: carved_def)
  have "B = block_bytes p n" by (rule placed_bytes(1) [OF B(4,1)])
  then show "holds ms' n p" "holds ms m q \<Longrightarrow> holds ms' m q" "holds ms m q \<Longrightarrow> block_bytes q m \<inter> block_bytes p n = {}"
    using B placed_same(1) [OF B(5)] by (auto simp: holds_def)
  show "regions ms' = regions ms" by (rule placed_same(2) [OF B(5)])
qed

lemma fresh_chunk_holds:
  assumes "meta_ok ms lg" "fresh_chunk lg lg' c" "holds ms m q"
  shows "holds (c # ms) m q"
proof -
  have "block_bytes q m \<subseteq> mapped lg" using holds_regions [OF assms(3)] regions_mapped' [OF assms(1)] by blast
  moreover have "chunk_free c \<inter> mapped lg = {}" using assms(2) chunk_free_region [of c] by (auto simp: fresh_chunk_def)
  ultimately have "block_bytes q m \<inter> chunk_free c = {}" by blast
  then show ?thesis using assms(3) by (auto simp: holds_def placed_Cons)
qed

text \<open>Blocks in use stay in use, what was mapped stays as it was, and new chunks are newly mapped.\<close>

definition meta_grows :: "bool \<Rightarrow> meta \<times> os_log \<Rightarrow> meta \<times> os_log \<Rightarrow> bool" where
  "meta_grows rw = (\<lambda>(ms, lg) (ms', lg'). meta_ok ms' lg' \<and> extends (mapped lg) rw lg lg' \<and> (\<forall>m q. holds ms m q \<longrightarrow> holds ms' m q)
    \<and> regions ms' \<subseteq> regions ms \<union> (mapped lg' - mapped lg))"

lemma push_new_chunk_extends:
  assumes "cfg_ok cfg" "mmap_law lc cfg" "munmap_law lc cfg" "push_new_chunk lc cfg (ms, lg) = Inr (r, ms', lg')"
  shows "extends (mapped lg) True lg lg'"
proof -
  obtain q lg1 where a: "os_alloc lc cfg (of_nat META_REGION_SIZE) True lg = (q, lg1)" by fastforce
  obtain j where "j < 30" "page_size cfg = 2 ^ j" using assms(1) by (auto simp: cfg_ok_def)
  then have j: "pow2_word (page_size cfg) j" by (simp add: pow2_word_def)
  have "alloc_aligned lc cfg (of_nat META_REGION_SIZE) (page_size cfg) True lg = (q, lg1)" using a by (simp add: os_alloc_def)
  from alloc_aligned_extends [OF assms(1-3) j this] have "extends (mapped lg) True lg lg1" .
  moreover have "lg' = lg1"
    using assms(4) a by (cases q) (auto simp: push_new_chunk_def Let_def run_bind_def split: sum.splits)
  ultimately show ?thesis by simp
qed

lemma meta_zalloc_grows:
  assumes "cfg_ok cfg" "mmap_law lc cfg" "munmap_law lc cfg" "meta_ok ms lg" "0 < sz"
    and "meta_zalloc lc cfg sz (ms, lg) = Inr (r, ms', lg')" "n = nat_div_ceil (unat sz) 64"
  shows "meta_grows True (ms, lg) (ms', lg')"
    and "r = Some p \<Longrightarrow> holds ms' n p \<and> (\<forall>m q. holds ms m q \<longrightarrow> block_bytes q m \<inter> block_bytes p n = {})"
proof -
  have nn: "unat (div_ceil sz (of_nat META_BLOCK_SIZE)) = n" by (simp add: assms(7) unat_div_ceil mi_consts)
  have n0: "0 < n" using assms(5) nat_div_ceil_le [of 64 "unat sz"] by (cases "n = 0") (auto simp: assms(7) word_less_nat_alt)
  have "meta_grows True (ms, lg) (ms', lg') \<and>
      (r = Some p \<longrightarrow> holds ms' n p \<and> (\<forall>m q. holds ms m q \<longrightarrow> block_bytes q m \<inter> block_bytes p n = {}))"
  proof (cases "n \<le> 512")
    case False
    with n0 nn assms(4,6) show ?thesis by (auto simp: meta_zalloc_def Let_def mi_consts meta_grows_def)
  next
    case True
    from meta_walk_spec [OF assms(4) n0 True] show ?thesis
    proof (elim disjE exE conjE)
      fix p' ms1 assume w: "meta_walk n ms = Inr (Some p', ms1)" and c: "carved ms lg n p' ms1"
      then have "r = Some p'" "ms' = ms1" "lg' = lg"
        using n0 True nn assms(6) by (simp_all add: meta_zalloc_def Let_def mi_consts)
      moreover have "meta_ok ms1 lg" using c by (simp add: carved_def)
      ultimately show ?thesis using carved_holds [OF assms(4) c n0] by (simp add: meta_grows_def) blast
    next
      assume w: "meta_walk n ms = Inr (None, ms)"
      obtain pushed ms1 lg1 where p: "push_new_chunk lc cfg (ms, lg) = Inr (pushed, ms1, lg1)"
          "if pushed then \<exists>c. ms1 = c # ms \<and> fresh_chunk lg lg1 c else ms1 = ms \<and> mapped lg1 = mapped lg"
        using push_new_chunk_spec [OF assms(1-3)] by blast
      note ext = push_new_chunk_extends [OF assms(1-3) p(1)]
      show ?thesis
      proof (cases pushed)
        case False
        with w p n0 True nn assms(6) have "r = None" "ms' = ms" "lg' = lg1"
          by (auto simp: meta_zalloc_def Let_def mi_consts split: list.splits)
        moreover have "meta_ok ms lg1" using False p(2) assms(4) meta_ok_mapped [of ms lg lg1] by simp
        ultimately show ?thesis using ext by (simp add: meta_grows_def)
      next
        case pushed: True
        then obtain c where c: "ms1 = c # ms" "fresh_chunk lg lg1 c" using p(2) by auto
        have good: "chunk_good c" and sub: "mapped lg \<subseteq> mapped lg1" using c(2) by (simp_all add: fresh_chunk_def)
        have ok1: "meta_ok (c # ms) lg1"
          using c(2) regions_mapped [OF assms(4)] meta_ok_mapped [OF assms(4) sub] by (auto simp: meta_ok_Cons fresh_chunk_def)
        have reg: "regions (c # ms) \<subseteq> regions ms \<union> (mapped lg1 - mapped lg)" using c(2) by (auto simp: fresh_chunk_def)
        note old = fresh_chunk_holds [OF assms(4) c(2)]
        have run: "run_bind (try_find_and_clear_n n 0 (mc_bitmap c)) (\<lambda>(r, bm).
              Inr (map_option (block_ptr c) r, c\<lparr>mc_bitmap := bm\<rparr> # ms, lg1)) = Inr (r, ms', lg')"
          using w p(1) c(1) pushed n0 True nn assms(6) by (simp add: meta_zalloc_def Let_def mi_consts)
        from chunk_claim [OF good n0 True, of 0] show ?thesis
        proof (elim disjE exE conjE)
          fix k bm assume k: "try_find_and_clear_n n 0 (mc_bitmap c) = Inr (Some k, bm)" "4 \<le> k" "k + n \<le> 512"
            "chunk_good (c\<lparr>mc_bitmap := bm\<rparr>)" "blocks_at c k n \<subseteq> chunk_free c"
            "chunk_free (c\<lparr>mc_bitmap := bm\<rparr>) = chunk_free c - blocks_at c k n"
          have cv: "carved (c # ms) lg1 n (block_ptr c k) (c\<lparr>mc_bitmap := bm\<rparr> # ms)"
            by (rule carved_head [OF ok1 k(4,2,3,5,6)])
          have e: "r = Some (block_ptr c k)" "ms' = c\<lparr>mc_bitmap := bm\<rparr> # ms" "lg' = lg1" using run k(1) by auto
          have "meta_ok ms' lg1" using cv by (simp add: carved_def e)
          then show ?thesis
            using carved_holds [OF ok1 cv n0] old ext reg unfolding e by (simp add: meta_grows_def) blast
        next
          assume none: "try_find_and_clear_n n 0 (mc_bitmap c) = Inr (None, mc_bitmap c)"
          then have e: "r = None" "ms' = c # ms" "lg' = lg1" using run by auto
          show ?thesis using ok1 old ext reg unfolding e by (simp add: meta_grows_def)
        qed
      qed
    qed
  qed
  then show "meta_grows True (ms, lg) (ms', lg')"
    "r = Some p \<Longrightarrow> holds ms' n p \<and> (\<forall>m q. holds ms m q \<longrightarrow> block_bytes q m \<inter> block_bytes p n = {})" by simp_all
qed

text \<open>Freeing blocks in use.\<close>

lemma meta_free_holds:
  assumes "meta_ok ms lg" "holds ms n p" "n = nat_div_ceil (unat sz) 64" "0 < n"
  shows "\<exists>ms'. meta_free p sz ms = Inr ms' \<and> meta_ok ms' lg \<and> regions ms' = regions ms
    \<and> (\<forall>m q. holds ms m q \<longrightarrow> block_bytes q m \<inter> block_bytes p n = {} \<longrightarrow> holds ms' m q)"
proof -
  have nn: "unat (div_ceil sz (of_nat META_BLOCK_SIZE)) = n" by (simp add: assms(3) unat_div_ceil mi_consts)
  have pl: "placed ms n p (block_bytes p n)" using assms(2) by (simp add: holds_def)
  obtain ms' where ms': "meta_free p sz ms = Inr ms'" "meta_ok ms' lg" "map region_base ms' = map region_base ms"
      "free_bytes ms' = free_bytes ms \<union> block_bytes p n"
    using meta_free_spec [OF nn assms(4,1) pl] by blast
  then show ?thesis using placed_same [OF ms'(3)] by (auto simp: holds_def)
qed

lemma meta_grows_refl: "meta_ok ms lg \<Longrightarrow> meta_grows rw (ms, lg) (ms, lg)"
  by (simp add: meta_grows_def)

lemma meta_grows_mapped: "meta_grows rw (ms, lg) (ms', lg') \<Longrightarrow> mapped lg \<subseteq> mapped lg'"
  using extends_access(2) [of "mapped lg" rw lg lg'] by (auto simp: meta_grows_def)

lemma meta_grows_trans:
  assumes "meta_grows rw (ms, lg) (ms1, lg1)" "meta_grows rw (ms1, lg1) (ms2, lg2)"
  shows "meta_grows rw (ms, lg) (ms2, lg2)"
proof -
  have sub: "mapped lg \<subseteq> mapped lg1" by (rule meta_grows_mapped [OF assms(1)])
  have "extends (mapped lg) rw lg1 lg2" using assms(2) extends_mono [OF _ sub, of rw lg1 lg2 rw] by (simp add: meta_grows_def)
  then have e: "extends (mapped lg) rw lg lg2" using assms(1) extends_trans [of "mapped lg" rw lg lg1 lg2] by (simp add: meta_grows_def)
  have "regions ms2 \<subseteq> mapped lg2" using assms(2) regions_mapped' by (simp add: meta_grows_def)
  then have "regions ms2 \<subseteq> regions ms \<union> (mapped lg2 - mapped lg)"
    using assms sub by (auto simp: meta_grows_def)
  with e assms show ?thesis by (simp add: meta_grows_def)
qed

lemma meta_ok_regions: "meta_ok ms lg \<Longrightarrow> regions ms \<subseteq> mapped lg' \<Longrightarrow> meta_ok ms lg'"
  by (induction ms) (auto simp: meta_ok_Cons)

end
