(* ===== verification/MiArena.thy ===== *)
theory MiArena
  imports MiMetaUse MiPageQueue
begin

unbundle bit_operations_syntax

text \<open>
  \<^verbatim>\<open>src/arena.rs\<close>: arenas, OS regions handed out in slices of 64 KiB. Four bitmaps say which slices
  are free, committed, scheduled for a purge, and dirty; a per-bin registry of abandoned pages is
  mapped on first use. Each operation is one thread's execution without interference.
\<close>

section \<open>The environment\<close>

text \<open>System calls, OS configuration, hardened build or not, and the option values.\<close>

record sys =
  sy_libc :: libc
  sy_cfg :: os_mem_config
  sy_hard :: bool
  sy_vals :: opt_vals

section \<open>State\<close>

text \<open>
  The pointers to the bitmaps' storage are kept as its first address \<open>ar_bm_mem\<close>, the address of
  the record itself as \<open>ar_desc\<close>; the storage is the bitmap values.
\<close>

record arena =
  ar_memid :: mem_id
  ar_start :: ptr
  ar_slice_count :: nat
  ar_chunk_count :: nat
  ar_free :: bitmap
  ar_commit :: bitmap
  ar_purge :: bitmap
  ar_dirty :: bitmap
  ar_abandoned :: "bitmap list option"
  ar_abandoned_memid :: "mem_id option"
  ar_purge_expire :: int
  ar_bm_mem :: ptr
  ar_desc :: ptr

definition HOT_BITMAPS :: nat where "HOT_BITMAPS = 4"

text \<open>\<^verbatim>\<open>size_of::<BChunk>()\<close> and \<^verbatim>\<open>size_of::<Arena>()\<close>.\<close>

definition sizeof_bchunk :: nat where "sizeof_bchunk = 64"
definition sizeof_arena :: usize where "sizeof_arena = 160"

definition chunks_for :: "nat \<Rightarrow> nat" where
  "chunks_for slice_count = max (nat_div_ceil slice_count CHUNK_BITS) 1"

definition hot_bitmap_bytes :: "nat \<Rightarrow> usize" where
  "hot_bitmap_bytes cc = of_nat (HOT_BITMAPS * (cc + 1) * sizeof_bchunk)"

text \<open>A bitmap in zeroed metadata memory.\<close>

definition empty_bitmap :: "nat \<Rightarrow> bitmap" where
  "empty_bitmap cc = \<lparr>bm_chunkmap = chunk_zeroed, bm_chunks = replicate cc chunk_zeroed\<rparr>"

definition new_arena :: "mem_id \<Rightarrow> ptr \<Rightarrow> nat \<Rightarrow> nat \<Rightarrow> ptr \<Rightarrow> ptr \<Rightarrow> bool \<Rightarrow> arena run" where
  "new_arena memid start slice_count cc bm_mem desc commit =
    (let e = empty_bitmap cc
     in run_bind (unsafe_set_n 0 slice_count e) (\<lambda>f.
        run_bind (if commit then unsafe_set_n 0 slice_count e else Inr e) (\<lambda>c.
        run_bind (if \<not> mi_initially_zero memid then unsafe_set_n 0 slice_count e else Inr e) (\<lambda>d.
          Inr \<lparr> ar_memid = memid, ar_start = start, ar_slice_count = slice_count, ar_chunk_count = cc,
                ar_free = f, ar_commit = c, ar_purge = e, ar_dirty = d, ar_abandoned = None,
                ar_abandoned_memid = None, ar_purge_expire = 0, ar_bm_mem = bm_mem, ar_desc = desc \<rparr>))))"

definition arena_create :: "sys \<Rightarrow> nat \<Rightarrow> bool \<Rightarrow> meta \<times> os_log \<Rightarrow> (arena option \<times> meta \<times> os_log) run" where
  "arena_create sy slice_count commit = (\<lambda>(ms, lg).
    let lc = sy_libc sy; cfg = sy_cfg sy; cc = chunks_for slice_count
    in if cc > CHUNK_BITS then Inr (None, ms, lg)
       else let sz = of_nat slice_count * of_nat MI_ARENA_SLICE_SIZE
            in case alloc_aligned lc cfg sz (of_nat MI_ARENA_SLICE_SIZE) commit lg of
                 (None, lg) \<Rightarrow> Inr (None, ms, lg)
               | (Some (start, memid), lg) \<Rightarrow>
                   run_bind (meta_zalloc lc cfg (hot_bitmap_bytes cc) (ms, lg)) (\<lambda>(r, ms, lg).
                     case r of
                       None \<Rightarrow> Inr (None, ms, os_free lc memid lg)
                     | Some bm_mem \<Rightarrow>
                         run_bind (meta_zalloc lc cfg sizeof_arena (ms, lg)) (\<lambda>(r, ms, lg).
                           case r of
                             None \<Rightarrow>
                               run_bind (meta_free bm_mem (hot_bitmap_bytes cc) ms) (\<lambda>ms.
                                 Inr (None, ms, os_free lc memid lg))
                           | Some desc \<Rightarrow>
                               run_bind (new_arena memid start slice_count cc bm_mem desc commit) (\<lambda>a.
                                 Inr (Some a, ms, lg)))))"

section \<open>Slices\<close>

definition slice_ptr :: "arena \<Rightarrow> nat \<Rightarrow> ptr" where
  "slice_ptr a idx = ar_start a + push_bit MI_ARENA_SLICE_SHIFT (of_nat idx)"

definition slice_index_of :: "arena \<Rightarrow> ptr \<Rightarrow> nat option" where
  "slice_index_of a p =
    (let base = ar_start a
     in if p < base \<or> p \<ge> base + of_nat (ar_slice_count a) * of_nat MI_ARENA_SLICE_SIZE then None
        else Some (unat (drop_bit MI_ARENA_SLICE_SHIFT (p - base))))"

definition ensure_committed :: "sys \<Rightarrow> nat \<Rightarrow> nat \<Rightarrow> arena \<times> os_log \<Rightarrow> (bool \<times> arena \<times> os_log) run" where
  "ensure_committed sy idx n = (\<lambda>(a, lg).
    run_bind (is_set_n idx n (ar_commit a)) (\<lambda>all_set.
      if all_set then Inr (True, a, lg)
      else case os_commit (sy_libc sy) (sy_cfg sy) (slice_ptr a idx) (of_nat (n * MI_ARENA_SLICE_SIZE)) lg of
             (None, lg) \<Rightarrow> Inr (False, a, lg)
           | (Some _, lg) \<Rightarrow>
               run_bind (set_n idx n (ar_commit a)) (\<lambda>(_, c). Inr (True, a\<lparr>ar_commit := c\<rparr>, lg))))"

section \<open>Purging\<close>

text \<open>The end of the run of scheduled slices, inside one field of the bitmap.\<close>

function purge_extend :: "bitmap \<Rightarrow> nat \<Rightarrow> nat \<Rightarrow> nat \<Rightarrow> nat run" where
  "purge_extend bm sc field_end e =
    (if e < sc \<and> e < field_end
     then run_bind (is_set e bm) (\<lambda>s. if s then purge_extend bm sc field_end (e + 1) else Inr e)
     else Inr e)"
  by pat_completeness auto
termination
  by (relation "measure (\<lambda>(bm, sc, field_end, e). sc - e)") auto

declare purge_extend.simps [simp del]

text \<open>Purging one run: claim it, return its pages, give it back, and drop its schedule.\<close>

definition purge_claimed :: "sys \<Rightarrow> nat \<Rightarrow> nat \<Rightarrow> arena \<times> os_log \<Rightarrow> (arena \<times> os_log) run" where
  "purge_claimed sy idx n = (\<lambda>(a, lg).
    run_bind (is_set_n idx n (ar_commit a)) (\<lambda>all_committed.
      let (needs_recommit, lg) =
            purge_ex (sy_hard sy) (sy_libc sy) (sy_cfg sy) (sy_vals sy) (slice_ptr a idx)
              (of_nat (n * MI_ARENA_SLICE_SIZE)) all_committed lg
      in run_bind
           (if needs_recommit
            then run_bind (clear_n idx n (ar_commit a)) (\<lambda>(_, c).
                 run_bind (clear_n idx n (ar_dirty a)) (\<lambda>(_, d). Inr (a\<lparr>ar_commit := c, ar_dirty := d\<rparr>)))
            else Inr a)
           (\<lambda>a. run_bind (set_n idx n (ar_free a)) (\<lambda>(_, f). Inr (a\<lparr>ar_free := f\<rparr>, lg)))))"

definition purge_run :: "sys \<Rightarrow> nat \<Rightarrow> nat \<Rightarrow> arena \<times> os_log \<Rightarrow> (bool \<times> arena \<times> os_log) run" where
  "purge_run sy idx n = (\<lambda>(a, lg).
    run_bind (clear_n idx n (ar_free a)) (\<lambda>(ok, f).
      run_bind (if ok then purge_claimed sy idx n (a\<lparr>ar_free := f\<rparr>, lg) else Inr (a\<lparr>ar_free := f\<rparr>, lg)) (\<lambda>(a, lg).
        run_bind (clear_n idx n (ar_purge a)) (\<lambda>(_, p). Inr (ok, a\<lparr>ar_purge := p\<rparr>, lg)))))"

lemma purge_extend_ge: "purge_extend bm sc field_end e = Inr e' \<Longrightarrow> e \<le> e'"
proof (induction bm sc field_end e rule: purge_extend.induct)
  case (1 bm sc field_end e)
  have "e + 1 \<le> e'" if c: "e < sc \<and> e < field_end" and s: "is_set e bm = Inr True"
  proof -
    from 1(2) have "purge_extend bm sc field_end (e + 1) = Inr e'"
      by (subst (asm) purge_extend.simps) (simp add: c s)
    from 1(1) [OF c s _ this] show ?thesis by simp
  qed
  with 1(2) show ?case
    by (subst (asm) purge_extend.simps) (auto split: if_splits simp: run_bind_eq_Inr)
qed

function purge_loop :: "sys \<Rightarrow> nat \<Rightarrow> nat \<Rightarrow> bool \<Rightarrow> arena \<times> os_log \<Rightarrow> (bool \<times> arena \<times> os_log) run" where
  "purge_loop sy sc idx purged s =
    (if idx < sc then
       run_bind (is_set idx (ar_purge (fst s))) (\<lambda>scheduled.
         if \<not> scheduled then purge_loop sy sc (idx + 1) purged s
         else let field_end = (idx div FIELD_BITS + 1) * FIELD_BITS
              in run_bind (purge_extend (ar_purge (fst s)) sc field_end (idx + 1)) (\<lambda>e.
                   run_bind (purge_run sy idx (e - idx) s) (\<lambda>(did, s).
                     purge_loop sy sc e (purged \<or> did) s)))
     else Inr (purged, s))"
  by pat_completeness auto
termination
  by (relation "measure (\<lambda>(sy, sc, idx, purged, s). sc - idx)") (auto dest!: purge_extend_ge)

declare purge_loop.simps [simp del]

definition run_purge :: "sys \<Rightarrow> arena \<times> os_log \<Rightarrow> (bool \<times> arena \<times> os_log) run" where
  "run_purge sy s = purge_loop sy (ar_slice_count (fst s)) 0 False s"

text \<open>\<open>now\<close> is the time the operation reads.\<close>

definition saturating_add_i64 :: "int \<Rightarrow> int \<Rightarrow> int" where
  "saturating_add_i64 x y = max i64_min (min i64_max (x + y))"

definition schedule_purge :: "sys \<Rightarrow> int \<Rightarrow> nat \<Rightarrow> nat \<Rightarrow> arena \<times> os_log \<Rightarrow> (arena \<times> os_log) run" where
  "schedule_purge sy now idx n = (\<lambda>(a, lg).
    let delay = arena_purge_delay (sy_vals sy)
    in if delay < 0 \<or> mi_is_pinned (ar_memid a) then Inr (a, lg)
       else run_bind (set_n idx n (ar_purge a)) (\<lambda>(_, p).
         let a = a\<lparr>ar_purge := p\<rparr>
         in if delay = 0 then run_bind (run_purge sy (a, lg)) (\<lambda>(_, s). Inr s)
            else let expire = saturating_add_i64 now delay
                 in Inr (if ar_purge_expire a = 0 then a\<lparr>ar_purge_expire := expire\<rparr> else a, lg)))"

definition maybe_purge :: "sys \<Rightarrow> int \<Rightarrow> bool \<Rightarrow> arena \<times> os_log \<Rightarrow> (bool \<times> arena \<times> os_log) run" where
  "maybe_purge sy now force = (\<lambda>(a, lg).
    if mi_is_pinned (ar_memid a) then Inr (False, a, lg)
    else if force then run_purge sy (a\<lparr>ar_purge_expire := 0\<rparr>, lg)
    else let expire = ar_purge_expire a
         in if expire = 0 then Inr (False, a, lg)
            else if expire > now then Inr (False, a, lg)
            else run_purge sy (a\<lparr>ar_purge_expire := 0\<rparr>, lg))"

section \<open>Allocating and freeing slices\<close>

definition free_slices :: "sys \<Rightarrow> int \<Rightarrow> nat \<Rightarrow> nat \<Rightarrow> arena \<times> os_log \<Rightarrow> (arena \<times> os_log) run" where
  "free_slices sy now idx n = (\<lambda>(a, lg).
    run_bind (set_n idx n (ar_free a)) (\<lambda>(_, f). schedule_purge sy now idx n (a\<lparr>ar_free := f\<rparr>, lg)))"

definition alloc_slices ::
    "sys \<Rightarrow> int \<Rightarrow> nat \<Rightarrow> nat \<Rightarrow> arena \<times> os_log \<Rightarrow> ((nat \<times> ptr \<times> bool) option \<times> arena \<times> os_log) run" where
  "alloc_slices sy now n tseq = (\<lambda>(a, lg).
    run_bind (try_find_and_clear_n n tseq (ar_free a)) (\<lambda>(r, f).
      case r of
        None \<Rightarrow> Inr (None, a\<lparr>ar_free := f\<rparr>, lg)
      | Some idx \<Rightarrow>
          run_bind (ensure_committed sy idx n (a\<lparr>ar_free := f\<rparr>, lg)) (\<lambda>(ok, a, lg).
            if \<not> ok then run_bind (free_slices sy now idx n (a, lg)) (\<lambda>s. Inr (None, s))
            else run_bind (if mi_initially_zero (ar_memid a) then is_clear_n idx n (ar_dirty a) else Inr False) (\<lambda>was_clean.
                 run_bind (set_n idx n (ar_dirty a)) (\<lambda>(_, d).
                   Inr (Some (idx, slice_ptr a idx, was_clean), a\<lparr>ar_dirty := d\<rparr>, lg))))))"

definition free_slice_count :: "arena \<Rightarrow> nat" where
  "free_slice_count a = bm_popcount (ar_free a)"

section \<open>The registry of abandoned pages\<close>

definition abandoned_stride :: "arena \<Rightarrow> nat" where
  "abandoned_stride a = ar_chunk_count a + 1"

definition abandoned_bytes :: "arena \<Rightarrow> usize" where
  "abandoned_bytes a = of_nat (MI_BIN_COUNT * abandoned_stride a * sizeof_bchunk)"

definition abandoned_bitmap_at :: "bitmap list \<Rightarrow> nat \<Rightarrow> bitmap" where
  "abandoned_bitmap_at base b = base ! b"

definition ensure_abandoned :: "sys \<Rightarrow> arena \<times> os_log \<Rightarrow> bool \<times> arena \<times> os_log" where
  "ensure_abandoned sy = (\<lambda>(a, lg).
    case ar_abandoned a of
      Some _ \<Rightarrow> (True, a, lg)
    | None \<Rightarrow>
        (case os_alloc (sy_libc sy) (sy_cfg sy) (abandoned_bytes a) True lg of
           (None, lg) \<Rightarrow> (False, a, lg)
         | (Some (_, memid), lg) \<Rightarrow>
             (True, a\<lparr>ar_abandoned_memid := Some memid,
                      ar_abandoned := Some (replicate MI_BIN_COUNT (empty_bitmap (ar_chunk_count a)))\<rparr>, lg)))"

definition page_abandon :: "sys \<Rightarrow> nat \<Rightarrow> nat \<Rightarrow> arena \<times> os_log \<Rightarrow> (arena \<times> os_log) run" where
  "page_abandon sy slice_index b s =
    (let (ok, a, lg) = ensure_abandoned sy s
     in case ar_abandoned a of
          None \<Rightarrow> Inr (a, lg)
        | Some base \<Rightarrow>
            if \<not> ok then Inr (a, lg)
            else run_bind (set_bit1 slice_index (abandoned_bitmap_at base b)) (\<lambda>(_, bm).
                   Inr (a\<lparr>ar_abandoned := Some (base[b := bm])\<rparr>, lg)))"

text \<open>The pages are the store the claim of a page's owner bit updates.\<close>

definition reclaim_abandoned :: "nat \<Rightarrow> nat \<Rightarrow> arena \<times> pages \<Rightarrow> (nat option \<times> arena \<times> pages) run" where
  "reclaim_abandoned b tseq = (\<lambda>(a, ps).
    case ar_abandoned a of
      None \<Rightarrow> Inr (None, a, ps)
    | Some base \<Rightarrow>
        run_bind
          (try_find_and_claim tseq
             (\<lambda>idx ps. let page = slice_ptr a idx; (ok, pg) = claim_ownership (ps page) in (ok, ps(page := pg)))
             (abandoned_bitmap_at base b) ps)
          (\<lambda>(r, bm, ps). Inr (r, a\<lparr>ar_abandoned := Some (base[b := bm])\<rparr>, ps)))"

definition page_unabandon :: "nat \<Rightarrow> nat \<Rightarrow> arena \<Rightarrow> arena run" where
  "page_unabandon slice_index b a =
    (case ar_abandoned a of
       None \<Rightarrow> Inr a
     | Some base \<Rightarrow>
         run_bind (clear_bit1 slice_index (abandoned_bitmap_at base b)) (\<lambda>(_, bm).
           Inr (a\<lparr>ar_abandoned := Some (base[b := bm])\<rparr>)))"

definition abandoned_popcount :: "nat \<Rightarrow> arena \<Rightarrow> nat" where
  "abandoned_popcount b a =
    (case ar_abandoned a of None \<Rightarrow> 0 | Some base \<Rightarrow> bm_popcount (abandoned_bitmap_at base b))"

definition arena_destroy :: "sys \<Rightarrow> arena \<Rightarrow> meta \<times> os_log \<Rightarrow> (meta \<times> os_log) run" where
  "arena_destroy sy a = (\<lambda>(ms, lg).
    let lg = os_free (sy_libc sy) (ar_memid a) lg;
        lg = (case ar_abandoned_memid a of Some m \<Rightarrow> os_free (sy_libc sy) m lg | None \<Rightarrow> lg)
    in run_bind (meta_free (ar_bm_mem a) (hot_bitmap_bytes (ar_chunk_count a)) ms) (\<lambda>ms.
       run_bind (meta_free (ar_desc a) sizeof_arena ms) (\<lambda>ms. Inr (ms, lg))))"


section \<open>The invariant\<close>

definition bitmap_for :: "arena \<Rightarrow> bitmap \<Rightarrow> bool" where
  "bitmap_for a bm \<longleftrightarrow> bm_inv bm \<and> max_bits bm = 512 * ar_chunk_count a \<and> bits_of bm \<subseteq> {..<ar_slice_count a}"

definition sy_ok :: "sys \<Rightarrow> bool" where
  "sy_ok sy \<longleftrightarrow> cfg_ok (sy_cfg sy) \<and> unat (page_size (sy_cfg sy)) dvd 65536"

text \<open>The bytes of slices \<open>i, \<dots>, i + n - 1\<close>.\<close>

definition slice_bytes :: "arena \<Rightarrow> nat \<Rightarrow> nat \<Rightarrow> nat set" where
  "slice_bytes a i n = {unat (ar_start a) + 65536 * i ..< unat (ar_start a) + 65536 * (i + n)}"

text \<open>Shape: four bitmaps of the arena's length over a slice-aligned region of the user space.\<close>

definition arena_ok :: "arena \<Rightarrow> bool" where
  "arena_ok a \<longleftrightarrow> bitmap_for a (ar_free a) \<and> bitmap_for a (ar_commit a) \<and> bitmap_for a (ar_purge a)
    \<and> bitmap_for a (ar_dirty a) \<and> ar_slice_count a \<le> 512 * ar_chunk_count a \<and> ar_chunk_count a \<le> 512
    \<and> ar_start a \<noteq> 0 \<and> 65536 dvd unat (ar_start a) \<and> unat (ar_start a) + 65536 * ar_slice_count a < 2 ^ 63"

text \<open>Every slice marked committed can be accessed.\<close>

definition commit_sound :: "arena \<Rightarrow> os_log \<Rightarrow> bool" where
  "commit_sound a lg \<longleftrightarrow> (\<forall>i\<in>bits_of (ar_commit a). slice_bytes a i 1 \<subseteq> accessible lg)"

text \<open>A range of slices inside one chunk.\<close>

definition in_unit :: "arena \<Rightarrow> nat \<Rightarrow> nat \<Rightarrow> bool" where
  "in_unit a i n \<longleftrightarrow> 0 < n \<and> i + n \<le> ar_slice_count a \<and> i mod CHUNK_BITS + n \<le> CHUNK_BITS"

lemma arena_okD:
  assumes "arena_ok a"
  shows "bitmap_for a (ar_free a)" "bitmap_for a (ar_commit a)" "bitmap_for a (ar_purge a)" "bitmap_for a (ar_dirty a)"
    "ar_slice_count a \<le> 512 * ar_chunk_count a" "ar_chunk_count a \<le> 512" "ar_start a \<noteq> 0" "65536 dvd unat (ar_start a)"
    "unat (ar_start a) + 65536 * ar_slice_count a < 2 ^ 63"
  using assms by (simp_all add: arena_ok_def)

lemma bitmap_forD:
  "bitmap_for a bm \<Longrightarrow> bm_inv bm" "bitmap_for a bm \<Longrightarrow> max_bits bm = 512 * ar_chunk_count a"
  "bitmap_for a bm \<Longrightarrow> bits_of bm \<subseteq> {..<ar_slice_count a}"
  by (simp_all add: bitmap_for_def)

text \<open>The range operations on the bitmap of an arena.\<close>

lemma unit_ops:
  assumes "bitmap_for a bm" "in_unit a i n" "ar_slice_count a \<le> 512 * ar_chunk_count a"
  shows "\<exists>bm'. set_n i n bm = Inr ({i..<i + n} \<inter> bits_of bm = {}, bm') \<and> bitmap_for a bm' \<and> bits_of bm' = bits_of bm \<union> {i..<i + n}"
    and "\<exists>bm'. clear_n i n bm = Inr ({i..<i + n} \<subseteq> bits_of bm, bm') \<and> bitmap_for a bm'
      \<and> bits_of bm' = (if {i..<i + n} \<subseteq> bits_of bm then bits_of bm - {i..<i + n} else bits_of bm)"
    and "is_set_n i n bm = Inr ({i..<i + n} \<subseteq> bits_of bm)"
    and "is_clear_n i n bm = Inr ({i..<i + n} \<inter> bits_of bm = {})"
proof -
  have b: "bm_inv bm" "max_bits bm = 512 * ar_chunk_count a" "bits_of bm \<subseteq> {..<ar_slice_count a}"
    using assms(1) by (simp_all add: bitmap_for_def)
  have u: "0 < n" "i + n \<le> max_bits bm" "i mod CHUNK_BITS + n \<le> CHUNK_BITS" "{i..<i + n} \<subseteq> {..<ar_slice_count a}"
    using assms(2,3) b(2) by (auto simp: in_unit_def)
  obtain s where s: "set_n i n bm = Inr ({i..<i + n} \<inter> bits_of bm = {}, s)" "bm_inv s" "max_bits s = max_bits bm"
      "bits_of s = bits_of bm \<union> {i..<i + n}"
    using slices.put_free [OF b(1) u(1-3)] by blast
  moreover have "bitmap_for a s" unfolding bitmap_for_def s(3,4) using s(2) b(2,3) u(4) by auto
  ultimately show "\<exists>bm'. set_n i n bm = Inr ({i..<i + n} \<inter> bits_of bm = {}, bm') \<and> bitmap_for a bm' \<and> bits_of bm' = bits_of bm \<union> {i..<i + n}"
    by blast
  obtain t where t: "clear_n i n bm = Inr ({i..<i + n} \<subseteq> bits_of bm, t)" "bm_inv t" "max_bits t = max_bits bm"
      "bits_of t = (if {i..<i + n} \<subseteq> bits_of bm then bits_of bm - {i..<i + n} else bits_of bm)"
    using slices.take_free [OF b(1) u(1-3)] by blast
  moreover have "bitmap_for a t" unfolding bitmap_for_def t(3,4) using t(2) b(2,3) by auto
  ultimately show "\<exists>bm'. clear_n i n bm = Inr ({i..<i + n} \<subseteq> bits_of bm, bm') \<and> bitmap_for a bm'
      \<and> bits_of bm' = (if {i..<i + n} \<subseteq> bits_of bm then bits_of bm - {i..<i + n} else bits_of bm)"
    by blast
  show "is_set_n i n bm = Inr ({i..<i + n} \<subseteq> bits_of bm)" "is_clear_n i n bm = Inr ({i..<i + n} \<inter> bits_of bm = {})"
    using bitmap_set_clear_spec [OF b(1) u(2,3,1)] by blast+
qed

lemma bitmap_for_frame [simp]:
  "bitmap_for (a\<lparr>ar_free := f\<rparr>) bm = bitmap_for a bm" "bitmap_for (a\<lparr>ar_commit := f\<rparr>) bm = bitmap_for a bm"
  "bitmap_for (a\<lparr>ar_purge := f\<rparr>) bm = bitmap_for a bm" "bitmap_for (a\<lparr>ar_dirty := f\<rparr>) bm = bitmap_for a bm"
  "bitmap_for (a\<lparr>ar_purge_expire := e\<rparr>) bm = bitmap_for a bm"
  "slice_bytes (a\<lparr>ar_free := f\<rparr>) i n = slice_bytes a i n" "slice_bytes (a\<lparr>ar_commit := f\<rparr>) i n = slice_bytes a i n"
  "slice_bytes (a\<lparr>ar_purge := f\<rparr>) i n = slice_bytes a i n" "slice_bytes (a\<lparr>ar_dirty := f\<rparr>) i n = slice_bytes a i n"
  "slice_bytes (a\<lparr>ar_purge_expire := e\<rparr>) i n = slice_bytes a i n"
  by (simp_all add: bitmap_for_def slice_bytes_def)

lemma in_unit_frame [simp]:
  "in_unit (a\<lparr>ar_free := f\<rparr>) i n = in_unit a i n" "in_unit (a\<lparr>ar_commit := f\<rparr>) i n = in_unit a i n"
  "in_unit (a\<lparr>ar_purge := f\<rparr>) i n = in_unit a i n" "in_unit (a\<lparr>ar_dirty := f\<rparr>) i n = in_unit a i n"
  "in_unit (a\<lparr>ar_purge_expire := e\<rparr>) i n = in_unit a i n"
  by (simp_all add: in_unit_def)

lemma slice_ptr_unat:
  assumes "arena_ok a" "i \<le> ar_slice_count a"
  shows "unat (slice_ptr a i) = unat (ar_start a) + 65536 * i"
proof -
  have b: "unat (ar_start a) + 65536 * ar_slice_count a < 2 ^ 63" by (rule arena_okD(9) [OF assms(1)])
  have "unat (of_nat i * 65536 :: usize) = 65536 * i"
    using b assms(2) by (subst unat_mult_small) (simp_all add: unat_of_nat_small)
  moreover have "push_bit MI_ARENA_SLICE_SHIFT (of_nat i :: usize) = of_nat i * 65536"
    by (simp add: push_bit_eq_mult mi_consts)
  ultimately show ?thesis
    unfolding slice_ptr_def using b assms(2) by (subst unat_add_small) simp_all
qed

lemma slices_whole:
  assumes "arena_ok a" "sy_ok sy" "0 < n" "i + n \<le> ar_slice_count a"
  shows "page_align_conservative (sy_cfg sy) (slice_ptr a i) (of_nat (n * MI_ARENA_SLICE_SIZE))
      = Some (slice_ptr a i, of_nat (n * MI_ARENA_SLICE_SIZE))"
    and "bytes (slice_ptr a i) (of_nat (n * MI_ARENA_SLICE_SIZE)) = slice_bytes a i n"
proof -
  have b: "unat (ar_start a) + 65536 * ar_slice_count a < 2 ^ 63" by (rule arena_okD(9) [OF assms(1)])
  have p: "unat (slice_ptr a i) = unat (ar_start a) + 65536 * i"
    using slice_ptr_unat [OF assms(1), of i] assms(4) by simp
  define z :: usize where "z = of_nat (n * MI_ARENA_SLICE_SIZE)"
  have s: "unat z = 65536 * n"
    unfolding z_def using b assms(4) by (subst unat_of_nat_small) (simp_all add: mi_consts)
  have d: "unat (page_size (sy_cfg sy)) dvd 65536 * m" for m using assms(2) by (simp add: sy_ok_def)
  have "unat (page_size (sy_cfg sy)) dvd unat (ar_start a)"
    using arena_okD(8) [OF assms(1)] assms(2) dvd_trans by (auto simp: sy_ok_def)
  then show "page_align_conservative (sy_cfg sy) (slice_ptr a i) (of_nat (n * MI_ARENA_SLICE_SIZE))
      = Some (slice_ptr a i, of_nat (n * MI_ARENA_SLICE_SIZE))"
    unfolding z_def [symmetric] using assms(2-4) b d by (intro page_align_whole) (simp_all add: p s sy_ok_def)
  show "bytes (slice_ptr a i) (of_nat (n * MI_ARENA_SLICE_SIZE)) = slice_bytes a i n"
    unfolding z_def [symmetric] by (simp add: bytes_def slice_bytes_def p s algebra_simps)
qed

lemma slice_bytes_sub: "j \<in> {i..<i + n} \<Longrightarrow> slice_bytes a j 1 \<subseteq> slice_bytes a i n"
  by (auto simp: slice_bytes_def)

lemma slice_bytes_disj: "j \<notin> {i..<i + n} \<Longrightarrow> slice_bytes a j 1 \<inter> slice_bytes a i n = {}"
  by (auto simp: slice_bytes_def not_le not_less)

lemma commit_sound_mono: "commit_sound a lg \<Longrightarrow> accessible lg \<subseteq> accessible lg' \<Longrightarrow> commit_sound a lg'"
  by (auto simp: commit_sound_def)


text \<open>What no operation on slices changes.\<close>

definition same_arena :: "arena \<Rightarrow> arena \<Rightarrow> bool" where
  "same_arena a a' \<longleftrightarrow> ar_memid a' = ar_memid a \<and> ar_start a' = ar_start a \<and> ar_slice_count a' = ar_slice_count a
    \<and> ar_chunk_count a' = ar_chunk_count a \<and> ar_abandoned a' = ar_abandoned a
    \<and> ar_abandoned_memid a' = ar_abandoned_memid a \<and> ar_bm_mem a' = ar_bm_mem a \<and> ar_desc a' = ar_desc a"

lemmas same_arena_iff = same_arena_def

lemma same_arena_fields:
  assumes "same_arena a a'"
  shows "ar_memid a' = ar_memid a" "ar_start a' = ar_start a" "ar_slice_count a' = ar_slice_count a"
    "ar_chunk_count a' = ar_chunk_count a" "ar_abandoned a' = ar_abandoned a"
    "ar_abandoned_memid a' = ar_abandoned_memid a" "ar_bm_mem a' = ar_bm_mem a" "ar_desc a' = ar_desc a"
  using assms by (simp_all add: same_arena_def)

lemma same_arena_refl [simp]: "same_arena a a"
  by (simp add: same_arena_iff)

lemma same_arena_trans: "same_arena a b \<Longrightarrow> same_arena b c \<Longrightarrow> same_arena a c"
  by (simp add: same_arena_iff)

lemma same_arena_range:
  assumes "same_arena a a'"
  shows "in_unit a' i n = in_unit a i n" "slice_bytes a' i n = slice_bytes a i n" "bitmap_for a' bm = bitmap_for a bm"
    "slice_ptr a' i = slice_ptr a i"
  using assms by (simp_all add: same_arena_iff in_unit_def slice_bytes_def bitmap_for_def slice_ptr_def)

lemma arena_ok_same:
  assumes "arena_ok a" "same_arena a a'" "bitmap_for a (ar_free a')" "bitmap_for a (ar_commit a')"
    "bitmap_for a (ar_purge a')" "bitmap_for a (ar_dirty a')"
  shows "arena_ok a'"
  using assms by (simp add: arena_ok_def same_arena_range(3) [OF assms(2)] same_arena_fields [OF assms(2)])

definition area :: "arena \<Rightarrow> nat set \<Rightarrow> nat set" where
  "area a I = (\<Union>i\<in>I. slice_bytes a i 1)"

lemma slice_bytes_area: "slice_bytes a i n = area a {i..<i + n}"
proof
  show "area a {i..<i + n} \<subseteq> slice_bytes a i n" using slice_bytes_sub by (fastforce simp: area_def)
  show "slice_bytes a i n \<subseteq> area a {i..<i + n}"
  proof
    fix b assume "b \<in> slice_bytes a i n"
    then have b: "unat (ar_start a) + 65536 * i \<le> b" "b < unat (ar_start a) + 65536 * (i + n)"
      by (simp_all add: slice_bytes_def)
    define j where "j = (b - unat (ar_start a)) div 65536"
    have "65536 * j \<le> b - unat (ar_start a)" "b - unat (ar_start a) < 65536 * j + 65536"
      by (simp_all add: j_def)
    then have "b \<in> slice_bytes a j 1" "j \<in> {i..<i + n}" using b by (auto simp: slice_bytes_def)
    then show "b \<in> area a {i..<i + n}" by (auto simp: area_def)
  qed
qed

lemma commit_sound_area: "commit_sound a lg \<longleftrightarrow> area a (bits_of (ar_commit a)) \<subseteq> accessible lg"
  by (auto simp: commit_sound_def area_def)

lemma area_mono: "I \<subseteq> J \<Longrightarrow> area a I \<subseteq> area a J"
  by (auto simp: area_def)

lemma area_Un: "area a (I \<union> J) = area a I \<union> area a J"
  by (auto simp: area_def)

lemma area_Diff: "area a (I - {i..<i + n}) \<inter> slice_bytes a i n = {}"
  using slice_bytes_disj by (fastforce simp: area_def)

lemma area_same: "same_arena a a' \<Longrightarrow> area a' I = area a I"
  by (simp add: area_def same_arena_range)

section \<open>Commit on demand\<close>

lemma ensure_committed_spec:
  assumes "arena_ok a" "sy_ok sy" "in_unit a i n"
  shows "\<exists>ok c lg'. ensure_committed sy i n (a, lg) = Inr (ok, a\<lparr>ar_commit := c\<rparr>, lg') \<and> bitmap_for a c
    \<and> bits_of c = (if ok then bits_of (ar_commit a) \<union> {i..<i + n} else bits_of (ar_commit a))
    \<and> accessible lg \<subseteq> accessible lg' \<and> mapped lg' = mapped lg \<and> (commit_sound a lg \<longrightarrow> commit_sound (a\<lparr>ar_commit := c\<rparr>) lg')
    \<and> (\<not> ok \<longrightarrow> c = ar_commit a
        \<and> fst (os_commit (sy_libc sy) (sy_cfg sy) (slice_ptr a i) (of_nat (n * MI_ARENA_SLICE_SIZE)) lg) = None)"
proof -
  have u: "0 < n" "i + n \<le> ar_slice_count a" using assms(3) by (simp_all add: in_unit_def)
  note ops = unit_ops [OF arena_okD(2) [OF assms(1)] assms(3) arena_okD(5) [OF assms(1)]]
  note whole = slices_whole [OF assms(1,2) u]
  have bf: "bitmap_for a (ar_commit a)" by (rule arena_okD(2) [OF assms(1)])
  show ?thesis
  proof (cases "{i..<i + n} \<subseteq> bits_of (ar_commit a)")
    case True
    then have "ensure_committed sy i n (a, lg) = Inr (True, a\<lparr>ar_commit := ar_commit a\<rparr>, lg)"
      using ops(3) by (simp add: ensure_committed_def)
    moreover have "bits_of (ar_commit a) = bits_of (ar_commit a) \<union> {i..<i + n}" using True by auto
    ultimately show ?thesis using bf by (intro exI [of _ True] exI [of _ "ar_commit a"] exI [of _ lg]) simp
  next
    case False
    obtain r lg' where c: "os_commit (sy_libc sy) (sy_cfg sy) (slice_ptr a i) (of_nat (n * MI_ARENA_SLICE_SIZE)) lg = (r, lg')"
      by fastforce
    note acc = os_commit_access [OF whole(1) c, unfolded whole(2)]
    obtain bm' where s: "set_n i n (ar_commit a) = Inr ({i..<i + n} \<inter> bits_of (ar_commit a) = {}, bm')" "bitmap_for a bm'"
        "bits_of bm' = bits_of (ar_commit a) \<union> {i..<i + n}"
      using ops(1) by blast
    show ?thesis
    proof (cases r)
      case None
      then have "ensure_committed sy i n (a, lg) = Inr (False, a\<lparr>ar_commit := ar_commit a\<rparr>, lg')"
        using False ops(3) c by (simp add: ensure_committed_def del: of_nat_mult)
      with None acc bf c show ?thesis
        by (intro exI [of _ False] exI [of _ "ar_commit a"] exI [of _ lg']) (simp add: commit_sound_def del: of_nat_mult)
    next
      case (Some z)
      then have "ensure_committed sy i n (a, lg) = Inr (True, a\<lparr>ar_commit := bm'\<rparr>, lg')"
        using False ops(3) c s(1) by (simp add: ensure_committed_def del: of_nat_mult)
      moreover have "area a (bits_of bm') \<subseteq> accessible lg'" if "commit_sound a lg"
        using that acc Some by (auto simp: s(3) area_Un slice_bytes_area commit_sound_area)
      then have "commit_sound (a\<lparr>ar_commit := bm'\<rparr>) lg'" if "commit_sound a lg"
        using that by (simp add: commit_sound_area area_def)
      ultimately show ?thesis
        using acc Some s(2,3) by (intro exI [of _ True] exI [of _ bm'] exI [of _ lg']) (auto simp del: of_nat_mult)
    qed
  qed
qed


section \<open>Purging keeps what is in use\<close>

text \<open>
  In a hardened build a decommit takes the access rights away, so a scheduled slice must be
  committed; other builds keep them.
\<close>

definition purge_safe :: "sys \<Rightarrow> arena \<Rightarrow> bool" where
  "purge_safe sy a \<longleftrightarrow> \<not> sy_hard sy \<or> bits_of (ar_purge a) \<subseteq> bits_of (ar_commit a)"

text \<open>
  The effect of a purge: the free set is unchanged; what is in use stays committed, dirty and
  accessible; nothing is unmapped.
\<close>

definition purge_rel :: "sys \<Rightarrow> arena \<times> os_log \<Rightarrow> arena \<times> os_log \<Rightarrow> bool" where
  "purge_rel sy = (\<lambda>(a, lg) (a', lg'). same_arena a a' \<and> arena_ok a' \<and> bits_of (ar_free a') = bits_of (ar_free a)
    \<and> bits_of (ar_purge a') \<subseteq> bits_of (ar_purge a)
    \<and> bits_of (ar_commit a') \<subseteq> bits_of (ar_commit a) \<and> bits_of (ar_commit a) - bits_of (ar_free a) \<subseteq> bits_of (ar_commit a')
    \<and> bits_of (ar_dirty a') \<subseteq> bits_of (ar_dirty a) \<and> bits_of (ar_dirty a) - bits_of (ar_free a) \<subseteq> bits_of (ar_dirty a')
    \<and> accessible lg - area a (bits_of (ar_free a)) \<subseteq> accessible lg' \<and> mapped lg' = mapped lg
    \<and> (purge_safe sy a \<longrightarrow> commit_sound a lg \<longrightarrow> purge_safe sy a' \<and> commit_sound a' lg'))"

lemma purge_rel_refl: "arena_ok a \<Longrightarrow> purge_rel sy (a, lg) (a, lg)"
  by (auto simp: purge_rel_def)

lemma purge_rel_trans: "purge_rel sy s t \<Longrightarrow> purge_rel sy t u \<Longrightarrow> purge_rel sy s u"
proof -
  assume st: "purge_rel sy s t" and tu: "purge_rel sy t u"
  obtain a lg b lg1 c lg2 where e: "s = (a, lg)" "t = (b, lg1)" "u = (c, lg2)" by (metis surj_pair)
  have ab: "same_arena a b" using st by (simp add: e purge_rel_def)
  have f: "bits_of (ar_free b) = bits_of (ar_free a)" using st by (simp add: e purge_rel_def)
  note s = st [unfolded e purge_rel_def prod.case]
  note t = tu [unfolded e purge_rel_def prod.case area_same [OF ab] f]
  have sub: "X - Y \<subseteq> V" if "X - Y \<subseteq> U" "U - Y \<subseteq> V" for X Y U V :: "nat set" using that by blast
  have 1: "same_arena a c" by (rule same_arena_trans [OF ab]) (use t in simp)
  have 2: "bits_of (ar_purge c) \<subseteq> bits_of (ar_purge a)"
    by (rule subset_trans [of _ "bits_of (ar_purge b)"]) (use s t in simp_all)
  have 3: "bits_of (ar_commit c) \<subseteq> bits_of (ar_commit a)"
    by (rule subset_trans [of _ "bits_of (ar_commit b)"]) (use s t in simp_all)
  have 4: "bits_of (ar_dirty c) \<subseteq> bits_of (ar_dirty a)"
    by (rule subset_trans [of _ "bits_of (ar_dirty b)"]) (use s t in simp_all)
  have 5: "bits_of (ar_commit a) - bits_of (ar_free a) \<subseteq> bits_of (ar_commit c)"
    by (rule sub [of _ _ "bits_of (ar_commit b)"]) (use s t in simp_all)
  have 6: "bits_of (ar_dirty a) - bits_of (ar_free a) \<subseteq> bits_of (ar_dirty c)"
    by (rule sub [of _ _ "bits_of (ar_dirty b)"]) (use s t in simp_all)
  have 7: "accessible lg - area a (bits_of (ar_free a)) \<subseteq> accessible lg2"
    by (rule sub [of _ _ "accessible lg1"]) (use s t in simp_all)
  have 8: "purge_safe sy a \<longrightarrow> commit_sound a lg \<longrightarrow> purge_safe sy c \<and> commit_sound c lg2" using s t by simp
  show ?thesis unfolding e purge_rel_def prod.case
    by (intro conjI 1 2 3 4 5 6 7 8) (use s t in simp_all)
qed

lemma purge_claimed_spec:
  assumes "arena_ok a" "sy_ok sy" "in_unit a i n" "{i..<i + n} \<inter> bits_of (ar_free a) = {}"
  shows "\<exists>a' lg'. purge_claimed sy i n (a, lg) = Inr (a', lg') \<and> same_arena a a' \<and> arena_ok a'
    \<and> ar_purge a' = ar_purge a \<and> bits_of (ar_free a') = bits_of (ar_free a) \<union> {i..<i + n}
    \<and> bits_of (ar_commit a') \<subseteq> bits_of (ar_commit a) \<and> bits_of (ar_commit a) - {i..<i + n} \<subseteq> bits_of (ar_commit a')
    \<and> bits_of (ar_dirty a') \<subseteq> bits_of (ar_dirty a) \<and> bits_of (ar_dirty a) - {i..<i + n} \<subseteq> bits_of (ar_dirty a')
    \<and> accessible lg - slice_bytes a i n \<subseteq> accessible lg' \<and> mapped lg' = mapped lg
    \<and> (\<not> sy_hard sy \<or> {i..<i + n} \<subseteq> bits_of (ar_commit a) \<longrightarrow> commit_sound a lg \<longrightarrow> commit_sound a' lg')"
proof -
  have u: "0 < n" "i + n \<le> ar_slice_count a" using assms(3) by (simp_all add: in_unit_def)
  note ok = arena_okD [OF assms(1)]
  note whole = slices_whole [OF assms(1,2) u]
  note cop = unit_ops [OF ok(2) assms(3) ok(5)] and dop = unit_ops [OF ok(4) assms(3) ok(5)]
    and fop = unit_ops [OF ok(1) assms(3) ok(5)]
  let ?R = "{i..<i + n}" and ?C = "bits_of (ar_commit a)" and ?sz = "of_nat (n * MI_ARENA_SLICE_SIZE) :: usize"
  obtain r lg' where p: "purge_ex (sy_hard sy) (sy_libc sy) (sy_cfg sy) (sy_vals sy) (slice_ptr a i) ?sz (?R \<subseteq> ?C) lg = (r, lg')"
    by fastforce
  note acc = purge_ex_access [OF whole(1) p, unfolded whole(2)]
  obtain c where c: "clear_n i n (ar_commit a) = Inr (?R \<subseteq> ?C, c)" "bitmap_for a c"
      "bits_of c = (if ?R \<subseteq> ?C then ?C - ?R else ?C)" using cop(2) by blast
  obtain d where d: "clear_n i n (ar_dirty a) = Inr (?R \<subseteq> bits_of (ar_dirty a), d)" "bitmap_for a d"
      "bits_of d = (if ?R \<subseteq> bits_of (ar_dirty a) then bits_of (ar_dirty a) - ?R else bits_of (ar_dirty a))" using dop(2) by blast
  obtain f where f: "set_n i n (ar_free a) = Inr (?R \<inter> bits_of (ar_free a) = {}, f)" "bitmap_for a f"
      "bits_of f = bits_of (ar_free a) \<union> ?R" using fop(1) by blast
  define a1 where "a1 = (if r then a\<lparr>ar_commit := c, ar_dirty := d\<rparr> else a)"
  define a2 where "a2 = a1\<lparr>ar_free := f\<rparr>"
  have run: "purge_claimed sy i n (a, lg) = Inr (a2, lg')"
    using p c(1) d(1) f(1) cop(3) by (simp add: purge_claimed_def a1_def a2_def del: of_nat_mult)
  have same: "same_arena a a2" by (simp add: same_arena_iff a1_def a2_def)
  have bits: "bits_of (ar_commit a2) = (if r \<and> ?R \<subseteq> ?C then ?C - ?R else ?C)"
      "bits_of (ar_dirty a2) = (if r then bits_of d else bits_of (ar_dirty a))" "ar_purge a2 = ar_purge a"
      "bits_of (ar_free a2) = bits_of (ar_free a) \<union> ?R"
    using c(3) f(3) by (simp_all add: a1_def a2_def)
  have okk: "arena_ok a2"
    using c(2) d(2) f(2) ok by (intro arena_ok_same [OF assms(1) same]) (simp_all add: a1_def a2_def)
  have sound: "commit_sound a2 lg'" if "\<not> sy_hard sy \<or> ?R \<subseteq> ?C" "commit_sound a lg"
  proof -
    have "area a (bits_of (ar_commit a2)) \<subseteq> accessible lg'"
    proof (cases "r \<and> ?R \<subseteq> ?C")
      case True
      then have "area a (bits_of (ar_commit a2)) \<inter> slice_bytes a i n = {}" using bits(1) area_Diff by simp
      moreover have "area a (bits_of (ar_commit a2)) \<subseteq> accessible lg"
        using that(2) bits(1) True area_mono [of "?C - ?R" ?C a] by (auto simp: commit_sound_area)
      ultimately show ?thesis using acc(2) by blast
    next
      case False
      then have "accessible lg' = accessible lg" using acc(4,5) that(1) by blast
      then show ?thesis using bits(1) False that(2) by (auto simp: commit_sound_area)
    qed
    then show ?thesis by (simp add: commit_sound_area area_same [OF same])
  qed
  have sub: "bits_of (ar_commit a2) \<subseteq> ?C" "?C - ?R \<subseteq> bits_of (ar_commit a2)" using bits(1) by auto
  have dsub: "bits_of (ar_dirty a2) \<subseteq> bits_of (ar_dirty a)" "bits_of (ar_dirty a) - ?R \<subseteq> bits_of (ar_dirty a2)"
    using bits(2) d(3) by auto
  show ?thesis
    by (intro exI [of _ a2] exI [of _ lg'] conjI impI run same okk bits(3,4) sub dsub acc(1,2) sound)
qed

lemma purge_run_spec:
  assumes "arena_ok a" "sy_ok sy" "in_unit a i n" "{i..<i + n} \<subseteq> bits_of (ar_purge a)"
  shows "\<exists>a' lg'. purge_run sy i n (a, lg) = Inr ({i..<i + n} \<subseteq> bits_of (ar_free a), a', lg')
    \<and> purge_rel sy (a, lg) (a', lg') \<and> bits_of (ar_purge a') = bits_of (ar_purge a) - {i..<i + n}"
proof -
  note ok = arena_okD [OF assms(1)]
  let ?R = "{i..<i + n}"
  obtain f where f: "clear_n i n (ar_free a) = Inr (?R \<subseteq> bits_of (ar_free a), f)" "bitmap_for a f"
      "bits_of f = (if ?R \<subseteq> bits_of (ar_free a) then bits_of (ar_free a) - ?R else bits_of (ar_free a))"
    using unit_ops(2) [OF ok(1) assms(3) ok(5)] by blast
  define a1 where "a1 = a\<lparr>ar_free := f\<rparr>"
  have same1: "same_arena a a1" by (simp add: a1_def same_arena_def)
  have ok1: "arena_ok a1" using ok f(2) by (intro arena_ok_same [OF assms(1) same1]) (simp_all add: a1_def)
  have eqs: "ar_purge a1 = ar_purge a" "ar_commit a1 = ar_commit a" "ar_dirty a1 = ar_dirty a" "bits_of (ar_free a1) = bits_of f"
    by (simp_all add: a1_def)
  obtain p where p: "clear_n i n (ar_purge a) = Inr (?R \<subseteq> bits_of (ar_purge a), p)" "bitmap_for a p"
      "bits_of p = bits_of (ar_purge a) - ?R"
    using unit_ops(2) [OF ok(3) assms(3) ok(5)] assms(4) by (metis (no_types))
  show ?thesis
  proof (cases "?R \<subseteq> bits_of (ar_free a)")
    case True
    have "in_unit a1 i n" "?R \<inter> bits_of (ar_free a1) = {}"
      using assms(3) f(3) True by (auto simp: a1_def)
    from purge_claimed_spec [OF ok1 assms(2) this, of lg] obtain a2 lg' where
      run: "purge_claimed sy i n (a1, lg) = Inr (a2, lg')" and same2: "same_arena a1 a2" and ok2: "arena_ok a2"
      and b: "ar_purge a2 = ar_purge a1" "bits_of (ar_free a2) = bits_of (ar_free a1) \<union> ?R"
        "bits_of (ar_commit a2) \<subseteq> bits_of (ar_commit a1)" "bits_of (ar_commit a1) - ?R \<subseteq> bits_of (ar_commit a2)"
        "bits_of (ar_dirty a2) \<subseteq> bits_of (ar_dirty a1)" "bits_of (ar_dirty a1) - ?R \<subseteq> bits_of (ar_dirty a2)"
      and acc: "accessible lg - slice_bytes a1 i n \<subseteq> accessible lg'" "mapped lg' = mapped lg"
      and sound: "\<not> sy_hard sy \<or> ?R \<subseteq> bits_of (ar_commit a1) \<longrightarrow> commit_sound a1 lg \<longrightarrow> commit_sound a2 lg'"
      by blast
    define a3 where "a3 = a2\<lparr>ar_purge := p\<rparr>"
    have run': "purge_run sy i n (a, lg) = Inr (True, a3, lg')"
      using f(1) p(1) run True b(1) eqs(1) by (simp add: purge_run_def a1_def a3_def)
    have same: "same_arena a a3"
      using same_arena_trans [OF same1 same2] by (simp add: a3_def same_arena_def)
    have eq3: "bits_of (ar_free a3) = bits_of (ar_free a)" "ar_commit a3 = ar_commit a2" "ar_dirty a3 = ar_dirty a2"
        "bits_of (ar_purge a3) = bits_of (ar_purge a) - ?R"
      using True b(2) f(3) p(3) by (auto simp: a3_def eqs)
    have okk: "arena_ok a3"
      by (rule arena_ok_same [OF assms(1) same])
        (use arena_okD [OF ok2] p(2) same_arena_range(3) [OF same_arena_trans [OF same1 same2]] in \<open>simp_all add: a3_def\<close>)
    have sub: "bits_of (ar_commit a) - bits_of (ar_free a) \<subseteq> bits_of (ar_commit a3)"
      "bits_of (ar_dirty a) - bits_of (ar_free a) \<subseteq> bits_of (ar_dirty a3)"
      "bits_of (ar_commit a3) \<subseteq> bits_of (ar_commit a)" "bits_of (ar_dirty a3) \<subseteq> bits_of (ar_dirty a)"
      using b(3-6) True unfolding eq3 eqs by blast+
    have "slice_bytes a i n \<subseteq> area a (bits_of (ar_free a))"
      using True area_mono [of ?R _ a] by (simp add: slice_bytes_area)
    then have acc': "accessible lg - area a (bits_of (ar_free a)) \<subseteq> accessible lg'"
      using acc(1) by (auto simp: a1_def)
    have "purge_safe sy a3 \<and> commit_sound a3 lg'" if "purge_safe sy a" "commit_sound a lg"
    proof
      show "purge_safe sy a3"
        using that(1) b(4) unfolding purge_safe_def eq3 eqs by blast
      have "commit_sound a2 lg'"
        using that assms(4) sound by (auto simp: purge_safe_def eqs commit_sound_def a1_def)
      then show "commit_sound a3 lg'" by (simp add: a3_def commit_sound_area area_def)
    qed
    then have "purge_rel sy (a, lg) (a3, lg')"
      unfolding purge_rel_def prod.case eq3(1) eq3(4)
      by (intro conjI impI same okk sub acc' acc(2) refl Diff_subset) blast+
    moreover have "purge_run sy i n (a, lg) = Inr (?R \<subseteq> bits_of (ar_free a), a3, lg')" using run' True by simp
    ultimately show ?thesis using eq3(4) by (intro exI conjI)
  next
    case False
    define a3 where "a3 = a1\<lparr>ar_purge := p\<rparr>"
    have run': "purge_run sy i n (a, lg) = Inr (False, a3, lg)"
      unfolding purge_run_def prod.case f(1) using False p(1) by (simp add: a1_def a3_def)
    have same: "same_arena a a3" by (simp add: a3_def a1_def same_arena_def)
    have okk: "arena_ok a3"
      using ok f(2) p(2) by (intro arena_ok_same [OF assms(1) same]) (simp_all add: a3_def a1_def)
    have "purge_rel sy (a, lg) (a3, lg)"
      using same okk False f(3) p(3)
      by (auto simp: purge_rel_def a3_def a1_def purge_safe_def commit_sound_area area_def)
    moreover have "bits_of (ar_purge a3) = bits_of (ar_purge a) - ?R" using p(3) by (simp add: a3_def)
    moreover have "purge_run sy i n (a, lg) = Inr (?R \<subseteq> bits_of (ar_free a), a3, lg)" using run' False by simp
    ultimately show ?thesis by (intro exI conjI)
  qed
qed

lemma is_set_at: "bm_inv bm \<Longrightarrow> idx < max_bits bm \<Longrightarrow> is_set idx bm = Inr (idx \<in> bits_of bm)"
  by (simp add: bm_inv_def max_bits_eq bits_of_def is_set_spec div_less_iff_less_mult mult.commute)

lemma purge_extend_spec:
  assumes "bm_inv bm" "sc \<le> max_bits bm" "e \<le> sc" "e \<le> fe"
  shows "\<exists>e'. purge_extend bm sc fe e = Inr e' \<and> e \<le> e' \<and> e' \<le> sc \<and> e' \<le> fe \<and> {e..<e'} \<subseteq> bits_of bm"
  using assms
proof (induction bm sc fe e rule: purge_extend.induct)
  case (1 bm sc fe e)
  show ?case
  proof (cases "e < sc \<and> e < fe \<and> e \<in> bits_of bm")
    case True
    then have s: "is_set e bm = Inr True" using is_set_at [OF 1(2), of e] 1(3) by simp
    obtain e' where e': "purge_extend bm sc fe (e + 1) = Inr e'" "e + 1 \<le> e'" "e' \<le> sc" "e' \<le> fe" "{e + 1..<e'} \<subseteq> bits_of bm"
      using 1(1) [OF _ s TrueI 1(2,3)] True by auto
    have "{e..<e'} = insert e {e + 1..<e'}" using e'(2) by auto
    then show ?thesis
      using e' True s by (intro exI [of _ e']) (simp add: purge_extend.simps [of bm sc fe e])
  next
    case False
    then have "purge_extend bm sc fe e = Inr e"
      using 1(3) is_set_at [OF 1(2), of e] by (subst purge_extend.simps) auto
    then show ?thesis using 1(4,5) by (intro exI [of _ e]) simp
  qed
qed

lemma field_end_unit:
  assumes "e \<le> (idx div FIELD_BITS + 1) * FIELD_BITS" "idx < e" "e \<le> ar_slice_count a"
  shows "in_unit a idx (e - idx)"
proof -
  define q r where "q = idx div 512" and "r = idx mod 512"
  have idx: "idx = 512 * q + r" "r < 512" by (simp_all add: q_def r_def)
  have "idx = 64 * (8 * q) + r" by (simp add: idx(1))
  then have "idx div 64 = 8 * q + r div 64" by (metis add.commute div_mult_self2 mult.commute numeral_eq_iff zero_neq_numeral)
  moreover have "r div 64 \<le> 7" using idx(2) by simp
  moreover have "e \<le> 64 * (idx div 64) + 64" using assms(1) by (simp add: mi_consts)
  ultimately have "e \<le> 512 * q + 512" by linarith
  then have "idx mod 512 + (e - idx) \<le> 512" unfolding r_def [symmetric] using idx by linarith
  then show ?thesis using assms by (simp add: in_unit_def mi_consts)
qed

lemma purge_loop_spec:
  assumes "sy_ok sy" "arena_ok a" "sc = ar_slice_count a"
  shows "\<exists>did a' lg'. purge_loop sy sc idx purged (a, lg) = Inr (did, a', lg') \<and> purge_rel sy (a, lg) (a', lg')
    \<and> bits_of (ar_purge a') = bits_of (ar_purge a) - {idx..<sc}"
  using assms
proof (induction "sc - idx" arbitrary: idx purged a lg rule: less_induct)
  case less
  note ok = arena_okD [OF less(3)]
  have inv: "bm_inv (ar_purge a)" and len: "sc \<le> max_bits (ar_purge a)"
    using bitmap_forD [OF ok(3)] ok(5) less(4) by simp_all
  consider (stop) "sc \<le> idx" | (skip) "idx < sc" "idx \<notin> bits_of (ar_purge a)" | (run) "idx < sc" "idx \<in> bits_of (ar_purge a)"
    by linarith
  then show ?case
  proof cases
    case stop
    then have "purge_loop sy sc idx purged (a, lg) = Inr (purged, a, lg)" by (simp add: purge_loop.simps)
    then show ?thesis using stop purge_rel_refl [OF less(3)] by (intro exI conjI) auto
  next
    case skip
    then have "is_set idx (ar_purge a) = Inr False" using is_set_at [OF inv] len skip by simp
    then have "purge_loop sy sc idx purged (a, lg) = purge_loop sy sc (idx + 1) purged (a, lg)"
      using skip(1) by (simp add: purge_loop.simps [of sy sc idx])
    moreover have "{idx..<sc} = insert idx {idx + 1..<sc}" using skip(1) by auto
    then have "bits_of (ar_purge a) - {idx..<sc} = bits_of (ar_purge a) - {idx + 1..<sc}"
      using skip(2) by simp
    ultimately show ?thesis using less(1) [of "idx + 1" a purged lg] skip(1) less(2-4) by simp
  next
    case run
    define fe where "fe = (idx div FIELD_BITS + 1) * FIELD_BITS"
    have s: "is_set idx (ar_purge a) = Inr True" using is_set_at [OF inv] len run by simp
    have "idx + 1 \<le> fe" by (simp add: fe_def mi_consts less_eq_Suc_le [symmetric] dividend_less_times_div)
    then obtain e where e: "purge_extend (ar_purge a) sc fe (idx + 1) = Inr e" "idx + 1 \<le> e" "e \<le> sc" "e \<le> fe"
        "{idx + 1..<e} \<subseteq> bits_of (ar_purge a)"
      using purge_extend_spec [OF inv len, of "idx + 1" fe] run(1) by auto
    have R: "{idx..<idx + (e - idx)} = insert idx {idx + 1..<e}" "{idx..<idx + (e - idx)} = {idx..<e}" using e(2) by auto
    have unit: "in_unit a idx (e - idx)"
      using e(2-4) less(4) by (intro field_end_unit) (simp_all add: fe_def)
    have "{idx..<e} \<subseteq> bits_of (ar_purge a)" unfolding R(2) [symmetric] R(1) using e(5) run(2) by simp
    from purge_run_spec [OF less(3,2) unit, unfolded R(2), OF this, of lg]
    obtain did b lgb where r: "purge_run sy idx (e - idx) (a, lg) = Inr (did, b, lgb)"
        and rel: "purge_rel sy (a, lg) (b, lgb)" and pb: "bits_of (ar_purge b) = bits_of (ar_purge a) - {idx..<e}"
      by (elim exE conjE) (rule that)
    have b: "arena_ok b" "sc = ar_slice_count b"
      using rel less(4) by (simp_all add: purge_rel_def same_arena_def)
    have "sc - e < sc - idx" using e(2) run(1) by linarith
    from less(1) [OF this less(2) b, of "purged \<or> did" lgb]
    obtain did' c lgc where c: "purge_loop sy sc e (purged \<or> did) (b, lgb) = Inr (did', c, lgc)"
        "purge_rel sy (b, lgb) (c, lgc)" "bits_of (ar_purge c) = bits_of (ar_purge b) - {e..<sc}"
      by (elim exE conjE) (rule that)
    have "purge_loop sy sc idx purged (a, lg) = Inr (did', c, lgc)"
      using run(1) s e(1) r c(1) by (simp add: purge_loop.simps [of sy sc idx] fe_def Let_def)
    moreover have "bits_of (ar_purge c) = bits_of (ar_purge a) - {idx..<sc}"
      unfolding c(3) pb using e(2,3) by force
    ultimately show ?thesis using purge_rel_trans [OF rel c(2)] by (intro exI conjI)
  qed
qed

lemma run_purge_spec:
  assumes "sy_ok sy" "arena_ok a"
  shows "\<exists>did a' lg'. run_purge sy (a, lg) = Inr (did, a', lg') \<and> purge_rel sy (a, lg) (a', lg') \<and> bits_of (ar_purge a') = {}"
  using purge_loop_spec [OF assms refl, of 0 False lg] bitmap_forD(3) [OF arena_okD(3) [OF assms(2)]]
  by (fastforce simp: run_purge_def)

section \<open>Freeing and allocating\<close>

text \<open>
  The part of a purge's contract that does not mention the schedule, between states whose free
  sets may differ: outside \<open>F\<close> everything committed, dirty and accessible stays so.
\<close>

definition keeps_used :: "sys \<Rightarrow> nat set \<Rightarrow> arena \<times> os_log \<Rightarrow> arena \<times> os_log \<Rightarrow> bool" where
  "keeps_used sy F = (\<lambda>(a, lg) (a', lg'). same_arena a a' \<and> arena_ok a'
    \<and> bits_of (ar_commit a) - F \<subseteq> bits_of (ar_commit a') \<and> bits_of (ar_dirty a) - F \<subseteq> bits_of (ar_dirty a')
    \<and> accessible lg - area a F \<subseteq> accessible lg' \<and> mapped lg' = mapped lg)"

lemma purge_rel_keeps:
  assumes "purge_rel sy (a, lg) (a', lg')"
  shows "keeps_used sy (bits_of (ar_free a)) (a, lg) (a', lg')" "bits_of (ar_free a') = bits_of (ar_free a)"
    "purge_safe sy a \<Longrightarrow> commit_sound a lg \<Longrightarrow> purge_safe sy a' \<and> commit_sound a' lg'"
  using assms by (simp_all add: purge_rel_def keeps_used_def)

lemma schedule_purge_spec:
  assumes "arena_ok a" "sy_ok sy" "in_unit a i n"
  shows "\<exists>a' lg'. schedule_purge sy now i n (a, lg) = Inr (a', lg') \<and> bits_of (ar_free a') = bits_of (ar_free a)
    \<and> keeps_used sy (bits_of (ar_free a)) (a, lg) (a', lg')
    \<and> (purge_safe sy a \<longrightarrow> commit_sound a lg \<longrightarrow> (sy_hard sy \<longrightarrow> {i..<i + n} \<subseteq> bits_of (ar_commit a)) \<longrightarrow>
         purge_safe sy a' \<and> commit_sound a' lg')
    \<and> bits_of (ar_purge a') = (if arena_purge_delay (sy_vals sy) < 0 \<or> mi_is_pinned (ar_memid a) then bits_of (ar_purge a)
        else if arena_purge_delay (sy_vals sy) = 0 then {} else bits_of (ar_purge a) \<union> {i..<i + n})"
proof (cases "arena_purge_delay (sy_vals sy) < 0 \<or> mi_is_pinned (ar_memid a)")
  case True
  then have "schedule_purge sy now i n (a, lg) = Inr (a, lg)" by (auto simp: schedule_purge_def Let_def)
  with True assms(1) show ?thesis by (auto simp: keeps_used_def)
next
  case False
  note ok = arena_okD [OF assms(1)]
  obtain p where p: "set_n i n (ar_purge a) = Inr ({i..<i + n} \<inter> bits_of (ar_purge a) = {}, p)" "bitmap_for a p"
      "bits_of p = bits_of (ar_purge a) \<union> {i..<i + n}"
    using unit_ops(1) [OF ok(3) assms(3) ok(5)] by blast
  define a1 where "a1 = a\<lparr>ar_purge := p\<rparr>"
  have same: "same_arena a a1" by (simp add: a1_def same_arena_def)
  have ok1: "arena_ok a1" using ok p(2) by (intro arena_ok_same [OF assms(1) same]) (simp_all add: a1_def)
  have safe: "purge_safe sy a1 \<and> commit_sound a1 lg"
    if "purge_safe sy a" "commit_sound a lg" "sy_hard sy \<longrightarrow> {i..<i + n} \<subseteq> bits_of (ar_commit a)"
    using that p(3) by (auto simp: purge_safe_def a1_def commit_sound_area area_def)
  show ?thesis
  proof (cases "arena_purge_delay (sy_vals sy) = 0")
    case True
    obtain did a' lg' where r: "run_purge sy (a1, lg) = Inr (did, a', lg')" "purge_rel sy (a1, lg) (a', lg')"
        "bits_of (ar_purge a') = {}"
      using run_purge_spec [OF assms(2) ok1] by blast
    note pr = purge_rel_keeps [OF r(2)]
    have "schedule_purge sy now i n (a, lg) = Inr (a', lg')"
      using False True p(1) r(1) by (simp add: schedule_purge_def a1_def Let_def)
    moreover have "keeps_used sy (bits_of (ar_free a)) (a, lg) (a', lg')"
      using pr(1) same_arena_trans [OF same] by (simp add: keeps_used_def a1_def area_def)
    moreover have "bits_of (ar_free a') = bits_of (ar_free a)" using pr(2) by (simp add: a1_def)
    ultimately show ?thesis using pr(3) safe r(3) False True by auto
  next
    case nz: False
    define a' where "a' = (if ar_purge_expire a1 = 0
      then a1\<lparr>ar_purge_expire := saturating_add_i64 now (arena_purge_delay (sy_vals sy))\<rparr> else a1)"
    have run: "schedule_purge sy now i n (a, lg) = Inr (a', lg)"
      using False nz p(1) by (simp add: schedule_purge_def a1_def a'_def Let_def)
    have same': "same_arena a a'" by (simp add: a'_def a1_def same_arena_def)
    have bits: "ar_free a' = ar_free a" "ar_commit a' = ar_commit a" "ar_dirty a' = ar_dirty a"
        "bits_of (ar_purge a') = bits_of (ar_purge a) \<union> {i..<i + n}"
      by (simp_all add: a'_def a1_def p(3))
    have "arena_ok a'"
      using ok p(2) by (intro arena_ok_same [OF assms(1) same']) (simp_all add: a'_def a1_def)
    then have keep: "keeps_used sy (bits_of (ar_free a)) (a, lg) (a', lg)"
      using same' by (auto simp: keeps_used_def bits)
    have "purge_safe sy a' \<and> commit_sound a' lg"
      if "purge_safe sy a" "commit_sound a lg" "sy_hard sy \<longrightarrow> {i..<i + n} \<subseteq> bits_of (ar_commit a)"
      using that by (auto simp: purge_safe_def bits commit_sound_area area_same [OF same'])
    then show ?thesis using run keep False nz bits(1,4) by auto
  qed
qed

lemma free_slices_spec:
  assumes "arena_ok a" "sy_ok sy" "in_unit a i n"
  shows "\<exists>a' lg'. free_slices sy now i n (a, lg) = Inr (a', lg') \<and> bits_of (ar_free a') = bits_of (ar_free a) \<union> {i..<i + n}
    \<and> keeps_used sy (bits_of (ar_free a) \<union> {i..<i + n}) (a, lg) (a', lg')
    \<and> (purge_safe sy a \<longrightarrow> commit_sound a lg \<longrightarrow> (sy_hard sy \<longrightarrow> {i..<i + n} \<subseteq> bits_of (ar_commit a)) \<longrightarrow>
         purge_safe sy a' \<and> commit_sound a' lg')
    \<and> bits_of (ar_purge a') = (if arena_purge_delay (sy_vals sy) < 0 \<or> mi_is_pinned (ar_memid a) then bits_of (ar_purge a)
        else if arena_purge_delay (sy_vals sy) = 0 then {} else bits_of (ar_purge a) \<union> {i..<i + n})"
proof -
  note ok = arena_okD [OF assms(1)]
  obtain f where f: "set_n i n (ar_free a) = Inr ({i..<i + n} \<inter> bits_of (ar_free a) = {}, f)" "bitmap_for a f"
      "bits_of f = bits_of (ar_free a) \<union> {i..<i + n}"
    using unit_ops(1) [OF ok(1) assms(3) ok(5)] by blast
  define a1 where "a1 = a\<lparr>ar_free := f\<rparr>"
  have same: "same_arena a a1" by (simp add: a1_def same_arena_def)
  have ok1: "arena_ok a1" using ok f(2) by (intro arena_ok_same [OF assms(1) same]) (simp_all add: a1_def)
  have "in_unit a1 i n" using assms(3) by (simp add: a1_def)
  from schedule_purge_spec [OF ok1 assms(2) this, of now lg]
  obtain a' lg' where s: "schedule_purge sy now i n (a1, lg) = Inr (a', lg')" "bits_of (ar_free a') = bits_of (ar_free a1)"
      "keeps_used sy (bits_of (ar_free a1)) (a1, lg) (a', lg')"
    and safe: "purge_safe sy a1 \<longrightarrow> commit_sound a1 lg \<longrightarrow> (sy_hard sy \<longrightarrow> {i..<i + n} \<subseteq> bits_of (ar_commit a1)) \<longrightarrow>
         purge_safe sy a' \<and> commit_sound a' lg'"
    and pb: "bits_of (ar_purge a') = (if arena_purge_delay (sy_vals sy) < 0 \<or> mi_is_pinned (ar_memid a1) then bits_of (ar_purge a1)
        else if arena_purge_delay (sy_vals sy) = 0 then {} else bits_of (ar_purge a1) \<union> {i..<i + n})"
    by (elim exE conjE) (rule that)
  have "free_slices sy now i n (a, lg) = Inr (a', lg')" using f(1) s(1) by (simp add: free_slices_def a1_def)
  moreover have "bits_of (ar_free a') = bits_of (ar_free a) \<union> {i..<i + n}" using s(2) f(3) by (simp add: a1_def)
  moreover have "keeps_used sy (bits_of (ar_free a) \<union> {i..<i + n}) (a, lg) (a', lg')"
    using s(3) f(3) same_arena_trans [OF same] by (simp add: keeps_used_def a1_def area_def)
  moreover have "purge_safe sy a \<longrightarrow> commit_sound a lg \<longrightarrow> (sy_hard sy \<longrightarrow> {i..<i + n} \<subseteq> bits_of (ar_commit a)) \<longrightarrow>
         purge_safe sy a' \<and> commit_sound a' lg'"
    using safe by (simp add: a1_def purge_safe_def commit_sound_area area_def)
  moreover have "ar_memid a1 = ar_memid a" "ar_purge a1 = ar_purge a" by (simp_all add: a1_def)
  note pb [unfolded this]
  ultimately show ?thesis by (intro exI conjI)
qed

lemma set_n_panics:
  assumes "bm_inv bm" "i < max_bits bm" "CHUNK_BITS < i mod CHUNK_BITS + n"
  shows "set_n i n bm = Inl Index_Out_Of_Bounds" "is_set_n i n bm = Inr False"
proof -
  have c: "i div 512 < length (bm_chunks bm)" using assms(2) by (simp add: max_bits_eq div_less_iff_less_mult mult.commute)
  show "set_n i n bm = Inl Index_Out_Of_Bounds"
    using assms c by (intro set_n_crossing) (simp_all add: bm_inv_def mi_consts)
  show "is_set_n i n bm = Inr False"
    using assms(3) c by (simp add: is_set_n_def chunk_of_def mi_consts chunk_at_ok)
qed

text \<open>What a claim of slices leaves behind.\<close>

definition handed_out :: "sys \<Rightarrow> nat \<Rightarrow> arena \<times> os_log \<Rightarrow> nat \<times> ptr \<times> bool \<Rightarrow> arena \<times> os_log \<Rightarrow> bool" where
  "handed_out sy n = (\<lambda>(a, lg) (i, p, zero) (a', lg'). in_unit a i n \<and> {i..<i + n} \<subseteq> bits_of (ar_free a)
    \<and> p = slice_ptr a i \<and> bits_of (ar_free a') = bits_of (ar_free a) - {i..<i + n}
    \<and> bits_of (ar_commit a') = bits_of (ar_commit a) \<union> {i..<i + n} \<and> bits_of (ar_dirty a') = bits_of (ar_dirty a) \<union> {i..<i + n}
    \<and> (zero \<longleftrightarrow> mi_initially_zero (ar_memid a) \<and> {i..<i + n} \<inter> bits_of (ar_dirty a) = {})
    \<and> (commit_sound a lg \<longrightarrow> slice_bytes a i n \<subseteq> accessible lg' \<and> commit_sound a' lg')
    \<and> accessible lg \<subseteq> accessible lg' \<and> mapped lg' = mapped lg \<and> same_arena a a' \<and> arena_ok a' \<and> ar_purge a' = ar_purge a)"

text \<open>A refused claim: no run, or the OS refused to commit the run that was found.\<close>

definition not_handed_out :: "sys \<Rightarrow> nat \<Rightarrow> arena \<times> os_log \<Rightarrow> arena \<times> os_log \<Rightarrow> bool" where
  "not_handed_out sy n = (\<lambda>(a, lg) (a', lg'). bits_of (ar_free a') = bits_of (ar_free a)
    \<and> keeps_used sy (bits_of (ar_free a)) (a, lg) (a', lg')
    \<and> ((a', lg') = (a, lg) \<and> (\<forall>i. i mod CHUNK_BITS + n \<le> CHUNK_BITS \<longrightarrow> \<not> {i..<i + n} \<subseteq> bits_of (ar_free a))
       \<or> (\<exists>i. in_unit a i n \<and> {i..<i + n} \<subseteq> bits_of (ar_free a) \<and> \<not> {i..<i + n} \<subseteq> bits_of (ar_commit a)
           \<and> fst (os_commit (sy_libc sy) (sy_cfg sy) (slice_ptr a i) (of_nat (n * MI_ARENA_SLICE_SIZE)) lg) = None))
    \<and> (\<not> sy_hard sy \<longrightarrow> commit_sound a lg \<longrightarrow> commit_sound a' lg'))"

lemma alloc_slices_spec:
  assumes "arena_ok a" "sy_ok sy" "0 < n" "n \<le> CHUNK_BITS"
  shows "\<exists>r a' lg'. alloc_slices sy now n tseq (a, lg) = Inr (r, a', lg')
    \<and> (case r of Some got \<Rightarrow> handed_out sy n (a, lg) got (a', lg') | None \<Rightarrow> not_handed_out sy n (a, lg) (a', lg'))"
proof -
  note ok = arena_okD [OF assms(1)]
  from slices.claim_unit [OF bitmap_forD(1) [OF ok(1)] assms(3,4), of tseq]
  consider (found) i f where "try_find_and_clear_n n tseq (ar_free a) = Inr (Some i, f)" "i + n \<le> max_bits (ar_free a)"
      "i mod CHUNK_BITS + n \<le> CHUNK_BITS" "{i..<i + n} \<subseteq> bits_of (ar_free a)"
      "bits_of f = bits_of (ar_free a) - {i..<i + n}" "bm_inv f" "max_bits f = max_bits (ar_free a)"
    | (none) "try_find_and_clear_n n tseq (ar_free a) = Inr (None, ar_free a)"
      "\<forall>k. k mod CHUNK_BITS + n \<le> CHUNK_BITS \<longrightarrow> \<not> {k..<k + n} \<subseteq> bits_of (ar_free a)"
    by blast
  then show ?thesis
  proof cases
    case none
    then have "alloc_slices sy now n tseq (a, lg) = Inr (None, a, lg)" by (simp add: alloc_slices_def)
    moreover have "not_handed_out sy n (a, lg) (a, lg)"
      using none(2) assms(1) by (simp add: not_handed_out_def keeps_used_def)
    ultimately show ?thesis by fastforce
  next
    case found
    let ?R = "{i..<i + n}"
    have "i + n - 1 \<in> ?R" using assms(3) by simp
    then have lim: "i + n \<le> ar_slice_count a" using found(4) bitmap_forD(3) [OF ok(1)] assms(3) by fastforce
    then have unit: "in_unit a i n" using found(3) assms(3) by (simp add: in_unit_def)
    have ff: "bitmap_for a f" using found(5-7) bitmap_forD [OF ok(1)] by (auto simp: bitmap_for_def)
    define a1 where "a1 = a\<lparr>ar_free := f\<rparr>"
    have same1: "same_arena a a1" by (simp add: a1_def same_arena_def)
    have ok1: "arena_ok a1" using ok ff by (intro arena_ok_same [OF assms(1) same1]) (simp_all add: a1_def)
    have unit1: "in_unit a1 i n" using unit by (simp add: a1_def)
    have cs1: "commit_sound a lg \<Longrightarrow> commit_sound a1 lg" by (simp add: a1_def commit_sound_area area_def)
    from ensure_committed_spec [OF ok1 assms(2) unit1, of lg] obtain yes c lg1 where
      e: "ensure_committed sy i n (a1, lg) = Inr (yes, a1\<lparr>ar_commit := c\<rparr>, lg1)" "bitmap_for a1 c"
        "bits_of c = (if yes then bits_of (ar_commit a1) \<union> ?R else bits_of (ar_commit a1))"
        "accessible lg \<subseteq> accessible lg1" "mapped lg1 = mapped lg" "commit_sound a1 lg \<longrightarrow> commit_sound (a1\<lparr>ar_commit := c\<rparr>) lg1"
        "\<not> yes \<longrightarrow> c = ar_commit a1
        \<and> fst (os_commit (sy_libc sy) (sy_cfg sy) (slice_ptr a1 i) (of_nat (n * MI_ARENA_SLICE_SIZE)) lg) = None"
      by (elim exE conjE) (rule that)
    define a2 where "a2 = a1\<lparr>ar_commit := c\<rparr>"
    have same2: "same_arena a a2" by (simp add: a2_def a1_def same_arena_def)
    have ok2: "arena_ok a2"
      using ok ff e(2) by (intro arena_ok_same [OF assms(1) same2]) (simp_all add: a2_def a1_def)
    have unit2: "in_unit a2 i n" using unit same_arena_range(1) [OF same2] by simp
    show ?thesis
    proof (cases yes)
      case True
      obtain d where d: "set_n i n (ar_dirty a) = Inr (?R \<inter> bits_of (ar_dirty a) = {}, d)" "bitmap_for a d"
          "bits_of d = bits_of (ar_dirty a) \<union> ?R"
        using unit_ops(1) [OF ok(4) unit ok(5)] by blast
      define z where "z \<longleftrightarrow> mi_initially_zero (ar_memid a) \<and> ?R \<inter> bits_of (ar_dirty a) = {}"
      define a3 where "a3 = a2\<lparr>ar_dirty := d\<rparr>"
      have "alloc_slices sy now n tseq (a, lg) = Inr (Some (i, slice_ptr a i, z), a3, lg1)"
        using found(1) e(1) True d(1) unit_ops(4) [OF ok(4) unit ok(5)]
        by (auto simp: alloc_slices_def a1_def [symmetric] a2_def [symmetric])
          (simp_all add: z_def a3_def a2_def a1_def slice_ptr_def)
      moreover have same3: "same_arena a a3" by (simp add: a3_def a2_def a1_def same_arena_def)
      then have "arena_ok a3"
        using ok ff e(2) d(2) by (intro arena_ok_same [OF assms(1) same3]) (simp_all add: a3_def a2_def a1_def)
      have com: "bits_of (ar_commit a3) = bits_of (ar_commit a) \<union> ?R" using e(3) True by (simp add: a3_def a2_def a1_def)
      have cs: "commit_sound a3 lg1" if "commit_sound a lg"
        using e(6) cs1 [OF that] by (simp add: a3_def a2_def commit_sound_area area_def)
      then have "slice_bytes a i n \<subseteq> accessible lg1" if "commit_sound a lg"
        using that unfolding slice_bytes_area commit_sound_area area_same [OF same3] com area_Un by blast
      with com cs have "handed_out sy n (a, lg) (i, slice_ptr a i, z) (a3, lg1)"
        using unit found(4,5) e(4,5) d(3) same3 \<open>arena_ok a3\<close>
        by (simp add: handed_out_def z_def) (simp add: a3_def a2_def a1_def)
      ultimately show ?thesis by fastforce
    next
      case False
      then have c: "a2 = a1" using e(7) by (simp add: a2_def)
      have refused: "fst (os_commit (sy_libc sy) (sy_cfg sy) (slice_ptr a i) (of_nat (n * MI_ARENA_SLICE_SIZE)) lg) = None"
        using e(7) False same_arena_range(4) [OF same1] by metis
      have nc: "\<not> ?R \<subseteq> bits_of (ar_commit a)"
      proof
        assume "?R \<subseteq> bits_of (ar_commit a)"
        then have "is_set_n i n (ar_commit a1) = Inr True"
          using unit_ops(3) [OF ok(2) unit ok(5)] by (simp add: a1_def)
        then show False using e(1) False by (simp add: ensure_committed_def)
      qed
      from free_slices_spec [OF ok2 assms(2) unit2, of now lg1] obtain a4 lg4 where
        fr: "free_slices sy now i n (a2, lg1) = Inr (a4, lg4)" "bits_of (ar_free a4) = bits_of (ar_free a2) \<union> ?R"
          "keeps_used sy (bits_of (ar_free a2) \<union> ?R) (a2, lg1) (a4, lg4)"
          "purge_safe sy a2 \<longrightarrow> commit_sound a2 lg1 \<longrightarrow> (sy_hard sy \<longrightarrow> ?R \<subseteq> bits_of (ar_commit a2)) \<longrightarrow>
            purge_safe sy a4 \<and> commit_sound a4 lg4"
        by (elim exE conjE) (rule that)
      have fa: "bits_of (ar_free a2) \<union> ?R = bits_of (ar_free a)" using found(4,5) by (auto simp: c a1_def)
      have "alloc_slices sy now n tseq (a, lg) = Inr (None, a4, lg4)"
        using found(1) e(1) False fr(1) by (simp add: alloc_slices_def a1_def [symmetric] a2_def [symmetric])
      moreover have "keeps_used sy (bits_of (ar_free a)) (a, lg) (a4, lg4)"
        using fr(3) e(4,5) same_arena_trans [OF same2] area_same [OF same2] unfolding fa
        by (auto simp: keeps_used_def c a1_def)
      moreover have "commit_sound a4 lg4" if "\<not> sy_hard sy" "commit_sound a lg"
        using fr(4) that e(6) cs1 by (simp add: purge_safe_def a2_def)
      ultimately show ?thesis
        using fr(2) fa unit found(4) nc refused
        by (intro exI [of _ None] exI [of _ a4] exI [of _ lg4]) (simp add: not_handed_out_def del: of_nat_mult, blast)
    qed
  qed
qed

section \<open>Creation\<close>

lemma bm_inv_empty [simp]: "bm_inv (empty_bitmap cc)" "max_bits (empty_bitmap cc) = 512 * cc" "bits_of (empty_bitmap cc) = {}"
  if "cc \<le> 512"
  using that by (auto simp: bm_inv_def bm_ok_def conservative_def bm_bit_def empty_bitmap_def max_bits_eq bits_of_def
      chunk_zeroed_def mi_consts cbit_def)

lemma unsafe_set_empty:
  assumes "n \<le> 512 * cc" "cc \<le> 512"
  shows "\<exists>bm. unsafe_set_n 0 n (empty_bitmap cc) = Inr bm \<and> bm_inv bm \<and> max_bits bm = 512 * cc \<and> bits_of bm = {..<n}"
proof -
  have len: "0 + n \<le> 512 * length (bm_chunks (empty_bitmap cc))" using assms(1) by (simp add: empty_bitmap_def)
  obtain bm where bm: "unsafe_set_n 0 n (empty_bitmap cc) = Inr bm" "bm_inv bm"
      "length (bm_chunks bm) = length (bm_chunks (empty_bitmap cc))"
      "\<forall>i. bm_bit bm i \<longleftrightarrow> bm_bit (empty_bitmap cc) i \<or> 0 \<le> i \<and> i < 0 + n"
    using unsafe_set_n_spec [OF bm_inv_empty(1) [OF assms(2)] len] by blast
  have "\<not> bm_bit (empty_bitmap cc) i" for i
    using bm_inv_empty(3) [OF assms(2)] by (auto simp: bits_of_def)
  then have "bits_of bm = {..<n}" using bm(4) by (auto simp: bits_of_def)
  then show ?thesis using bm(1-3) by (simp add: max_bits_eq empty_bitmap_def)
qed

lemma new_arena_spec:
  assumes "start \<noteq> 0" "65536 dvd unat start" "unat start + 65536 * sc < 2 ^ 63" "sc \<le> 512 * cc" "cc \<le> 512"
  shows "\<exists>a. new_arena memid start sc cc bm_mem desc commit = Inr a \<and> arena_ok a \<and> ar_memid a = memid \<and> ar_start a = start
    \<and> ar_slice_count a = sc \<and> ar_chunk_count a = cc \<and> ar_bm_mem a = bm_mem \<and> ar_desc a = desc \<and> ar_abandoned a = None
    \<and> ar_abandoned_memid a = None \<and> bits_of (ar_free a) = {..<sc} \<and> bits_of (ar_commit a) = (if commit then {..<sc} else {})
    \<and> bits_of (ar_purge a) = {} \<and> bits_of (ar_dirty a) = (if mi_initially_zero memid then {} else {..<sc})"
proof -
  obtain f where f: "unsafe_set_n 0 sc (empty_bitmap cc) = Inr f" "bm_inv f" "max_bits f = 512 * cc" "bits_of f = {..<sc}"
    using unsafe_set_empty [OF assms(4,5)] by blast
  show ?thesis
    using f assms by (auto simp: new_arena_def Let_def arena_ok_def bitmap_for_def)
qed

lemma chunks_for_bounds: "n \<le> 512 * chunks_for n"
proof -
  have "n \<le> 512 * nat_div_ceil n 512" using nat_div_ceil_le [of 512 n] by (simp add: mult.commute)
  then show ?thesis unfolding chunks_for_def mi_consts by (simp add: max_def)
qed

text \<open>What a creation leaves behind: the arena, over memory that was not mapped before, and its bookkeeping.\<close>

definition created :: "nat \<Rightarrow> bool \<Rightarrow> meta \<times> os_log \<Rightarrow> arena \<Rightarrow> meta \<times> os_log \<Rightarrow> bool" where
  "created sc commit = (\<lambda>(ms, lg) a (ms', lg'). arena_ok a \<and> ar_slice_count a = sc \<and> ar_chunk_count a \<le> 126
    \<and> slice_bytes a 0 sc \<inter> mapped lg = {} \<and> slice_bytes a 0 sc \<subseteq> mapped lg' \<and> slice_bytes a 0 sc \<inter> regions ms' = {}
    \<and> bits_of (ar_free a) = {..<sc} \<and> bits_of (ar_commit a) = (if commit then {..<sc} else {})
    \<and> bits_of (ar_purge a) = {} \<and> bits_of (ar_dirty a) = (if mi_initially_zero (ar_memid a) then {} else {..<sc})
    \<and> commit_sound a lg' \<and> ar_abandoned a = None \<and> ar_abandoned_memid a = None
    \<and> bytes (mi_base (ar_memid a)) (mi_size (ar_memid a)) = slice_bytes a 0 sc \<and> 65536 dvd unat (mi_base (ar_memid a))
    \<and> holds ms' 3 (ar_desc a) \<and> holds ms' (4 * (ar_chunk_count a + 1)) (ar_bm_mem a)
    \<and> block_bytes (ar_desc a) 3 \<inter> block_bytes (ar_bm_mem a) (4 * (ar_chunk_count a + 1)) = {}
    \<and> (\<forall>m q. holds ms m q \<longrightarrow> block_bytes q m \<inter> (block_bytes (ar_desc a) 3 \<union> block_bytes (ar_bm_mem a) (4 * (ar_chunk_count a + 1))) = {}))"

text \<open>A region mapped and unmapped again around an extension of the bookkeeping.\<close>

lemma region_released:
  assumes "munmap_law lc cfg" "unat (page_size cfg) dvd 65536" "65536 dvd unat (mi_base m)"
    and "bytes (mi_base m) (mi_size m) = D" "D \<inter> mapped lg = {}" "mapped lg1 = mapped lg \<union> D" "extends (mapped lg) rw lg lg1"
    and "meta_ok ms lg" "meta_grows True (ms, lg1) (ms', lg')"
  shows "meta_grows False (ms, lg) (ms', lg')" "meta_grows False (ms, lg) (ms', os_free lc m lg')" "D \<inter> regions ms' = {}"
    "D \<subseteq> mapped lg'"
proof -
  have sub: "mapped lg \<subseteq> mapped lg1" using assms(6) by blast
  have e1: "extends (mapped lg) False lg lg1" by (rule extends_mono [OF assms(7)]) simp_all
  have e2: "extends (mapped lg) False lg1 lg'"
    using assms(9) extends_mono [OF _ sub, of True lg1 lg' False] by (simp add: meta_grows_def)
  note e = extends_trans [OF e1 e2]
  have ok: "meta_ok ms' lg'" and keep: "\<forall>m q. holds ms m q \<longrightarrow> holds ms' m q"
    and reg: "regions ms' \<subseteq> regions ms \<union> (mapped lg' - mapped lg1)"
    using assms(9) by (simp_all add: meta_grows_def)
  have old: "regions ms \<subseteq> mapped lg" by (rule regions_mapped' [OF assms(8)])
  have m1: "mapped lg1 \<subseteq> mapped lg'" by (rule meta_grows_mapped [OF assms(9)])
  show D: "D \<inter> regions ms' = {}" using reg old assms(5,6) by blast
  show "D \<subseteq> mapped lg'" using m1 assms(6) by blast
  have rm: "regions ms' \<subseteq> mapped lg'" by (rule regions_mapped' [OF ok])
  show "meta_grows False (ms, lg) (ms', lg')" using ok keep e reg sub by (auto simp: meta_grows_def)
  have "unat (page_size cfg) dvd unat (mi_base m)" using assms(2,3) dvd_trans by blast
  then have fm: "mapped (os_free lc m lg') = mapped lg' \<or> mapped (os_free lc m lg') = mapped lg' - D"
    using prim_free_mapped [OF assms(1), of "mi_base m" "mi_size m" lg'] assms(4) by (auto simp: os_free_def)
  then have rm': "regions ms' \<subseteq> mapped (os_free lc m lg')" using rm D by blast
  have "extends (mapped lg) False lg' (os_free lc m lg')" using assms(4,5) by (intro os_free_extends) simp
  from extends_trans [OF e this] have "extends (mapped lg) False lg (os_free lc m lg')" .
  moreover have "regions ms' \<subseteq> regions ms \<union> (mapped (os_free lc m lg') - mapped lg)" using reg rm' sub by blast
  ultimately show "meta_grows False (ms, lg) (ms', os_free lc m lg')"
    using keep meta_ok_regions [OF ok rm'] by (simp add: meta_grows_def)
qed

lemma arena_create_spec:
  assumes "sy_ok sy" "mmap_law (sy_libc sy) (sy_cfg sy)" "munmap_law (sy_libc sy) (sy_cfg sy)" "meta_ok ms lg" "0 < sc"
  shows "\<exists>r ms' lg'. arena_create sy sc commit (ms, lg) = Inr (r, ms', lg') \<and> meta_grows False (ms, lg) (ms', lg')
    \<and> (case r of None \<Rightarrow> True | Some a \<Rightarrow> created sc commit (ms, lg) a (ms', lg'))"
proof (cases "chunks_for sc \<le> 512")
  case False
  then have "arena_create sy sc commit (ms, lg) = Inr (None, ms, lg)" by (simp add: arena_create_def Let_def mi_consts)
  then show ?thesis using meta_grows_refl [OF assms(4)] by simp
next
  case True
  let ?cc = "chunks_for sc"
  let ?cfg = "sy_cfg sy"
  have cfg: "cfg_ok ?cfg" "unat (page_size ?cfg) dvd 65536" using assms(1) by (simp_all add: sy_ok_def)
  have scb: "sc \<le> 512 * 512" using chunks_for_bounds [of sc] True by linarith
  define z :: usize where "z = of_nat sc * of_nat MI_ARENA_SLICE_SIZE"
  have z: "unat z = 65536 * sc"
    unfolding z_def using scb by (subst unat_mult_small) (simp_all add: mi_consts unat_of_nat_small)
  have psle: "unat (page_size ?cfg) \<le> 65536" by (rule dvd_imp_le [OF cfg(2)]) simp
  have ps0: "page_size ?cfg \<noteq> 0" using cfg(2) by auto
  have szfit: "unat z + unat (page_size ?cfg) \<le> 2 ^ 64" using z scb psle by simp
  have al: "pow2_word (of_nat MI_ARENA_SLICE_SIZE) 16" by (simp add: pow2_word_def mi_consts)
  obtain d where "65536 = unat (page_size ?cfg) * d" using cfg(2) by (rule dvdE)
  then have e: "65536 * sc = sc * d * unat (page_size ?cfg)" by (metis mult.assoc mult.commute)
  have "unat (align_up z (page_size ?cfg)) = unat z"
    using ps0 unfolding align_up_unat [OF ps0 szfit] z e by (subst nat_div_ceil_mult) (simp_all add: unat_gt_0)
  then have up: "align_up z (page_size ?cfg) = z" by (simp add: word_unat_eq_iff)
  obtain q lg1 where a: "alloc_aligned (sy_libc sy) ?cfg z (of_nat MI_ARENA_SLICE_SIZE) commit lg = (q, lg1)" by fastforce
  note fresh = alloc_aligned_fresh [OF cfg(1) assms(2,3) al szfit a, unfolded up]
  note ext = alloc_aligned_extends [OF cfg(1) assms(2,3) al a]
  show ?thesis
  proof (cases q)
    case None
    then have "arena_create sy sc commit (ms, lg) = Inr (None, ms, lg1)"
      using a True by (simp add: arena_create_def Let_def z_def mi_consts)
    moreover have "mapped lg1 = mapped lg" using None fresh by simp
    then have "meta_grows False (ms, lg) (ms, lg1)"
      using meta_ok_mapped [OF assms(4)] extends_mono [OF ext, of "mapped lg" False] by (simp add: meta_grows_def)
    ultimately show ?thesis by simp
  next
    case (Some pm)
    obtain start memid where pm: "pm = (start, memid)" by fastforce
    have fr: "fresh_region lg lg1 z (max (of_nat MI_ARENA_SLICE_SIZE) (page_size ?cfg)) commit start memid"
      using fresh Some pm by simp
    have mx: "max (of_nat MI_ARENA_SLICE_SIZE) (page_size ?cfg) = 65536"
      using psle by (intro max.absorb1 [THEN trans]) (simp_all add: mi_consts word_le_nat_alt)
    have region: "start \<noteq> 0" "65536 dvd unat start" "unat start + 65536 * sc < 2 ^ 63" "bytes start z \<inter> mapped lg = {}"
      "mapped lg1 = mapped lg \<union> bytes start z" "mi_kind memid = Kind_Os" "mi_base memid = start" "mi_size memid = z"
      using fr unfolding fresh_region_def mx z by simp_all
    have pos: "0 < hot_bitmap_bytes ?cc" "unat (hot_bitmap_bytes ?cc) = 256 * (?cc + 1)"
    proof -
      show u: "unat (hot_bitmap_bytes ?cc) = 256 * (?cc + 1)"
        unfolding hot_bitmap_bytes_def HOT_BITMAPS_def sizeof_bchunk_def using True
        by (subst unat_of_nat_small) simp_all
      then show "0 < hot_bitmap_bytes ?cc" by (auto simp: word_less_nat_alt)
    qed
    have nb: "4 * (?cc + 1) = nat_div_ceil (unat (hot_bitmap_bytes ?cc)) 64" unfolding pos(2) by (simp add: nat_div_ceil_def)
    have ok1: "meta_ok ms lg1" using meta_ok_mapped [OF assms(4)] region(5) by simp
    have base: "65536 dvd unat (mi_base memid)" "bytes (mi_base memid) (mi_size memid) = bytes start z"
      using region by simp_all
    note released = region_released [OF assms(3) cfg(2) base region(4,5) ext assms(4)]
    obtain r2 ms2 lg2 where m2: "meta_zalloc (sy_libc sy) ?cfg (hot_bitmap_bytes ?cc) (ms, lg1) = Inr (r2, ms2, lg2)"
        "meta_ok ms2 lg2" "case r2 of Some p \<Rightarrow> zalloc_result (ms, lg1) (hot_bitmap_bytes ?cc) p ms2 lg2 | None \<Rightarrow> True"
      using meta_zalloc_spec [OF cfg(1) assms(2,3) ok1 pos(1)] by (fastforce split: option.splits)
    note g2 = meta_zalloc_grows [OF cfg(1) assms(2,3) ok1 pos(1) m2(1) nb]
    show ?thesis
    proof (cases r2)
      case None
      then have "arena_create sy sc commit (ms, lg) = Inr (None, ms2, os_free (sy_libc sy) memid lg2)"
        using a True Some pm m2(1) by (simp add: arena_create_def Let_def z_def mi_consts)
      then show ?thesis using released(2) [OF g2(1)] by simp
    next
      case (Some bm_mem)
      have zr: "zalloc_result (ms, lg1) (hot_bitmap_bytes ?cc) bm_mem ms2 lg2" using m2(3) Some by simp
      then have "256 * (?cc + 1) \<le> 508 * 64" unfolding zalloc_result_def Let_def prod.case pos(2) by blast
      then have cc: "?cc \<le> 126" by simp
      note h2 = g2(2) [OF Some]
      have pos3: "0 < sizeof_arena" "3 = nat_div_ceil (unat sizeof_arena) 64" by (simp_all add: sizeof_arena_def nat_div_ceil_def)
      obtain r3 ms3 lg3 where m3: "meta_zalloc (sy_libc sy) ?cfg sizeof_arena (ms2, lg2) = Inr (r3, ms3, lg3)" "meta_ok ms3 lg3"
        using meta_zalloc_spec [OF cfg(1) assms(2,3) m2(2) pos3(1)] by blast
      note g3 = meta_zalloc_grows [OF cfg(1) assms(2,3) m2(2) pos3(1) m3(1) pos3(2)]
      note g13 = meta_grows_trans [OF g2(1) g3(1)]
      have run: "arena_create sy sc commit (ms, lg) = (case r3 of
          None \<Rightarrow> run_bind (meta_free bm_mem (hot_bitmap_bytes ?cc) ms3) (\<lambda>ms. Inr (None, ms, os_free (sy_libc sy) memid lg3))
        | Some desc \<Rightarrow> run_bind (new_arena memid start sc ?cc bm_mem desc commit) (\<lambda>a. Inr (Some a, ms3, lg3)))"
        using a True \<open>q = Some pm\<close> pm m2(1) Some m3(1)
        by (simp add: arena_create_def Let_def z_def mi_consts split: option.split)
      have bm3: "holds ms3 (4 * (?cc + 1)) bm_mem" using h2 g3(1) by (simp add: meta_grows_def)
      show ?thesis
      proof (cases r3)
        case None
        obtain ms4 where ms4: "meta_free bm_mem (hot_bitmap_bytes ?cc) ms3 = Inr ms4" "meta_ok ms4 lg3" "regions ms4 = regions ms3"
            "\<forall>m q. holds ms3 m q \<longrightarrow> block_bytes q m \<inter> block_bytes bm_mem (4 * (?cc + 1)) = {} \<longrightarrow> holds ms4 m q"
          using meta_free_holds [OF m3(2) bm3 nb] by auto
        have "arena_create sy sc commit (ms, lg) = Inr (None, ms4, os_free (sy_libc sy) memid lg3)"
          using run None ms4(1) by simp
        moreover have "meta_grows True (ms, lg1) (ms4, lg3)"
          using g13 ms4(2-4) h2 by (simp add: meta_grows_def)
        ultimately show ?thesis using released(2) by simp
      next
        case (Some desc)
        note h3 = g3(2) [OF Some]
        from new_arena_spec [OF region(1-3) chunks_for_bounds True, of memid bm_mem desc commit]
        obtain ar where ar: "new_arena memid start sc ?cc bm_mem desc commit = Inr ar" "arena_ok ar" "ar_memid ar = memid"
          "ar_start ar = start" "ar_slice_count ar = sc" "ar_chunk_count ar = ?cc" "ar_bm_mem ar = bm_mem" "ar_desc ar = desc"
          "ar_abandoned ar = None" "ar_abandoned_memid ar = None" "bits_of (ar_free ar) = {..<sc}"
          "bits_of (ar_commit ar) = (if commit then {..<sc} else {})" "bits_of (ar_purge ar) = {}"
          "bits_of (ar_dirty ar) = (if mi_initially_zero memid then {} else {..<sc})"
          by (elim exE conjE) (rule that)
        have sb: "slice_bytes ar 0 sc = bytes start z" by (simp add: slice_bytes_def ar(4) bytes_def z)
        have run': "arena_create sy sc commit (ms, lg) = Inr (Some ar, ms3, lg3)" using run Some ar(1) by simp
        note rel = released(1,3,4) [OF g13]
        have old: "holds ms m q \<Longrightarrow> holds ms2 m q" for m q using g2(1) by (simp add: meta_grows_def)
        have blocks: "holds ms3 3 desc" "block_bytes desc 3 \<inter> block_bytes bm_mem (4 * (?cc + 1)) = {}"
          "\<forall>m q. holds ms m q \<longrightarrow> block_bytes q m \<inter> (block_bytes desc 3 \<union> block_bytes bm_mem (4 * (?cc + 1))) = {}"
          using h2 h3 old by blast+
        have "commit_sound ar lg3"
        proof (cases commit)
          case True
          have "bytes start z \<subseteq> accessible lg1"
            using alloc_aligned_accessible [OF cfg(1) assms(2,3) al szfit, of lg start memid lg1] a \<open>q = Some pm\<close> pm True
            by (simp add: up)
          moreover have "accessible lg3 \<inter> mapped lg1 = accessible lg1 \<inter> mapped lg1"
            using extends_access(1) [of "mapped lg1" True lg1 lg3] g13 by (simp add: meta_grows_def)
          ultimately have "bytes start z \<subseteq> accessible lg3" using region(5) by blast
          then show ?thesis
            using True ar(12) sb slice_bytes_area [of ar 0 sc] by (simp add: commit_sound_area atLeast0LessThan)
        qed (simp add: commit_sound_def ar(12))
        then have "created sc commit (ms, lg) ar (ms3, lg3)"
          unfolding created_def prod.case sb ar(3,5,6,7,8) base(2)
          using ar(2,9-14) cc region(4) rel(2,3) base(1) bm3 blocks by (intro conjI refl) assumption+
        then show ?thesis using run' rel(1) by simp
      qed
    qed
  qed
qed

section \<open>Properties\<close>

definition sample_sys :: "bool \<Rightarrow> sys" where
  "sample_sys hard = \<lparr> sy_libc = sample_libc, sy_cfg = sample_cfg, sy_hard = hard,
     sy_vals = (\<lambda>_. 1) \<rparr>"

lemma sample_sys_ok [simp]: "sy_ok (sample_sys hard)" "sy_libc (sample_sys hard) = sample_libc" "sy_cfg (sample_sys hard) = sample_cfg"
  by (simp_all add: sy_ok_def sample_sys_def sample_env)

text \<open>An arena of 600 slices at 16 MiB, nothing committed.\<close>

definition sample_arena :: "arena run" where
  "sample_arena = new_arena memid_none 16777216 600 2 0 0 False"

lemma sample_arena_ok:
  obtains a where "sample_arena = Inr a" "arena_ok a" "bits_of (ar_free a) = {..<600}" "bits_of (ar_commit a) = {}"
    "bits_of (ar_purge a) = {}" "commit_sound a lg" "purge_safe sy a" "ar_slice_count a = 600"
  using new_arena_spec [of 16777216 600 2 memid_none 0 0 False] that
  by (auto simp: sample_arena_def commit_sound_def purge_safe_def)

text \<open>
  C15. A claim of up to one chunk of slices never panics. When it succeeds the slices were free and
  leave the free set, and nothing else changes in it; they are committed, they are marked dirty, and
  their memory can be accessed if that held of all slices marked committed before; the zero flag is
  given exactly when the memory came zeroed from the OS and no slice of the run was handed out
  since. When it fails the free set is what it was, what is in use stays committed and accessible,
  and either no chunk has a free run of that
  length or the OS refused to commit the run that was found.
\<close>

theorem arena_alloc_slices:
  assumes "arena_ok a" "sy_ok sy" "0 < n" "n \<le> CHUNK_BITS"
  shows "\<exists>r a' lg'. alloc_slices sy now n tseq (a, lg) = Inr (r, a', lg')
    \<and> (case r of Some got \<Rightarrow> handed_out sy n (a, lg) got (a', lg') | None \<Rightarrow> not_handed_out sy n (a, lg) (a', lg'))"
  by (rule alloc_slices_spec [OF assms])

lemma arena_alloc_slices_witness:
  "\<exists>a r a' lg'. sample_arena = Inr a \<and> alloc_slices (sample_sys False) 0 8 3 (a, []) = Inr (r, a', lg')"
proof -
  obtain a where a: "sample_arena = Inr a" "arena_ok a" "commit_sound a []" by (rule sample_arena_ok)
  show ?thesis
    using arena_alloc_slices [OF a(2) sample_sys_ok(1), of 8 False 0 3 "[]"] a(1) by (auto simp: mi_consts)
qed

lemma alloc_slices_panics:
  assumes "arena_ok a" "CHUNK_BITS < n" "{i..<i + n} \<subseteq> bits_of (ar_free a)"
  shows "alloc_slices sy now n tseq (a, lg) = Inl Index_Out_Of_Bounds"
proof -
  note ok = arena_okD [OF assms(1)]
  obtain k f where k: "try_find_and_clear_n n tseq (ar_free a) = Inr (Some k, f)" "{k..<k + n} \<subseteq> bits_of (ar_free a)"
      "bm_inv f" "max_bits f = max_bits (ar_free a)" "k + n \<le> max_bits (ar_free a)"
    using slices.claim_long [OF bitmap_forD(1) [OF ok(1)] assms(2), of tseq] assms(3) by blast
  have "k < 512 * ar_chunk_count a" using k(5) assms(2) bitmap_forD(2) [OF ok(1)] by simp
  then have lim: "k < max_bits f" "k < max_bits (ar_commit a)"
    using k(4) bitmap_forD(2) [OF ok(1)] bitmap_forD(2) [OF ok(2)] by simp_all
  have long: "CHUNK_BITS < k mod CHUNK_BITS + n" using assms(2) by simp
  note f = set_n_panics [OF k(3) lim(1) long] and c = set_n_panics [OF bitmap_forD(1) [OF ok(2)] lim(2) long]
  show ?thesis
    using k(1) f c by (simp add: alloc_slices_def ensure_committed_def free_slices_def split: prod.split option.split)
qed

text \<open>
  C39. A claim of more than one chunk of slices (more than 32 MiB) panics as soon as a free run of
  that length exists: the search for huge runs crosses chunks, and the commit and dirty bits of the
  run are then set by an operation that may not.
\<close>

theorem arena_alloc_huge_panics:
  assumes "arena_ok a" "CHUNK_BITS < n" "{i..<i + n} \<subseteq> bits_of (ar_free a)"
  shows "alloc_slices sy now n tseq (a, lg) = Inl Index_Out_Of_Bounds"
  by (rule alloc_slices_panics [OF assms])

lemma arena_alloc_huge_panics_witness:
  "\<exists>a. sample_arena = Inr a \<and> alloc_slices (sample_sys False) 0 513 0 (a, []) = Inl Index_Out_Of_Bounds"
proof -
  obtain a where a: "sample_arena = Inr a" "arena_ok a" "bits_of (ar_free a) = {..<600}" by (rule sample_arena_ok)
  have "{0..<0 + 513} \<subseteq> bits_of (ar_free a)" unfolding a(3) by (rule subsetI) simp
  moreover have "CHUNK_BITS < 513" by (simp add: mi_consts)
  ultimately have "alloc_slices (sample_sys False) 0 513 0 (a, []) = Inl Index_Out_Of_Bounds"
    using arena_alloc_huge_panics [OF a(2)] by blast
  then show ?thesis using a(1) by blast
qed

text \<open>
  C17. What is freed can be claimed again and nothing else changes hands: giving the slices of a claim
  back restores the free set as it was before the claim. Slices in use elsewhere stay committed,
  dirty and accessible, whether the purge of the freed slices is put off, runs at once or is
  disabled; every slice marked committed can be accessed.
\<close>

theorem arena_free_slices:
  assumes "arena_ok a" "sy_ok sy" "commit_sound a lg" "purge_safe sy a" "0 < n" "n \<le> CHUNK_BITS"
    and "alloc_slices sy now n tseq (a, lg) = Inr (Some (i, p, zero), a', lg')"
  shows "\<exists>a'' lg''. free_slices sy now' i n (a', lg') = Inr (a'', lg'') \<and> bits_of (ar_free a'') = bits_of (ar_free a)
    \<and> keeps_used sy (bits_of (ar_free a)) (a', lg') (a'', lg'') \<and> commit_sound a'' lg'' \<and> purge_safe sy a''"
proof -
  have h: "handed_out sy n (a, lg) (i, p, zero) (a', lg')"
    using alloc_slices_spec [OF assms(1,2,5,6), of now tseq lg] assms(7) by auto
  then have same: "same_arena a a'" and ok: "arena_ok a'" and unit: "in_unit a' i n"
      and sub: "{i..<i + n} \<subseteq> bits_of (ar_free a)" and fr: "bits_of (ar_free a') = bits_of (ar_free a) - {i..<i + n}"
      and co: "bits_of (ar_commit a') = bits_of (ar_commit a) \<union> {i..<i + n}" and pu: "ar_purge a' = ar_purge a"
      and cs: "commit_sound a' lg'"
    using same_arena_range(1) [of a a'] assms(3) by (simp_all add: handed_out_def)
  have F: "bits_of (ar_free a') \<union> {i..<i + n} = bits_of (ar_free a)" using fr sub by auto
  have "purge_safe sy a'" using assms(4) co pu by (auto simp: purge_safe_def)
  moreover have "{i..<i + n} \<subseteq> bits_of (ar_commit a')" using co by simp
  moreover from free_slices_spec [OF ok assms(2) unit, of now' lg', unfolded F]
  obtain a'' lg'' where "free_slices sy now' i n (a', lg') = Inr (a'', lg'')" "bits_of (ar_free a'') = bits_of (ar_free a)"
      "keeps_used sy (bits_of (ar_free a)) (a', lg') (a'', lg'')"
      "purge_safe sy a' \<longrightarrow> commit_sound a' lg' \<longrightarrow> (sy_hard sy \<longrightarrow> {i..<i + n} \<subseteq> bits_of (ar_commit a')) \<longrightarrow>
         purge_safe sy a'' \<and> commit_sound a'' lg''"
    by (elim exE conjE) (rule that)
  ultimately show ?thesis using cs by simp
qed

lemma sample_commit: "fst (os_commit sample_libc cfg p n lg) \<noteq> None"
  by (simp add: os_commit_def prim_commit_def sys_call_def sample_libc_def split: option.split) blast

lemma sample_alloc:
  assumes "sample_arena = Inr a" "arena_ok a" "bits_of (ar_free a) = {..<600}" "commit_sound a []"
  obtains i p z a' lg' where "alloc_slices (sample_sys hard) 0 8 3 (a, []) = Inr (Some (i, p, z), a', lg')"
proof -
  obtain r a' lg' where r: "alloc_slices (sample_sys hard) 0 8 3 (a, []) = Inr (r, a', lg')"
      "case r of Some got \<Rightarrow> handed_out (sample_sys hard) 8 (a, []) got (a', lg')
       | None \<Rightarrow> not_handed_out (sample_sys hard) 8 (a, []) (a', lg')"
    using alloc_slices_spec [OF assms(2) sample_sys_ok(1), of 8 hard 0 3 "[]"] by (auto simp: mi_consts)
  have "r \<noteq> None"
  proof
    assume "r = None"
    with r(2) have "\<forall>i. i mod CHUNK_BITS + 8 \<le> CHUNK_BITS \<longrightarrow> \<not> {i..<i + 8} \<subseteq> bits_of (ar_free a)"
      using sample_commit by (auto simp: not_handed_out_def)
    from spec [OF this, of 0] show False by (auto simp: assms(3) mi_consts)
  qed
  then show ?thesis using r(1) that by auto
qed

lemma arena_free_slices_witness:
  "\<exists>a i p z a' lg'. sample_arena = Inr a \<and> alloc_slices (sample_sys True) 0 8 3 (a, []) = Inr (Some (i, p, z), a', lg')
    \<and> (\<exists>a'' lg''. free_slices (sample_sys True) 5 i 8 (a', lg') = Inr (a'', lg'') \<and> bits_of (ar_free a'') = {..<600})"
proof -
  obtain a where a: "sample_arena = Inr a" "arena_ok a" "bits_of (ar_free a) = {..<600}" "commit_sound a []"
      "purge_safe (sample_sys True) a" by (rule sample_arena_ok)
  obtain i p z a' lg' where r: "alloc_slices (sample_sys True) 0 8 3 (a, []) = Inr (Some (i, p, z), a', lg')"
    by (rule sample_alloc [OF a(1-4)])
  have "(8::nat) \<le> CHUNK_BITS" by (simp add: mi_consts)
  from arena_free_slices [OF a(2) sample_sys_ok(1) a(4,5) _ this r, of 5] show ?thesis using r a(1,3) by auto
qed

text \<open>
  C16. A purge of an arena terminates and leaves nothing scheduled: every run of scheduled slices is
  visited, whatever has been reallocated meanwhile. It panics nowhere, does not change the free
  set, keeps the slices in use committed, dirty and accessible, unmaps nothing, and keeps every
  slice that is marked committed accessible.
\<close>

theorem arena_run_purge:
  assumes "sy_ok sy" "arena_ok a"
  shows "\<exists>did a' lg'. run_purge sy (a, lg) = Inr (did, a', lg') \<and> purge_rel sy (a, lg) (a', lg') \<and> bits_of (ar_purge a') = {}"
  by (rule run_purge_spec [OF assms])

lemma arena_run_purge_witness:
  "\<exists>a did a' lg'. sample_arena = Inr a \<and> run_purge (sample_sys True) (a, []) = Inr (did, a', lg') \<and> bits_of (ar_free a') = {..<600}"
proof -
  obtain a where a: "sample_arena = Inr a" "arena_ok a" "bits_of (ar_free a) = {..<600}" by (rule sample_arena_ok)
  show ?thesis using arena_run_purge [OF sample_sys_ok(1) a(2), of True "[]"] a(1,3) by (auto simp: purge_rel_def)
qed

text \<open>
  C38. Creating an arena: when it succeeds the arena is well formed, its slices are a fresh mapping
  disjoint from everything mapped before, all of them are free, and the commit and dirty bits say
  what the mapping is; every slice marked committed can be accessed; descriptor and bitmaps lie in
  metadata blocks of their own, outside the slices. It never has more than 126 chunks (under 4 GiB),
  because the block of metadata for the bitmaps of a larger one does not fit a metadata region.
  Whether it succeeds or fails, what was mapped or accessible stays so, and metadata blocks in use
  stay in use. It panics in neither case.
\<close>

theorem arena_create_fresh:
  assumes "sy_ok sy" "mmap_law (sy_libc sy) (sy_cfg sy)" "munmap_law (sy_libc sy) (sy_cfg sy)" "meta_ok ms lg" "0 < sc"
  shows "\<exists>r ms' lg'. arena_create sy sc commit (ms, lg) = Inr (r, ms', lg') \<and> meta_grows False (ms, lg) (ms', lg')
    \<and> (case r of None \<Rightarrow> True | Some a \<Rightarrow> created sc commit (ms, lg) a (ms', lg'))"
  by (rule arena_create_spec [OF assms])

lemma arena_create_fresh_witness:
  "\<exists>r ms' lg'. arena_create (sample_sys False) 4096 False ([], []) = Inr (r, ms', lg')"
proof -
  have "meta_ok [] []" by simp
  from arena_create_fresh [of "sample_sys False" "[]" "[]" 4096 False] this sample_env(2-4) show ?thesis by auto
qed

lemma free_slices_commit:
  assumes "0 < arena_purge_delay (sy_vals sy)" "free_slices sy now i n (a, lg) = Inr (a', lg')"
  shows "ar_commit a' = ar_commit a"
proof -
  obtain b f where f: "set_n i n (ar_free a) = Inr (b, f)" using assms(2) by (cases "set_n i n (ar_free a)") (auto simp: free_slices_def)
  have d: "\<not> arena_purge_delay (sy_vals sy) < 0" "arena_purge_delay (sy_vals sy) \<noteq> 0" using assms(1) by simp_all
  show ?thesis
  proof (cases "mi_is_pinned (ar_memid a)")
    case True
    then show ?thesis using assms(2) f by (auto simp: free_slices_def schedule_purge_def)
  next
    case False
    obtain b' p where p: "set_n i n (ar_purge a) = Inr (b', p)"
      using assms(2) f d False by (cases "set_n i n (ar_purge a)") (auto simp: free_slices_def schedule_purge_def)
    show ?thesis using assms(2) f d False p by (auto simp: free_slices_def schedule_purge_def Let_def)
  qed
qed

text \<open>A claim for which the OS refuses to commit the run leaves the run free and scheduled.\<close>

lemma refused_claim:
  assumes ok: "arena_ok a" and sy: "sy_ok sy" and n: "0 < n" "n \<le> CHUNK_BITS"
    and run: "k mod CHUNK_BITS + n \<le> CHUNK_BITS" "{k..<k + n} \<subseteq> bits_of (ar_free a)" "\<And>i. \<not> {i..<i + n} \<subseteq> bits_of (ar_commit a)"
    and refuse: "\<And>i. in_unit a i n \<Longrightarrow> fst (os_commit (sy_libc sy) (sy_cfg sy) (slice_ptr a i) (of_nat (n * MI_ARENA_SLICE_SIZE)) lg) = None"
    and delay: "0 < arena_purge_delay (sy_vals sy)" "\<not> mi_is_pinned (ar_memid a)"
  shows "\<exists>i a' lg'. alloc_slices sy now n tseq (a, lg) = Inr (None, a', lg') \<and> arena_ok a' \<and> same_arena a a' \<and> in_unit a i n
    \<and> {i..<i + n} \<subseteq> bits_of (ar_free a') \<and> {i..<i + n} \<subseteq> bits_of (ar_purge a')
    \<and> bits_of (ar_commit a') = bits_of (ar_commit a) \<and> bits_of (ar_free a') = bits_of (ar_free a)"
proof -
  note o = arena_okD [OF ok]
  from slices.claim_unit [OF bitmap_forD(1) [OF o(1)] n, of tseq] run(1,2)
  obtain i f where f: "try_find_and_clear_n n tseq (ar_free a) = Inr (Some i, f)" "i mod CHUNK_BITS + n \<le> CHUNK_BITS"
      "{i..<i + n} \<subseteq> bits_of (ar_free a)" "bits_of f = bits_of (ar_free a) - {i..<i + n}" "bm_inv f" "max_bits f = max_bits (ar_free a)"
    by blast
  let ?R = "{i..<i + n}"
  have "i + n - 1 \<in> ?R" using n(1) by simp
  then have "i + n \<le> ar_slice_count a" using f(3) bitmap_forD(3) [OF o(1)] n(1) by fastforce
  then have unit: "in_unit a i n" using f(2) n(1) by (simp add: in_unit_def)
  have ff: "bitmap_for a f" using f(4-6) bitmap_forD [OF o(1)] by (auto simp: bitmap_for_def)
  define a1 where "a1 = a\<lparr>ar_free := f\<rparr>"
  have same1: "same_arena a a1" by (simp add: a1_def same_arena_def)
  have ok1: "arena_ok a1" using o ff by (intro arena_ok_same [OF ok same1]) (simp_all add: a1_def)
  have unit1: "in_unit a1 i n" and slice: "slice_ptr a1 i = slice_ptr a i" using unit by (simp_all add: a1_def slice_ptr_def)
  have "is_set_n i n (ar_commit a1) = Inr False"
    using unit_ops(3) [OF o(2) unit o(5)] run(3) [of i] by (simp add: a1_def)
  moreover obtain lg1 where c: "os_commit (sy_libc sy) (sy_cfg sy) (slice_ptr a1 i) (of_nat (n * MI_ARENA_SLICE_SIZE)) lg = (None, lg1)"
    using refuse [OF unit] by (metis prod.collapse slice)
  ultimately have e: "ensure_committed sy i n (a1, lg) = Inr (False, a1, lg1)" by (simp add: ensure_committed_def del: of_nat_mult)
  obtain a2 lg2 where fs: "free_slices sy now i n (a1, lg1) = Inr (a2, lg2)" "bits_of (ar_free a2) = bits_of (ar_free a1) \<union> ?R"
      "keeps_used sy (bits_of (ar_free a1) \<union> ?R) (a1, lg1) (a2, lg2)" "bits_of (ar_purge a2) = bits_of (ar_purge a1) \<union> ?R"
    using free_slices_spec [OF ok1 sy unit1, of now lg1] delay by (auto simp: a1_def)
  have com: "bits_of (ar_commit a2) = bits_of (ar_commit a)" using free_slices_commit [OF delay(1) fs(1)] by (simp add: a1_def)
  have fr: "bits_of (ar_free a2) = bits_of (ar_free a)" unfolding fs(2) using f(3,4) by (auto simp: a1_def)
  have "same_arena a a2" "arena_ok a2" using fs(3) same1 ok1 by (auto simp: keeps_used_def same_arena_def)
  moreover have "alloc_slices sy now n tseq (a, lg) = Inr (None, a2, lg2)"
    using f(1) e fs(1) by (simp add: alloc_slices_def a1_def)
  ultimately show ?thesis using unit com fr f(3) fs(4) by (intro exI [of _ i] exI [of _ a2] exI [of _ lg2]) auto
qed

lemma purge_ex_hard:
  assumes "page_align_conservative cfg a n = Some (a, n)" "0 \<le> purge_delay vals" "purge_decommits vals"
    and "c_ret lc lg (Madvise a n Dontneed) = 0" "c_ret lc (lg @ [(Madvise a n Dontneed, True)]) (Mprotect a n False) = 0"
  shows "\<exists>lg'. purge_ex True lc cfg vals a n allow lg = (True, lg') \<and> accessible lg' \<inter> bytes a n = {}"
  using assms by (auto simp: purge_ex_def os_decommit_def prim_decommit_def sys_call_def accessible_def)

text \<open>
  C40. In a hardened build, purging a free run of which some slices are committed and some are not
  takes the access rights of the whole run away but clears no commit bit, because the bits are
  cleared all or none: slices stay marked committed that cannot be accessed, and a later claim of such slices
  takes them as they are, without asking the OS for access. The two system calls of the purge are assumed to
  succeed. Such a run is scheduled when the OS refuses to commit a claim (\<open>refused_claim\<close>), as in the history of the example.
\<close>

theorem hardened_purge_partial_commit:
  assumes "arena_ok a" "sy_ok sy" "sy_hard sy" "in_unit a i n" "{i..<i + n} \<subseteq> bits_of (ar_purge a)"
    "{i..<i + n} \<subseteq> bits_of (ar_free a)" "\<not> {i..<i + n} \<subseteq> bits_of (ar_commit a)"
    "0 \<le> purge_delay (sy_vals sy)" "purge_decommits (sy_vals sy)"
    and "c_ret (sy_libc sy) lg (Madvise (slice_ptr a i) (of_nat (n * MI_ARENA_SLICE_SIZE)) Dontneed) = 0"
    and "c_ret (sy_libc sy) (lg @ [(Madvise (slice_ptr a i) (of_nat (n * MI_ARENA_SLICE_SIZE)) Dontneed, True)])
      (Mprotect (slice_ptr a i) (of_nat (n * MI_ARENA_SLICE_SIZE)) False) = 0"
  shows "\<exists>a' lg'. purge_run sy i n (a, lg) = Inr (True, a', lg') \<and> bits_of (ar_commit a') = bits_of (ar_commit a)
    \<and> slice_bytes a i n \<inter> accessible lg' = {}
    \<and> (\<forall>j m. in_unit a j m \<longrightarrow> {j..<j + m} \<subseteq> bits_of (ar_commit a) \<longrightarrow> ensure_committed sy j m (a', lg') = Inr (True, a', lg'))"
proof -
  note ok = arena_okD [OF assms(1)]
  have u: "0 < n" "i + n \<le> ar_slice_count a" using assms(4) by (simp_all add: in_unit_def)
  note whole = slices_whole [OF assms(1,2) u]
  obtain f where f: "clear_n i n (ar_free a) = Inr (True, f)" "bitmap_for a f"
    using unit_ops(2) [OF ok(1) assms(4) ok(5)] assms(6) by auto
  obtain f' where f': "set_n i n f = Inr f'" using unit_ops(1) [OF f(2) assms(4) ok(5)] by blast
  obtain c where c: "clear_n i n (ar_commit a) = Inr (False, c)" "bitmap_for a c" "bits_of c = bits_of (ar_commit a)"
    using unit_ops(2) [OF ok(2) assms(4) ok(5)] assms(7) by auto
  obtain d where d: "clear_n i n (ar_dirty a) = Inr d" using unit_ops(2) [OF ok(4) assms(4) ok(5)] by blast
  obtain p where p: "clear_n i n (ar_purge a) = Inr p" using unit_ops(2) [OF ok(3) assms(4) ok(5)] by blast
  have s: "is_set_n i n (ar_commit a) = Inr False" using unit_ops(3) [OF ok(2) assms(4) ok(5)] assms(7) by simp
  obtain lg' where x: "purge_ex True (sy_libc sy) (sy_cfg sy) (sy_vals sy) (slice_ptr a i)
      (of_nat (n * MI_ARENA_SLICE_SIZE)) False lg = (True, lg')" "accessible lg' \<inter> slice_bytes a i n = {}"
    using purge_ex_hard [OF whole(1) assms(8-11), of False] unfolding whole(2) by blast
  have "slice_ptr (a\<lparr>ar_free := f\<rparr>) i = slice_ptr a i" by (simp add: slice_ptr_def)
  then obtain a' where r: "purge_run sy i n (a, lg) = Inr (True, a', lg')" "ar_commit a' = c"
    using f f' c d p s x assms(3)
    by (cases f'; cases d; cases p) (auto simp: purge_run_def purge_claimed_def simp del: of_nat_mult)
  have "ensure_committed sy j m (a', lg') = Inr (True, a', lg')" if "in_unit a j m" "{j..<j + m} \<subseteq> bits_of (ar_commit a)" for j m
    using unit_ops(3) [OF c(2) that(1) ok(5)] that(2) c(3) r(2) by (simp add: ensure_committed_def)
  then show ?thesis using r c(3) x(2) by auto
qed

text \<open>A system that refuses to commit 32 MiB at once; the request for these comes after 300 slices were claimed and freed.\<close>

definition picky_libc :: libc where
  "picky_libc = sample_libc\<lparr>c_ret := (\<lambda>_ c. case c of Mprotect _ n True \<Rightarrow> if n = 33554432 then 12 else 0 | _ \<Rightarrow> 0)\<rparr>"

definition picky_sys :: sys where
  "picky_sys = (sample_sys True)\<lparr>sy_libc := picky_libc\<rparr>"

lemma picky_fields: "sy_ok picky_sys" "sy_hard picky_sys" "sy_cfg picky_sys = sample_cfg" "sy_libc picky_sys = picky_libc"
    "0 \<le> purge_delay (sy_vals picky_sys)" "purge_decommits (sy_vals picky_sys)" "0 < arena_purge_delay (sy_vals picky_sys)"
  using sample_sys_ok(1) [of True]
  by (simp_all add: picky_sys_def sy_ok_def sample_sys_def purge_delay_def purge_decommits_def arena_purge_delay_def
      saturating_mul_i64_def i64_min_def i64_max_def)

lemma picky_commit:
  "page_align_conservative cfg p n = Some (p, n) \<Longrightarrow> fst (os_commit picky_libc cfg p n lg) = (if n = 33554432 then None else Some False)"
  by (simp add: os_commit_def prim_commit_def sys_call_def picky_libc_def)

lemma partly_in_field:
  assumes "(j :: nat) + 300 \<le> 512"
  shows "\<exists>k x. 64 * k + 64 \<le> 512 \<and> x \<in> {j..<j + 300} \<and> x \<in> {64 * k..<64 * k + 64} \<and> \<not> {64 * k..<64 * k + 64} \<subseteq> {j..<j + 300}"
proof (cases "j mod 64 = 0")
  case False
  let ?k = "j div 64"
  have "j = 64 * ?k + j mod 64" "j mod 64 < 64" "0 < j mod 64" using False by simp_all
  then have "64 * ?k + 64 \<le> 512" "64 * ?k \<le> j" "j < 64 * ?k + 64" "64 * ?k < j" using assms by linarith+
  then show ?thesis by (intro exI [of _ ?k] exI [of _ j]) (auto simp: subset_iff)
next
  case True
  define q where "q = j div 64"
  have q: "j = 64 * q" using True by (auto simp: q_def)
  let ?k = "q + 4"
  have "64 * ?k + 64 \<le> 512" "64 * ?k \<le> j + 299" "j + 299 < 64 * ?k + 64" "j + 300 \<le> 64 * ?k + 63" using assms unfolding q by simp_all
  moreover have "64 * ?k + 63 \<notin> {j..<j + 300}" "64 * ?k + 63 \<in> {64 * ?k..<64 * ?k + 64}" by (simp_all add: q)
  then have "\<not> {64 * ?k..<64 * ?k + 64} \<subseteq> {j..<j + 300}" by blast
  ultimately show ?thesis by (intro exI [of _ ?k] exI [of _ "j + 299"]) (simp del: ivl_subset)
qed

lemma hardened_purge_partial_commit_witness:
  "\<exists>a0 a1 a2 a3 a4 l1 l2 l3 l4 j p z k x. sample_arena = Inr a0 \<and> alloc_slices picky_sys 0 300 0 (a0, []) = Inr (Some (j, p, z), a1, l1)
    \<and> free_slices picky_sys 0 j 300 (a1, l1) = Inr (a2, l2) \<and> alloc_slices picky_sys 0 512 0 (a2, l2) = Inr (None, a3, l3)
    \<and> purge_run picky_sys (64 * k) 64 (a3, l3) = Inr (True, a4, l4) \<and> x \<in> bits_of (ar_commit a4)
    \<and> slice_bytes a3 x 1 \<inter> accessible l4 = {} \<and> ensure_committed picky_sys x 1 (a4, l4) = Inr (True, a4, l4)"
proof -
  note pf = picky_fields
  obtain a0 where a0: "sample_arena = Inr a0" "arena_ok a0" "bits_of (ar_free a0) = {..<600}" "bits_of (ar_commit a0) = {}"
      "ar_slice_count a0 = 600" "\<not> mi_is_pinned (ar_memid a0)"
    using new_arena_spec [of 16777216 600 2 memid_none 0 0 False] by (auto simp: sample_arena_def memid_none_def)
  have c: "CHUNK_BITS = 512" by (simp add: mi_consts)
  obtain r a1 l1 where r: "alloc_slices picky_sys 0 300 0 (a0, []) = Inr (r, a1, l1)"
      "case r of Some got \<Rightarrow> handed_out picky_sys 300 (a0, []) got (a1, l1) | None \<Rightarrow> not_handed_out picky_sys 300 (a0, []) (a1, l1)"
    using alloc_slices_spec [OF a0(2) pf(1), of 300 0 0 "[]"] by (auto simp: c)
  have yes: "fst (os_commit (sy_libc picky_sys) (sy_cfg picky_sys) (slice_ptr a0 i) (of_nat (300 * MI_ARENA_SLICE_SIZE)) []) \<noteq> None"
    if "in_unit a0 i 300" for i
  proof -
    have u: "0 < (300 :: nat)" "i + 300 \<le> ar_slice_count a0" using that by (simp_all add: in_unit_def)
    from picky_commit [OF slices_whole(1) [OF a0(2) pf(1) u]] show ?thesis by (simp add: pf mi_consts)
  qed
  have "r \<noteq> None"
  proof
    assume "r = None"
    with r(2) have "not_handed_out picky_sys 300 (a0, []) (a1, l1)" by simp
    then have "\<forall>i. i mod CHUNK_BITS + 300 \<le> CHUNK_BITS \<longrightarrow> \<not> {i..<i + 300} \<subseteq> bits_of (ar_free a0)"
      unfolding not_handed_out_def split_conv using yes by blast
    from spec [OF this, of 0] show False by (auto simp: a0(3) c)
  qed
  then obtain j p z where got: "alloc_slices picky_sys 0 300 0 (a0, []) = Inr (Some (j, p, z), a1, l1)"
      "handed_out picky_sys 300 (a0, []) (j, p, z) (a1, l1)"
    using r by (cases r) auto
  have h: "in_unit a0 j 300" "{j..<j + 300} \<subseteq> bits_of (ar_free a0)" "bits_of (ar_free a1) = bits_of (ar_free a0) - {j..<j + 300}"
      "bits_of (ar_commit a1) = {j..<j + 300}" "same_arena a0 a1" "arena_ok a1"
    using got(2) a0(4) by (simp_all add: handed_out_def)
  have j: "j + 300 \<le> 512"
  proof -
    have *: "j mod 512 \<le> 212" "j \<le> 300" using h(1) a0(5) unfolding in_unit_def c by auto
    then have "j mod 512 = j" by (intro mod_less) simp
    then show ?thesis using *(1) by simp
  qed
  have u1: "in_unit a1 j 300" using h(1) same_arena_range(1) [OF h(5)] by simp
  obtain a2 l2 where f: "free_slices picky_sys 0 j 300 (a1, l1) = Inr (a2, l2)" "bits_of (ar_free a2) = bits_of (ar_free a1) \<union> {j..<j + 300}"
      "keeps_used picky_sys (bits_of (ar_free a1) \<union> {j..<j + 300}) (a1, l1) (a2, l2)"
    using free_slices_spec [OF h(6) pf(1) u1, of 0 l1] by auto
  have s2: "same_arena a0 a2" "arena_ok a2" using f(3) h(5) by (auto simp: keeps_used_def same_arena_def)
  have fr2: "bits_of (ar_free a2) = {..<600}" unfolding f(2) h(3) using h(2) a0(3) by auto
  have co2: "bits_of (ar_commit a2) = {j..<j + 300}" using free_slices_commit [OF pf(7) f(1)] h(4) by simp
  have refuse: "fst (os_commit (sy_libc picky_sys) (sy_cfg picky_sys) (slice_ptr a2 i) (of_nat (512 * MI_ARENA_SLICE_SIZE)) l2) = None"
    if "in_unit a2 i 512" for i
  proof -
    have u: "0 < (512 :: nat)" "i + 512 \<le> ar_slice_count a2" using that by (simp_all add: in_unit_def)
    from picky_commit [OF slices_whole(1) [OF s2(2) pf(1) u]] show ?thesis by (simp add: pf mi_consts)
  qed
  have n2: "\<not> {i..<i + 512} \<subseteq> bits_of (ar_commit a2)" for i
  proof
    assume "{i..<i + 512} \<subseteq> bits_of (ar_commit a2)"
    then have "i \<in> {j..<j + 300}" "i + 511 \<in> {j..<j + 300}" unfolding co2 by (auto simp: subset_iff)
    then show False by simp
  qed
  have "mi_is_pinned (ar_memid a2) = mi_is_pinned (ar_memid a0)" using s2(1) by (simp add: same_arena_def)
  then have pin: "\<not> mi_is_pinned (ar_memid a2)" using a0(6) by simp
  have n: "0 < (512 :: nat)" "512 \<le> CHUNK_BITS" "0 mod CHUNK_BITS + 512 \<le> CHUNK_BITS" "{0..<0 + 512} \<subseteq> bits_of (ar_free a2)"
    unfolding fr2 by (auto simp: c)
  have "\<exists>i a3 l3. alloc_slices picky_sys 0 512 0 (a2, l2) = Inr (None, a3, l3) \<and> arena_ok a3 \<and> same_arena a2 a3 \<and> in_unit a2 i 512
      \<and> {i..<i + 512} \<subseteq> bits_of (ar_free a3) \<and> {i..<i + 512} \<subseteq> bits_of (ar_purge a3)
      \<and> bits_of (ar_commit a3) = bits_of (ar_commit a2) \<and> bits_of (ar_free a3) = bits_of (ar_free a2)"
    by (rule refused_claim [OF s2(2) pf(1) n n2]) (rule refuse pf(7) pin, assumption?)+
  then obtain i a3 l3 where "alloc_slices picky_sys 0 512 0 (a2, l2) = Inr (None, a3, l3) \<and> arena_ok a3 \<and> same_arena a2 a3 \<and> in_unit a2 i 512
      \<and> {i..<i + 512} \<subseteq> bits_of (ar_free a3) \<and> {i..<i + 512} \<subseteq> bits_of (ar_purge a3)
      \<and> bits_of (ar_commit a3) = bits_of (ar_commit a2) \<and> bits_of (ar_free a3) = bits_of (ar_free a2)"
    by (elim exE) (rule that)
  then have a3: "alloc_slices picky_sys 0 512 0 (a2, l2) = Inr (None, a3, l3)" "arena_ok a3" "same_arena a2 a3" "in_unit a2 i 512"
      "{i..<i + 512} \<subseteq> bits_of (ar_free a3)" "{i..<i + 512} \<subseteq> bits_of (ar_purge a3)" "bits_of (ar_commit a3) = bits_of (ar_commit a2)"
    by blast+
  have sc: "ar_slice_count a3 = 600" "ar_slice_count a2 = 600" using a3(3) s2(1) a0(5) by (auto simp: same_arena_def)
  have "i mod 512 = 0" "i < 512" using a3(4) sc unfolding in_unit_def c by auto
  then have i: "i = 0" by simp
  obtain k x where k: "64 * k + 64 \<le> 512" "x \<in> {j..<j + 300}" "x \<in> {64 * k..<64 * k + 64}" "\<not> {64 * k..<64 * k + 64} \<subseteq> {j..<j + 300}"
    using partly_in_field [OF j] by blast
  have field: "{64 * k..<64 * k + 64} \<subseteq> {i..<i + 512}" using k(1) i by auto
  have "(64 * k) mod 512 = 64 * k" using k(1) by simp
  then have u3: "in_unit a3 (64 * k) 64" using k(1) sc by (simp add: in_unit_def c)
  have part: "{64 * k..<64 * k + 64} \<subseteq> bits_of (ar_purge a3)" "{64 * k..<64 * k + 64} \<subseteq> bits_of (ar_free a3)"
      "\<not> {64 * k..<64 * k + 64} \<subseteq> bits_of (ar_commit a3)"
    unfolding a3(7) co2 by (rule subset_trans [OF field a3(6)], rule subset_trans [OF field a3(5)], rule k(4))
  have calm: "c_ret (sy_libc picky_sys) l (Madvise p q adv) = 0" "c_ret (sy_libc picky_sys) l (Mprotect p q False) = 0" for l p q adv
    by (simp_all add: pf picky_libc_def)
  obtain a4 l4 where r: "purge_run picky_sys (64 * k) 64 (a3, l3) = Inr (True, a4, l4) \<and> bits_of (ar_commit a4) = bits_of (ar_commit a3)
      \<and> slice_bytes a3 (64 * k) 64 \<inter> accessible l4 = {}
      \<and> (\<forall>j m. in_unit a3 j m \<longrightarrow> {j..<j + m} \<subseteq> bits_of (ar_commit a3) \<longrightarrow> ensure_committed picky_sys j m (a4, l4) = Inr (True, a4, l4))"
    using hardened_purge_partial_commit [OF a3(2) pf(1,2) u3 part pf(5,6) calm, of l3] by (elim exE) (rule that)
  note r4 = conjunct1 [OF r] conjunct1 [OF conjunct2 [OF r]] conjunct1 [OF conjunct2 [OF conjunct2 [OF r]]]
    conjunct2 [OF conjunct2 [OF conjunct2 [OF r]], rule_format]
  have x: "x \<in> bits_of (ar_commit a3)" using k(2) a3(7) co2 by simp
  have "x < 512" using k(1,3) by simp
  then have "in_unit a3 x 1" using sc by (simp add: in_unit_def c)
  moreover have "{x..<x + 1} \<subseteq> bits_of (ar_commit a3)" using x by simp
  ultimately have "ensure_committed picky_sys x 1 (a4, l4) = Inr (True, a4, l4)" by (rule r4(4))
  moreover have "slice_bytes a3 x 1 \<subseteq> slice_bytes a3 (64 * k) 64" using k(3) by (auto simp: slice_bytes_def)
  then have "slice_bytes a3 x 1 \<inter> accessible l4 = {}" using r4(3) by blast
  ultimately show ?thesis using a0(1) got(1) f(1) a3(1) r4(1,2) x by blast
qed

end
