(* ===== verification/MiSubproc.thy ===== *)
theory MiSubproc
  imports MiArena "HOL-Library.Monad_Syntax"
begin

unbundle bit_operations_syntax

text \<open>
  \<^verbatim>\<open>src/subproc.rs\<close>: the registry of arenas shared by all heaps. From here on an operation works on
  the state of the whole allocator and is \<open>None\<close> if it panics or does not return. Each operation is
  one thread's execution without interference.
\<close>

section \<open>The state of the allocator\<close>

text \<open>
  Arenas and page headers are stores by address. The registry is the list of the registered
  arenas, which is the used prefix of the array in the code. \<open>wd_clock\<close> counts the readings of the
  clock.
\<close>

record world =
  wd_arenas :: "ptr \<Rightarrow> arena"
  wd_arena_list :: "ptr list"
  wd_cursor :: nat
  wd_meta :: meta
  wd_log :: os_log
  wd_clock :: nat
  wd_pages :: pages

text \<open>The environment: the system, the values the clock shows, which page-map mappings succeed.\<close>

record env =
  en_sys :: sys
  en_now :: "nat \<Rightarrow> int"
  en_map_ok :: "nat \<Rightarrow> bool"

definition MAX_ARENAS :: nat where "MAX_ARENAS = 160"
definition DEFAULT_ARENA_SLICES :: nat where "DEFAULT_ARENA_SLICES = 4096"

text \<open>A panic ends the call.\<close>

definition ran :: "'a run \<Rightarrow> 'a option" where
  "ran r = (case r of Inl _ \<Rightarrow> None | Inr x \<Rightarrow> Some x)"

lemma ran_simps [simp]: "ran (Inl e) = None" "ran (Inr x) = Some x"
  by (simp_all add: ran_def)

text \<open>An operation of the arena at \<open>p\<close>, given the time it may read.\<close>

definition on_arena ::
    "env \<Rightarrow> ptr \<Rightarrow> (int \<Rightarrow> arena \<times> os_log \<Rightarrow> ('a \<times> arena \<times> os_log) run) \<Rightarrow> 'z world_scheme \<Rightarrow> ('a \<times> 'z world_scheme) option" where
  "on_arena env p f w = do {
     (r, a, lg) \<leftarrow> ran (f (en_now env (wd_clock w)) (wd_arenas w p, wd_log w));
     Some (r, w\<lparr>wd_arenas := (wd_arenas w)(p := a), wd_log := lg, wd_clock := wd_clock w + 1\<rparr>)
   }"

text \<open>Operations that return nothing, and the metadata allocator.\<close>

definition no_result :: "('a \<Rightarrow> ('b \<times> 'c) run) \<Rightarrow> 'a \<Rightarrow> (unit \<times> 'b \<times> 'c) run" where
  "no_result f x = run_bind (f x) (\<lambda>(a, lg). Inr ((), a, lg))"

definition w_meta_zalloc :: "env \<Rightarrow> usize \<Rightarrow> 'z world_scheme \<Rightarrow> (ptr option \<times> 'z world_scheme) option" where
  "w_meta_zalloc env sz w = do {
     (r, ms, lg) \<leftarrow> ran (meta_zalloc (sy_libc (en_sys env)) (sy_cfg (en_sys env)) sz (wd_meta w, wd_log w));
     Some (r, w\<lparr>wd_meta := ms, wd_log := lg\<rparr>)
   }"

definition w_meta_free :: "ptr \<Rightarrow> usize \<Rightarrow> 'z world_scheme \<Rightarrow> 'z world_scheme option" where
  "w_meta_free p sz w = do {
     ms \<leftarrow> ran (meta_free p sz (wd_meta w));
     Some (w\<lparr>wd_meta := ms\<rparr>)
   }"

definition w_free_slices :: "env \<Rightarrow> ptr \<Rightarrow> nat \<Rightarrow> nat \<Rightarrow> 'z world_scheme \<Rightarrow> 'z world_scheme option" where
  "w_free_slices env p idx n w =
     map_option snd (on_arena env p (\<lambda>now. no_result (free_slices (en_sys env) now idx n)) w)"

section \<open>The registry\<close>

definition add_arena :: "ptr \<Rightarrow> 'z world_scheme \<Rightarrow> bool \<times> 'z world_scheme" where
  "add_arena p w =
    (if length (wd_arena_list w) \<ge> MAX_ARENAS then (False, w)
     else (True, w\<lparr>wd_arena_list := wd_arena_list w @ [p]\<rparr>))"

definition arena_count :: "'z world_scheme \<Rightarrow> nat" where
  "arena_count w = length (wd_arena_list w)"

definition arena_at :: "nat \<Rightarrow> 'z world_scheme \<Rightarrow> ptr option" where
  "arena_at i w = (let p = wd_arena_list w ! i in if p = 0 then None else Some p)"

definition owns_address :: "ptr \<Rightarrow> 'z world_scheme \<Rightarrow> bool" where
  "owns_address p w =
    list_ex (\<lambda>i. case arena_at i w of None \<Rightarrow> False | Some ar \<Rightarrow> slice_index_of (wd_arenas w ar) p \<noteq> None)
      [0..<arena_count w]"

fun try_purge_loop :: "env \<Rightarrow> bool \<Rightarrow> nat list \<Rightarrow> 'z world_scheme \<Rightarrow> 'z world_scheme option" where
  "try_purge_loop env force [] w = Some w"
| "try_purge_loop env force (i # is) w =
    (case arena_at i w of
       None \<Rightarrow> try_purge_loop env force is w
     | Some ar \<Rightarrow> do {
         (_, w) \<leftarrow> on_arena env ar (\<lambda>now. maybe_purge (en_sys env) now force) w;
         try_purge_loop env force is w
       })"

definition try_purge :: "env \<Rightarrow> bool \<Rightarrow> 'z world_scheme \<Rightarrow> 'z world_scheme option" where
  "try_purge env force w = try_purge_loop env force [0..<arena_count w] w"

definition reserve_arena :: "env \<Rightarrow> nat \<Rightarrow> bool \<Rightarrow> 'z world_scheme \<Rightarrow> (ptr option \<times> 'z world_scheme) option" where
  "reserve_arena env min_slices commit w = do {
     let slices = max min_slices DEFAULT_ARENA_SLICES;
     (r, ms, lg) \<leftarrow> ran (arena_create (en_sys env) slices commit (wd_meta w, wd_log w));
     let w = w\<lparr>wd_meta := ms, wd_log := lg\<rparr>;
     case r of
       None \<Rightarrow> Some (None, w)
     | Some a \<Rightarrow>
         let p = ar_desc a; (added, w) = add_arena p (w\<lparr>wd_arenas := (wd_arenas w)(p := a)\<rparr>)
         in if added then Some (Some p, w)
            else do {
              (ms, lg) \<leftarrow> ran (arena_destroy (en_sys env) (wd_arenas w p) (wd_meta w, wd_log w));
              Some (None, w\<lparr>wd_meta := ms, wd_log := lg\<rparr>)
            }
   }"

text \<open>What an allocation of slices returns: arena, index, address, zero flag.\<close>

type_synonym slices_got = "ptr \<times> nat \<times> ptr \<times> bool"

definition arena_alloc :: "env \<Rightarrow> nat \<Rightarrow> nat \<Rightarrow> ptr \<Rightarrow> 'z world_scheme \<Rightarrow> (slices_got option \<times> 'z world_scheme) option" where
  "arena_alloc env n tseq ar w = do {
     (r, w) \<leftarrow> on_arena env ar (\<lambda>now. alloc_slices (en_sys env) now n tseq) w;
     Some (map_option (\<lambda>(idx, p, z). (ar, idx, p, z)) r, w)
   }"

fun alloc_in_pool ::
    "env \<Rightarrow> nat \<Rightarrow> nat \<Rightarrow> nat \<Rightarrow> nat \<Rightarrow> nat list \<Rightarrow> 'z world_scheme \<Rightarrow> (slices_got option \<times> 'z world_scheme) option" where
  "alloc_in_pool env n tseq start count [] w = Some (None, w)"
| "alloc_in_pool env n tseq start count (k # ks) w =
    (let i = (start + k) mod count
     in case arena_at i w of
          None \<Rightarrow> alloc_in_pool env n tseq start count ks w
        | Some ar \<Rightarrow> do {
            (r, w) \<leftarrow> arena_alloc env n tseq ar w;
            case r of
              None \<Rightarrow> alloc_in_pool env n tseq start count ks w
            | Some got \<Rightarrow> Some (Some got, if k \<noteq> 0 then w\<lparr>wd_cursor := i\<rparr> else w)
          })"

definition sp_alloc_slices :: "env \<Rightarrow> nat \<Rightarrow> bool \<Rightarrow> nat \<Rightarrow> 'z world_scheme \<Rightarrow> (slices_got option \<times> 'z world_scheme) option" where
  "sp_alloc_slices env n commit tseq w = do {
     let count = arena_count w;
     (r, w) \<leftarrow> (if count > 0 then alloc_in_pool env n tseq (wd_cursor w mod count) count [0..<count] w else Some (None, w));
     case r of
       Some got \<Rightarrow> Some (Some got, w)
     | None \<Rightarrow> do {
         (r, w) \<leftarrow> reserve_arena env n commit w;
         case r of
           None \<Rightarrow> Some (None, w)
         | Some ar \<Rightarrow> do {
             (r, w) \<leftarrow> arena_alloc env n tseq ar w;
             case r of
               None \<Rightarrow> Some (None, w)
             | Some got \<Rightarrow> Some (Some got, w\<lparr>wd_cursor := arena_count w - 1\<rparr>)
           }
       }
   }"

section \<open>Abandoned pages\<close>

definition abandon_page :: "env \<Rightarrow> ptr \<Rightarrow> nat \<Rightarrow> 'z world_scheme \<Rightarrow> 'z world_scheme option" where
  "abandon_page env page b w =
     map_option snd (on_arena env (pg_arena (wd_pages w page))
       (\<lambda>_. no_result (page_abandon (en_sys env) (unat (pg_slice_index (wd_pages w page))) b)) w)"

fun reclaim_loop :: "nat \<Rightarrow> nat \<Rightarrow> nat list \<Rightarrow> 'z world_scheme \<Rightarrow> (ptr option \<times> 'z world_scheme) option" where
  "reclaim_loop b tseq [] w = Some (None, w)"
| "reclaim_loop b tseq (i # is) w =
    (case arena_at i w of
       None \<Rightarrow> reclaim_loop b tseq is w
     | Some ar \<Rightarrow> do {
         (r, a, ps) \<leftarrow> ran (reclaim_abandoned b tseq (wd_arenas w ar, wd_pages w));
         let w = w\<lparr>wd_arenas := (wd_arenas w)(ar := a), wd_pages := ps\<rparr>;
         case r of
           Some idx \<Rightarrow> Some (Some (slice_ptr a idx), w)
         | None \<Rightarrow> reclaim_loop b tseq is w
       })"

definition reclaim_page :: "nat \<Rightarrow> nat \<Rightarrow> 'z world_scheme \<Rightarrow> (ptr option \<times> 'z world_scheme) option" where
  "reclaim_page b tseq w = reclaim_loop b tseq [0..<arena_count w] w"

section \<open>Requests for no slices\<close>

lemma alloc_slices_0: "alloc_slices sy now 0 tseq (a, lg) = Inr (None, a, lg)"
  by (simp add: alloc_slices_def try_find_and_clear_n_def)

lemma arena_alloc_0: "arena_alloc env 0 tseq ar w = Some (None, w\<lparr>wd_clock := wd_clock w + 1\<rparr>)"
  by (simp add: arena_alloc_def on_arena_def alloc_slices_0)

lemma alloc_in_pool_0: "\<exists>k. alloc_in_pool env 0 tseq start count ks w = Some (None, w\<lparr>wd_clock := k\<rparr>)"
proof (induction ks arbitrary: w)
  case Nil
  show ?case by (intro exI [of _ "wd_clock w"]) simp
next
  case (Cons i ks)
  from Cons [of w] Cons [of "w\<lparr>wd_clock := wd_clock w + 1\<rparr>"] show ?case
    by (auto simp: arena_alloc_0 Let_def split: option.split)
qed

text \<open>The clock plays no part in the creation of an arena.\<close>

lemma reserve_arena_clock:
  "reserve_arena env n c (w\<lparr>wd_clock := k\<rparr>) = map_option (\<lambda>(r, w). (r, w\<lparr>wd_clock := k\<rparr>)) (reserve_arena env n c w)"
  by (auto simp: reserve_arena_def Let_def add_arena_def ran_def split: sum.split option.split)

lemma reserve_arena_registers: "reserve_arena env n c w = Some (Some ar, w') \<Longrightarrow> wd_arena_list w' = wd_arena_list w @ [ar]"
  by (auto simp: reserve_arena_def Let_def add_arena_def ran_def Option.bind_eq_Some_conv split: sum.splits option.splits if_splits)

lemma sp_alloc_slices_0:
  assumes "reserve_arena env 0 commit w = Some (Some ar, w1)"
  shows "\<exists>w2. sp_alloc_slices env 0 commit tseq w = Some (None, w2) \<and> wd_arena_list w2 = wd_arena_list w @ [ar]"
proof -
  obtain k where k: "(if arena_count w > 0 then alloc_in_pool env 0 tseq (wd_cursor w mod arena_count w) (arena_count w) [0..<arena_count w] w
      else Some (None, w)) = Some (None, w\<lparr>wd_clock := k\<rparr>)"
  proof (cases "arena_count w > 0")
    case True
    then show ?thesis
      using alloc_in_pool_0 [of env tseq "wd_cursor w mod arena_count w" "arena_count w" "[0..<arena_count w]" w] that by auto
  next
    case False
    then show ?thesis using that [of "wd_clock w"] by simp
  qed
  have "reserve_arena env 0 commit (w\<lparr>wd_clock := k\<rparr>) = Some (Some ar, w1\<lparr>wd_clock := k\<rparr>)"
    by (simp add: reserve_arena_clock assms)
  then show ?thesis
    using k reserve_arena_registers [OF assms] by (simp add: sp_alloc_slices_def Let_def arena_alloc_0)
qed

end
