(* ===== verification/MiTheap.thy ===== *)
theory MiTheap
  imports MiSubproc MiPageMap MiSizeClass
begin

unbundle bit_operations_syntax

text \<open>
  \<^verbatim>\<open>src/heap.rs\<close>, the thread heaps: allocation, retirement, freeing, reclaiming and handing off
  pages. Thread heaps and logical heaps are stores by address, as they refer to each other and
  pages refer to their thread heap. \<open>enc\<close> and the checks of hardened builds are both switched by
  \<open>sy_hard\<close> (features \<^verbatim>\<open>secure\<close> and \<^verbatim>\<open>debug\<close>).
\<close>

section \<open>State\<close>

record theap =
  th_keys :: keys
  th_tid :: usize
  th_tseq :: usize
  th_pages :: "nat \<Rightarrow> page_queue"
  th_direct :: "nat \<Rightarrow> ptr"
  th_retired_min :: nat
  th_retired_max :: nat
  th_heap :: ptr
  th_hnext :: ptr
  th_hprev :: ptr
  th_linked :: bool
  th_tnext :: ptr

text \<open>A logical heap; the subprocess is the only one there is.\<close>

record lheap =
  hp_keys :: keys
  hp_seq :: usize
  hp_theaps :: ptr
  hp_refcount :: usize

text \<open>
  \<open>wd_zeroed\<close> and \<open>wd_copied\<close> list the ranges cleared and copied, the last first; both also act on
  the link words in the ranges. The other components belong to \<^verbatim>\<open>init.rs\<close>: the registered
  deferred-free callback and its argument, the counters of thread ids and heap numbers, and of the
  running thread the reentrancy flag, the heartbeat, the id (\<open>0\<close> until it is first asked for) and the
  head of its list of thread heaps.
\<close>

record hworld = world +
  wd_links :: links
  wd_pm :: page_map
  wd_theaps :: "ptr \<Rightarrow> theap"
  wd_heaps :: "ptr \<Rightarrow> lheap"
  wd_zeroed :: "(ptr \<times> usize) list"
  wd_copied :: "(ptr \<times> ptr \<times> usize) list"
  wd_deferred_fn :: usize
  wd_deferred_arg :: ptr
  wd_recurse :: bool
  wd_heartbeat :: "64 word"
  wd_next_tid :: usize
  wd_next_seq :: usize
  wd_tid :: usize
  wd_registry :: ptr

definition en_enc :: "env \<Rightarrow> bool" where "en_enc env = sy_hard (en_sys env)"

definition theap_new :: "ptr \<Rightarrow> lheap \<Rightarrow> usize \<Rightarrow> theap" where
  "theap_new hp h tid =
    \<lparr> th_keys = hp_keys h, th_tid = tid, th_tseq = 0, th_pages = (\<lambda>_. pq_new), th_direct = (\<lambda>_. 0),
      th_retired_min = MI_BIN_FULL, th_retired_max = 0, th_heap = hp, th_hnext = 0, th_hprev = 0,
      th_linked = False, th_tnext = 0 \<rparr>"

section \<open>Access to the parts of the state\<close>

definition upd_page :: "ptr \<Rightarrow> (page \<Rightarrow> page) \<Rightarrow> hworld \<Rightarrow> hworld" where
  "upd_page p f w = w\<lparr>wd_pages := (wd_pages w)(p := f (wd_pages w p))\<rparr>"

definition upd_theap :: "ptr \<Rightarrow> (theap \<Rightarrow> theap) \<Rightarrow> hworld \<Rightarrow> hworld" where
  "upd_theap th f w = w\<lparr>wd_theaps := (wd_theaps w)(th := f (wd_theaps w th))\<rparr>"

text \<open>An operation on the page at \<open>p\<close> that also works on the links.\<close>

definition on_page :: "ptr \<Rightarrow> (page \<Rightarrow> links \<Rightarrow> ('a \<times> page \<times> links) option) \<Rightarrow> hworld \<Rightarrow> ('a \<times> hworld) option" where
  "on_page p f w = do {
     (r, pg, m) \<leftarrow> f (wd_pages w p) (wd_links w);
     Some (r, w\<lparr>wd_pages := (wd_pages w)(p := pg), wd_links := m\<rparr>)
   }"

definition page_collect :: "env \<Rightarrow> ptr \<Rightarrow> hworld \<Rightarrow> hworld option" where
  "page_collect env p w = do {
     (pg, m) \<leftarrow> collect (en_enc env) (wd_pages w p) (wd_links w);
     Some (w\<lparr>wd_pages := (wd_pages w)(p := pg), wd_links := m\<rparr>)
   }"

text \<open>A queue of a thread heap, together with the links in the page headers.\<close>

definition on_queue :: "ptr \<Rightarrow> nat \<Rightarrow> (page_queue \<times> pages \<Rightarrow> page_queue \<times> pages) \<Rightarrow> hworld \<Rightarrow> hworld" where
  "on_queue th b f w =
    (let (q, ps) = f (th_pages (wd_theaps w th) b, wd_pages w)
     in upd_theap th (\<lambda>t. t\<lparr>th_pages := (th_pages t)(b := q)\<rparr>) (w\<lparr>wd_pages := ps\<rparr>))"

definition zero_range :: "ptr \<Rightarrow> usize \<Rightarrow> hworld \<Rightarrow> hworld" where
  "zero_range p n w =
    w\<lparr>wd_zeroed := (p, n) # wd_zeroed w,
      wd_links := (\<lambda>a. if unat p \<le> unat a \<and> unat a < unat p + unat n then 0 else wd_links w a)\<rparr>"

section \<open>Releasing and retiring pages\<close>

definition release_page_slices :: "env \<Rightarrow> ptr \<Rightarrow> hworld \<Rightarrow> hworld option" where
  "release_page_slices env p w =
    (let page = wd_pages w p; arena = pg_arena page
     in if arena = 0 then Some w
        else do {
          let slice_index = unat (pg_slice_index page);
          let slice_count = unat (pg_slice_count page);
          let huge = is_huge page;
          let base = slice_ptr (wd_arenas w arena) slice_index;
          let w = w\<lparr>wd_pm := unregister base slice_count (wd_pm w)\<rparr>;
          w \<leftarrow> w_free_slices env arena slice_index slice_count w;
          if huge then w_meta_free p sizeof_page w else Some w
        })"

definition clear_direct :: "ptr \<Rightarrow> theap \<Rightarrow> theap" where
  "clear_direct p t = t\<lparr>th_direct := (\<lambda>i. if th_direct t i = p then 0 else th_direct t i)\<rparr>"

text \<open>The three steps of every release: forget the page, unlink it, give its slices back.\<close>

definition drop_page :: "env \<Rightarrow> ptr \<Rightarrow> nat \<Rightarrow> ptr \<Rightarrow> hworld \<Rightarrow> hworld option" where
  "drop_page env th b p w = release_page_slices env p (on_queue th b (remove p) (upd_theap th (clear_direct p) w))"

definition retire_cycles :: "page \<Rightarrow> nat" where
  "retire_cycles page =
    (if pg_block_size page \<le> of_nat MI_SMALL_MAX_OBJ_SIZE then MI_RETIRE_CYCLES else MI_RETIRE_CYCLES div 4)"

definition note_retired :: "nat \<Rightarrow> theap \<Rightarrow> theap" where
  "note_retired b t = t\<lparr>th_retired_min := min b (th_retired_min t), th_retired_max := max b (th_retired_max t)\<rparr>"

definition retire_page :: "env \<Rightarrow> ptr \<Rightarrow> hworld \<Rightarrow> hworld option" where
  "retire_page env p w =
    (let page = wd_pages w p; th = pg_theap page; b = unat (pg_bin page)
     in if th = 0 \<or> pg_arena page = 0 then Some w
        else if pg_retire_expire page \<noteq> 0 then Some w
        else if b \<noteq> MI_BIN_HUGE \<and> pq_len (th_pages (wd_theaps w th) b) \<le> 1
        then Some (upd_theap th (note_retired b) (upd_page p (\<lambda>pg. pg\<lparr>pg_retire_expire := of_nat (retire_cycles page)\<rparr>) w))
        else drop_page env th b p w)"

section \<open>Allocation\<close>

definition next_tseq :: "ptr \<Rightarrow> hworld \<Rightarrow> nat \<times> hworld" where
  "next_tseq th w = (unat (th_tseq (wd_theaps w th)), upd_theap th (\<lambda>t. t\<lparr>th_tseq := th_tseq t + 1\<rparr>) w)"

text \<open>A fresh page is stamped with its owner and provenance, then registered and linked.\<close>

definition own_page :: "ptr \<Rightarrow> theap \<Rightarrow> ptr \<Rightarrow> nat \<Rightarrow> page \<Rightarrow> page" where
  "own_page th t arena b pg = set_provenance th arena (of_nat b) (set_owner_fresh (th_tid t) pg)"

definition new_page :: "env \<Rightarrow> ptr \<Rightarrow> nat \<Rightarrow> usize \<Rightarrow> nat \<Rightarrow> hworld \<Rightarrow> (ptr option \<times> hworld) option" where
  "new_page env th b bs slices w = do {
     let (tseq, w) = next_tseq th w;
     let eager = eager_commit (sy_vals (en_sys env));
     (got, w) \<leftarrow> sp_alloc_slices env slices eager tseq w;
     case got of
       None \<Rightarrow> Some (None, w)
     | Some (arena, idx, p, is_zero) \<Rightarrow> do {
         let t = wd_theaps w th;
         let pg = own_page th t arena b (init p (of_nat idx) (of_nat slices) bs (th_keys t) is_zero);
         let w = w\<lparr>wd_pages := (wd_pages w)(p := pg)\<rparr>;
         let (ok, pm) = register (en_map_ok env) p slices p (wd_pm w);
         let w = w\<lparr>wd_pm := pm\<rparr>;
         if \<not> ok then do {
           w \<leftarrow> w_free_slices env arena idx slices w;
           Some (None, w)
         } else Some (Some p, on_queue th b (push_front p) w)
       }
   }"

definition alloc_huge :: "env \<Rightarrow> ptr \<Rightarrow> usize \<Rightarrow> hworld \<Rightarrow> (ptr option \<times> hworld) option" where
  "alloc_huge env th sz w = do {
     let bs = align_up sz (of_nat MI_MAX_ALIGN_SIZE);
     let slices = unat (align_up bs (of_nat MI_ARENA_SLICE_SIZE) div of_nat MI_ARENA_SLICE_SIZE);
     let (tseq, w) = next_tseq th w;
     let eager = eager_commit (sy_vals (en_sys env));
     (got, w) \<leftarrow> sp_alloc_slices env slices eager tseq w;
     case got of
       None \<Rightarrow> Some (None, w)
     | Some (arena, idx, p, is_zero) \<Rightarrow> do {
         (hdr, w) \<leftarrow> w_meta_zalloc env sizeof_page w;
         case hdr of
           None \<Rightarrow> do {
             w \<leftarrow> w_free_slices env arena idx slices w;
             Some (None, w)
           }
         | Some h \<Rightarrow> do {
             let t = wd_theaps w th;
             let pg = own_page th t arena MI_BIN_HUGE (init_huge p (of_nat idx) (of_nat slices) bs (th_keys t) is_zero);
             let w = w\<lparr>wd_pages := (wd_pages w)(h := pg)\<rparr>;
             let (ok, pm) = register (en_map_ok env) p slices h (wd_pm w);
             let w = w\<lparr>wd_pm := pm\<rparr>;
             if \<not> ok then do {
               w \<leftarrow> w_free_slices env arena idx slices w;
               w \<leftarrow> w_meta_free h sizeof_page w;
               Some (None, w)
             } else do {
               let w = on_queue th MI_BIN_HUGE (push_front h) w;
               let (blk, pg) = serve_huge (wd_pages w h);
               Some (Some blk, w\<lparr>wd_pages := (wd_pages w)(h := pg)\<rparr>)
             }
           }
       }
   }"

definition try_reclaim :: "env \<Rightarrow> ptr \<Rightarrow> nat \<Rightarrow> hworld \<Rightarrow> (ptr option \<times> hworld) option" where
  "try_reclaim env th b w = do {
     let (tseq, w) = next_tseq th w;
     (r, w) \<leftarrow> reclaim_page b tseq w;
     case r of
       None \<Rightarrow> Some (None, w)
     | Some p \<Rightarrow> do {
         let arena = pg_arena (wd_pages w p);
         let w = upd_page p (\<lambda>pg. set_provenance th arena (of_nat b) (mark_reused (set_owner (th_tid (wd_theaps w th)) pg))) w;
         w \<leftarrow> page_collect env p w;
         Some (Some p, on_queue th b (push_front p) w)
       }
   }"

text \<open>The walk over the pages of a bin, up to the first that is not full.\<close>

partial_function (option) first_free :: "env \<Rightarrow> ptr \<Rightarrow> hworld \<Rightarrow> (ptr option \<times> hworld) option" where
  "first_free env cur w =
    (if cur = 0 then Some (None, w)
     else do {
       (full, w) \<leftarrow> on_page cur (is_full (en_enc env)) w;
       if \<not> full
       then Some (Some cur, if pg_retire_expire (wd_pages w cur) \<noteq> 0 then upd_page cur (\<lambda>pg. pg\<lparr>pg_retire_expire := 0\<rparr>) w else w)
       else first_free env (pg_next (wd_pages w cur)) w
     })"

definition find_free_page :: "env \<Rightarrow> ptr \<Rightarrow> nat \<Rightarrow> hworld \<Rightarrow> (ptr option \<times> hworld) option" where
  "find_free_page env th b w = do {
     (r, w) \<leftarrow> first_free env (pq_first (th_pages (wd_theaps w th) b)) w;
     case r of Some p \<Rightarrow> Some (Some p, w) | None \<Rightarrow> try_reclaim env th b w
   }"

text \<open>One bin of \<open>collect_retired\<close>; the pair is the range of bins still counting down.\<close>

definition collect_retired_bin :: "env \<Rightarrow> ptr \<Rightarrow> bool \<Rightarrow> nat \<Rightarrow> nat \<times> nat \<Rightarrow> hworld \<Rightarrow> ((nat \<times> nat) \<times> hworld) option" where
  "collect_retired_bin env th force b mm w =
    (let p = pq_first (th_pages (wd_theaps w th) b); page = wd_pages w p; expire = pg_retire_expire page
     in if p = 0 then Some (mm, w)
        else if expire = 0 then Some (mm, w)
        else if \<not> is_all_free page then Some (mm, upd_page p (\<lambda>pg. pg\<lparr>pg_retire_expire := 0\<rparr>) w)
        else let remaining = expire - 1; w = upd_page p (\<lambda>pg. pg\<lparr>pg_retire_expire := remaining\<rparr>) w
             in if remaining = 0 \<or> force then map_option (Pair mm) (drop_page env th b p w)
                else Some ((min b (fst mm), max b (snd mm)), w))"

fun collect_retired_loop :: "env \<Rightarrow> ptr \<Rightarrow> bool \<Rightarrow> nat list \<Rightarrow> nat \<times> nat \<Rightarrow> hworld \<Rightarrow> ((nat \<times> nat) \<times> hworld) option" where
  "collect_retired_loop env th force [] mm w = Some (mm, w)"
| "collect_retired_loop env th force (b # bs) mm w = do {
     (mm, w) \<leftarrow> collect_retired_bin env th force b mm w;
     collect_retired_loop env th force bs mm w
   }"

definition collect_retired :: "env \<Rightarrow> ptr \<Rightarrow> bool \<Rightarrow> hworld \<Rightarrow> hworld option" where
  "collect_retired env th force w = do {
     let lo = th_retired_min (wd_theaps w th);
     let hi = th_retired_max (wd_theaps w th);
     (mm, w) \<leftarrow> collect_retired_loop env th force [lo..<Suc hi] (MI_BIN_FULL, 0) w;
     let w = upd_theap th (\<lambda>t. t\<lparr>th_retired_min := fst mm, th_retired_max := snd mm\<rparr>) w;
     try_purge env False w
   }"

definition page_alloc :: "env \<Rightarrow> ptr \<Rightarrow> hworld \<Rightarrow> (ptr option \<times> hworld) option" where
  "page_alloc env p w = on_page p (alloc (en_enc env)) w"

definition alloc_generic :: "env \<Rightarrow> ptr \<Rightarrow> usize \<Rightarrow> nat \<Rightarrow> hworld \<Rightarrow> (ptr option \<times> hworld) option" where
  "alloc_generic env th sz wsize w =
    (let b = bin sz
     in if b \<ge> MI_BIN_HUGE then alloc_huge env th sz w
        else do {
          let bs = bin_block_size b;
          (r, w) \<leftarrow> find_free_page env th b w;
          (r, w) \<leftarrow> (case r of
             Some p \<Rightarrow> Some (Some p, w)
           | None \<Rightarrow> do {
               w \<leftarrow> collect_retired env th False w;
               new_page env th b bs (page_slices_for bs) w
             });
          case r of
            None \<Rightarrow> Some (None, w)
          | Some p \<Rightarrow> do {
              (blk, w) \<leftarrow> page_alloc env p w;
              (r, blk, w) \<leftarrow> (case blk of
                 Some b \<Rightarrow> Some (Some p, Some b, w)
               | None \<Rightarrow> do {
                   (r, w) \<leftarrow> new_page env th b bs (page_slices_for bs) w;
                   case r of
                     None \<Rightarrow> Some (None, None, w)
                   | Some p \<Rightarrow> do {
                       (blk, w) \<leftarrow> page_alloc env p w;
                       Some (Some p, blk, w)
                     }
                 });
              Some (blk, case (r, blk) of
                (Some p, Some _) \<Rightarrow>
                  if wsize \<le> MI_SMALL_WSIZE_MAX then upd_theap th (\<lambda>t. t\<lparr>th_direct := (th_direct t)(wsize := p)\<rparr>) w else w
              | _ \<Rightarrow> w)
            }
        })"

definition theap_alloc :: "env \<Rightarrow> ptr \<Rightarrow> usize \<Rightarrow> hworld \<Rightarrow> (ptr option \<times> hworld) option" where
  "theap_alloc env th sz w = do {
     let sz = max sz (of_nat MI_INTPTR_SIZE);
     let wsize = unat (wsize_from_size sz);
     let p = (if wsize \<le> MI_SMALL_WSIZE_MAX then th_direct (wd_theaps w th) wsize else 0);
     (blk, w) \<leftarrow> (if p \<noteq> 0 then page_alloc env p w else Some (None, w));
     case blk of
       Some b \<Rightarrow> Some (Some b, w)
     | None \<Rightarrow> alloc_generic env th sz wsize w
   }"

definition alloc_aligned_in :: "env \<Rightarrow> ptr \<Rightarrow> usize \<Rightarrow> usize \<Rightarrow> hworld \<Rightarrow> (ptr option \<times> hworld) option" where
  "alloc_aligned_in env th sz align w =
    (if align \<le> of_nat MI_INTPTR_SIZE then theap_alloc env th sz w
     else if unat sz + unat (align - 1) \<ge> 2 ^ 64 then Some (None, w)
     else do {
       let tot = sz + (align - 1);
       (r, w) \<leftarrow> theap_alloc env th tot w;
       case r of
         None \<Rightarrow> Some (None, w)
       | Some p \<Rightarrow>
           let aligned = align_up p align
           in Some (Some aligned, if aligned \<noteq> p then upd_page (lookup p (wd_pm w)) set_has_interior w else w)
     })"

definition ZERO_VIA_PAGE_MIN :: usize where "ZERO_VIA_PAGE_MIN = 4096"

definition alloc_zeroed_in :: "env \<Rightarrow> ptr \<Rightarrow> usize \<Rightarrow> hworld \<Rightarrow> (ptr option \<times> hworld) option" where
  "alloc_zeroed_in env th sz w = do {
     (r, w) \<leftarrow> theap_alloc env th sz w;
     case r of
       None \<Rightarrow> Some (None, w)
     | Some p \<Rightarrow>
         Some (Some p,
           if sz > ZERO_VIA_PAGE_MIN then zero_range p (zero_block (wd_pages w (lookup p (wd_pm w)))) w
           else zero_range p sz w)
   }"

definition alloc_zeroed_aligned_in :: "env \<Rightarrow> ptr \<Rightarrow> usize \<Rightarrow> usize \<Rightarrow> hworld \<Rightarrow> (ptr option \<times> hworld) option" where
  "alloc_zeroed_aligned_in env th sz align w =
    (if align \<le> of_nat MI_INTPTR_SIZE then alloc_zeroed_in env th sz w
     else do {
       (r, w) \<leftarrow> alloc_aligned_in env th sz align w;
       case r of None \<Rightarrow> Some (None, w) | Some p \<Rightarrow> Some (Some p, zero_range p sz w)
     })"

section \<open>Aligned allocation\<close>

lemma align_up_range:
  assumes "pow2_word align k" "unat p + unat align \<le> 2 ^ 64"
  shows "unat align dvd unat (align_up p align)" "unat p \<le> unat (align_up p align)" "unat (align_up p align) < unat p + unat align"
proof -
  have a: "align \<noteq> 0" "0 < unat align" using assms(1) by (auto simp: pow2_word_def unat_pow2)
  note up = align_up_unat [OF a(1) assms(2)]
  show "unat align dvd unat (align_up p align)" by (simp add: up)
  show "unat p \<le> unat (align_up p align)" using nat_div_ceil_le [OF a(2), of "unat p"] by (simp add: up)
  show "unat (align_up p align) < unat p + unat align" using nat_div_ceil_bound [OF a(2), of "unat p"] by (simp add: up)
qed

text \<open>
  An aligned allocation asks for \<open>align - 1\<close> bytes more and refuses sizes for which the sum
  overflows; when the block it gets lies in the address space, the pointer returned is aligned,
  inside the block with \<open>size\<close> bytes left behind it, and the page is flagged as holding interior
  pointers whenever the pointer is not the start of the block.
\<close>

theorem aligned_pointer_in_block:
  assumes "pow2_word align k" "8 < unat align"
    and "theap_alloc env th (sz + (align - 1)) w = Some (Some p, w1)" "unat p + unat sz + unat align \<le> 2 ^ 64"
  shows "if 2 ^ 64 \<le> unat sz + unat (align - 1) then alloc_aligned_in env th sz align w = Some (None, w)
    else \<exists>q w'. alloc_aligned_in env th sz align w = Some (Some q, w') \<and> unat align dvd unat q
      \<and> unat p \<le> unat q \<and> unat q + unat sz \<le> unat p + unat (sz + (align - 1))
      \<and> w' = (if q = p then w1 else upd_page (lookup p (wd_pm w1)) set_has_interior w1)"
proof -
  have big: "\<not> align \<le> of_nat MI_INTPTR_SIZE" using assms(2) by (simp add: mi_consts word_le_nat_alt)
  have a1: "unat (align - 1) = unat align - 1" using assms(2) by (subst unat_diff_le) (auto simp: word_le_nat_alt)
  show ?thesis
  proof (cases "2 ^ 64 \<le> unat sz + unat (align - 1)")
    case True
    then show ?thesis using big by (simp add: alloc_aligned_in_def)
  next
    case False
    then have tot: "unat (sz + (align - 1)) = unat sz + (unat align - 1)" by (simp add: unat_add_small a1)
    have fit: "unat p + unat align \<le> 2 ^ 64" using assms(4) by linarith
    note up = align_up_range [OF assms(1) fit]
    let ?q = "align_up p align"
    have run: "alloc_aligned_in env th sz align w
        = Some (Some ?q, if ?q \<noteq> p then upd_page (lookup p (wd_pm w1)) set_has_interior w1 else w1)"
      using big False assms(3) by (simp add: alloc_aligned_in_def Let_def)
    have "unat ?q + unat sz \<le> unat p + unat (sz + (align - 1))" using up(3) assms(2) unfolding tot by linarith
    with run up(1,2) False show ?thesis by auto
  qed
qed

text \<open>A state with the page \<open>pg\<close> at 65536, which serves requests of three words to the running thread.\<close>

definition sample_hworld :: "page \<Rightarrow> hworld" where
  "sample_hworld pg =
    \<lparr> wd_arenas = (\<lambda>_. undefined), wd_arena_list = [], wd_cursor = 0, wd_meta = [], wd_log = [], wd_clock = 0,
      wd_pages = (\<lambda>_. pg), wd_links = (\<lambda>_. 0), wd_pm = snd (register (\<lambda>_. True) 65536 1 65536 pm_start),
      wd_theaps = (\<lambda>_. (theap_new 0 \<lparr>hp_keys = (0, 0), hp_seq = 0, hp_theaps = 0, hp_refcount = 0\<rparr> 8)\<lparr>th_direct := (\<lambda>_. 0)(3 := 65536)\<rparr>),
      wd_heaps = (\<lambda>_. undefined), wd_zeroed = [], wd_copied = [], wd_deferred_fn = 0, wd_deferred_arg = 0,
      wd_recurse = False, wd_heartbeat = 0, wd_next_tid = 3, wd_next_seq = 1, wd_tid = 8, wd_registry = 0 \<rparr>"

definition sample_henv :: env where
  "sample_henv = \<lparr> en_sys = sample_sys False, en_now = (\<lambda>_. 0), en_map_ok = (\<lambda>_. True) \<rparr>"

lemma sample_lookup: "pm_slice_index a = 1 \<Longrightarrow> lookup a (wd_pm (sample_hworld pg)) = 65536"
  by (simp add: sample_hworld_def register_def ensure_top_def pm_start_def pm_split_def pm_slice_index_def ensure_submap_def
      lookup_def page_map_consts mi_consts Let_def take_bit_eq_mask [symmetric])

lemma aligned_pointer_in_block_witness:
  "\<exists>q w'. alloc_aligned_in sample_henv 4096 8 16 (sample_hworld sample_used) = Some (Some q, w') \<and> unat (16 :: usize) dvd unat q"
proof -
  have "unat (wsize_from_size 23) = 3" by (simp add: wsize_from_size_def mi_consts unat_div_ceil nat_div_ceil_def)
  then have "\<exists>w1. theap_alloc sample_henv 4096 (8 + (16 - 1)) (sample_hworld sample_used) = Some (Some 65744, w1)"
    by (simp add: theap_alloc_def Let_def mi_consts max_def sample_hworld_def page_alloc_def on_page_def alloc_def sample_used_def pop_def
        en_enc_def sample_henv_def sample_sys_def)
  then obtain w1 where a: "theap_alloc sample_henv 4096 (8 + (16 - 1)) (sample_hworld sample_used) = Some (Some 65744, w1)" ..
  have "pow2_word 16 4" by (simp add: pow2_word_def)
  from aligned_pointer_in_block [OF this _ a] show ?thesis by auto
qed

end
