(* ===== verification/MiFree.thy ===== *)
theory MiFree
  imports MiTheap
begin

unbundle bit_operations_syntax

text \<open>
  \<^verbatim>\<open>src/heap.rs\<close>, freeing: the dispatch on owner and flags, cross-thread frees, the claim of
  abandoned pages, the collection of a thread heap and its teardown.
\<close>

section \<open>Freeing\<close>

text \<open>Hardened builds abort on a pointer they can tell to be wrong.\<close>

datatype free_result = Free_Done | Abort_Invalid | Abort_Double

definition free_foreign_or_invalid :: "env \<Rightarrow> free_result" where
  "free_foreign_or_invalid env = (if sy_hard (en_sys env) then Abort_Invalid else Free_Done)"

definition recover_block_start :: "page \<Rightarrow> ptr \<Rightarrow> usize \<Rightarrow> ptr" where
  "recover_block_start pg p bs =
    (let pstart = pg_page_start pg; off = p - pstart
     in if off = 0 then p else pstart + (off div bs) * bs)"

text \<open>The checks of hardened builds on an owner's free.\<close>

definition check_block :: "env \<Rightarrow> page \<Rightarrow> links \<Rightarrow> ptr \<Rightarrow> free_result option" where
  "check_block env pg m block =
    (if \<not> sy_hard (en_sys env) then Some Free_Done
     else if \<not> contains block pg then Some Abort_Invalid
     else do {
       listed \<leftarrow> owner_lists_contain (en_enc env) block pg m;
       Some (if listed then Abort_Double else Free_Done)
     })"

definition owner_free :: "env \<Rightarrow> ptr \<Rightarrow> ptr \<Rightarrow> hworld \<Rightarrow> (free_result \<times> hworld) option" where
  "owner_free env block p w = do {
     res \<leftarrow> check_block env (wd_pages w p) (wd_links w) block;
     if res \<noteq> Free_Done then Some (res, w)
     else do {
       let (pg, m) = free_local (en_enc env) block (wd_pages w p) (wd_links w);
       let w = w\<lparr>wd_pages := (wd_pages w)(p := pg), wd_links := m\<rparr>;
       if is_all_free pg then map_option (Pair Free_Done) (retire_page env p w) else Some (Free_Done, w)
     }
   }"

definition unabandon_if_mapped :: "env \<Rightarrow> ptr \<Rightarrow> hworld \<Rightarrow> hworld option" where
  "unabandon_if_mapped env p w =
    (let page = wd_pages w p; arena = pg_arena page
     in if is_abandoned_mapped page \<and> arena \<noteq> 0
        then map_option snd (on_arena env arena
               (\<lambda>_ (a, lg). run_bind (page_unabandon (unat (pg_slice_index page)) (unat (pg_bin page)) a) (\<lambda>a. Inr ((), a, lg))) w)
        else Some w)"

text \<open>Step 2 of the claimer: a page with room that is not registered yet is registered and stamped.\<close>

definition reabandon :: "env \<Rightarrow> ptr \<Rightarrow> hworld \<Rightarrow> hworld option" where
  "reabandon env p w = do {
     (full, w) \<leftarrow> on_page p (is_full (en_enc env)) w;
     if \<not> full \<and> \<not> is_abandoned_mapped (wd_pages w p) \<and> pg_arena (wd_pages w p) \<noteq> 0
     then do {
       w \<leftarrow> abandon_page env p (unat (pg_bin (wd_pages w p))) w;
       Some (upd_page p (set_owner MI_THREADID_ABANDONED_MAPPED) w)
     } else Some w
   }"

partial_function (option) try_collect_loop :: "env \<Rightarrow> ptr \<Rightarrow> ptr \<Rightarrow> bool \<Rightarrow> bool \<Rightarrow> hworld \<Rightarrow> hworld option" where
  "try_collect_loop env p mt_free small first w = do {
     w \<leftarrow> (if first \<and> small
           then map_option snd (on_page p (\<lambda>pg m. map_option (Pair ()) (collect_partly (en_enc env) mt_free pg m)) w)
           else page_collect env p w);
     if is_all_free (wd_pages w p) then do {
       w \<leftarrow> unabandon_if_mapped env p w;
       release_page_slices env p w
     } else do {
       w \<leftarrow> reabandon env p w;
       let (done, pg) = try_unown (wd_pages w p);
       let w = w\<lparr>wd_pages := (wd_pages w)(p := pg)\<rparr>;
       if done then Some w else try_collect_loop env p mt_free small False w
     }
   }"

definition free_try_collect_mt :: "env \<Rightarrow> ptr \<Rightarrow> ptr \<Rightarrow> hworld \<Rightarrow> hworld option" where
  "free_try_collect_mt env p mt_free w =
    try_collect_loop env p mt_free (pg_block_size (wd_pages w p) \<le> of_nat MI_SMALL_SIZE_MAX) True w"

definition free_cold :: "env \<Rightarrow> ptr \<Rightarrow> ptr \<Rightarrow> usize \<Rightarrow> hworld \<Rightarrow> (free_result \<times> hworld) option" where
  "free_cold env ptr p xtid w =
    (let bs = pg_block_size (wd_pages w p)
     in if xtid AND NOT MI_PAGE_FLAG_MASK = 0 then owner_free env (recover_block_start (wd_pages w p) ptr bs) p w
        else do {
          let block = (if xtid AND MI_PAGE_FLAG_MASK = 0 then ptr else recover_block_start (wd_pages w p) ptr bs);
          let (won, pg, m) = thread_free_push (en_enc env) block (wd_pages w p) (wd_links w);
          let w = w\<lparr>wd_pages := (wd_pages w)(p := pg), wd_links := m\<rparr>;
          if won then map_option (Pair Free_Done) (free_try_collect_mt env p block w) else Some (Free_Done, w)
        })"

text \<open>\<^verbatim>\<open>src/init.rs\<close>: the id of the calling thread, drawn on first use.\<close>

definition current_tid :: "hworld \<Rightarrow> usize \<times> hworld" where
  "current_tid w =
    (if wd_tid w \<noteq> 0 then (wd_tid w, w)
     else let tid = push_bit 2 (wd_next_tid w) in (tid, w\<lparr>wd_next_tid := wd_next_tid w + 1, wd_tid := tid\<rparr>))"

definition heap_free :: "env \<Rightarrow> ptr \<Rightarrow> hworld \<Rightarrow> (free_result \<times> hworld) option" where
  "heap_free env ptr w =
    (let p = lookup ptr (wd_pm w)
     in if p = 0 then Some (free_foreign_or_invalid env, w)
        else let raw = xthread_id_raw (wd_pages w p); (tid, w) = current_tid w; xtid = tid XOR raw
             in if xtid = 0 then owner_free env ptr p w else free_cold env ptr p xtid w)"

text \<open>Without \<^verbatim>\<open>std\<close> there is one thread and no dispatch.\<close>

definition heap_free_single :: "env \<Rightarrow> ptr \<Rightarrow> hworld \<Rightarrow> (free_result \<times> hworld) option" where
  "heap_free_single env ptr w =
    (let p = lookup ptr (wd_pm w)
     in if p = 0 then Some (free_foreign_or_invalid env, w)
        else do {
          let block = recover_block_start (wd_pages w p) ptr (pg_block_size (wd_pages w p));
          let (pg, m) = free_local (en_enc env) block (wd_pages w p) (wd_links w);
          let w = w\<lparr>wd_pages := (wd_pages w)(p := pg), wd_links := m\<rparr>;
          if is_all_free pg then map_option (Pair Free_Done) (retire_page env p w) else Some (Free_Done, w)
        })"

definition usable_size :: "ptr \<Rightarrow> hworld \<Rightarrow> usize" where
  "usable_size ptr w =
    (let p = lookup ptr (wd_pm w)
     in if p = 0 then 0
        else let bs = pg_block_size (wd_pages w p); pstart = pg_page_start (wd_pages w p);
                 in_block = (ptr - pstart) mod bs
             in bs - in_block)"

definition is_in_heap_region :: "ptr \<Rightarrow> hworld \<Rightarrow> bool" where
  "is_in_heap_region ptr w \<longleftrightarrow> ptr \<noteq> 0 \<and> owns_address ptr w"

section \<open>Deferred frees\<close>

text \<open>
  \<^verbatim>\<open>src/init.rs\<close>: the callback a program registers is a parameter \<open>cb\<close>, by its address; it may change
  the state in any way, but the flag keeps it from running inside itself.
\<close>

type_synonym callback = "usize \<Rightarrow> bool \<Rightarrow> 64 word \<Rightarrow> ptr \<Rightarrow> hworld \<Rightarrow> hworld option"

definition register_deferred_free :: "usize option \<Rightarrow> ptr \<Rightarrow> hworld \<Rightarrow> hworld" where
  "register_deferred_free f arg w = w\<lparr>wd_deferred_arg := arg, wd_deferred_fn := (case f of None \<Rightarrow> 0 | Some a \<Rightarrow> a)\<rparr>"

definition run_deferred_free :: "callback \<Rightarrow> bool \<Rightarrow> hworld \<Rightarrow> hworld option" where
  "run_deferred_free cb force w =
    (let addr = wd_deferred_fn w
     in if addr = 0 then Some w
        else if wd_recurse w then Some w
        else let hb = wd_heartbeat w; w = w\<lparr>wd_recurse := True, wd_heartbeat := hb + 1\<rparr>
             in map_option (\<lambda>w. w\<lparr>wd_recurse := False\<rparr>) (cb addr force hb (wd_deferred_arg w) w))"

section \<open>Collecting a thread heap\<close>

text \<open>The pages of one bin, from \<open>cur\<close> on; the successor is read before a page is released.\<close>

partial_function (option) collect_pages :: "env \<Rightarrow> ptr \<Rightarrow> bool \<Rightarrow> nat \<Rightarrow> ptr \<Rightarrow> hworld \<Rightarrow> hworld option" where
  "collect_pages env th force b cur w =
    (if cur = 0 then Some w
     else do {
       let nxt = pg_next (wd_pages w cur);
       w \<leftarrow> page_collect env cur w;
       w \<leftarrow> (if is_all_free (wd_pages w cur)
             then if force then drop_page env th b cur w else retire_page env cur w
             else Some w);
       collect_pages env th force b nxt w
     })"

fun collect_bins :: "env \<Rightarrow> ptr \<Rightarrow> bool \<Rightarrow> nat list \<Rightarrow> hworld \<Rightarrow> hworld option" where
  "collect_bins env th force [] w = Some w"
| "collect_bins env th force (b # bs) w = do {
     w \<leftarrow> collect_pages env th force b (pq_first (th_pages (wd_theaps w th) b)) w;
     collect_bins env th force bs w
   }"

definition theap_collect :: "callback \<Rightarrow> env \<Rightarrow> ptr \<Rightarrow> bool \<Rightarrow> hworld \<Rightarrow> hworld option" where
  "theap_collect cb env th force w = do {
     w \<leftarrow> run_deferred_free cb force w;
     w \<leftarrow> collect_bins env th force [0..<MI_BIN_COUNT] w;
     let w = (if force then upd_theap th (\<lambda>t. t\<lparr>th_retired_min := MI_BIN_FULL, th_retired_max := 0\<rparr>) w else w);
     try_purge env force w
   }"

section \<open>Teardown of a thread heap\<close>

definition abandon_owned_page :: "env \<Rightarrow> ptr \<Rightarrow> nat \<Rightarrow> hworld \<Rightarrow> hworld option" where
  "abandon_owned_page env p b w = do {
     w \<leftarrow> page_collect env p w;
     if is_all_free (wd_pages w p) then release_page_slices env p w
     else do {
       (full, w) \<leftarrow> on_page p (is_full (en_enc env)) w;
       if full then Some (upd_page p (\<lambda>pg. set_unowned (set_owner MI_THREADID_ABANDONED pg)) w)
       else do {
         w \<leftarrow> abandon_page env p b w;
         Some (upd_page p (\<lambda>pg. set_unowned (set_owner MI_THREADID_ABANDONED_MAPPED pg)) w)
       }
     }
   }"

definition upd_heap :: "ptr \<Rightarrow> (lheap \<Rightarrow> lheap) \<Rightarrow> hworld \<Rightarrow> hworld" where
  "upd_heap hp f w = w\<lparr>wd_heaps := (wd_heaps w)(hp := f (wd_heaps w hp))\<rparr>"

definition register_theap :: "ptr \<Rightarrow> ptr \<Rightarrow> hworld \<Rightarrow> hworld" where
  "register_theap hp th w =
    (let head = hp_theaps (wd_heaps w hp);
         w = upd_theap th (\<lambda>t. t\<lparr>th_hnext := head\<rparr>) w;
         w = upd_theap th (\<lambda>t. t\<lparr>th_hprev := 0\<rparr>) w;
         w = (if head \<noteq> 0 then upd_theap head (\<lambda>t. t\<lparr>th_hprev := th\<rparr>) w else w);
         w = upd_theap th (\<lambda>t. t\<lparr>th_linked := True\<rparr>) w
     in upd_heap hp (\<lambda>h. h\<lparr>hp_theaps := th\<rparr>) w)"

definition unregister_theap :: "ptr \<Rightarrow> ptr \<Rightarrow> hworld \<Rightarrow> hworld" where
  "unregister_theap hp th w =
    (if \<not> th_linked (wd_theaps w th) then w
     else let prv = th_hprev (wd_theaps w th); nxt = th_hnext (wd_theaps w th);
              w = (if prv = 0 then upd_heap hp (\<lambda>h. h\<lparr>hp_theaps := nxt\<rparr>) w
                   else upd_theap prv (\<lambda>t. t\<lparr>th_hnext := nxt\<rparr>) w);
              w = (if nxt \<noteq> 0 then upd_theap nxt (\<lambda>t. t\<lparr>th_hprev := prv\<rparr>) w else w)
          in upd_theap th (\<lambda>t. t\<lparr>th_hnext := 0, th_hprev := 0, th_linked := False\<rparr>) w)"

partial_function (option) drop_pages :: "env \<Rightarrow> ptr \<Rightarrow> nat \<Rightarrow> ptr \<Rightarrow> hworld \<Rightarrow> hworld option" where
  "drop_pages env th b cur w =
    (if cur = 0 then Some w
     else do {
       let nxt = pg_next (wd_pages w cur);
       w \<leftarrow> abandon_owned_page env cur b (on_queue th b (remove cur) w);
       drop_pages env th b nxt w
     })"

fun drop_bins :: "env \<Rightarrow> ptr \<Rightarrow> nat list \<Rightarrow> hworld \<Rightarrow> hworld option" where
  "drop_bins env th [] w = Some w"
| "drop_bins env th (b # bs) w = do {
     w \<leftarrow> drop_pages env th b (pq_first (th_pages (wd_theaps w th) b)) w;
     drop_bins env th bs w
   }"

definition theap_drop :: "env \<Rightarrow> ptr \<Rightarrow> hworld \<Rightarrow> hworld option" where
  "theap_drop env th w =
    (let w = (if th_linked (wd_theaps w th) then unregister_theap (th_heap (wd_theaps w th)) th w else w)
     in drop_bins env th [0..<MI_BIN_COUNT] w)"

section \<open>The dispatch against its meaning\<close>

text \<open>Flags and owner id of a folded word.\<close>

lemma zero_bits: "(x :: usize) = 0 \<Longrightarrow> \<not> bit x n"
  by simp

lemma folded_word:
  assumes "tid AND MI_PAGE_FLAG_MASK = 0"
  shows "(tid XOR raw) AND MI_PAGE_FLAG_MASK = raw AND MI_PAGE_FLAG_MASK"
    "(tid XOR raw) AND NOT MI_PAGE_FLAG_MASK = 0 \<longleftrightarrow> raw AND NOT MI_PAGE_FLAG_MASK = tid"
    "tid XOR raw = 0 \<longleftrightarrow> raw AND NOT MI_PAGE_FLAG_MASK = tid \<and> raw AND MI_PAGE_FLAG_MASK = 0"
proof -
  let ?m = MI_PAGE_FLAG_MASK
  have z: "\<not> (bit tid n \<and> bit ?m n)" for n using zero_bits [OF assms, of n] by (simp add: bit_simps)
  show flags: "(tid XOR raw) AND ?m = raw AND ?m" using z by (intro bit_word_eqI) (auto simp: bit_simps)
  show high: "(tid XOR raw) AND NOT ?m = 0 \<longleftrightarrow> raw AND NOT ?m = tid"
  proof
    assume a: "(tid XOR raw) AND NOT ?m = 0"
    show "raw AND NOT ?m = tid" using zero_bits [OF a] z by (intro bit_word_eqI) (auto simp: bit_simps)
  next
    assume "raw AND NOT ?m = tid"
    then have "(tid XOR raw) AND NOT ?m = ((raw AND NOT ?m) XOR raw) AND NOT ?m" by simp
    also have "\<dots> = 0" by (intro bit_word_eqI) (auto simp: bit_simps)
    finally show "(tid XOR raw) AND NOT ?m = 0" .
  qed
  have "x = 0 \<longleftrightarrow> x AND NOT ?m = 0 \<and> x AND ?m = 0" for x :: usize
  proof
    assume x: "x AND NOT ?m = 0 \<and> x AND ?m = 0"
    show "x = 0" using zero_bits [OF conjunct1 [OF x]] zero_bits [OF conjunct2 [OF x]] by (intro bit_word_eqI) (auto simp: bit_simps)
  qed simp
  from this [of "tid XOR raw"] show "tid XOR raw = 0 \<longleftrightarrow> raw AND NOT ?m = tid \<and> raw AND ?m = 0"
    unfolding high flags .
qed

text \<open>
  The meaning of a free: look the page up, find the start of the block if the page may hold interior
  pointers, and free it as the owner or push it on the page's list.
\<close>

definition free_reference :: "env \<Rightarrow> ptr \<Rightarrow> hworld \<Rightarrow> (free_result \<times> hworld) option" where
  "free_reference env ptr w =
    (let p = lookup ptr (wd_pm w)
     in if p = 0 then Some (free_foreign_or_invalid env, w)
        else let (tid, w) = current_tid w;
                 page = wd_pages w p;
                 flagged = (xthread_id_raw page AND MI_PAGE_FLAG_MASK \<noteq> 0);
                 block = (if flagged then recover_block_start page ptr (pg_block_size page) else ptr)
             in if owner_tid page = tid then owner_free env block p w
                else case thread_free_push (en_enc env) block page (wd_links w) of
                       (won, pg, m) \<Rightarrow>
                         (let w = w\<lparr>wd_pages := (wd_pages w)(p := pg), wd_links := m\<rparr>
                          in if won then map_option (Pair Free_Done) (free_try_collect_mt env p block w)
                             else Some (Free_Done, w)))"

definition tid_ok :: "usize \<Rightarrow> bool" where
  "tid_ok tid \<longleftrightarrow> tid AND MI_PAGE_FLAG_MASK = 0 \<and> MI_THREADID_ABANDONED_MAPPED < tid"

lemma push_bit_tid: "push_bit 2 (x :: usize) AND MI_PAGE_FLAG_MASK = 0"
proof -
  have m: "MI_PAGE_FLAG_MASK = mask 2" by (simp add: mi_consts mask_eq_exp_minus_1)
  show ?thesis unfolding m by (intro bit_word_eqI) (auto simp: bit_simps)
qed

lemma current_tid_flags:
  assumes "wd_tid w AND MI_PAGE_FLAG_MASK = 0" "current_tid w = (tid, w')"
  shows "tid AND MI_PAGE_FLAG_MASK = 0"
  using assms push_bit_tid by (auto simp: current_tid_def Let_def split: if_splits)

lemma heap_free_reference:
  assumes "wd_tid w AND MI_PAGE_FLAG_MASK = 0"
  shows "heap_free env ptr w = free_reference env ptr w"
proof (cases "lookup ptr (wd_pm w) = 0")
  case False
  obtain tid w' where t: "current_tid w = (tid, w')" by fastforce
  have pages: "wd_pages w' = wd_pages w" using t by (auto simp: current_tid_def Let_def split: if_splits)
  let ?p = "lookup ptr (wd_pm w)"
  let ?raw = "xthread_id_raw (wd_pages w ?p)"
  note f = folded_word [OF current_tid_flags [OF assms t], of ?raw]
  have own: "owner_tid (wd_pages w ?p) = ?raw AND NOT MI_PAGE_FLAG_MASK" by (simp add: owner_tid_def xthread_id_raw_def)
  have zero: "tid XOR ?raw = 0 \<longleftrightarrow> owner_tid (wd_pages w ?p) = tid \<and> ?raw AND MI_PAGE_FLAG_MASK = 0"
    unfolding own by (rule f(3))
  have mine: "(tid XOR ?raw) AND NOT MI_PAGE_FLAG_MASK = 0 \<longleftrightarrow> owner_tid (wd_pages w ?p) = tid"
    unfolding own by (rule f(2))
  show ?thesis
  proof (cases "owner_tid (wd_pages w ?p) = tid")
    case True
    show ?thesis
      using False zero mine True t by (simp add: heap_free_def free_reference_def free_cold_def Let_def pages)
  next
    case other: False
    show ?thesis
      using False zero mine other t f(1)
      by (simp add: heap_free_def free_reference_def free_cold_def Let_def pages split: prod.split)
  qed
qed (simp add: heap_free_def free_reference_def)

text \<open>
  C20. The free that dispatches on one exclusive-or does what a free means: with the low bits of
  thread ids clear, comparing the folded word against zero and against the flag mask tells owner
  and flags apart exactly, so every pointer takes the arm its page's owner and flags call for, and
  the block start is recovered whenever the page may hold interior pointers.
\<close>

theorem heap_free_dispatch:
  assumes "wd_tid w AND MI_PAGE_FLAG_MASK = 0"
  shows "heap_free env ptr w = free_reference env ptr w"
  by (rule heap_free_reference [OF assms])

text \<open>An address inside the block with index \<open>i\<close>.\<close>

lemma inside_block:
  assumes "page_geometry enc pg" "i < unat (pg_reserved pg)" "unat p = unat (block_at pg i) + off" "off < unat (pg_block_size pg)"
  shows "unat (p - pg_page_start pg) = i * unat (pg_block_size pg) + off"
    "unat ((p - pg_page_start pg) div pg_block_size pg) = i" "unat ((p - pg_page_start pg) mod pg_block_size pg) = off"
proof -
  have b: "unat (block_at pg i) = unat (pg_page_start pg) + i * unat (pg_block_size pg)" by (rule block_offset(1) [OF assms(1,2)])
  then have "unat p = unat (pg_page_start pg) + (i * unat (pg_block_size pg) + off)" using assms(3) by simp
  then show d: "unat (p - pg_page_start pg) = i * unat (pg_block_size pg) + off"
    by (subst unat_diff_le) (simp_all add: word_le_nat_alt)
  show "unat ((p - pg_page_start pg) div pg_block_size pg) = i" "unat ((p - pg_page_start pg) mod pg_block_size pg) = off"
    using assms(4) by (simp_all add: unat_div unat_mod d)
qed

lemma recover_block:
  assumes "page_geometry enc pg" "i < unat (pg_reserved pg)" "unat p = unat (block_at pg i) + off" "off < unat (pg_block_size pg)"
  shows "recover_block_start pg p (pg_block_size pg) = block_at pg i"
proof (cases "p - pg_page_start pg = 0")
  case True
  note d = inside_block [OF assms]
  have "i * unat (pg_block_size pg) + off = 0" using d(1) True by simp
  moreover have "0 < unat (pg_block_size pg)" using assms(4) by simp
  ultimately have "i = 0" "off = 0" by simp_all
  then have "p = block_at pg i" using assms(3) by (simp add: word_unat_eq_iff)
  with True show ?thesis by (simp add: recover_block_start_def)
next
  case False
  have "(p - pg_page_start pg) div pg_block_size pg = of_nat i"
    using inside_block(2) [OF assms] unat_lt [of "(p - pg_page_start pg) div pg_block_size pg"]
    by (simp add: word_unat_eq_iff unat_of_nat_small)
  with False show ?thesis by (simp add: recover_block_start_def block_at_def)
qed

text \<open>
  C21. Interior pointers: for every address inside a block of a page, freeing recovers the start of
  exactly that block, and the usable size is the distance to its end. So a pointer that an aligned
  allocation returns is freed as the block it was carved from, and reallocation copies no byte past
  the block.
\<close>

theorem interior_pointers:
  assumes "page_geometry enc (wd_pages w pp)" "i < unat (pg_reserved (wd_pages w pp))" "lookup p (wd_pm w) = pp" "pp \<noteq> 0"
    and "unat p = unat (block_at (wd_pages w pp) i) + off" "off < unat (pg_block_size (wd_pages w pp))"
  shows "recover_block_start (wd_pages w pp) p (pg_block_size (wd_pages w pp)) = block_at (wd_pages w pp) i
    \<and> unat p + unat (usable_size p w) = unat (block_at (wd_pages w pp) i) + unat (pg_block_size (wd_pages w pp))"
proof -
  let ?bs = "pg_block_size (wd_pages w pp)"
  have "unat ((p - pg_page_start (wd_pages w pp)) mod ?bs) = off" by (rule inside_block(3) [OF assms(1,2,5,6)])
  then have "unat (usable_size p w) = unat ?bs - off"
    using assms(3,4,6) by (simp add: usable_size_def Let_def unat_diff_le word_le_nat_alt)
  then show ?thesis using recover_block [OF assms(1,2,5,6)] assms(5,6) by simp
qed

definition sample_world :: hworld where
  "sample_world = sample_hworld (set_owner_fresh 8 sample_page)"

lemma heap_free_dispatch_witness:
  "heap_free sample_henv 65680 sample_world = free_reference sample_henv 65680 sample_world"
  by (rule heap_free_dispatch) (simp add: sample_world_def sample_hworld_def mi_consts)

lemma sample_page_shape:
  "page_geometry False (wd_pages sample_world a)" "pg_page_start (wd_pages sample_world a) = 65680"
  "pg_block_size (wd_pages sample_world a) = 64" "unat (pg_reserved (wd_pages sample_world a)) = 1021"
proof -
  have f: "pg_page_start sample_page = 65680" "pg_block_size sample_page = 64"
    by (simp_all add: sample_page_def init_def Let_def page_start_offset mi_consts)
  have r: "unat (pg_reserved sample_page) = 1021"
    using init_lists [of 65536 1 64 False "(0, 0)" 1 True "\<lambda>_. 0"] by (simp add: sample_page_def linkable_def)
  have "page_geometry False sample_page" using sample_page_lists(1) by (simp add: page_lists_def)
  then show "page_geometry False (wd_pages sample_world a)"
    by (simp add: sample_world_def sample_hworld_def set_owner_fresh_def page_geometry_def grid_def block_at_def)
  show "pg_page_start (wd_pages sample_world a) = 65680" "pg_block_size (wd_pages sample_world a) = 64"
    "unat (pg_reserved (wd_pages sample_world a)) = 1021"
    using f r by (simp_all add: sample_world_def sample_hworld_def set_owner_fresh_def)
qed

lemma interior_pointers_witness:
  "recover_block_start (wd_pages sample_world 65536) 65750 64 = 65744 \<and> unat (usable_size 65750 sample_world) = 58"
proof -
  let ?pg = "wd_pages sample_world 65536"
  have b: "block_at ?pg 1 = 65744" by (simp add: block_at_def sample_page_shape)
  have l: "lookup 65750 (wd_pm sample_world) = 65536" using sample_lookup [of 65750] by (simp add: sample_world_def mi_consts pm_slice_index_def)
  have "recover_block_start ?pg 65750 (pg_block_size ?pg) = block_at ?pg 1
      \<and> unat (65750 :: ptr) + unat (usable_size 65750 sample_world) = unat (block_at ?pg 1) + unat (pg_block_size ?pg)"
    by (rule interior_pointers [where enc = False and off = 6]) (simp_all add: sample_page_shape b [unfolded One_nat_def] l)
  then show ?thesis by (simp add: sample_page_shape b [unfolded One_nat_def])
qed

text \<open>
  The ids of threads: the running thread has none yet or a well-formed one below the counter, and the
  counter has not reached the values whose low bits a shift by two would lose.
\<close>

definition tids_ok :: "hworld \<Rightarrow> bool" where
  "tids_ok w \<longleftrightarrow> 2 \<le> unat (wd_next_tid w)
    \<and> (wd_tid w = 0 \<or> tid_ok (wd_tid w) \<and> unat (wd_tid w) < 4 * unat (wd_next_tid w))"

text \<open>
  C12. Thread ids are well typed: as long as fewer than \<open>2 ^ 62\<close> threads have asked for one, an id has its
  two low bits clear, as the owner word of a page needs, and lies above the two values that mark
  abandoned pages; the id a thread gets at its first call is larger than all given before and is the
  one it gets at every later call.
\<close>

theorem thread_ids_typed:
  assumes "tids_ok w" "unat (wd_next_tid w) < 2 ^ 62" "current_tid w = (tid, w')"
  shows "tid_ok tid \<and> tids_ok w' \<and> wd_tid w' = tid \<and> current_tid w' = (tid, w')
    \<and> (wd_tid w = 0 \<longrightarrow> unat tid = 4 * unat (wd_next_tid w))"
proof (cases "wd_tid w = 0")
  case False
  then show ?thesis using assms by (auto simp: current_tid_def tids_ok_def Let_def)
next
  case True
  let ?n = "wd_next_tid w"
  have t: "tid = push_bit 2 ?n" "w' = w\<lparr>wd_next_tid := ?n + 1, wd_tid := tid\<rparr>" using assms(3) True by (auto simp: current_tid_def Let_def)
  have u: "unat tid = 4 * unat ?n"
    using assms(2) unfolding t(1) by (simp add: push_bit_eq_mult unat_mult_small mult.commute)
  have n: "2 \<le> unat ?n" using assms(1) by (simp add: tids_ok_def)
  have s: "unat (?n + 1) = unat ?n + 1" using assms(2) by (simp add: unat_add_small)
  have ok: "tid_ok tid"
    unfolding tid_ok_def using push_bit_tid [of ?n] u n by (simp add: t(1) [symmetric] mi_consts word_less_nat_alt)
  have "tid \<noteq> 0" using u n by auto
  then have again: "current_tid w' = (tid, w')" unfolding t(2) by (simp add: current_tid_def)
  have "tids_ok w'" using ok u n s unfolding t(2) by (simp add: tids_ok_def)
  then show ?thesis using ok u again t(2) by simp
qed

lemma thread_ids_typed_witness:
  "tid_ok (fst (current_tid (sample_world\<lparr>wd_tid := 0\<rparr>))) \<and> fst (current_tid (sample_world\<lparr>wd_tid := 0\<rparr>)) = 12"
proof -
  obtain tid w' where c: "current_tid (sample_world\<lparr>wd_tid := 0\<rparr>) = (tid, w')" by fastforce
  have n: "wd_next_tid (sample_world\<lparr>wd_tid := 0\<rparr>) = 3" "wd_tid (sample_world\<lparr>wd_tid := 0\<rparr>) = 0"
    by (simp_all add: sample_world_def sample_hworld_def)
  have "tid_ok tid \<and> unat tid = 12" using thread_ids_typed [OF _ _ c] by (simp add: tids_ok_def n)
  then show ?thesis using c by (simp add: word_unat_eq_iff)
qed

end
