(* ===== verification/MiHeap.thy ===== *)
theory MiHeap
  imports MiFree
begin

unbundle bit_operations_syntax

text \<open>
  \<^verbatim>\<open>src/heap.rs\<close>, the logical heaps; \<^verbatim>\<open>src/init.rs\<close>, the registry of the thread heaps of
  a thread, reallocation; \<^verbatim>\<open>src/api\<close>, the entry points. The default thread heap of a thread lives at
  the address \<open>dflt\<close>.
\<close>

section \<open>Logical heaps\<close>

text \<open>\<^verbatim>\<open>size_of::<Heap>()\<close> and \<^verbatim>\<open>size_of::<ThreadHeap>()\<close>, the latter with a padding word in hardened builds.\<close>

definition sizeof_heap :: usize where "sizeof_heap = 56"
definition sizeof_theap :: "env \<Rightarrow> usize" where "sizeof_theap env = (if sy_hard (en_sys env) then 2936 else 2928)"

definition next_heap_seq :: "hworld \<Rightarrow> usize \<times> hworld" where
  "next_heap_seq w = (wd_next_seq w, w\<lparr>wd_next_seq := wd_next_seq w + 1\<rparr>)"

definition heap_new_boxed :: "env \<Rightarrow> keys \<Rightarrow> hworld \<Rightarrow> (ptr option \<times> hworld) option" where
  "heap_new_boxed env ks w = do {
     (r, w) \<leftarrow> w_meta_zalloc env sizeof_heap w;
     case r of
       None \<Rightarrow> Some (None, w)
     | Some hp \<Rightarrow>
         let (seq, w) = next_heap_seq w
         in Some (Some hp, upd_heap hp (\<lambda>_. \<lparr>hp_keys = ks, hp_seq = seq, hp_theaps = 0, hp_refcount = 1\<rparr>) w)
   }"

definition new_theap_for :: "env \<Rightarrow> ptr \<Rightarrow> usize \<Rightarrow> hworld \<Rightarrow> (ptr option \<times> hworld) option" where
  "new_theap_for env hp tid w = do {
     (r, w) \<leftarrow> w_meta_zalloc env (sizeof_theap env) w;
     case r of
       None \<Rightarrow> Some (None, w)
     | Some tp \<Rightarrow>
         let w = upd_theap tp (\<lambda>_. theap_new hp (wd_heaps w hp) tid) w;
             w = upd_heap hp (\<lambda>h. h\<lparr>hp_refcount := hp_refcount h + 1\<rparr>) w
         in Some (Some tp, register_theap hp tp w)
   }"

definition release_ref :: "ptr \<Rightarrow> hworld \<Rightarrow> hworld option" where
  "release_ref hp w =
    (let old = hp_refcount (wd_heaps w hp); w = upd_heap hp (\<lambda>h. h\<lparr>hp_refcount := old - 1\<rparr>) w
     in if old = 1 then w_meta_free hp sizeof_heap w else Some w)"

definition teardown_theap :: "env \<Rightarrow> ptr \<Rightarrow> hworld \<Rightarrow> hworld option" where
  "teardown_theap env tp w = do {
     let hp = th_heap (wd_theaps w tp);
     w \<leftarrow> theap_drop env tp w;
     w \<leftarrow> w_meta_free tp (sizeof_theap env) w;
     release_ref hp w
   }"

partial_function (option) free_pages :: "env \<Rightarrow> ptr \<Rightarrow> nat \<Rightarrow> ptr \<Rightarrow> hworld \<Rightarrow> hworld option" where
  "free_pages env th b cur w =
    (if cur = 0 then Some w
     else do {
       let nxt = pg_next (wd_pages w cur);
       w \<leftarrow> release_page_slices env cur (on_queue th b (remove cur) w);
       free_pages env th b nxt w
     })"

fun free_bins :: "env \<Rightarrow> ptr \<Rightarrow> nat list \<Rightarrow> hworld \<Rightarrow> hworld option" where
  "free_bins env th [] w = Some w"
| "free_bins env th (b # bs) w = do {
     w \<leftarrow> free_pages env th b (pq_first (th_pages (wd_theaps w th) b)) w;
     free_bins env th bs w
   }"

definition teardown_theap_bulk :: "env \<Rightarrow> ptr \<Rightarrow> hworld \<Rightarrow> hworld option" where
  "teardown_theap_bulk env tp w = do {
     let hp = th_heap (wd_theaps w tp);
     let w = unregister_theap hp tp w;
     w \<leftarrow> free_bins env tp [0..<MI_BIN_COUNT] w;
     w \<leftarrow> w_meta_free tp (sizeof_theap env) w;
     release_ref hp w
   }"

section \<open>The registry of a thread\<close>

text \<open>The thread heap of \<open>hp\<close> in the list from \<open>cur\<close> on, with its predecessor.\<close>

partial_function (option) find_theap :: "ptr \<Rightarrow> ptr \<Rightarrow> ptr \<Rightarrow> hworld \<Rightarrow> (ptr \<times> ptr) option" where
  "find_theap hp prv cur w =
    (if cur = 0 then Some (prv, 0)
     else if th_heap (wd_theaps w cur) = hp then Some (prv, cur)
     else find_theap hp cur (th_tnext (wd_theaps w cur)) w)"

definition theap_for :: "env \<Rightarrow> ptr \<Rightarrow> hworld \<Rightarrow> (ptr \<times> hworld) option" where
  "theap_for env hp w = do {
     (_, cur) \<leftarrow> find_theap hp 0 (wd_registry w) w;
     if cur \<noteq> 0 then Some (cur, w)
     else do {
       let (tid, w) = current_tid w;
       (r, w) \<leftarrow> new_theap_for env hp tid w;
       case r of
         None \<Rightarrow> Some (0, w)
       | Some tp \<Rightarrow>
           let w = upd_theap tp (\<lambda>t. t\<lparr>th_tnext := wd_registry w\<rparr>) w
           in Some (tp, w\<lparr>wd_registry := tp\<rparr>)
     }
   }"

definition take_theap_for :: "ptr \<Rightarrow> hworld \<Rightarrow> (ptr \<times> hworld) option" where
  "take_theap_for hp w = do {
     (prv, cur) \<leftarrow> find_theap hp 0 (wd_registry w) w;
     if cur = 0 then Some (0, w)
     else do {
       let nxt = th_tnext (wd_theaps w cur);
       let w = (if prv = 0 then w\<lparr>wd_registry := nxt\<rparr> else upd_theap prv (\<lambda>t. t\<lparr>th_tnext := nxt\<rparr>) w);
       Some (cur, upd_theap cur (\<lambda>t. t\<lparr>th_tnext := 0\<rparr>) w)
     }
   }"

text \<open>The end of a thread: its registry is torn down.\<close>

partial_function (option) registry_drop_loop :: "env \<Rightarrow> ptr \<Rightarrow> hworld \<Rightarrow> hworld option" where
  "registry_drop_loop env cur w =
    (if cur = 0 then Some w
     else do {
       let nxt = th_tnext (wd_theaps w cur);
       w \<leftarrow> teardown_theap env cur w;
       registry_drop_loop env nxt w
     })"

definition registry_drop :: "env \<Rightarrow> hworld \<Rightarrow> hworld option" where
  "registry_drop env w = registry_drop_loop env (wd_registry w) (w\<lparr>wd_registry := 0\<rparr>)"

section \<open>Operations of a logical heap\<close>

text \<open>An allocation goes to the thread heap of the calling thread, if there is memory for one.\<close>

definition in_theap :: "env \<Rightarrow> ptr \<Rightarrow> (ptr \<Rightarrow> hworld \<Rightarrow> ('a option \<times> hworld) option) \<Rightarrow> hworld \<Rightarrow> ('a option \<times> hworld) option" where
  "in_theap env hp f w = do {
     (tp, w) \<leftarrow> theap_for env hp w;
     if tp = 0 then Some (None, w) else f tp w
   }"

definition heap_alloc :: "env \<Rightarrow> ptr \<Rightarrow> usize \<Rightarrow> hworld \<Rightarrow> (ptr option \<times> hworld) option" where
  "heap_alloc env hp sz w = in_theap env hp (\<lambda>tp. theap_alloc env tp sz) w"

definition heap_alloc_aligned :: "env \<Rightarrow> ptr \<Rightarrow> usize \<Rightarrow> usize \<Rightarrow> hworld \<Rightarrow> (ptr option \<times> hworld) option" where
  "heap_alloc_aligned env hp sz align w = in_theap env hp (\<lambda>tp. alloc_aligned_in env tp sz align) w"

definition heap_alloc_zeroed :: "env \<Rightarrow> ptr \<Rightarrow> usize \<Rightarrow> hworld \<Rightarrow> (ptr option \<times> hworld) option" where
  "heap_alloc_zeroed env hp sz w = in_theap env hp (\<lambda>tp. alloc_zeroed_in env tp sz) w"

definition heap_alloc_zeroed_aligned :: "env \<Rightarrow> ptr \<Rightarrow> usize \<Rightarrow> usize \<Rightarrow> hworld \<Rightarrow> (ptr option \<times> hworld) option" where
  "heap_alloc_zeroed_aligned env hp sz align w = in_theap env hp (\<lambda>tp. alloc_zeroed_aligned_in env tp sz align) w"

definition heap_collect :: "callback \<Rightarrow> env \<Rightarrow> ptr \<Rightarrow> bool \<Rightarrow> hworld \<Rightarrow> hworld option" where
  "heap_collect cb env hp force w = do {
     (tp, w) \<leftarrow> theap_for env hp w;
     if tp = 0 then Some w else theap_collect cb env tp force w
   }"

definition heap_delete :: "env \<Rightarrow> ptr \<Rightarrow> hworld \<Rightarrow> hworld option" where
  "heap_delete env hp w = do {
     (tp, w) \<leftarrow> take_theap_for hp w;
     w \<leftarrow> (if tp \<noteq> 0 then teardown_theap env tp w else Some w);
     release_ref hp w
   }"

definition heap_destroy :: "env \<Rightarrow> ptr \<Rightarrow> hworld \<Rightarrow> hworld option" where
  "heap_destroy env hp w = do {
     (tp, w) \<leftarrow> take_theap_for hp w;
     w \<leftarrow> (if tp \<noteq> 0 then teardown_theap_bulk env tp w else Some w);
     release_ref hp w
   }"

section \<open>Reallocation\<close>

definition copy_range :: "ptr \<Rightarrow> ptr \<Rightarrow> usize \<Rightarrow> hworld \<Rightarrow> hworld" where
  "copy_range src dst n w =
    w\<lparr>wd_copied := (src, dst, n) # wd_copied w,
      wd_links := (\<lambda>a. if unat dst \<le> unat a \<and> unat a < unat dst + unat n then wd_links w (a - dst + src) else wd_links w a)\<rparr>"

text \<open>The block moves: allocate, copy what fits, free.\<close>

definition move_block :: "env \<Rightarrow> ptr \<Rightarrow> usize \<Rightarrow> usize \<Rightarrow> ptr option \<times> hworld \<Rightarrow> (ptr option \<times> hworld) option" where
  "move_block env p old new_size = (\<lambda>(r, w).
    case r of
      None \<Rightarrow> Some (None, w)
    | Some np \<Rightarrow> do {
        (res, w) \<leftarrow> heap_free env p (copy_range p np (min old new_size) w);
        if res = Free_Done then Some (Some np, w) else None
      })"

definition realloc :: "env \<Rightarrow> ptr \<Rightarrow> ptr \<Rightarrow> usize \<Rightarrow> hworld \<Rightarrow> (ptr option \<times> hworld) option" where
  "realloc env dflt p new_size w =
    (let old = usable_size p w
     in if new_size \<le> old then Some (Some p, w)
        else Option.bind (theap_alloc env dflt new_size w) (move_block env p old new_size))"

definition realloc_aligned :: "env \<Rightarrow> ptr \<Rightarrow> ptr \<Rightarrow> usize \<Rightarrow> usize \<Rightarrow> hworld \<Rightarrow> (ptr option \<times> hworld) option" where
  "realloc_aligned env dflt p new_size align w =
    (let old = usable_size p w
     in Option.bind (alloc_aligned_in env dflt new_size align w) (move_block env p old new_size))"

section \<open>Entry points\<close>

text \<open>A failed allocation is the null pointer.\<close>

definition or_null :: "(ptr option \<times> hworld) option \<Rightarrow> (ptr \<times> hworld) option" where
  "or_null r = map_option (\<lambda>(p, w). (case p of None \<Rightarrow> 0 | Some p \<Rightarrow> p, w)) r"

definition mi_malloc :: "env \<Rightarrow> ptr \<Rightarrow> usize \<Rightarrow> hworld \<Rightarrow> (ptr \<times> hworld) option" where
  "mi_malloc env dflt sz w = or_null (theap_alloc env dflt sz w)"

definition mi_zalloc :: "env \<Rightarrow> ptr \<Rightarrow> usize \<Rightarrow> hworld \<Rightarrow> (ptr \<times> hworld) option" where
  "mi_zalloc env dflt sz w = or_null (alloc_zeroed_in env dflt sz w)"

definition mi_calloc :: "env \<Rightarrow> ptr \<Rightarrow> usize \<Rightarrow> usize \<Rightarrow> hworld \<Rightarrow> (ptr \<times> hworld) option" where
  "mi_calloc env dflt count sz w =
    (if unat count * unat sz < 2 ^ 64 then mi_zalloc env dflt (count * sz) w else Some (0, w))"

definition mi_malloc_aligned :: "env \<Rightarrow> ptr \<Rightarrow> usize \<Rightarrow> usize \<Rightarrow> hworld \<Rightarrow> (ptr \<times> hworld) option" where
  "mi_malloc_aligned env dflt sz align w =
    (if align = 0 \<or> \<not> is_power_of_two align then Some (0, w) else or_null (alloc_aligned_in env dflt sz align w))"

definition mi_free :: "env \<Rightarrow> ptr \<Rightarrow> hworld \<Rightarrow> (free_result \<times> hworld) option" where
  "mi_free env p w =
    (if p = 0 then Some (Free_Done, w) else heap_free env p w)"

definition mi_realloc :: "env \<Rightarrow> ptr \<Rightarrow> ptr \<Rightarrow> usize \<Rightarrow> hworld \<Rightarrow> (ptr \<times> hworld) option" where
  "mi_realloc env dflt p new_size w =
    (if p = 0 then mi_malloc env dflt new_size w else or_null (realloc env dflt p new_size w))"

definition mi_usable_size :: "ptr \<Rightarrow> hworld \<Rightarrow> usize" where
  "mi_usable_size p w = (if p = 0 then 0 else usable_size p w)"

text \<open>\<open>GlobalAlloc\<close>; a layout is a size and a power of two.\<close>

definition ga_alloc :: "env \<Rightarrow> ptr \<Rightarrow> usize \<Rightarrow> usize \<Rightarrow> hworld \<Rightarrow> (ptr \<times> hworld) option" where
  "ga_alloc env dflt sz align w = or_null (alloc_aligned_in env dflt (max sz 1) align w)"

definition ga_dealloc :: "env \<Rightarrow> ptr \<Rightarrow> hworld \<Rightarrow> (free_result \<times> hworld) option" where
  "ga_dealloc env p w = mi_free env p w"

definition ga_alloc_zeroed :: "env \<Rightarrow> ptr \<Rightarrow> usize \<Rightarrow> usize \<Rightarrow> hworld \<Rightarrow> (ptr \<times> hworld) option" where
  "ga_alloc_zeroed env dflt sz align w = or_null (alloc_zeroed_aligned_in env dflt (max sz 1) align w)"

definition ga_realloc :: "env \<Rightarrow> ptr \<Rightarrow> ptr \<Rightarrow> usize \<Rightarrow> usize \<Rightarrow> hworld \<Rightarrow> (ptr \<times> hworld) option" where
  "ga_realloc env dflt p align new_size w =
    (if p = 0 then ga_alloc env dflt new_size align w else or_null (realloc_aligned env dflt p new_size align w))"

text \<open>\<^verbatim>\<open>Allocator\<close>; an allocation is a pointer with the length of its slice, or an error.\<close>

definition al_allocate :: "env \<Rightarrow> ptr \<Rightarrow> usize \<Rightarrow> usize \<Rightarrow> hworld \<Rightarrow> ((ptr \<times> usize) option \<times> hworld) option" where
  "al_allocate env dflt sz align w =
    map_option (\<lambda>(r, w). (map_option (\<lambda>p. (p, sz)) r, w)) (alloc_aligned_in env dflt (max sz 1) align w)"

definition al_deallocate :: "env \<Rightarrow> ptr \<Rightarrow> hworld \<Rightarrow> (free_result \<times> hworld) option" where
  "al_deallocate env p w = heap_free env p w"

section \<open>Processes and threads\<close>

text \<open>The keys of the process, from the 16 random bytes the system may provide; a word from its bytes.\<close>

definition from_ne_bytes :: "u8 list \<Rightarrow> usize" where
  "from_ne_bytes bs = foldr (\<lambda>b x. push_bit 8 x OR ucast b) bs 0"

definition process_keys :: "u8 list option \<Rightarrow> keys" where
  "process_keys r =
    (case r of
       Some buf \<Rightarrow> (from_ne_bytes (take 8 buf), from_ne_bytes (take 8 (drop 8 buf)))
     | None \<Rightarrow> (0x9e3779b97f4a7c15, 0xc2b2ae3d27d4eb4f))"

definition default_heap :: "u8 list option \<Rightarrow> lheap" where
  "default_heap r = \<lparr>hp_keys = process_keys r, hp_seq = 0, hp_theaps = 0, hp_refcount = 0\<rparr>"

text \<open>
  The default thread heap of a thread is built when it is first used: \<open>S\<close> are the thread-local slots
  that hold one already, \<open>hp\<close> is the default heap.
\<close>

definition thread_start :: "ptr \<Rightarrow> ptr \<Rightarrow> hworld \<Rightarrow> hworld" where
  "thread_start th hp w = (let (tid, w) = current_tid w in upd_theap th (\<lambda>_. theap_new hp (wd_heaps w hp) tid) w)"

definition touch :: "ptr set \<Rightarrow> ptr \<Rightarrow> ptr \<Rightarrow> hworld \<Rightarrow> hworld" where
  "touch S th hp w = (if th \<in> S then w else thread_start th hp w)"

definition collect_lifecycle :: "callback \<Rightarrow> env \<Rightarrow> ptr set \<Rightarrow> ptr \<Rightarrow> ptr \<Rightarrow> bool \<Rightarrow> hworld \<Rightarrow> hworld option" where
  "collect_lifecycle cb env S th hp force w = theap_collect cb env th force (touch S th hp w)"

definition thread_init :: "ptr set \<Rightarrow> ptr \<Rightarrow> ptr \<Rightarrow> hworld \<Rightarrow> hworld" where
  "thread_init S th hp w = touch S th hp w"

definition thread_done :: "callback \<Rightarrow> env \<Rightarrow> ptr set \<Rightarrow> ptr \<Rightarrow> ptr \<Rightarrow> hworld \<Rightarrow> hworld option" where
  "thread_done cb env S th hp w = collect_lifecycle cb env S th hp True w"

text \<open>The keys of the process are in a cell that is written once.\<close>

definition process_init :: "ptr set \<Rightarrow> ptr \<Rightarrow> ptr \<Rightarrow> u8 list option \<Rightarrow> keys option \<times> hworld \<Rightarrow> keys option \<times> hworld" where
  "process_init S th hp r kw =
    (let (ks, w) = kw
     in (Some (case ks of None \<Rightarrow> process_keys r | Some k \<Rightarrow> k), thread_init S th hp w))"

definition process_done :: "callback \<Rightarrow> env \<Rightarrow> ptr set \<Rightarrow> ptr \<Rightarrow> ptr \<Rightarrow> hworld \<Rightarrow> hworld option" where
  "process_done cb env S th hp w = collect_lifecycle cb env S th hp True w"

text \<open>The calls of a thread on its default thread heap, which they build when they are its first.\<close>

definition tls_malloc :: "env \<Rightarrow> ptr set \<Rightarrow> ptr \<Rightarrow> ptr \<Rightarrow> usize \<Rightarrow> hworld \<Rightarrow> (ptr option \<times> hworld) option" where
  "tls_malloc env S th hp sz w = theap_alloc env th sz (touch S th hp w)"

definition tls_malloc_aligned :: "env \<Rightarrow> ptr set \<Rightarrow> ptr \<Rightarrow> ptr \<Rightarrow> usize \<Rightarrow> usize \<Rightarrow> hworld \<Rightarrow> (ptr option \<times> hworld) option" where
  "tls_malloc_aligned env S th hp sz align w = alloc_aligned_in env th sz align (touch S th hp w)"

definition tls_zalloc :: "env \<Rightarrow> ptr set \<Rightarrow> ptr \<Rightarrow> ptr \<Rightarrow> usize \<Rightarrow> hworld \<Rightarrow> (ptr option \<times> hworld) option" where
  "tls_zalloc env S th hp sz w = alloc_zeroed_in env th sz (touch S th hp w)"

definition tls_zalloc_aligned :: "env \<Rightarrow> ptr set \<Rightarrow> ptr \<Rightarrow> ptr \<Rightarrow> usize \<Rightarrow> usize \<Rightarrow> hworld \<Rightarrow> (ptr option \<times> hworld) option" where
  "tls_zalloc_aligned env S th hp sz align w = alloc_zeroed_aligned_in env th sz align (touch S th hp w)"

definition tls_collect :: "callback \<Rightarrow> env \<Rightarrow> ptr set \<Rightarrow> ptr \<Rightarrow> ptr \<Rightarrow> bool \<Rightarrow> hworld \<Rightarrow> hworld option" where
  "tls_collect cb env S th hp force w = theap_collect cb env th force (touch S th hp w)"

end
