(* ===== verification/MiSync.thy ===== *)
theory MiSync
  imports MiPrelude
begin

text \<open>
  \<^verbatim>\<open>src/sync.rs\<close>: the spin lock and the write-once cell, as step relations of any number of threads
  over the shared words. A step is one atomic access; the accesses of all threads are interleaved.
\<close>

section \<open>Spin lock\<close>

text \<open>
  A thread is outside, about to try the exchange, in the inner loop that waits for the word to
  become \<open>0\<close>, or inside the critical section.
\<close>

datatype lock_pc = Outside | Trying | Spinning | Inside

record lock_state =
  lk_word :: "8 word"
  lk_pc :: "nat \<Rightarrow> lock_pc"

definition lock_start :: lock_state where
  "lock_start = \<lparr>lk_word = 0, lk_pc = (\<lambda>_. Outside)\<rparr>"

text \<open>The exchange is the weak one: it may fail even when the word is \<open>0\<close>.\<close>

inductive lock_step :: "nat \<Rightarrow> lock_state \<Rightarrow> lock_state \<Rightarrow> bool" where
  lock_call: "lk_pc s t = Outside \<Longrightarrow> lock_step t s (s\<lparr>lk_pc := (lk_pc s)(t := Trying)\<rparr>)"
| cas_ok: "lk_pc s t = Trying \<Longrightarrow> lk_word s = 0 \<Longrightarrow> lock_step t s (s\<lparr>lk_word := 1, lk_pc := (lk_pc s)(t := Inside)\<rparr>)"
| cas_fail: "lk_pc s t = Trying \<Longrightarrow> lock_step t s (s\<lparr>lk_pc := (lk_pc s)(t := Spinning)\<rparr>)"
| spin: "lk_pc s t = Spinning \<Longrightarrow> lk_word s \<noteq> 0 \<Longrightarrow> lock_step t s s"
| spin_exit: "lk_pc s t = Spinning \<Longrightarrow> lk_word s = 0 \<Longrightarrow> lock_step t s (s\<lparr>lk_pc := (lk_pc s)(t := Trying)\<rparr>)"
| unlock: "lk_pc s t = Inside \<Longrightarrow> lock_step t s (s\<lparr>lk_word := 0, lk_pc := (lk_pc s)(t := Outside)\<rparr>)"

inductive_cases lock_stepE: "lock_step t s s'"

inductive lock_reach :: "lock_state \<Rightarrow> bool" where
  start: "lock_reach lock_start"
| step: "lock_reach s \<Longrightarrow> lock_step t s s' \<Longrightarrow> lock_reach s'"

text \<open>\<open>h\<close> is the thread inside, if there is one.\<close>

definition held_by :: "nat option \<Rightarrow> lock_state \<Rightarrow> bool" where
  "held_by h s \<longleftrightarrow> (\<forall>t. lk_pc s t = Inside \<longleftrightarrow> h = Some t) \<and> lk_word s = (case h of None \<Rightarrow> 0 | Some _ \<Rightarrow> 1)"

lemma lock_step_held:
  assumes "lock_step t s s'" "held_by h s"
  shows "held_by (if lk_pc s' t = Inside then Some t else if h = Some t then None else h) s'"
proof -
  have "lk_pc s t = Inside \<longleftrightarrow> h = Some t" using assms(2) by (simp add: held_by_def)
  with assms(1) show ?thesis
    by (cases rule: lock_step.cases) (use assms(2) in \<open>auto simp: held_by_def split: option.splits\<close>)
qed

lemma lock_reach_held: "lock_reach s \<Longrightarrow> \<exists>h. held_by h s"
proof (induction rule: lock_reach.induct)
  case start
  have "held_by None lock_start" by (simp add: held_by_def lock_start_def)
  then show ?case ..
qed (use lock_step_held in blast)

text \<open>Runs of one thread, and of a list of threads one step each.\<close>

inductive lock_run :: "nat list \<Rightarrow> lock_state \<Rightarrow> lock_state \<Rightarrow> bool" where
  none: "lock_run [] s s"
| more: "lock_step t s s' \<Longrightarrow> lock_run ts s' s'' \<Longrightarrow> lock_run (t # ts) s s''"

lemma waiter_enters:
  assumes "lk_word s = 0" "lk_pc s t = Trying \<or> lk_pc s t = Spinning"
  shows "\<exists>ts s'. set ts \<subseteq> {t} \<and> length ts \<le> 2 \<and> lock_run ts s s' \<and> lk_pc s' t = Inside"
proof (cases "lk_pc s t = Trying")
  case True
  have "lock_run [t] s (s\<lparr>lk_word := 1, lk_pc := (lk_pc s)(t := Inside)\<rparr>)"
    by (rule lock_run.more [OF cas_ok [OF True assms(1)] lock_run.none])
  then show ?thesis by (intro exI [of _ "[t]"] exI conjI) auto
next
  case False
  let ?s1 = "s\<lparr>lk_pc := (lk_pc s)(t := Trying)\<rparr>"
  have "lock_step t s ?s1" using False assms by (intro spin_exit) auto
  moreover have "lock_step t ?s1 (?s1\<lparr>lk_word := 1, lk_pc := (lk_pc ?s1)(t := Inside)\<rparr>)"
    using assms(1) by (intro cas_ok) auto
  ultimately have "lock_run [t, t] s (?s1\<lparr>lk_word := 1, lk_pc := (lk_pc ?s1)(t := Inside)\<rparr>)"
    by (intro lock_run.more [OF _ lock_run.more [OF _ lock_run.none]])
  then show ?thesis by (intro exI [of _ "[t, t]"] exI conjI) auto
qed

text \<open>
  C24. The spin lock excludes: in every reachable state at most one thread is inside, and the word is
  \<open>1\<close> exactly then. It does not lock up either: a waiting thread gets inside within two of its own
  steps once the word is \<open>0\<close>, and within three steps if the thread inside leaves first.
\<close>

theorem spin_lock_excludes:
  assumes "lock_reach s"
  shows "(lk_pc s t = Inside \<longrightarrow> lk_pc s u = Inside \<longrightarrow> t = u) \<and> (lk_word s = 1 \<longleftrightarrow> (\<exists>v. lk_pc s v = Inside))
    \<and> (lk_pc s t = Trying \<or> lk_pc s t = Spinning \<longrightarrow>
        (\<exists>ts s'. length ts \<le> 3 \<and> lock_run ts s s' \<and> lk_pc s' t = Inside \<and> (\<forall>x\<in>set ts. x = t \<or> lk_pc s x = Inside)))"
proof -
  obtain h where inv: "held_by h s" using lock_reach_held [OF assms] ..
  have "\<exists>ts s'. length ts \<le> 3 \<and> lock_run ts s s' \<and> lk_pc s' t = Inside \<and> (\<forall>x\<in>set ts. x = t \<or> lk_pc s x = Inside)"
    if w: "lk_pc s t = Trying \<or> lk_pc s t = Spinning"
  proof (cases "lk_word s = 0")
    case True
    obtain ts s' where ts: "set ts \<subseteq> {t}" "length ts \<le> 2" "lock_run ts s s'" "lk_pc s' t = Inside"
      using waiter_enters [OF True w] by blast
    then have "length ts \<le> 3" "\<forall>x\<in>set ts. x = t" by auto
    with ts show ?thesis by blast
  next
    case False
    then obtain v where v: "lk_pc s v = Inside" using inv by (auto simp: held_by_def split: option.splits)
    let ?s1 = "s\<lparr>lk_word := 0, lk_pc := (lk_pc s)(v := Outside)\<rparr>"
    have st: "lock_step v s ?s1" by (rule unlock [OF v])
    have "lk_pc ?s1 t = Trying \<or> lk_pc ?s1 t = Spinning" using w v by auto
    then obtain ts s' where ts: "set ts \<subseteq> {t}" "length ts \<le> 2" "lock_run ts ?s1 s'" "lk_pc s' t = Inside"
      using waiter_enters [of ?s1 t] by auto
    have "lock_run (v # ts) s s'" by (rule lock_run.more [OF st ts(3)])
    then show ?thesis using ts v by (intro exI [of _ "v # ts"] exI [of _ s']) auto
  qed
  moreover have "lk_pc s t = Inside \<longrightarrow> lk_pc s u = Inside \<longrightarrow> t = u" using inv by (auto simp: held_by_def)
  moreover have "lk_word s = 1 \<longleftrightarrow> (\<exists>v. lk_pc s v = Inside)" using inv by (auto simp: held_by_def split: option.splits)
  ultimately show ?thesis by blast
qed

lemma spin_lock_excludes_witness:
  "lk_word (lock_start\<lparr>lk_pc := (\<lambda>_. Outside)(7 := Trying)\<rparr>) = 0
   \<and> (\<exists>ts s'. length ts \<le> 3 \<and> lock_run ts (lock_start\<lparr>lk_pc := (\<lambda>_. Outside)(7 := Trying)\<rparr>) s' \<and> lk_pc s' 7 = Inside)"
proof -
  have "lock_step 7 lock_start (lock_start\<lparr>lk_pc := (lk_pc lock_start)(7 := Trying)\<rparr>)"
    by (rule lock_call) (simp add: lock_start_def)
  then have "lock_reach (lock_start\<lparr>lk_pc := (\<lambda>_. Outside)(7 := Trying)\<rparr>)"
    using lock_reach.step [OF lock_reach.start] by (simp add: lock_start_def)
  from spin_lock_excludes [OF this, of 7 7] show ?thesis by (auto simp: lock_start_def)
qed

section \<open>Write-once cell\<close>

definition UNINIT :: "8 word" where "UNINIT = 0"
definition INITIALIZING :: "8 word" where "INITIALIZING = 1"
definition READY :: "8 word" where "READY = 2"

lemmas once_states = UNINIT_def INITIALIZING_def READY_def

text \<open>
  Where a thread is in \<open>get_or_init\<close>: before the first load, before the exchange, running the
  closure, with its result, after the write, waiting for the winner, before the read, and done.
  \<open>Returned None\<close> is a read of uninitialised memory.
\<close>

datatype 'v once_pc = Idle | Loading | Exchanging | Running | Ran 'v | Written | Waiting | Reading | Returned "'v option"

record 'v once_state =
  on_state :: "8 word"
  on_value :: "'v option"
  on_pc :: "nat \<Rightarrow> 'v once_pc"
  on_runs :: nat

definition once_start :: "'v once_state" where
  "once_start = \<lparr>on_state = UNINIT, on_value = None, on_pc = (\<lambda>_. Idle), on_runs = 0\<rparr>"

definition goto :: "nat \<Rightarrow> 'v once_pc \<Rightarrow> 'v once_state \<Rightarrow> 'v once_state" where
  "goto t p s = s\<lparr>on_pc := (on_pc s)(t := p)\<rparr>"

text \<open>\<open>f t\<close> is what the closure of thread \<open>t\<close> returns.\<close>

inductive once_step :: "(nat \<Rightarrow> 'v) \<Rightarrow> nat \<Rightarrow> 'v once_state \<Rightarrow> 'v once_state \<Rightarrow> bool" for f where
  call: "on_pc s t = Idle \<Longrightarrow> once_step f t s (goto t Loading s)"
| load_ready: "on_pc s t = Loading \<Longrightarrow> on_state s = READY \<Longrightarrow> once_step f t s (goto t Reading s)"
| load_other: "on_pc s t = Loading \<Longrightarrow> on_state s \<noteq> READY \<Longrightarrow> once_step f t s (goto t Exchanging s)"
| exchange_ok: "on_pc s t = Exchanging \<Longrightarrow> on_state s = UNINIT \<Longrightarrow> once_step f t s (goto t Running (s\<lparr>on_state := INITIALIZING\<rparr>))"
| exchange_err: "on_pc s t = Exchanging \<Longrightarrow> on_state s \<noteq> UNINIT \<Longrightarrow> once_step f t s (goto t Waiting s)"
| run_closure: "on_pc s t = Running \<Longrightarrow> once_step f t s (goto t (Ran (f t)) (s\<lparr>on_runs := on_runs s + 1\<rparr>))"
| write_value: "on_pc s t = Ran v \<Longrightarrow> once_step f t s (goto t Written (s\<lparr>on_value := Some v\<rparr>))"
| publish: "on_pc s t = Written \<Longrightarrow> once_step f t s (goto t Reading (s\<lparr>on_state := READY\<rparr>))"
| wait_more: "on_pc s t = Waiting \<Longrightarrow> on_state s \<noteq> READY \<Longrightarrow> once_step f t s s"
| wait_done: "on_pc s t = Waiting \<Longrightarrow> on_state s = READY \<Longrightarrow> once_step f t s (goto t Reading s)"
| read_value: "on_pc s t = Reading \<Longrightarrow> once_step f t s (goto t (Returned (on_value s)) s)"

inductive once_reach :: "(nat \<Rightarrow> 'v) \<Rightarrow> 'v once_state \<Rightarrow> bool" for f where
  start: "once_reach f once_start"
| step: "once_reach f s \<Longrightarrow> once_step f t s s' \<Longrightarrow> once_reach f s'"

text \<open>The phases of the cell: who, if anyone, has won the exchange, and what the others may be doing.\<close>

definition before :: "'v once_state \<Rightarrow> bool" where
  "before s \<longleftrightarrow> on_state s = UNINIT \<and> on_value s = None \<and> on_runs s = 0 \<and> (\<forall>t. on_pc s t \<in> {Idle, Loading, Exchanging})"

definition during :: "(nat \<Rightarrow> 'v) \<Rightarrow> nat \<Rightarrow> 'v once_state \<Rightarrow> bool" where
  "during f i s \<longleftrightarrow> on_state s = INITIALIZING \<and> (\<forall>t. t \<noteq> i \<longrightarrow> on_pc s t \<in> {Idle, Loading, Exchanging, Waiting})
    \<and> (on_pc s i = Running \<and> on_runs s = 0 \<and> on_value s = None
       \<or> on_pc s i = Ran (f i) \<and> on_runs s = 1 \<and> on_value s = None
       \<or> on_pc s i = Written \<and> on_runs s = 1 \<and> on_value s = Some (f i))"

definition after :: "(nat \<Rightarrow> 'v) \<Rightarrow> nat \<Rightarrow> 'v once_state \<Rightarrow> bool" where
  "after f i s \<longleftrightarrow> on_state s = READY \<and> on_value s = Some (f i) \<and> on_runs s = 1
    \<and> (\<forall>t. on_pc s t \<in> {Idle, Loading, Exchanging, Waiting, Reading, Returned (Some (f i))})"

definition once_inv :: "(nat \<Rightarrow> 'v) \<Rightarrow> 'v once_state \<Rightarrow> bool" where
  "once_inv f s \<longleftrightarrow> before s \<or> (\<exists>i. during f i s) \<or> (\<exists>i. after f i s)"

lemma before_step: "before s \<Longrightarrow> once_step f t s s' \<Longrightarrow> before s' \<or> during f t s'"
proof -
  assume b: "before s" and st: "once_step f t s s'"
  have "on_pc s t \<in> {Idle, Loading, Exchanging}" using b by (simp add: before_def)
  with st show ?thesis
    by (cases rule: once_step.cases) (use b in \<open>auto simp: before_def during_def goto_def once_states\<close>)
qed

lemma during_step: "during f i s \<Longrightarrow> once_step f t s s' \<Longrightarrow> during f i s' \<or> after f i s'"
proof (cases "t = i")
  case True
  assume d: "during f i s" and st: "once_step f t s s'"
  have o: "on_pc s u \<in> {Idle, Loading, Exchanging, Waiting}" if "u \<noteq> i" for u using d that by (simp add: during_def)
  have "on_pc s i = Running \<or> on_pc s i = Ran (f i) \<or> on_pc s i = Written" using d by (auto simp: during_def)
  with st show ?thesis
    by (cases rule: once_step.cases) (use d o True in \<open>auto simp: during_def after_def goto_def once_states\<close>)
next
  case False
  assume d: "during f i s" and st: "once_step f t s s'"
  have "on_pc s t \<in> {Idle, Loading, Exchanging, Waiting}" using d False by (simp add: during_def)
  with st show ?thesis
    by (cases rule: once_step.cases) (use d False in \<open>auto simp: during_def goto_def once_states\<close>)
qed

lemma after_step: "after f i s \<Longrightarrow> once_step f t s s' \<Longrightarrow> after f i s'"
proof -
  assume a: "after f i s" and st: "once_step f t s s'"
  have "on_pc s t \<in> {Idle, Loading, Exchanging, Waiting, Reading, Returned (Some (f i))}" using a by (simp add: after_def)
  with st show ?thesis
    by (cases rule: once_step.cases) (use a in \<open>auto simp: after_def goto_def once_states\<close>)
qed

lemma once_reach_inv: "once_reach f s \<Longrightarrow> once_inv f s"
proof (induction rule: once_reach.induct)
  case start
  show ?case by (simp add: once_inv_def before_def once_start_def)
next
  case (step s t s')
  then show ?case using before_step during_step after_step unfolding once_inv_def by metis
qed

text \<open>
  C25. The closure of a cell runs at most once, however many threads race for the value; no thread
  reads the value before it is written, and all that return, return the one value that closure
  produced.
\<close>

theorem once_box_agrees:
  assumes "once_reach f s"
  shows "on_runs s \<le> 1 \<and> (on_pc s t = Returned x \<longrightarrow> on_state s = READY \<and> (\<exists>i. x = Some (f i)))
    \<and> (on_pc s t = Returned x \<longrightarrow> on_pc s u = Returned y \<longrightarrow> x = y)"
proof -
  consider "before s" | i where "during f i s" | i where "after f i s"
    using once_reach_inv [OF assms] by (auto simp: once_inv_def)
  then show ?thesis
  proof cases
    case 1
    then have "on_pc s v \<noteq> Returned z" for v z by (auto simp: before_def dest!: spec [of _ v])
    with 1 show ?thesis by (simp add: before_def)
  next
    case (2 i)
    then have "on_pc s v \<noteq> Returned z" for v z
      by (cases "v = i") (auto simp: during_def dest!: spec [of _ v])
    moreover have "on_runs s \<le> 1" using 2 by (auto simp: during_def)
    ultimately show ?thesis by simp
  next
    case (3 i)
    then have r: "on_pc s v = Returned z \<Longrightarrow> z = Some (f i)" for v z by (auto simp: after_def dest!: spec [of _ v])
    have "on_state s = READY" "on_runs s = 1" using 3 by (simp_all add: after_def)
    then show ?thesis using r [of t x] r [of u y] by auto
  qed
qed

lemma once_box_agrees_witness:
  "on_runs (goto 3 Loading (once_start :: nat once_state)) \<le> 1"
proof -
  have "once_step (\<lambda>t. t) 3 (once_start :: nat once_state) (goto 3 Loading once_start)"
    by (rule call) (simp add: once_start_def)
  then have "once_reach (\<lambda>t. t) (goto 3 Loading (once_start :: nat once_state))" by (rule once_reach.step [OF once_reach.start])
  from once_box_agrees [OF this, of 0 None 0 None] show ?thesis by simp
qed

definition once_steps :: "(nat \<Rightarrow> 'v) \<Rightarrow> 'v once_state \<Rightarrow> 'v once_state \<Rightarrow> bool" where
  "once_steps f = (\<lambda>s s'. \<exists>t. once_step f t s s')\<^sup>*\<^sup>*"

lemma once_steps_one: "once_step f t s s' \<Longrightarrow> once_steps f s s'"
  unfolding once_steps_def by blast

lemma once_steps_trans: "once_steps f s s' \<Longrightarrow> once_steps f s' s'' \<Longrightarrow> once_steps f s s''"
  unfolding once_steps_def by (rule rtranclp_trans)

lemma once_steps_refl: "once_steps f s s"
  by (simp add: once_steps_def)

lemma goto_simps [simp]:
  "on_pc (goto t p s) u = (if u = t then p else on_pc s u)" "on_state (goto t p s) = on_state s"
  "on_value (goto t p s) = on_value s" "on_runs (goto t p s) = on_runs s"
  by (simp_all add: goto_def)

lemma reader_returns:
  assumes "on_pc s t = Reading"
  shows "\<exists>s'. once_steps f s s' \<and> on_pc s' t = Returned (on_value s)"
  using once_steps_one [OF read_value [OF assms]] by (intro exI conjI) auto

lemma after_returns:
  assumes a: "after f i s" and p: "on_pc s t \<noteq> Idle"
  shows "\<exists>s'. once_steps f s s' \<and> on_pc s' t = Returned (Some (f i))"
proof -
  have r: "on_state s = READY" "on_value s = Some (f i)" "READY \<noteq> UNINIT" using a by (auto simp: after_def once_states)
  have reach: "\<exists>s'. once_steps f s0 s' \<and> on_pc s' t = Returned (Some (f i))"
    if "once_step f t s1 s0" "once_steps f s s1" "on_pc s0 t = Reading" "on_value s0 = Some (f i)" for s0 s1
    using reader_returns [OF that(3), of f] that(4) by simp
  have wait: "\<exists>s'. once_steps f s s' \<and> on_pc s' t = Returned (Some (f i))"
    if st: "once_steps f s s1" and w: "on_pc s1 t = Waiting" "on_state s1 = READY" "on_value s1 = Some (f i)" for s1
    using reader_returns [of "goto t Reading s1" t f] once_steps_one [OF wait_done [OF w(1,2), where f = f]] st w(3)
    by (auto intro: once_steps_trans)
  have "on_pc s t \<in> {Loading, Exchanging, Waiting, Reading, Returned (Some (f i))}" using a p by (auto simp: after_def)
  then consider "on_pc s t = Loading" | "on_pc s t = Exchanging" | "on_pc s t = Waiting" | "on_pc s t = Reading"
    | "on_pc s t = Returned (Some (f i))" by blast
  then show ?thesis
  proof cases
    case 1
    show ?thesis
      using reader_returns [of "goto t Reading s" t f] once_steps_one [OF load_ready [OF 1 r(1), where f = f]] r(2)
      by (auto intro: once_steps_trans)
  next
    case 2
    have "on_state s \<noteq> UNINIT" using r by simp
    from wait [OF once_steps_one [OF exchange_err [OF 2 this]]] r show ?thesis by simp
  next
    case 3
    from wait [OF once_steps_refl 3 r(1,2)] show ?thesis .
  next
    case 4
    from reader_returns [OF 4, of f] r(2) show ?thesis by simp
  next
    case 5
    then show ?thesis using once_steps_refl by blast
  qed
qed

text \<open>The winner finishes on its own.\<close>

lemma during_finishes:
  assumes "during f i s"
  shows "\<exists>s'. once_steps f s s' \<and> after f i s' \<and> (\<forall>t. on_pc s t \<noteq> Idle \<longrightarrow> on_pc s' t \<noteq> Idle)"
proof -
  have others: "\<forall>t. t \<noteq> i \<longrightarrow> on_pc s t \<in> {Idle, Loading, Exchanging, Waiting}" using assms by (simp add: during_def)
  have fin: "\<exists>s'. once_steps f s s' \<and> after f i s' \<and> (\<forall>t. on_pc s t \<noteq> Idle \<longrightarrow> on_pc s' t \<noteq> Idle)"
    if st: "once_steps f s s1" and w: "on_pc s1 i = Written" "on_value s1 = Some (f i)" "on_runs s1 = 1"
      and same: "\<And>t. t \<noteq> i \<Longrightarrow> on_pc s1 t = on_pc s t" for s1
  proof (intro exI conjI)
    let ?s' = "goto i Reading (s1\<lparr>on_state := READY\<rparr>)"
    show "once_steps f s ?s'" by (rule once_steps_trans [OF st once_steps_one [OF publish [OF w(1)]]])
    show "after f i ?s'" using w others same by (auto simp: after_def)
    show "\<forall>t. on_pc s t \<noteq> Idle \<longrightarrow> on_pc ?s' t \<noteq> Idle" using same by auto
  qed
  have wr: "\<exists>s'. once_steps f s s' \<and> after f i s' \<and> (\<forall>t. on_pc s t \<noteq> Idle \<longrightarrow> on_pc s' t \<noteq> Idle)"
    if st: "once_steps f s s1" and w: "on_pc s1 i = Ran (f i)" "on_runs s1 = 1" and same: "\<And>t. t \<noteq> i \<Longrightarrow> on_pc s1 t = on_pc s t" for s1
    by (rule fin [OF once_steps_trans [OF st once_steps_one [OF write_value [OF w(1)]]]]) (use w same in auto)
  consider "on_pc s i = Running" "on_runs s = 0" | "on_pc s i = Ran (f i)" "on_runs s = 1"
    | "on_pc s i = Written" "on_runs s = 1" "on_value s = Some (f i)"
    using assms by (auto simp: during_def)
  then show ?thesis
  proof cases
    case 1
    show ?thesis by (rule wr [OF once_steps_one [OF run_closure [OF 1(1)]]]) (use 1(2) in auto)
  next
    case 2
    show ?thesis by (rule wr [OF once_steps_refl]) (use 2 in auto)
  next
    case 3
    show ?thesis by (rule fin [OF once_steps_refl]) (use 3 in auto)
  qed
qed

lemma before_starts:
  assumes "before s" "on_pc s t \<noteq> Idle"
  shows "\<exists>s'. once_steps f s s' \<and> during f t s' \<and> on_pc s' t \<noteq> Idle"
proof -
  have b: "on_state s = UNINIT" "on_value s = None" "on_runs s = 0" "\<forall>t. on_pc s t \<in> {Idle, Loading, Exchanging}"
    using assms(1) by (simp_all add: before_def)
  have win: "\<exists>s'. once_steps f s s' \<and> during f t s' \<and> on_pc s' t \<noteq> Idle"
    if st: "once_steps f s s1" and e: "on_pc s1 t = Exchanging" and s1: "on_state s1 = UNINIT" "on_value s1 = None" "on_runs s1 = 0"
      "\<forall>t. on_pc s1 t \<in> {Idle, Loading, Exchanging}" for s1
  proof (intro exI conjI)
    let ?s' = "goto t Running (s1\<lparr>on_state := INITIALIZING\<rparr>)"
    show "once_steps f s ?s'" by (rule once_steps_trans [OF st once_steps_one [OF exchange_ok [OF e s1(1)]]])
    show "during f t ?s'" using s1 by (auto simp: during_def)
  qed simp
  show ?thesis
  proof (cases "on_pc s t = Loading")
    case True
    have "on_state s \<noteq> READY" using b(1) by (simp add: once_states)
    from win [OF once_steps_one [OF load_other [OF True this]]] b show ?thesis by simp
  next
    case False
    then have "on_pc s t = Exchanging" using b(4) assms(2) by blast
    from win [OF once_steps_refl this b] show ?thesis .
  qed
qed

text \<open>
  No caller of a cell can be stuck: from every reachable state, each thread that has called can
  still return, with the value one of the closures produced.
\<close>

theorem once_box_returns:
  assumes "once_reach f s" "on_pc s t \<noteq> Idle"
  shows "\<exists>s' i. once_steps f s s' \<and> on_pc s' t = Returned (Some (f i))"
proof -
  consider "before s" | i where "during f i s" | i where "after f i s"
    using once_reach_inv [OF assms(1)] by (auto simp: once_inv_def)
  then show ?thesis
  proof cases
    case 1
    obtain s1 where s1: "once_steps f s s1" "during f t s1" "on_pc s1 t \<noteq> Idle" using before_starts [OF 1 assms(2)] by blast
    obtain s2 where s2: "once_steps f s1 s2" "after f t s2" "on_pc s2 t \<noteq> Idle" using during_finishes [OF s1(2)] s1(3) by blast
    show ?thesis using after_returns [OF s2(2,3)] s1(1) s2(1) once_steps_trans by metis
  next
    case (2 i)
    obtain s2 where s2: "once_steps f s s2" "after f i s2" "on_pc s2 t \<noteq> Idle" using during_finishes [OF 2] assms(2) by blast
    show ?thesis using after_returns [OF s2(2,3)] s2(1) once_steps_trans by metis
  next
    case (3 i)
    show ?thesis using after_returns [OF 3 assms(2)] by blast
  qed
qed

lemma once_box_returns_witness:
  "\<exists>s' i. once_steps (\<lambda>t. t + 5) (goto 3 Loading (once_start :: nat once_state)) s' \<and> on_pc s' 3 = Returned (Some (i + 5))"
proof -
  have "once_step (\<lambda>t. t + 5) 3 (once_start :: nat once_state) (goto 3 Loading once_start)"
    by (rule call) (simp add: once_start_def)
  then have "once_reach (\<lambda>t. t + 5) (goto 3 Loading (once_start :: nat once_state))" by (rule once_reach.step [OF once_reach.start])
  from once_box_returns [OF this, of 3] show ?thesis by simp
qed

end
