(* ===== verification/MiThreadFree.thy ===== *)
theory MiThreadFree
  imports MiPage
begin

unbundle bit_operations_syntax

text \<open>
  \<^verbatim>\<open>src/page.rs\<close>, the list of cross-thread frees under concurrency: any number of threads push
  blocks, and the thread that owns the page takes the list, gives the page up or claims it. A step
  is one atomic access to the head word or one access to the link of a block.

  \<open>B\<close> is the set of blocks of the page. The ghost components: \<open>tf_taken\<close>, the blocks the owner took
  off the list and that have not been handed out since; \<open>tf_done\<close>, the blocks freed by a completed
  push; \<open>tf_owner\<close>, the thread that last claimed the page and has not released it.
\<close>

section \<open>The protocol\<close>

text \<open>
  A pushing thread has loaded the head word \<open>w\<close> and is about to link its block \<open>b\<close>, or has linked it
  and is about to try the exchange.
\<close>

datatype tf_pc = Off | Loaded ptr usize | Linked ptr usize

fun pushing :: "tf_pc \<Rightarrow> ptr option" where
  "pushing Off = None"
| "pushing (Loaded b w) = Some b"
| "pushing (Linked b w) = Some b"

record tf_state =
  tf_word :: usize
  tf_links :: links
  tf_pc :: "nat \<Rightarrow> tf_pc"
  tf_taken :: "ptr list"
  tf_done :: "ptr set"
  tf_owner :: "nat option"

definition tf_start :: "nat \<Rightarrow> links \<Rightarrow> tf_state" where
  "tf_start t m = \<lparr>tf_word = TF_OWNED, tf_links = m, tf_pc = (\<lambda>_. Off), tf_taken = [], tf_done = {}, tf_owner = Some t\<rparr>"

definition tf_goto :: "nat \<Rightarrow> tf_pc \<Rightarrow> tf_state \<Rightarrow> tf_state" where
  "tf_goto t p s = s\<lparr>tf_pc := (tf_pc s)(t := p)\<rparr>"

text \<open>A block a thread may touch: neither queued nor being pushed by a thread.\<close>

definition at_rest :: "ptr \<Rightarrow> tf_state \<Rightarrow> bool" where
  "at_rest b s \<longleftrightarrow> (b \<in> tf_done s \<longrightarrow> b \<in> set (tf_taken s)) \<and> (\<forall>t. pushing (tf_pc s t) \<noteq> Some b)"

text \<open>
  The pushes (\<open>push_\<dots>\<close>; the weak exchange may fail spuriously), the owner's operations (\<open>take\<close> is
  the exchange of a collect, \<open>take_behind\<close> the partial collect behind a queued block, \<open>release\<close>
  \<open>set_unowned\<close>, \<open>try_release\<close> the exchange of \<open>try_unown\<close>), a reclaimer's \<open>claim\<close>, and what happens
  to blocks off the list: a taken block is handed out again, and blocks at rest are written to.
\<close>

inductive tf_step :: "bool \<Rightarrow> keys \<Rightarrow> ptr set \<Rightarrow> nat \<Rightarrow> tf_state \<Rightarrow> tf_state \<Rightarrow> bool" for enc ks B where
  push_load: "tf_pc s t = Off \<Longrightarrow> b \<in> B \<Longrightarrow> b \<notin> tf_done s \<Longrightarrow> at_rest b s
    \<Longrightarrow> tf_step enc ks B t s (tf_goto t (Loaded b (tf_word s)) s)"
| push_link: "tf_pc s t = Loaded b w
    \<Longrightarrow> tf_step enc ks B t s (tf_goto t (Linked b w) (s\<lparr>tf_links := block_set_next enc ks b (tf_block w) (tf_links s)\<rparr>))"
| push_ok: "tf_pc s t = Linked b w \<Longrightarrow> tf_word s = w
    \<Longrightarrow> tf_step enc ks B t s (tf_goto t Off (s\<lparr>tf_word := tf_create b True, tf_done := insert b (tf_done s),
          tf_owner := (if tf_is_owned w then tf_owner s else Some t)\<rparr>))"
| push_fail: "tf_pc s t = Linked b w \<Longrightarrow> tf_step enc ks B t s (tf_goto t (Loaded b (tf_word s)) s)"
| take: "tf_owner s = Some t \<Longrightarrow> tf_block (tf_word s) \<noteq> 0 \<Longrightarrow> chain (block_next enc ks (tf_links s)) (tf_block (tf_word s)) xs
    \<Longrightarrow> tf_step enc ks B t s (s\<lparr>tf_word := tf_create 0 (tf_is_owned (tf_word s)), tf_taken := xs @ tf_taken s\<rparr>)"
| take_behind: "tf_owner s = Some t \<Longrightarrow> chain (block_next enc ks (tf_links s)) (tf_block (tf_word s)) (xs @ h # ys)
    \<Longrightarrow> tf_step enc ks B t s (s\<lparr>tf_links := block_set_next enc ks h 0 (tf_links s), tf_taken := ys @ tf_taken s\<rparr>)"
| release: "tf_owner s = Some t
    \<Longrightarrow> tf_step enc ks B t s (s\<lparr>tf_word := tf_create (tf_block (tf_word s)) False, tf_owner := None\<rparr>)"
| try_release: "tf_owner s = Some t \<Longrightarrow> tf_word s = tf_create 0 True
    \<Longrightarrow> tf_step enc ks B t s (s\<lparr>tf_word := tf_create 0 False, tf_owner := None\<rparr>)"
| claim: "\<not> tf_is_owned (tf_word s)
    \<Longrightarrow> tf_step enc ks B t s (s\<lparr>tf_word := tf_create (tf_block (tf_word s)) True, tf_owner := Some t\<rparr>)"
| hand_out: "b \<in> set (tf_taken s)
    \<Longrightarrow> tf_step enc ks B t s (s\<lparr>tf_taken := remove1 b (tf_taken s), tf_done := tf_done s - {b}\<rparr>)"
| overwrite: "at_rest b s \<Longrightarrow> tf_step enc ks B t s (s\<lparr>tf_links := (tf_links s)(b := v)\<rparr>)"

inductive tf_reach :: "bool \<Rightarrow> keys \<Rightarrow> ptr set \<Rightarrow> tf_state \<Rightarrow> bool" for enc ks B where
  start: "tf_reach enc ks B (tf_start t m)"
| step: "tf_reach enc ks B s \<Longrightarrow> tf_step enc ks B t s s' \<Longrightarrow> tf_reach enc ks B s'"

section \<open>The invariant\<close>

text \<open>Blocks are non-null, even and representable as links.\<close>

definition block_set :: "bool \<Rightarrow> keys \<Rightarrow> ptr set \<Rightarrow> bool" where
  "block_set enc ks B \<longleftrightarrow> (\<forall>b\<in>B. b \<noteq> 0 \<and> tf_block b = b \<and> linkable enc ks b)"

text \<open>\<open>xs\<close> is the list.\<close>

definition queued :: "bool \<Rightarrow> keys \<Rightarrow> ptr set \<Rightarrow> tf_state \<Rightarrow> ptr list \<Rightarrow> bool" where
  "queued enc ks B s xs \<longleftrightarrow> chain (block_next enc ks (tf_links s)) (tf_block (tf_word s)) xs
    \<and> distinct (xs @ tf_taken s) \<and> set (xs @ tf_taken s) = tf_done s \<and> tf_done s \<subseteq> B"

text \<open>What a thread relies on between its accesses: its block is its own, and linked to the loaded head.\<close>

fun pc_ok :: "bool \<Rightarrow> keys \<Rightarrow> ptr set \<Rightarrow> ptr set \<Rightarrow> links \<Rightarrow> tf_pc \<Rightarrow> bool" where
  "pc_ok enc ks B dn m Off \<longleftrightarrow> True"
| "pc_ok enc ks B dn m (Loaded b w) \<longleftrightarrow> b \<in> B \<and> b \<notin> dn \<and> (tf_block w = 0 \<or> tf_block w \<in> B)"
| "pc_ok enc ks B dn m (Linked b w) \<longleftrightarrow> b \<in> B \<and> b \<notin> dn \<and> (tf_block w = 0 \<or> tf_block w \<in> B) \<and> block_next enc ks m b = tf_block w"

definition pushes_ok :: "bool \<Rightarrow> keys \<Rightarrow> ptr set \<Rightarrow> tf_state \<Rightarrow> bool" where
  "pushes_ok enc ks B s \<longleftrightarrow> (\<forall>t. pc_ok enc ks B (tf_done s) (tf_links s) (tf_pc s t))
    \<and> (\<forall>t u b. pushing (tf_pc s t) = Some b \<longrightarrow> pushing (tf_pc s u) = Some b \<longrightarrow> t = u)"

definition tf_inv :: "bool \<Rightarrow> keys \<Rightarrow> ptr set \<Rightarrow> tf_state \<Rightarrow> bool" where
  "tf_inv enc ks B s \<longleftrightarrow> (\<exists>xs. queued enc ks B s xs) \<and> pushes_ok enc ks B s \<and> (tf_is_owned (tf_word s) \<longleftrightarrow> tf_owner s \<noteq> None)"

lemma tf_goto_simps [simp]:
  "tf_pc (tf_goto t p s) u = (if u = t then p else tf_pc s u)" "tf_word (tf_goto t p s) = tf_word s"
  "tf_links (tf_goto t p s) = tf_links s" "tf_taken (tf_goto t p s) = tf_taken s" "tf_done (tf_goto t p s) = tf_done s"
  "tf_owner (tf_goto t p s) = tf_owner s"
  by (simp_all add: tf_goto_def)

lemma queued_goto [simp]: "queued enc ks B (tf_goto t p s) xs = queued enc ks B s xs"
  by (simp add: queued_def)

lemma pushes_okD:
  assumes "pushes_ok enc ks B s"
  shows "pc_ok enc ks B (tf_done s) (tf_links s) (tf_pc s t)"
    "pushing (tf_pc s t) = Some b \<Longrightarrow> pushing (tf_pc s u) = Some b \<Longrightarrow> t = u"
  using assms unfolding pushes_ok_def by blast+

text \<open>A thread is not disturbed while the done blocks grow by others' and its own link is left alone.\<close>

lemma pc_ok_mono:
  assumes "pc_ok enc ks B dn m p" "\<And>b. pushing p = Some b \<Longrightarrow> b \<in> dn' \<Longrightarrow> b \<in> dn"
    "\<And>b. pushing p = Some b \<Longrightarrow> block_next enc ks m' b = block_next enc ks m b"
  shows "pc_ok enc ks B dn' m' p"
  using assms by (cases p) auto

lemma pc_ok_block: "pc_ok enc ks B dn m p \<Longrightarrow> pushing p = Some b \<Longrightarrow> b \<in> B \<and> b \<notin> dn"
  by (cases p) auto

lemma queued_head: "queued enc ks B s xs \<Longrightarrow> tf_block (tf_word s) = 0 \<or> tf_block (tf_word s) \<in> B"
  by (cases xs) (auto simp: queued_def)

lemma block_next_update: "c \<noteq> b \<Longrightarrow> block_next enc ks (m(b := v)) c = block_next enc ks m c"
  by (simp add: block_next_def)

lemma chain_update: "b \<notin> set xs \<Longrightarrow> chain (block_next enc ks (m(b := v))) p xs = chain (block_next enc ks m) p xs"
  by (rule chain_cong) (metis block_next_update)

lemma tf_step_owner:
  assumes "tf_step enc ks B t s s'" "tf_is_owned (tf_word s) \<longleftrightarrow> tf_owner s \<noteq> None"
  shows "tf_is_owned (tf_word s') \<longleftrightarrow> tf_owner s' \<noteq> None"
  using assms by (cases rule: tf_step.cases) auto

lemma pushes_ok_keep:
  assumes "pushes_ok enc ks B s" "tf_pc s' = tf_pc s"
    "\<And>t b. pushing (tf_pc s t) = Some b \<Longrightarrow> b \<in> tf_done s' \<Longrightarrow> b \<in> tf_done s"
    "\<And>t b. pushing (tf_pc s t) = Some b \<Longrightarrow> block_next enc ks (tf_links s') b = block_next enc ks (tf_links s) b"
  shows "pushes_ok enc ks B s'"
  unfolding pushes_ok_def assms(2)
proof (intro conjI allI impI)
  show "pc_ok enc ks B (tf_done s') (tf_links s') (tf_pc s t)" for t
    by (rule pc_ok_mono [OF pushes_okD(1) [OF assms(1)]]) (rule assms(3,4); assumption)+
  show "t = u" if "pushing (tf_pc s t) = Some b" "pushing (tf_pc s u) = Some b" for t u b
    by (rule pushes_okD(2) [OF assms(1) that])
qed

lemma pushes_ok_goto:
  assumes "pushes_ok enc ks B s" "pc_ok enc ks B (tf_done s') (tf_links s') p"
    "\<And>u b. u \<noteq> t \<Longrightarrow> pushing (tf_pc s u) = Some b \<Longrightarrow> pushing p \<noteq> Some b \<and> (b \<in> tf_done s' \<longrightarrow> b \<in> tf_done s)
        \<and> block_next enc ks (tf_links s') b = block_next enc ks (tf_links s) b"
    "tf_pc s' = tf_pc s"
  shows "pushes_ok enc ks B (tf_goto t p s')"
proof -
  have e: "tf_pc (tf_goto t p s') u = (if u = t then p else tf_pc s u)" for u by (simp add: assms(4))
  have o: "pushing p \<noteq> Some b" if "u \<noteq> t" "pushing (tf_pc s u) = Some b" for u b using assms(3) [OF that] by simp
  show ?thesis
    unfolding pushes_ok_def
  proof (intro conjI allI impI)
    fix u
    show "pc_ok enc ks B (tf_done (tf_goto t p s')) (tf_links (tf_goto t p s')) (tf_pc (tf_goto t p s') u)"
    proof (cases "u = t")
      case False
      have "pc_ok enc ks B (tf_done s') (tf_links s') (tf_pc s u)"
      proof (rule pc_ok_mono [OF pushes_okD(1) [OF assms(1)]])
        fix b assume b: "pushing (tf_pc s u) = Some b"
        show "b \<in> tf_done s" if "b \<in> tf_done s'" using assms(3) [OF False b] that by simp
        show "block_next enc ks (tf_links s') b = block_next enc ks (tf_links s) b" using assms(3) [OF False b] by simp
      qed
      with False show ?thesis by (simp add: assms(4))
    qed (use assms(2) in simp)
  next
    fix t1 t2 b
    assume "pushing (tf_pc (tf_goto t p s') t1) = Some b" "pushing (tf_pc (tf_goto t p s') t2) = Some b"
    then show "t1 = t2"
      using o [of t1] o [of t2] pushes_okD(2) [OF assms(1), of t1 b t2] unfolding e by (cases "t1 = t"; cases "t2 = t") simp_all
  qed
qed

lemma tf_step_pushes:
  assumes st: "tf_step enc ks B t s s'" and p: "pushes_ok enc ks B s" and q: "queued enc ks B s zs" and B: "block_set enc ks B"
  shows "pushes_ok enc ks B s'"
proof -
  note d = pushes_okD [OF p]
  have lk: "linkable enc ks (tf_block w)" if "tf_block w = 0 \<or> tf_block w \<in> B" for w
    using that B links.ok_null [of enc ks] by (auto simp: block_set_def)
  have own: "pushing (tf_pc s u) \<noteq> Some b" if "pushing (tf_pc s t) = Some b" "u \<noteq> t" for u b
    using d(2) [of u b t] that by blast
  from st show ?thesis
  proof cases
    case (push_load b)
    then show ?thesis
      using queued_head [OF q] by (auto simp: at_rest_def intro!: pushes_ok_goto [OF p])
  next
    case (push_link b w)
    have "block_next enc ks (block_set_next enc ks b (tf_block w) (tf_links s)) b = tf_block w"
      using lk [of w] d(1) [of t] push_link(2) by (intro links.get_set_same) simp
    then show ?thesis
      unfolding push_link(1) using d(1) [of t] push_link(2) own
      by (intro pushes_ok_goto [OF p]) (auto intro!: links.get_set_other)
  next
    case (push_ok b w)
    then show ?thesis using own by (auto intro!: pushes_ok_goto [OF p])
  next
    case (push_fail b w)
    then show ?thesis using own d(1) [of t] queued_head [OF q] by (auto intro!: pushes_ok_goto [OF p])
  next
    case (take_behind xs h ys)
    have "h \<in> set zs" using chain_unique take_behind(3) q by (fastforce simp: queued_def)
    then have "h \<in> tf_done s" using q by (auto simp: queued_def)
    then have "pushing (tf_pc s u) \<noteq> Some h" for u using pc_ok_block [OF d(1), of u h] by blast
    then show ?thesis
      unfolding take_behind(1) by (intro pushes_ok_keep [OF p]) (auto intro!: links.get_set_other)
  next
    case (hand_out b)
    then show ?thesis by (auto intro: pushes_ok_keep [OF p])
  next
    case (overwrite b v)
    then show ?thesis
      unfolding overwrite(1) by (intro pushes_ok_keep [OF p]) (auto intro!: block_next_update simp: at_rest_def)
  qed (auto intro: pushes_ok_keep [OF p])
qed

lemma tf_step_queued:
  assumes st: "tf_step enc ks B t s s'" and p: "pushes_ok enc ks B s" and q: "queued enc ks B s zs" and B: "block_set enc ks B"
  shows "\<exists>zs. queued enc ks B s' zs"
proof -
  have ch: "chain (block_next enc ks (tf_links s)) (tf_block (tf_word s)) zs" and dist: "distinct (zs @ tf_taken s)"
    and all: "set (zs @ tf_taken s) = tf_done s" and sub: "tf_done s \<subseteq> B"
    using q by (simp_all add: queued_def)
  from st show ?thesis
  proof cases
    case (push_load b)
    then show ?thesis using q by auto
  next
    case (push_link b w)
    have "b \<notin> tf_done s" using pc_ok_block [OF pushes_okD(1) [OF p], of t b] push_link(2) by simp
    then have "b \<notin> set zs" using all by auto
    then show ?thesis unfolding push_link(1) using q by (intro exI [of _ zs]) (simp add: queued_def links.chain_set_other)
  next
    case (push_ok b w)
    have b: "b \<in> B" "b \<notin> tf_done s" "block_next enc ks (tf_links s) b = tf_block w"
      using pushes_okD(1) [OF p, of t] push_ok(2) by simp_all
    then have "b \<noteq> 0" "tf_block b = b" using B by (auto simp: block_set_def)
    then have "queued enc ks B s' (b # zs)"
      using b ch dist all sub push_ok(1,3) by (auto simp: queued_def)
    then show ?thesis by blast
  next
    case (push_fail b w)
    then show ?thesis using q by auto
  next
    case (take xs)
    have "zs = xs" by (rule chain_unique [OF ch take(4)])
    then have "queued enc ks B s' []" using take(1) dist all sub by (simp add: queued_def)
    then show ?thesis by blast
  next
    case (take_behind xs h ys)
    have z: "zs = xs @ h # ys" by (rule chain_unique [OF ch take_behind(3)])
    have "distinct (xs @ h # ys)" using dist unfolding z by (simp only: distinct_append)
    from links.chain_cut [OF take_behind(3) this]
    have "queued enc ks B s' (xs @ [h])" using take_behind(1) dist all sub z by (auto simp: queued_def)
    then show ?thesis by blast
  next
    case (hand_out b)
    have "b \<notin> set zs" "distinct (tf_taken s)" using hand_out(2) dist by auto
    then have "queued enc ks B s' zs" using hand_out(1) ch dist all sub by (auto simp: queued_def)
    then show ?thesis by blast
  next
    case (overwrite b v)
    have "b \<notin> set zs" using overwrite(2) dist all by (auto simp: at_rest_def)
    then show ?thesis unfolding overwrite(1) using q by (intro exI [of _ zs]) (simp add: queued_def chain_update)
  qed (use q in \<open>auto simp: queued_def intro!: exI [of _ zs]\<close>)
qed

lemma tf_reach_inv:
  assumes B: "block_set enc ks B"
  shows "tf_reach enc ks B s \<Longrightarrow> tf_inv enc ks B s"
proof (induction rule: tf_reach.induct)
  case (start t m)
  have "tf_block TF_OWNED = 0" "tf_is_owned TF_OWNED" by (simp_all add: tf_block_def tf_is_owned_def TF_OWNED_def)
  then show ?case by (auto simp: tf_inv_def tf_start_def queued_def pushes_ok_def)
next
  case (step s t s')
  obtain zs where q: "queued enc ks B s zs" and p: "pushes_ok enc ks B s" and o: "tf_is_owned (tf_word s) \<longleftrightarrow> tf_owner s \<noteq> None"
    using step.IH by (auto simp: tf_inv_def)
  show ?case
    using tf_step_queued [OF step(2) p q B] tf_step_pushes [OF step(2) p q B] tf_step_owner [OF step(2) o] by (simp add: tf_inv_def)
qed

section \<open>Properties\<close>

text \<open>
  C18. However the threads interleave, the head word leads to a well-formed list, and every block
  freed by a completed push is on that list or was taken off it by the owner, exactly once: no
  free is lost or duplicated, also when a block is handed out, freed and pushed again while another
  push is under way. The ownership bit is set exactly while some thread owns the page.
\<close>

theorem thread_free_no_loss:
  assumes "block_set enc ks B" "tf_reach enc ks B s"
  shows "\<exists>xs. chain (block_next enc ks (tf_links s)) (tf_block (tf_word s)) xs \<and> distinct (xs @ tf_taken s)
    \<and> set (xs @ tf_taken s) = tf_done s \<and> tf_done s \<subseteq> B \<and> (tf_is_owned (tf_word s) \<longleftrightarrow> tf_owner s \<noteq> None)"
  using tf_reach_inv [OF assms] by (auto simp: tf_inv_def queued_def)

lemma sample_block_set: "block_set False (0, 0) {65680, 65744}"
  by (simp add: block_set_def tf_block_def TF_OWNED_def linkable_def)

definition sample_push :: tf_state where
  "sample_push = tf_goto 2 (Loaded 65680 TF_OWNED) (tf_start 1 (\<lambda>_. 0))"

lemma sample_push_reach: "tf_reach False (0, 0) {65680, 65744} sample_push"
proof -
  have "tf_step False (0, 0) {65680, 65744} 2 (tf_start 1 (\<lambda>_. 0)) (tf_goto 2 (Loaded 65680 (tf_word (tf_start 1 (\<lambda>_. 0)))) (tf_start 1 (\<lambda>_. 0)))"
    by (rule push_load) (simp_all add: tf_start_def at_rest_def)
  from tf_reach.step [OF tf_reach.start this] show ?thesis by (simp add: sample_push_def tf_start_def)
qed

lemma thread_free_no_loss_witness: "\<exists>xs. set (xs @ tf_taken sample_push) = tf_done sample_push"
  using thread_free_no_loss [OF sample_block_set sample_push_reach] by blast

text \<open>
  C19. A page is claimed by at most one thread: a step that makes a thread the owner, be it a push
  that finds the page unowned or a reclaimer, happens only while no thread owns the page.
\<close>

theorem one_claimer:
  assumes "block_set enc ks B" "tf_reach enc ks B s" "tf_step enc ks B t s s'" "tf_owner s' = Some u" "tf_owner s \<noteq> Some u"
  shows "tf_owner s = None \<and> u = t"
proof -
  have o: "tf_is_owned (tf_word s) \<longleftrightarrow> tf_owner s \<noteq> None" using tf_reach_inv [OF assms(1,2)] by (simp add: tf_inv_def)
  from assms(3) show ?thesis using assms(4,5) o by cases (auto split: if_splits)
qed

lemma one_claimer_witness:
  "\<exists>s s'. tf_step False (0, 0) {65680, 65744} 5 s s' \<and> tf_owner s' = Some 5 \<and> tf_owner s = None"
proof -
  let ?B = "{65680, 65744}"
  let ?s = "(tf_start 1 (\<lambda>_. 0))\<lparr>tf_word := tf_create (tf_block (tf_word (tf_start 1 (\<lambda>_. 0)))) False, tf_owner := None\<rparr>"
  let ?s' = "?s\<lparr>tf_word := tf_create (tf_block (tf_word ?s)) True, tf_owner := Some 5\<rparr>"
  have "tf_step False (0, 0) ?B 1 (tf_start 1 (\<lambda>_. 0)) ?s" by (rule release) (simp add: tf_start_def)
  then have r: "tf_reach False (0, 0) ?B ?s" by (rule tf_reach.step [OF tf_reach.start])
  have st: "tf_step False (0, 0) ?B 5 ?s ?s'" by (rule claim) simp
  have "tf_owner ?s = None" using one_claimer [OF sample_block_set r st, of 5] by simp
  then show ?thesis using st by (intro exI [of _ ?s] exI [of _ ?s']) simp
qed

end
