(* ===== verification/MiStats.thy ===== *)
theory MiStats
  imports MiPrelude
begin

text \<open>
  \<^verbatim>\<open>src/stats.rs\<close> with the feature \<^verbatim>\<open>stats\<close>: the process-wide counters and their snapshot, as one thread
  executes the operations. Without the feature the operations do nothing and the snapshot is zero.
\<close>

record stats =
  allocations :: "64 word"
  frees :: "64 word"
  current_bytes :: usize
  peak_bytes :: usize
  pages_created :: "64 word"

definition stats_zero :: stats where
  "stats_zero = \<lparr>allocations = 0, frees = 0, current_bytes = 0, peak_bytes = 0, pages_created = 0\<rparr>"

definition saturating_add :: "usize \<Rightarrow> usize \<Rightarrow> usize" where
  "saturating_add a b = (if unat a + unat b < 2 ^ 64 then a + b else -1)"

definition saturating_sub :: "usize \<Rightarrow> usize \<Rightarrow> usize" where
  "saturating_sub a b = (if b \<le> a then a - b else 0)"

text \<open>The compare-exchange loop of the peak stores the larger value.\<close>

definition on_alloc :: "usize \<Rightarrow> stats \<Rightarrow> stats" where
  "on_alloc sz s =
    (let cur = saturating_add (current_bytes s) sz in
     s\<lparr>allocations := allocations s + 1, current_bytes := current_bytes s + sz,
       peak_bytes := (if cur > peak_bytes s then cur else peak_bytes s)\<rparr>)"

definition on_free :: "usize \<Rightarrow> stats \<Rightarrow> stats" where
  "on_free sz s = s\<lparr>frees := frees s + 1, current_bytes := saturating_sub (current_bytes s) sz\<rparr>"

definition on_page_created :: "stats \<Rightarrow> stats" where
  "on_page_created s = s\<lparr>pages_created := pages_created s + 1\<rparr>"

definition stats_reset :: "stats \<Rightarrow> stats" where
  "stats_reset s = stats_zero"

definition snapshot :: "stats \<Rightarrow> stats" where
  "snapshot s = s"

text \<open>
  The peak never falls behind the current count. (The added count wraps, the value compared with
  the peak saturates; both keep this.)
\<close>

lemma on_alloc_peak: "current_bytes (on_alloc sz s) \<le> peak_bytes (on_alloc sz s) \<and> peak_bytes s \<le> peak_bytes (on_alloc sz s)"
proof -
  have "current_bytes s + sz \<le> saturating_add (current_bytes s) sz" by (simp add: saturating_add_def)
  then show ?thesis by (auto simp: on_alloc_def Let_def intro: order_trans)
qed

lemma on_free_current: "current_bytes (on_free sz s) \<le> current_bytes s"
  by (simp add: on_free_def saturating_sub_def word_sub_le)

lemma on_free_alloc:
  "unat (current_bytes s) + unat sz < 2 ^ 64 \<Longrightarrow> current_bytes (on_free sz (on_alloc sz s)) = current_bytes s"
  by (simp add: on_free_def on_alloc_def saturating_sub_def Let_def word_le_nat_alt unat_add_lem [THEN iffD1])

lemma stats_peak_bounds:
  assumes "current_bytes s \<le> peak_bytes s" "f \<in> {on_alloc sz, on_free sz, on_page_created, stats_reset}"
  shows "current_bytes (snapshot (f s)) \<le> peak_bytes (snapshot (f s))"
proof -
  have "current_bytes (on_free sz s) \<le> peak_bytes (on_free sz s)"
    using order_trans [OF on_free_current assms(1)] by (simp add: on_free_def)
  then show ?thesis using assms on_alloc_peak by (auto simp: snapshot_def on_page_created_def stats_reset_def stats_zero_def)
qed

end
