(* ===== verification/MiPool.thy ===== *)
theory MiPool
  imports MiSubproc
begin

text \<open>
  \<^verbatim>\<open>src/subproc.rs\<close>: the invariant of the pool of arenas, and what its operations do to the bytes in
  use. Everything is said in terms of bytes of the address space, as the regions of different
  arenas and of the metadata allocator are disjoint.
\<close>

section \<open>Bytes of slices\<close>

lemma area_iff: "x \<in> area a I \<longleftrightarrow> unat (ar_start a) \<le> x \<and> (x - unat (ar_start a)) div 65536 \<in> I"
proof -
  have one: "x \<in> slice_bytes a i 1 \<longleftrightarrow> unat (ar_start a) \<le> x \<and> (x - unat (ar_start a)) div 65536 = i" for i
    unfolding slice_bytes_def by auto
  show ?thesis unfolding area_def by (simp only: UN_iff one) auto
qed

lemma area_sets: "area a (I - J) = area a I - area a J" "area a (I \<inter> J) = area a I \<inter> area a J" "area a {} = {}"
  by (auto simp: area_iff)

definition extent :: "arena \<Rightarrow> nat set" where
  "extent a = slice_bytes a 0 (ar_slice_count a)"

definition used_slices :: "arena \<Rightarrow> nat set" where
  "used_slices a = {..<ar_slice_count a} - bits_of (ar_free a)"

lemma extent_area: "extent a = area a {..<ar_slice_count a}"
  by (simp add: extent_def slice_bytes_area atLeast0LessThan)

lemma area_extent: "I \<subseteq> {..<ar_slice_count a} \<Longrightarrow> area a I \<subseteq> extent a"
  unfolding extent_area by (rule area_mono)

lemma unit_extent: "in_unit a i n \<Longrightarrow> slice_bytes a i n \<subseteq> extent a"
  unfolding slice_bytes_area by (rule area_extent) (auto simp: in_unit_def)

lemma extent_same: "same_arena a a' \<Longrightarrow> extent a' = extent a"
  by (simp add: extent_def same_arena_range same_arena_fields)

section \<open>The invariant\<close>

definition env_ok :: "env \<Rightarrow> bool" where
  "env_ok env \<longleftrightarrow> sy_ok (en_sys env) \<and> mmap_law (sy_libc (en_sys env)) (sy_cfg (en_sys env))
    \<and> munmap_law (sy_libc (en_sys env)) (sy_cfg (en_sys env))"

lemma env_okD:
  assumes "env_ok env"
  shows "sy_ok (en_sys env)" "mmap_law (sy_libc (en_sys env)) (sy_cfg (en_sys env))"
    "munmap_law (sy_libc (en_sys env)) (sy_cfg (en_sys env))" "cfg_ok (sy_cfg (en_sys env))"
  using assms by (simp_all add: env_ok_def sy_ok_def)

text \<open>
  Slices marked committed can be accessed, except in hardened builds, where a failed commit followed
  by a purge can break this (\<open>hardened_purge_partial_commit\<close>).
\<close>

definition arena_in :: "env \<Rightarrow> meta \<Rightarrow> os_log \<Rightarrow> ptr \<Rightarrow> arena \<Rightarrow> bool" where
  "arena_in env ms lg ar a \<longleftrightarrow> arena_ok a \<and> extent a \<subseteq> mapped lg \<and> extent a \<inter> regions ms = {} \<and> holds ms 3 ar
    \<and> (\<not> sy_hard (en_sys env) \<longrightarrow> commit_sound a lg)"

definition apart :: "'z world_scheme \<Rightarrow> ptr \<Rightarrow> ptr \<Rightarrow> bool" where
  "apart w ar ar' \<longleftrightarrow> extent (wd_arenas w ar) \<inter> extent (wd_arenas w ar') = {} \<and> block_bytes ar 3 \<inter> block_bytes ar' 3 = {}"

definition pool_ok :: "env \<Rightarrow> 'z world_scheme \<Rightarrow> bool" where
  "pool_ok env w \<longleftrightarrow> meta_ok (wd_meta w) (wd_log w) \<and> distinct (wd_arena_list w) \<and> length (wd_arena_list w) \<le> MAX_ARENAS
    \<and> (\<forall>ar\<in>set (wd_arena_list w). arena_in env (wd_meta w) (wd_log w) ar (wd_arenas w ar))
    \<and> (\<forall>ar\<in>set (wd_arena_list w). \<forall>ar'\<in>set (wd_arena_list w). ar \<noteq> ar' \<longrightarrow> apart w ar ar')"

definition used :: "'z world_scheme \<Rightarrow> nat set" where
  "used w = (\<Union>ar\<in>set (wd_arena_list w). area (wd_arenas w ar) (used_slices (wd_arenas w ar)))"

lemma pool_okD:
  assumes "pool_ok env w"
  shows "meta_ok (wd_meta w) (wd_log w)" "distinct (wd_arena_list w)"
    "ar \<in> set (wd_arena_list w) \<Longrightarrow> arena_in env (wd_meta w) (wd_log w) ar (wd_arenas w ar)"
    "ar \<in> set (wd_arena_list w) \<Longrightarrow> ar' \<in> set (wd_arena_list w) \<Longrightarrow> ar \<noteq> ar' \<Longrightarrow> apart w ar ar'"
  using assms by (simp_all add: pool_ok_def)

lemma pool_arena:
  assumes "pool_ok env w" "ar \<in> set (wd_arena_list w)"
  shows "arena_ok (wd_arenas w ar)" "extent (wd_arenas w ar) \<subseteq> mapped (wd_log w)"
    "extent (wd_arenas w ar) \<inter> regions (wd_meta w) = {}" "holds (wd_meta w) 3 ar" "ar \<noteq> 0"
    "\<not> sy_hard (en_sys env) \<Longrightarrow> commit_sound (wd_arenas w ar) (wd_log w)"
proof -
  note i = pool_okD(3) [OF assms, unfolded arena_in_def]
  show "arena_ok (wd_arenas w ar)" "extent (wd_arenas w ar) \<subseteq> mapped (wd_log w)"
    "extent (wd_arenas w ar) \<inter> regions (wd_meta w) = {}" "holds (wd_meta w) 3 ar"
    "\<not> sy_hard (en_sys env) \<Longrightarrow> commit_sound (wd_arenas w ar) (wd_log w)"
    using i by simp_all
  then show "ar \<noteq> 0" using holds_nonzero [OF pool_okD(1) [OF assms(1)]] by blast
qed

lemma used_in_arena:
  assumes "pool_ok env w" "ar \<in> set (wd_arena_list w)"
  shows "used w \<inter> extent (wd_arenas w ar) = area (wd_arenas w ar) (used_slices (wd_arenas w ar))"
proof -
  have inside: "area (wd_arenas w x) (used_slices (wd_arenas w x)) \<subseteq> extent (wd_arenas w x)" for x
    by (rule area_extent) (auto simp: used_slices_def)
  have "area (wd_arenas w x) (used_slices (wd_arenas w x)) \<inter> extent (wd_arenas w ar) = {}"
    if "x \<in> set (wd_arena_list w)" "x \<noteq> ar" for x
    using pool_okD(4) [OF assms(1) that(1) assms(2) that(2)] inside [of x] by (auto simp: apart_def)
  then show ?thesis unfolding used_def using inside [of ar] assms(2) by blast
qed

text \<open>
  A step of the pool, which keeps what is in use inside \<open>U\<close>, of slices and of metadata blocks; the
  descriptors of new arenas spare these blocks.
\<close>

definition spares :: "nat set \<Rightarrow> meta \<Rightarrow> ptr \<Rightarrow> bool" where
  "spares U ms ar \<longleftrightarrow> (\<forall>m q. holds ms m q \<longrightarrow> block_bytes q m \<subseteq> U \<longrightarrow> block_bytes q m \<inter> block_bytes ar 3 = {})"

definition pool_step :: "env \<Rightarrow> nat set \<Rightarrow> 'z world_scheme \<Rightarrow> 'z world_scheme \<Rightarrow> bool" where
  "pool_step env U w w' \<longleftrightarrow> pool_ok env w'
    \<and> (\<exists>xs. wd_arena_list w' = wd_arena_list w @ xs \<and> (\<forall>ar\<in>set xs. ar_abandoned (wd_arenas w' ar) = None \<and> spares U (wd_meta w) ar))
    \<and> (\<forall>ar\<in>set (wd_arena_list w). same_arena (wd_arenas w ar) (wd_arenas w' ar))
    \<and> U \<inter> used w \<subseteq> used w' \<and> U \<inter> used w \<inter> accessible (wd_log w) \<subseteq> accessible (wd_log w')
    \<and> mapped (wd_log w) \<subseteq> mapped (wd_log w')
    \<and> (\<forall>m q. holds (wd_meta w) m q \<longrightarrow> block_bytes q m \<subseteq> U \<longrightarrow> holds (wd_meta w') m q)
    \<and> wd_pages w' = wd_pages w \<and> world.more w' = world.more w"

lemma pool_stepD:
  assumes "pool_step env U w w'"
  shows "pool_ok env w'" "set (wd_arena_list w) \<subseteq> set (wd_arena_list w')"
    "ar \<in> set (wd_arena_list w) \<Longrightarrow> same_arena (wd_arenas w ar) (wd_arenas w' ar)"
    "U \<inter> used w \<subseteq> used w'" "U \<inter> used w \<inter> accessible (wd_log w) \<subseteq> accessible (wd_log w')"
    "mapped (wd_log w) \<subseteq> mapped (wd_log w')"
    "holds (wd_meta w) m q \<Longrightarrow> block_bytes q m \<subseteq> U \<Longrightarrow> holds (wd_meta w') m q"
    "wd_pages w' = wd_pages w" "world.more w' = world.more w"
  using assms by (auto simp: pool_step_def)

lemma pool_step_refl: "pool_ok env w \<Longrightarrow> pool_step env U w w"
  by (simp add: pool_step_def)

lemma spares_mono: "spares U ms ar \<Longrightarrow> V \<subseteq> U \<Longrightarrow> spares V ms ar"
  unfolding spares_def by blast

lemma pool_step_mono: "pool_step env U w w' \<Longrightarrow> V \<subseteq> U \<Longrightarrow> pool_step env V w w'"
  unfolding pool_step_def
  by (elim conjE exE, intro conjI exI ballI allI impI, assumption+) (auto intro: spares_mono)

lemma pool_step_trans:
  assumes "pool_step env U w w1" "pool_step env U w1 w2"
  shows "pool_step env U w w2"
proof -
  obtain xs where xs: "wd_arena_list w1 = wd_arena_list w @ xs" "\<forall>ar\<in>set xs. ar_abandoned (wd_arenas w1 ar) = None \<and> spares U (wd_meta w) ar"
    using assms(1) unfolding pool_step_def by blast
  obtain ys where ys: "wd_arena_list w2 = wd_arena_list w1 @ ys" "\<forall>ar\<in>set ys. ar_abandoned (wd_arenas w2 ar) = None \<and> spares U (wd_meta w1) ar"
    using assms(2) unfolding pool_step_def by blast
  have l: "wd_arena_list w1 = wd_arena_list w @ xs" "wd_arena_list w2 = wd_arena_list w1 @ ys"
      "\<forall>ar\<in>set xs. ar_abandoned (wd_arenas w1 ar) = None" "\<forall>ar\<in>set ys. ar_abandoned (wd_arenas w2 ar) = None"
    and f: "\<forall>ar\<in>set xs. spares U (wd_meta w) ar" "\<forall>ar\<in>set ys. spares U (wd_meta w1) ar"
    using xs ys by simp_all
  have "spares U (wd_meta w) ar" if "spares U (wd_meta w1) ar" for ar
    using that pool_stepD(7) [OF assms(1)] unfolding spares_def by blast
  then have far: "\<forall>ar\<in>set (xs @ ys). spares U (wd_meta w) ar" using f by auto
  have "\<forall>ar\<in>set (xs @ ys). ar_abandoned (wd_arenas w2 ar) = None"
    using l pool_stepD(3) [OF assms(2)] same_arena_fields(5) by fastforce
  moreover have "same_arena (wd_arenas w ar) (wd_arenas w2 ar)" if "ar \<in> set (wd_arena_list w)" for ar
    using pool_stepD(3) [OF assms(1) that] pool_stepD(3) [OF assms(2), of ar] pool_stepD(2) [OF assms(1)] that
      same_arena_trans by blast
  moreover have "U \<inter> used w \<inter> accessible (wd_log w) \<subseteq> accessible (wd_log w2)"
    using pool_stepD(4,5) [OF assms(1)] pool_stepD(5) [OF assms(2)] by blast
  moreover have "U \<inter> used w \<subseteq> used w2" using pool_stepD(4) [OF assms(1)] pool_stepD(4) [OF assms(2)] by blast
  moreover have "\<forall>m q. holds (wd_meta w) m q \<longrightarrow> block_bytes q m \<subseteq> U \<longrightarrow> holds (wd_meta w2) m q"
    using pool_stepD(7) [OF assms(1)] pool_stepD(7) [OF assms(2)] by blast
  ultimately show ?thesis
    using l(1,2) far pool_stepD(1,6,8,9) [OF assms(2)] pool_stepD(6,8,9) [OF assms(1)]
    unfolding pool_step_def by (intro conjI exI [of _ "xs @ ys"]) auto
qed

lemma pool_frame [simp]:
  "pool_ok env (w\<lparr>wd_cursor := c\<rparr>) = pool_ok env w" "used (w\<lparr>wd_cursor := c\<rparr>) = used w"
  "pool_step env U w (w'\<lparr>wd_cursor := c\<rparr>) = pool_step env U w w'"
  "pool_ok env (w\<lparr>wd_clock := k\<rparr>) = pool_ok env w" "used (w\<lparr>wd_clock := k\<rparr>) = used w"
  by (simp_all add: pool_ok_def used_def pool_step_def apart_def)

section \<open>Operations on one arena\<close>

lemma arena_step:
  assumes "pool_ok env w" "ar \<in> set (wd_arena_list w)" "a = wd_arenas w ar" "keeps_used sy F (a, wd_log w) (a', lg')"
    and "F \<subseteq> {..<ar_slice_count a}" "area a F \<inter> U \<inter> used w = {}" "area a (bits_of (ar_free a')) \<inter> U \<inter> used w = {}"
    and "\<not> sy_hard (en_sys env) \<Longrightarrow> commit_sound a' lg'"
    and "w' = w\<lparr>wd_arenas := (wd_arenas w)(ar := a'), wd_log := lg', wd_clock := k\<rparr>"
  shows "pool_step env U w w'" "used w' = (used w - extent a) \<union> area a (used_slices a')"
proof -
  have same: "same_arena a a'" and ok': "arena_ok a'" and acc: "accessible (wd_log w) - area a F \<subseteq> accessible lg'"
    and map: "mapped lg' = mapped (wd_log w)"
    using assms(4) by (simp_all add: keeps_used_def)
  have ext: "extent (wd_arenas w' x) = extent (wd_arenas w x)" for x
    using extent_same [OF same] by (simp add: assms(9) assms(3))
  have other: "commit_sound (wd_arenas w x) lg'" if x: "x \<in> set (wd_arena_list w)" "x \<noteq> ar" and soft: "\<not> sy_hard (en_sys env)" for x
  proof -
    have "area (wd_arenas w x) (bits_of (ar_commit (wd_arenas w x))) \<subseteq> extent (wd_arenas w x)"
      using bitmap_forD(3) [OF arena_okD(2) [OF pool_arena(1) [OF assms(1) x(1)]]] by (rule area_extent)
    moreover have "area a F \<subseteq> extent (wd_arenas w ar)" using area_extent [OF assms(5)] by (simp add: assms(3))
    moreover have "extent (wd_arenas w x) \<inter> extent (wd_arenas w ar) = {}"
      using pool_okD(4) [OF assms(1) x(1) assms(2) x(2)] by (simp add: apart_def)
    ultimately have "area (wd_arenas w x) (bits_of (ar_commit (wd_arenas w x))) \<inter> area a F = {}" by blast
    then show ?thesis
      using pool_arena(6) [OF assms(1) x(1) soft] acc unfolding commit_sound_area by blast
  qed
  have ins: "arena_in env (wd_meta w') (wd_log w') x (wd_arenas w' x)" if "x \<in> set (wd_arena_list w)" for x
    unfolding arena_in_def ext
    using pool_arena [OF assms(1) that] ok' assms(8) other [OF that] by (auto simp: assms(9) map)
  have inv: "pool_ok env w'"
    unfolding pool_ok_def
  proof (intro conjI ballI impI)
    show "meta_ok (wd_meta w') (wd_log w')" using pool_okD(1) [OF assms(1)] meta_ok_mapped map by (simp add: assms(9))
    show "distinct (wd_arena_list w')" "length (wd_arena_list w') \<le> MAX_ARENAS" using assms(1) by (simp_all add: pool_ok_def assms(9))
    show "arena_in env (wd_meta w') (wd_log w') x (wd_arenas w' x)" if "x \<in> set (wd_arena_list w')" for x
      using ins that by (simp add: assms(9))
    show "apart w' x y" if "x \<in> set (wd_arena_list w')" "y \<in> set (wd_arena_list w')" "x \<noteq> y" for x y
      using pool_okD(4) [OF assms(1), of x y] that ext unfolding apart_def by (simp add: assms(9))
  qed
  note here = used_in_arena [OF assms(1,2), folded assms(3)]
  show us: "used w' = (used w - extent a) \<union> area a (used_slices a')"
  proof -
    have "used w' = (\<Union>x\<in>set (wd_arena_list w) - {ar}. area (wd_arenas w x) (used_slices (wd_arenas w x))) \<union> area a (used_slices a')"
      using assms(2) area_same [OF same] by (auto simp: used_def assms(9) split: if_splits)
    moreover have "used w - extent a = (\<Union>x\<in>set (wd_arena_list w) - {ar}. area (wd_arenas w x) (used_slices (wd_arenas w x)))"
    proof -
      have inside: "area (wd_arenas w x) (used_slices (wd_arenas w x)) \<subseteq> extent (wd_arenas w x)" for x
        by (rule area_extent) (auto simp: used_slices_def)
      have "extent (wd_arenas w x) \<inter> extent a = {}" if "x \<in> set (wd_arena_list w)" "x \<noteq> ar" for x
        using pool_okD(4) [OF assms(1) that(1) assms(2) that(2)] by (simp add: apart_def assms(3))
      then show ?thesis using inside inside [of ar] unfolding used_def assms(3) by blast
    qed
    ultimately show ?thesis by simp
  qed
  have kept: "U \<inter> used w \<subseteq> used w'"
  proof
    fix x assume x: "x \<in> U \<inter> used w"
    show "x \<in> used w'"
    proof (cases "x \<in> extent a")
      case True
      have "x \<notin> area a (bits_of (ar_free a'))" using x assms(7) by blast
      then show ?thesis
        using True unfolding us extent_area by (auto simp: used_slices_def area_iff same_arena_fields [OF same])
    qed (use x us in blast)
  qed
  have "U \<inter> used w \<inter> accessible (wd_log w) \<subseteq> accessible lg'" using acc assms(6) by blast
  then show "pool_step env U w w'"
    using inv same kept map by (simp add: pool_step_def) (simp add: assms(9) assms(3))
qed

text \<open>The free slices of a state are not in use.\<close>

lemma free_not_used:
  assumes "pool_ok env w" "ar \<in> set (wd_arena_list w)"
  shows "area (wd_arenas w ar) (bits_of (ar_free (wd_arenas w ar))) \<inter> used w = {}"
proof -
  let ?a = "wd_arenas w ar"
  have "area ?a (bits_of (ar_free ?a)) \<subseteq> extent ?a"
    using bitmap_forD(3) [OF arena_okD(1) [OF pool_arena(1) [OF assms]]] by (rule area_extent)
  moreover have "used w \<inter> extent ?a \<inter> area ?a (bits_of (ar_free ?a)) = {}"
    unfolding used_in_arena [OF assms] by (auto simp: area_iff used_slices_def)
  ultimately show ?thesis by blast
qed

lemma w_free_slices_step:
  assumes "env_ok env" "pool_ok env w" "ar \<in> set (wd_arena_list w)" "in_unit (wd_arenas w ar) i n"
  shows "\<exists>w'. w_free_slices env ar i n w = Some w' \<and> pool_step env (- slice_bytes (wd_arenas w ar) i n) w w'
    \<and> used w' = used w - slice_bytes (wd_arenas w ar) i n"
proof -
  let ?a = "wd_arenas w ar" and ?sy = "en_sys env"
  note ok = pool_arena(1) [OF assms(2,3)]
  obtain a' lg' where f: "free_slices ?sy (en_now env (wd_clock w)) i n (?a, wd_log w) = Inr (a', lg')"
      "bits_of (ar_free a') = bits_of (ar_free ?a) \<union> {i..<i + n}"
      "keeps_used ?sy (bits_of (ar_free ?a) \<union> {i..<i + n}) (?a, wd_log w) (a', lg')"
      "purge_safe ?sy ?a \<longrightarrow> commit_sound ?a (wd_log w) \<longrightarrow> (sy_hard ?sy \<longrightarrow> {i..<i + n} \<subseteq> bits_of (ar_commit ?a)) \<longrightarrow>
         purge_safe ?sy a' \<and> commit_sound a' lg'"
    using free_slices_spec [OF ok env_okD(1) [OF assms(1)] assms(4), of "en_now env (wd_clock w)" "wd_log w"]
    by (elim exE conjE) (rule that)
  define w' where "w' = w\<lparr>wd_arenas := (wd_arenas w)(ar := a'), wd_log := lg', wd_clock := wd_clock w + 1\<rparr>"
  have run: "w_free_slices env ar i n w = Some w'"
    by (simp add: w_free_slices_def on_arena_def no_result_def f(1) w'_def)
  have F: "bits_of (ar_free ?a) \<union> {i..<i + n} \<subseteq> {..<ar_slice_count ?a}"
    using bitmap_forD(3) [OF arena_okD(1) [OF ok]] assms(4) by (auto simp: in_unit_def)
  have d: "area ?a (bits_of (ar_free ?a) \<union> {i..<i + n}) \<inter> - slice_bytes ?a i n \<inter> used w = {}"
    using free_not_used [OF assms(2,3)] unfolding area_Un slice_bytes_area by blast
  have cs: "commit_sound a' lg'" if "\<not> sy_hard ?sy"
    using f(4) that pool_arena(6) [OF assms(2,3) that] by (simp add: purge_safe_def)
  note st = arena_step [OF assms(2,3) refl f(3) F d _ cs w'_def, unfolded f(2), OF d]
  have "area ?a (used_slices a') = area ?a (used_slices ?a) - slice_bytes ?a i n"
    using f(2,3) by (auto simp: used_slices_def area_iff slice_bytes_area keeps_used_def same_arena_fields)
  then have "used w' = used w - slice_bytes ?a i n"
    using st(2) unit_extent [OF assms(4)] used_in_arena [OF assms(2,3)] by blast
  then show ?thesis using run st(1) by blast
qed

text \<open>What a successful claim gets: \<open>n\<close> slices that were not in use, and now are.\<close>

definition claimed :: "env \<Rightarrow> nat \<Rightarrow> 'z world_scheme \<Rightarrow> slices_got \<Rightarrow> 'z world_scheme \<Rightarrow> bool" where
  "claimed env n w = (\<lambda>(ar, idx, p, z) w'. ar \<in> set (wd_arena_list w') \<and> in_unit (wd_arenas w' ar) idx n
    \<and> p = slice_ptr (wd_arenas w' ar) idx \<and> slice_bytes (wd_arenas w' ar) idx n \<inter> used w = {}
    \<and> used w' = used w \<union> slice_bytes (wd_arenas w' ar) idx n
    \<and> (\<not> sy_hard (en_sys env) \<longrightarrow> slice_bytes (wd_arenas w' ar) idx n \<subseteq> accessible (wd_log w')))"

definition claim_result :: "env \<Rightarrow> nat \<Rightarrow> 'z world_scheme \<Rightarrow> slices_got option \<Rightarrow> 'z world_scheme \<Rightarrow> bool" where
  "claim_result env n w r w' \<longleftrightarrow> pool_step env UNIV w w' \<and> (case r of None \<Rightarrow> used w' = used w | Some got \<Rightarrow> claimed env n w got w')"

lemma arena_alloc_step:
  assumes "env_ok env" "pool_ok env w" "ar \<in> set (wd_arena_list w)" "0 < n" "n \<le> CHUNK_BITS"
  shows "\<exists>r w'. arena_alloc env n tseq ar w = Some (r, w') \<and> claim_result env n w r w'"
proof -
  let ?a = "wd_arenas w ar" and ?sy = "en_sys env"
  note ok = pool_arena(1) [OF assms(2,3)]
  obtain r a' lg' where c: "alloc_slices ?sy (en_now env (wd_clock w)) n tseq (?a, wd_log w) = Inr (r, a', lg')"
      "case r of Some got \<Rightarrow> handed_out ?sy n (?a, wd_log w) got (a', lg') | None \<Rightarrow> not_handed_out ?sy n (?a, wd_log w) (a', lg')"
    using alloc_slices_spec [OF ok env_okD(1) [OF assms(1)] assms(4,5)] by blast
  define w' where "w' = w\<lparr>wd_arenas := (wd_arenas w)(ar := a'), wd_log := lg', wd_clock := wd_clock w + 1\<rparr>"
  have run: "arena_alloc env n tseq ar w = Some (map_option (\<lambda>(idx, p, z). (ar, idx, p, z)) r, w')"
    by (simp add: arena_alloc_def on_arena_def c(1) w'_def)
  have free: "bits_of (ar_free ?a) \<subseteq> {..<ar_slice_count ?a}" by (rule bitmap_forD(3) [OF arena_okD(1) [OF ok]])
  have d: "area ?a (bits_of (ar_free ?a)) \<inter> UNIV \<inter> used w = {}" using free_not_used [OF assms(2,3)] by simp
  note here = used_in_arena [OF assms(2,3)]
  show ?thesis
  proof (cases r)
    case None
    then have n: "bits_of (ar_free a') = bits_of (ar_free ?a)" "keeps_used ?sy (bits_of (ar_free ?a)) (?a, wd_log w) (a', lg')"
        "\<not> sy_hard ?sy \<Longrightarrow> commit_sound ?a (wd_log w) \<Longrightarrow> commit_sound a' lg'"
      using c(2) by (simp_all add: not_handed_out_def)
    note st = arena_step [OF assms(2,3) refl n(2) free d _ _ w'_def, unfolded n(1), OF d n(3) [OF _ pool_arena(6) [OF assms(2,3)]]]
    have "same_arena ?a a'" using n(2) by (simp add: keeps_used_def)
    then have "used_slices a' = used_slices ?a" using n(1) same_arena_fields(3) by (simp add: used_slices_def)
    then have "used w' = (used w - extent ?a) \<union> (used w \<inter> extent ?a)" using st(2) here by simp
    then have "used w' = used w" by blast
    then show ?thesis using run None st(1) by (auto simp: claim_result_def)
  next
    case (Some got)
    obtain idx p z where got: "got = (idx, p, z)" by (cases got)
    have h: "handed_out ?sy n (?a, wd_log w) (idx, p, z) (a', lg')" using c(2) Some got by simp
    then have g: "in_unit ?a idx n" "{idx..<idx + n} \<subseteq> bits_of (ar_free ?a)" "p = slice_ptr ?a idx"
        "bits_of (ar_free a') = bits_of (ar_free ?a) - {idx..<idx + n}" "same_arena ?a a'"
        "commit_sound ?a (wd_log w) \<Longrightarrow> slice_bytes ?a idx n \<subseteq> accessible lg' \<and> commit_sound a' lg'"
      by (simp_all add: handed_out_def)
    have k: "keeps_used ?sy {} (?a, wd_log w) (a', lg')"
      using h by (simp add: handed_out_def keeps_used_def area_sets)
    have e: "area ?a {} \<inter> UNIV \<inter> used w = {}" by (simp add: area_sets)
    have f': "area ?a (bits_of (ar_free a')) \<inter> UNIV \<inter> used w = {}" using d unfolding g(4) area_sets by blast
    note st = arena_step [OF assms(2,3) refl k _ e f' conjunct2 [OF g(6) [OF pool_arena(6) [OF assms(2,3)]]] w'_def, simplified]
    have sub: "slice_bytes ?a idx n \<subseteq> extent ?a" by (rule unit_extent [OF g(1)])
    have "area ?a (used_slices a') = area ?a (used_slices ?a) \<union> slice_bytes ?a idx n"
      using g(1,2,4) by (auto simp: used_slices_def area_iff slice_bytes_area same_arena_fields [OF g(5)] in_unit_def)
    then have us: "used w' = used w \<union> slice_bytes ?a idx n" using st(2) here by blast
    have new: "slice_bytes ?a idx n \<inter> used w = {}"
      using d area_mono [OF g(2), of ?a] by (auto simp: slice_bytes_area)
    have wa: "wd_arenas w' ar = a'" "wd_arena_list w' = wd_arena_list w" "wd_log w' = lg'" by (simp_all add: w'_def)
    note same = same_arena_range [OF g(5)]
    have "claimed env n w (ar, idx, p, z) w'"
      using assms(3) g(1,3) us new g(6) [OF pool_arena(6) [OF assms(2,3)]] by (simp add: claimed_def wa same)
    then show ?thesis using run Some got st(1) by (auto simp: claim_result_def)
  qed
qed

section \<open>Purging the pool\<close>

lemma maybe_purge_spec:
  assumes "sy_ok sy" "arena_ok a"
  shows "\<exists>did a' lg'. maybe_purge sy now force (a, lg) = Inr (did, a', lg') \<and> bits_of (ar_free a') = bits_of (ar_free a)
    \<and> keeps_used sy (bits_of (ar_free a)) (a, lg) (a', lg') \<and> (purge_safe sy a \<longrightarrow> commit_sound a lg \<longrightarrow> commit_sound a' lg')"
proof -
  let ?a = "a\<lparr>ar_purge_expire := 0\<rparr>"
  have same: "same_arena a ?a" by (simp add: same_arena_def)
  have ok: "arena_ok ?a" using arena_okD [OF assms(2)] by (intro arena_ok_same [OF assms(2) same]) simp_all
  obtain did a' lg' where r: "run_purge sy (?a, lg) = Inr (did, a', lg')" "purge_rel sy (?a, lg) (a', lg')"
    using run_purge_spec [OF assms(1) ok] by blast
  have k: "keeps_used sy (bits_of (ar_free a)) (a, lg) (a', lg')" "bits_of (ar_free a') = bits_of (ar_free a)"
    using r(2) same_arena_trans [OF same] area_same [OF same] by (auto simp: purge_rel_def keeps_used_def)
  have "commit_sound a' lg'" if "purge_safe sy a" "commit_sound a lg"
    using r(2) that by (simp add: purge_rel_def purge_safe_def commit_sound_def)
  then have purged: "\<exists>did a' lg'. run_purge sy (?a, lg) = Inr (did, a', lg') \<and> bits_of (ar_free a') = bits_of (ar_free a)
    \<and> keeps_used sy (bits_of (ar_free a)) (a, lg) (a', lg') \<and> (purge_safe sy a \<longrightarrow> commit_sound a lg \<longrightarrow> commit_sound a' lg')"
    using r(1) k by blast
  have still: "\<exists>did a' lg'. Inr (False, a, lg) = Inr (did, a', lg') \<and> bits_of (ar_free a') = bits_of (ar_free a)
    \<and> keeps_used sy (bits_of (ar_free a)) (a, lg) (a', lg') \<and> (purge_safe sy a \<longrightarrow> commit_sound a lg \<longrightarrow> commit_sound a' lg')"
    using assms(2) by (intro exI [of _ False] exI [of _ a] exI [of _ lg]) (simp add: keeps_used_def)
  have "maybe_purge sy now force (a, lg) \<in> {Inr (False, a, lg), run_purge sy (?a, lg)}"
    by (simp add: maybe_purge_def Let_def)
  then show ?thesis using purged still by (elim insertE emptyE) (simp_all only:)
qed

lemma purge_step:
  assumes "env_ok env" "pool_ok env w" "ar \<in> set (wd_arena_list w)"
  shows "\<exists>did w'. on_arena env ar (\<lambda>now. maybe_purge (en_sys env) now force) w = Some (did, w') \<and> pool_step env UNIV w w' \<and> used w' = used w
    \<and> wd_arena_list w' = wd_arena_list w"
proof -
  let ?a = "wd_arenas w ar" and ?sy = "en_sys env"
  note ok = pool_arena(1) [OF assms(2,3)]
  obtain did a' lg' where c: "maybe_purge ?sy (en_now env (wd_clock w)) force (?a, wd_log w) = Inr (did, a', lg')"
      "bits_of (ar_free a') = bits_of (ar_free ?a)" "keeps_used ?sy (bits_of (ar_free ?a)) (?a, wd_log w) (a', lg')"
      "purge_safe ?sy ?a \<longrightarrow> commit_sound ?a (wd_log w) \<longrightarrow> commit_sound a' lg'"
    using maybe_purge_spec [OF env_okD(1) [OF assms(1)] ok] by blast
  define w' where "w' = w\<lparr>wd_arenas := (wd_arenas w)(ar := a'), wd_log := lg', wd_clock := wd_clock w + 1\<rparr>"
  have run: "on_arena env ar (\<lambda>now. maybe_purge ?sy now force) w = Some (did, w')"
    by (simp add: on_arena_def c(1) w'_def)
  have free: "bits_of (ar_free ?a) \<subseteq> {..<ar_slice_count ?a}" by (rule bitmap_forD(3) [OF arena_okD(1) [OF ok]])
  have d: "area ?a (bits_of (ar_free ?a)) \<inter> UNIV \<inter> used w = {}" using free_not_used [OF assms(2,3)] by simp
  have cs: "commit_sound a' lg'" if "\<not> sy_hard ?sy"
    using c(4) that pool_arena(6) [OF assms(2,3) that] by (simp add: purge_safe_def)
  note st = arena_step [OF assms(2,3) refl c(3) free d _ cs w'_def, unfolded c(2), OF d]
  have "same_arena ?a a'" using c(3) by (simp add: keeps_used_def)
  then have "used_slices a' = used_slices ?a" using c(2) same_arena_fields(3) by (simp add: used_slices_def)
  then have "used w' = (used w - extent ?a) \<union> (used w \<inter> extent ?a)" using st(2) used_in_arena [OF assms(2,3)] by simp
  then have "used w' = used w" by blast
  then show ?thesis using run st(1) by (simp add: w'_def)
qed

lemma arena_at_in:
  assumes "pool_ok env w" "i < arena_count w"
  shows "\<exists>ar. arena_at i w = Some ar \<and> ar \<in> set (wd_arena_list w)"
  using pool_arena(5) [OF assms(1), of "wd_arena_list w ! i"] assms(2) by (simp add: arena_at_def arena_count_def Let_def)

lemma try_purge_loop_step:
  assumes "env_ok env"
  shows "pool_ok env w \<Longrightarrow> set is \<subseteq> {..<arena_count w} \<Longrightarrow>
    \<exists>w'. try_purge_loop env force is w = Some w' \<and> pool_step env UNIV w w' \<and> used w' = used w"
proof (induction "is" arbitrary: w)
  case Nil
  then show ?case by (simp add: pool_step_refl)
next
  case (Cons i js)
  have "i < arena_count w" using Cons.prems(2) by simp
  then obtain ar where ar: "arena_at i w = Some ar" "ar \<in> set (wd_arena_list w)" using arena_at_in [OF Cons.prems(1)] by blast
  obtain did w1 where w1: "on_arena env ar (\<lambda>now. maybe_purge (en_sys env) now force) w = Some (did, w1)" "pool_step env UNIV w w1"
      "used w1 = used w" "wd_arena_list w1 = wd_arena_list w"
    using purge_step [OF assms Cons.prems(1) ar(2)] by blast
  have "set js \<subseteq> {..<arena_count w1}" using Cons.prems(2) w1(4) by (simp add: arena_count_def)
  from Cons.IH [OF pool_stepD(1) [OF w1(2)] this] obtain w2 where
    "try_purge_loop env force js w1 = Some w2" "pool_step env UNIV w1 w2" "used w2 = used w1" by blast
  then show ?case using ar(1) w1(1,3) pool_step_trans [OF w1(2)] by auto
qed

lemma try_purge_step:
  assumes "env_ok env" "pool_ok env w"
  shows "\<exists>w'. try_purge env force w = Some w' \<and> pool_step env UNIV w w' \<and> used w' = used w"
  unfolding try_purge_def by (rule try_purge_loop_step [OF assms]) auto

section \<open>Claiming slices from the pool\<close>

lemma claim_after:
  assumes "pool_step env UNIV w w1" "used w1 = used w" "claim_result env n w1 r w2"
  shows "claim_result env n w r w2"
  using assms pool_step_trans [OF assms(1)] by (auto simp: claim_result_def claimed_def split: option.splits)

lemma claim_cursor [simp]: "claim_result env n w r (w'\<lparr>wd_cursor := c\<rparr>) = claim_result env n w r w'"
  by (simp add: claim_result_def claimed_def split: option.split)

lemma pool_step_count:
  assumes "pool_step env U w w'"
  shows "arena_count w \<le> arena_count w'"
  using assms by (auto simp: pool_step_def arena_count_def)

lemma alloc_in_pool_step:
  assumes "env_ok env" "0 < n" "n \<le> CHUNK_BITS" "0 < count"
  shows "pool_ok env w \<Longrightarrow> count \<le> arena_count w \<Longrightarrow>
    \<exists>r w'. alloc_in_pool env n tseq start count ks w = Some (r, w') \<and> claim_result env n w r w'"
proof (induction ks arbitrary: w)
  case Nil
  then show ?case by (simp add: claim_result_def pool_step_refl)
next
  case (Cons k ks)
  let ?i = "(start + k) mod count"
  have "?i < arena_count w" using Cons.prems(2) assms(4) by (meson less_le_trans mod_less_divisor)
  then obtain ar where ar: "arena_at ?i w = Some ar" "ar \<in> set (wd_arena_list w)" using arena_at_in Cons.prems by blast
  obtain r w1 where w1: "arena_alloc env n tseq ar w = Some (r, w1)" "claim_result env n w r w1"
    using arena_alloc_step [OF assms(1) Cons.prems(1) ar(2) assms(2,3)] by blast
  show ?case
  proof (cases r)
    case (Some got)
    then show ?thesis using ar(1) w1 by (simp add: Let_def)
  next
    case None
    then have s: "pool_step env UNIV w w1" "used w1 = used w" using w1(2) by (simp_all add: claim_result_def)
    have "count \<le> arena_count w1" using Cons.prems(2) pool_step_count [OF s(1)] by simp
    from Cons.IH [OF pool_stepD(1) [OF s(1)] this] obtain r2 w2 where
      "alloc_in_pool env n tseq start count ks w1 = Some (r2, w2)" "claim_result env n w1 r2 w2" by blast
    then show ?thesis using ar(1) w1(1) None claim_after [OF s] by (auto simp: Let_def)
  qed
qed

section \<open>Growing the pool\<close>

text \<open>A change of the bookkeeping, and of arenas that are not registered.\<close>

lemma meta_step:
  assumes "pool_ok env w" "meta_grows rw (wd_meta w, wd_log w) (ms', lg')"
    and "\<forall>ar\<in>set (wd_arena_list w). ars ar = wd_arenas w ar"
    and "w' = w\<lparr>wd_arenas := ars, wd_meta := ms', wd_log := lg'\<rparr>"
  shows "pool_step env UNIV w w'" "used w' = used w"
proof -
  have map: "mapped (wd_log w) \<subseteq> mapped lg'" by (rule meta_grows_mapped [OF assms(2)])
  have g: "meta_ok ms' lg'" "extends (mapped (wd_log w)) rw (wd_log w) lg'" "\<forall>m q. holds (wd_meta w) m q \<longrightarrow> holds ms' m q"
      "regions ms' \<subseteq> regions (wd_meta w) \<union> (mapped lg' - mapped (wd_log w))"
    using assms(2) by (simp_all add: meta_grows_def)
  have acc: "accessible lg' \<inter> mapped (wd_log w) = accessible (wd_log w) \<inter> mapped (wd_log w)"
    by (rule extends_access(1) [OF g(2)])
  have ar: "wd_arenas w' ar = wd_arenas w ar" if "ar \<in> set (wd_arena_list w)" for ar using assms(3) that by (simp add: assms(4))
  have ins: "arena_in env ms' lg' ar (wd_arenas w' ar)" if x: "ar \<in> set (wd_arena_list w)" for ar
  proof -
    note p = pool_arena [OF assms(1) x]
    have "extent (wd_arenas w ar) \<inter> regions ms' = {}" using p(2,3) g(4) by blast
    moreover have "commit_sound (wd_arenas w ar) lg'" if "\<not> sy_hard (en_sys env)"
    proof -
      have "area (wd_arenas w ar) (bits_of (ar_commit (wd_arenas w ar))) \<subseteq> extent (wd_arenas w ar)"
        using bitmap_forD(3) [OF arena_okD(2) [OF p(1)]] by (rule area_extent)
      then show ?thesis using p(6) [OF that] p(2) acc unfolding commit_sound_area by blast
    qed
    ultimately show ?thesis using p g(3) map unfolding arena_in_def ar [OF x] by blast
  qed
  have e: "wd_arena_list w' = wd_arena_list w" "wd_meta w' = ms'" "wd_log w' = lg'" "wd_pages w' = wd_pages w"
      "world.more w' = world.more w"
    by (simp_all add: assms(4))
  have inv: "pool_ok env w'"
    unfolding pool_ok_def e
  proof (intro conjI ballI impI)
    show "distinct (wd_arena_list w)" "length (wd_arena_list w) \<le> MAX_ARENAS" using assms(1) by (simp_all add: pool_ok_def)
    show "apart w' x y" if "x \<in> set (wd_arena_list w)" "y \<in> set (wd_arena_list w)" "x \<noteq> y" for x y
      using pool_okD(4) [OF assms(1) that] ar that unfolding apart_def by simp
  qed (use g(1) ins in simp_all)
  show us: "used w' = used w" using ar by (simp add: used_def e)
  have "used w \<subseteq> mapped (wd_log w)"
  proof -
    have "area (wd_arenas w x) (used_slices (wd_arenas w x)) \<subseteq> extent (wd_arenas w x)" for x
      by (rule area_extent) (auto simp: used_slices_def)
    then show ?thesis using pool_arena(2) [OF assms(1)] unfolding used_def by blast
  qed
  then have "used w \<inter> accessible (wd_log w) \<subseteq> accessible lg'" using acc by blast
  then show "pool_step env UNIV w w'"
    using inv us ar map g(3) by (simp add: pool_step_def e)
qed

lemma reserve_arena_step:
  assumes "env_ok env" "pool_ok env w"
  shows "\<exists>r w'. reserve_arena env n commit w = Some (r, w') \<and> pool_step env UNIV w w' \<and> used w' = used w
    \<and> (\<forall>ar. r = Some ar \<longrightarrow> ar \<in> set (wd_arena_list w'))"
proof -
  let ?sy = "en_sys env" and ?n = "max n DEFAULT_ARENA_SLICES"
  note ok = pool_okD(1) [OF assms(2)]
  have n0: "0 < ?n" by (simp add: DEFAULT_ARENA_SLICES_def)
  obtain r ms' lg' where c: "arena_create ?sy ?n commit (wd_meta w, wd_log w) = Inr (r, ms', lg')"
      "meta_grows False (wd_meta w, wd_log w) (ms', lg')"
      "case r of None \<Rightarrow> True | Some a \<Rightarrow> created ?n commit (wd_meta w, wd_log w) a (ms', lg')"
    using arena_create_spec [OF env_okD(1-3) [OF assms(1)] ok n0] by blast
  show ?thesis
  proof (cases r)
    case None
    let ?w = "w\<lparr>wd_meta := ms', wd_log := lg'\<rparr>"
    have "reserve_arena env n commit w = Some (None, ?w)" using c(1) None by (simp add: reserve_arena_def Let_def)
    then show ?thesis using meta_step [OF assms(2) c(2), of "wd_arenas w" ?w] by auto
  next
    case (Some a)
    let ?p = "ar_desc a" and ?b = "4 * (ar_chunk_count a + 1)"
    let ?w1 = "w\<lparr>wd_arenas := (wd_arenas w)(?p := a), wd_meta := ms', wd_log := lg'\<rparr>"
    have cr: "created ?n commit (wd_meta w, wd_log w) a (ms', lg')" using c(3) Some by simp
    have a: "arena_ok a" "ar_slice_count a = ?n" "extent a \<inter> mapped (wd_log w) = {}" "extent a \<subseteq> mapped lg'"
        "extent a \<inter> regions ms' = {}" "bits_of (ar_free a) = {..<?n}" "commit_sound a lg'" "ar_abandoned a = None"
        "ar_abandoned_memid a = None" "bytes (mi_base (ar_memid a)) (mi_size (ar_memid a)) = extent a"
        "65536 dvd unat (mi_base (ar_memid a))" "holds ms' 3 ?p" "holds ms' ?b (ar_bm_mem a)"
        "block_bytes ?p 3 \<inter> block_bytes (ar_bm_mem a) ?b = {}"
        "\<forall>m q. holds (wd_meta w) m q \<longrightarrow> block_bytes q m \<inter> (block_bytes ?p 3 \<union> block_bytes (ar_bm_mem a) ?b) = {}"
      using cr by (simp_all add: created_def extent_def)
    have new: "?p \<notin> set (wd_arena_list w)"
    proof
      assume "?p \<in> set (wd_arena_list w)"
      then have "block_bytes ?p 3 \<inter> block_bytes ?p 3 = {}" using a(15) pool_arena(4) [OF assms(2)] by blast
      then show False by (simp add: block_bytes_def)
    qed
    have old: "\<forall>ar\<in>set (wd_arena_list w). ((wd_arenas w)(?p := a)) ar = wd_arenas w ar" using new by auto
    note st1 = meta_step [OF assms(2) c(2) old refl]
    have swap: "w\<lparr>wd_meta := ms', wd_log := lg', wd_arenas := (wd_arenas w)(?p := a)\<rparr> = ?w1"
      by (cases w) simp
    have run1: "reserve_arena env n commit w =
        (let (added, w2) = add_arena ?p ?w1 in if added then Some (Some ?p, w2) else do {
           (ms, lg) \<leftarrow> ran (arena_destroy ?sy (wd_arenas w2 ?p) (wd_meta w2, wd_log w2));
           Some (None, w2\<lparr>wd_meta := ms, wd_log := lg\<rparr>)})"
      using c(1) Some by (simp add: reserve_arena_def Let_def) (simp only: swap)
    show ?thesis
    proof (cases "length (wd_arena_list w) \<ge> MAX_ARENAS")
      case False
      let ?w2 = "?w1\<lparr>wd_arena_list := wd_arena_list w @ [?p]\<rparr>"
      have run: "reserve_arena env n commit w = Some (Some ?p, ?w2)" using run1 False by (simp add: add_arena_def)
      note ok1 = pool_stepD(1) [OF st1(1)]
      have aw: "wd_arenas ?w1 ?p = a" by simp
      have far: "apart ?w2 x ?p" "apart ?w2 ?p x" if x: "x \<in> set (wd_arena_list w)" for x
      proof -
        have "extent (wd_arenas w x) \<inter> extent a = {}" using pool_arena(2) [OF assms(2) x] a(3) by blast
        moreover have "block_bytes x 3 \<inter> block_bytes ?p 3 = {}" using a(15) pool_arena(4) [OF assms(2) x] by blast
        moreover have "x \<noteq> ?p" using new x by blast
        ultimately show "apart ?w2 x ?p" "apart ?w2 ?p x" by (auto simp: apart_def)
      qed
      have inv: "pool_ok env ?w2"
        unfolding pool_ok_def
      proof (intro conjI ballI impI)
        show "meta_ok (wd_meta ?w2) (wd_log ?w2)" using pool_okD(1) [OF ok1] by simp
        show "distinct (wd_arena_list ?w2)" using pool_okD(2) [OF assms(2)] new by simp
        show "length (wd_arena_list ?w2) \<le> MAX_ARENAS" using False by simp
        show "arena_in env (wd_meta ?w2) (wd_log ?w2) x (wd_arenas ?w2 x)" if "x \<in> set (wd_arena_list ?w2)" for x
          using that pool_okD(3) [OF ok1, of x] a by (auto simp: arena_in_def)
        show "apart ?w2 x y" if "x \<in> set (wd_arena_list ?w2)" "y \<in> set (wd_arena_list ?w2)" "x \<noteq> y" for x y
        proof (cases "x = ?p \<or> y = ?p")
          case True
          with that far show ?thesis by auto
        next
          case False
          with that pool_okD(4) [OF ok1, of x y] show ?thesis by (simp add: apart_def)
        qed
      qed
      have "used_slices a = {}" using a(2,6) by (simp add: used_slices_def)
      then have us: "used ?w2 = used w" using st1(2) by (auto simp: used_def area_sets)
      have "spares UNIV (wd_meta w) ?p" using a(15) unfolding spares_def by blast
      then have "pool_step env UNIV w ?w2"
        using st1(1) inv us st1(2) a(8) by (simp add: pool_step_def)
      then show ?thesis using run us by simp
    next
      case True
      have sub: "block_bytes q m \<inter> block_bytes ?p 3 = {}" "block_bytes q m \<inter> block_bytes (ar_bm_mem a) ?b = {}"
        if "holds (wd_meta w) m q" for m q
        using a(15) that by blast+
      let ?lg = "os_free (sy_libc ?sy) (ar_memid a) lg'"
      have mok: "meta_ok ms' lg'" using c(2) by (simp add: meta_grows_def)
      have hb: "unat (hot_bitmap_bytes (ar_chunk_count a)) = 256 * (ar_chunk_count a + 1)"
      proof -
        have "ar_chunk_count a \<le> 126" using cr by (simp add: created_def)
        then show ?thesis unfolding hot_bitmap_bytes_def HOT_BITMAPS_def sizeof_bchunk_def by (subst unat_of_nat_small) simp_all
      qed
      have nb: "?b = nat_div_ceil (unat (hot_bitmap_bytes (ar_chunk_count a))) 64" unfolding hb by (simp add: nat_div_ceil_def)
      have nd: "3 = nat_div_ceil (unat sizeof_arena) 64" by (simp add: sizeof_arena_def nat_div_ceil_def)
      obtain ms2 where m2: "meta_free (ar_bm_mem a) (hot_bitmap_bytes (ar_chunk_count a)) ms' = Inr ms2" "meta_ok ms2 lg'"
          "regions ms2 = regions ms'"
          "\<forall>m q. holds ms' m q \<longrightarrow> block_bytes q m \<inter> block_bytes (ar_bm_mem a) ?b = {} \<longrightarrow> holds ms2 m q"
        using meta_free_holds [OF mok a(13) nb] by auto
      have h3: "holds ms2 3 ?p" using m2(4) a(12,14) by blast
      obtain ms3 where m3: "meta_free ?p sizeof_arena ms2 = Inr ms3" "meta_ok ms3 lg'" "regions ms3 = regions ms2"
          "\<forall>m q. holds ms2 m q \<longrightarrow> block_bytes q m \<inter> block_bytes ?p 3 = {} \<longrightarrow> holds ms3 m q"
        using meta_free_holds [OF m2(2) h3 nd] by auto
      let ?w2 = "w\<lparr>wd_arenas := (wd_arenas w)(?p := a), wd_meta := ms3, wd_log := ?lg\<rparr>"
      have run: "reserve_arena env n commit w = Some (None, ?w2)"
        using run1 True m2(1) m3(1) a(9) by (simp add: add_arena_def arena_destroy_def)
      have "unat (page_size (sy_cfg ?sy)) dvd unat (mi_base (ar_memid a))"
        using env_okD(1) [OF assms(1)] a(11) dvd_trans unfolding sy_ok_def by blast
      then have "mapped ?lg = mapped lg' \<or> mapped ?lg = mapped lg' - extent a"
        using prim_free_mapped [OF env_okD(3) [OF assms(1)]] a(10) by (auto simp: os_free_def)
      then have reg: "regions ms3 \<subseteq> mapped ?lg"
        using regions_mapped' [OF m3(2)] a(5) m2(3) m3(3) by blast
      have "extends (mapped (wd_log w)) False lg' ?lg" using a(3,10) by (intro os_free_extends) simp
      moreover have "extends (mapped (wd_log w)) False (wd_log w) lg'" using c(2) by (simp add: meta_grows_def)
      ultimately have ext: "extends (mapped (wd_log w)) False (wd_log w) ?lg" using extends_trans by blast
      have keep: "\<forall>m q. holds (wd_meta w) m q \<longrightarrow> holds ms3 m q"
        using c(2) m2(4) m3(4) sub by (simp add: meta_grows_def)
      have old_reg: "regions ms' \<subseteq> regions (wd_meta w) \<union> (mapped lg' - mapped (wd_log w))"
        using c(2) by (simp add: meta_grows_def)
      have "regions ms3 \<subseteq> regions (wd_meta w) \<union> (mapped ?lg - mapped (wd_log w))"
        using old_reg reg m2(3) m3(3) regions_mapped' [OF ok] by blast
      then have "meta_grows False (wd_meta w, wd_log w) (ms3, ?lg)"
        using keep ext meta_ok_regions [OF m3(2) reg] by (simp add: meta_grows_def)
      note st2 = meta_step [OF assms(2) this old refl]
      show ?thesis by (intro exI [of _ None] exI [of _ ?w2] conjI run st2) simp
    qed
  qed
qed

lemma sp_alloc_slices_step:
  assumes "env_ok env" "pool_ok env w" "0 < n" "n \<le> CHUNK_BITS"
  shows "\<exists>r w'. sp_alloc_slices env n commit tseq w = Some (r, w') \<and> claim_result env n w r w'"
proof -
  let ?first = "if arena_count w > 0
    then alloc_in_pool env n tseq (wd_cursor w mod arena_count w) (arena_count w) [0..<arena_count w] w else Some (None, w)"
  have "\<exists>r w1. ?first = Some (r, w1) \<and> claim_result env n w r w1"
  proof (cases "arena_count w > 0")
    case True
    then show ?thesis using alloc_in_pool_step [OF assms(1,3,4) True assms(2)] by simp
  next
    case False
    then show ?thesis using assms(2) by (simp add: claim_result_def pool_step_refl)
  qed
  then obtain r w1 where f: "?first = Some (r, w1)" "claim_result env n w r w1" by blast
  show ?thesis
  proof (cases r)
    case (Some got)
    then show ?thesis using f by (simp add: sp_alloc_slices_def Let_def)
  next
    case None
    then have s1: "pool_step env UNIV w w1" "used w1 = used w" using f(2) by (simp_all add: claim_result_def)
    obtain r2 w2 where w2: "reserve_arena env n commit w1 = Some (r2, w2)" "pool_step env UNIV w1 w2" "used w2 = used w1"
        "\<forall>ar. r2 = Some ar \<longrightarrow> ar \<in> set (wd_arena_list w2)"
      using reserve_arena_step [OF assms(1) pool_stepD(1) [OF s1(1)]] by blast
    note s2 = pool_step_trans [OF s1(1) w2(2)]
    have u2: "used w2 = used w" using s1(2) w2(3) by simp
    show ?thesis
    proof (cases r2)
      case None2: None
      then show ?thesis using f(1) None w2(1) s2 u2 by (simp add: sp_alloc_slices_def Let_def claim_result_def)
    next
      case (Some ar)
      then obtain r3 w3 where w3: "arena_alloc env n tseq ar w2 = Some (r3, w3)" "claim_result env n w2 r3 w3"
        using arena_alloc_step [OF assms(1) pool_stepD(1) [OF w2(2)] _ assms(3,4)] w2(4) by blast
      have "claim_result env n w r3 w3" by (rule claim_after [OF s2 u2 w3(2)])
      then show ?thesis
        using f(1) None w2(1) Some w3(1) by (cases r3) (simp_all add: sp_alloc_slices_def Let_def)
    qed
  qed
qed

section \<open>Metadata blocks\<close>

lemma w_meta_zalloc_step:
  assumes "env_ok env" "pool_ok env w" "0 < sz" "n = nat_div_ceil (unat sz) 64"
  shows "\<exists>r w'. w_meta_zalloc env sz w = Some (r, w') \<and> pool_step env UNIV w w' \<and> used w' = used w
    \<and> wd_arena_list w' = wd_arena_list w \<and> wd_arenas w' = wd_arenas w
    \<and> (\<forall>p. r = Some p \<longrightarrow> holds (wd_meta w') n p \<and> (\<forall>m q. holds (wd_meta w) m q \<longrightarrow> block_bytes q m \<inter> block_bytes p n = {}))"
proof -
  let ?sy = "en_sys env"
  obtain r ms' lg' where z: "meta_zalloc (sy_libc ?sy) (sy_cfg ?sy) sz (wd_meta w, wd_log w) = Inr (r, ms', lg')"
    using meta_zalloc_spec [OF env_okD(4,2,3) [OF assms(1)] pool_okD(1) [OF assms(2)] assms(3)] by blast
  note g = meta_zalloc_grows [OF env_okD(4,2,3) [OF assms(1)] pool_okD(1) [OF assms(2)] assms(3) z assms(4)]
  let ?w = "w\<lparr>wd_meta := ms', wd_log := lg'\<rparr>"
  have "w_meta_zalloc env sz w = Some (r, ?w)" by (simp add: w_meta_zalloc_def z)
  then show ?thesis using meta_step [OF assms(2) g(1), of "wd_arenas w" ?w] g(2) by auto
qed

lemma w_meta_free_step:
  assumes "pool_ok env w" "holds (wd_meta w) n p" "n = nat_div_ceil (unat sz) 64" "0 < n"
    and "\<forall>ar\<in>set (wd_arena_list w). block_bytes ar 3 \<inter> block_bytes p n = {}"
  shows "\<exists>w'. w_meta_free p sz w = Some w' \<and> pool_step env (- block_bytes p n) w w' \<and> used w' = used w"
proof -
  obtain ms' where m: "meta_free p sz (wd_meta w) = Inr ms'" "meta_ok ms' (wd_log w)" "regions ms' = regions (wd_meta w)"
      "\<forall>m q. holds (wd_meta w) m q \<longrightarrow> block_bytes q m \<inter> block_bytes p n = {} \<longrightarrow> holds ms' m q"
    using meta_free_holds [OF pool_okD(1) [OF assms(1)] assms(2-4)] by blast
  let ?w = "w\<lparr>wd_meta := ms'\<rparr>"
  have run: "w_meta_free p sz w = Some ?w" by (simp add: w_meta_free_def m(1))
  have "pool_ok env ?w"
    using assms(1,5) m(2-4) by (auto simp: pool_ok_def arena_in_def apart_def)
  then have "pool_step env (- block_bytes p n) w ?w"
    using m(4) by (auto simp: pool_step_def used_def)
  then show ?thesis using run by (simp add: used_def)
qed

end
