(* ===== verification/MiPageLive.thy ===== *)
theory MiPageLive
  imports MiPageQueue
begin

text \<open>
  \<^verbatim>\<open>src/page.rs\<close> as the heap sees it: a page is its set of live blocks, the three free lists are
  hidden. Every operation keeps the constant part of the header and touches link words of the page's
  own blocks only.
\<close>

section \<open>Pages by their live blocks\<close>

definition page_live :: "bool \<Rightarrow> page \<Rightarrow> links \<Rightarrow> ptr set \<Rightarrow> bool" where
  "page_live enc pg m L \<longleftrightarrow> (\<exists>fs ls ts. page_lists enc pg m fs ls ts \<and> live pg fs ls ts = L)"

lemma page_liveI: "page_lists enc pg m fs ls ts \<Longrightarrow> live pg fs ls ts = L \<Longrightarrow> page_live enc pg m L"
  unfolding page_live_def by blast

lemma page_liveE:
  assumes "page_live enc pg m L"
  obtains fs ls ts where "page_lists enc pg m fs ls ts" "live pg fs ls ts = L"
  using assms unfolding page_live_def by blast

definition all_blocks :: "page \<Rightarrow> ptr set" where
  "all_blocks pg = set (grid pg (unat (pg_reserved pg)))"

text \<open>What the lists are made of, and what no list operation changes.\<close>

definition core :: "page \<Rightarrow> ptr \<times> ptr \<times> usize \<times> u32 \<times> u32 \<times> u32 \<times> usize \<times> ptr \<times> keys" where
  "core pg = (pg_free pg, pg_local_free pg, pg_xthread_free pg, pg_used pg, pg_capacity pg, pg_reserved pg,
     pg_block_size pg, pg_page_start pg, pg_keys pg)"

definition shape :: "page \<Rightarrow> u32 \<times> usize \<times> ptr \<times> keys \<times> usize \<times> usize \<times> ptr \<times> ptr \<times> u32" where
  "shape pg = (pg_reserved pg, pg_block_size pg, pg_page_start pg, pg_keys pg, pg_slice_index pg, pg_slice_count pg,
     pg_theap pg, pg_arena pg, pg_bin pg)"

definition same_header :: "page \<Rightarrow> page \<Rightarrow> bool" where
  "same_header pg pg' \<longleftrightarrow> shape pg' = shape pg \<and> pg_xthread_id pg' = pg_xthread_id pg \<and> pg_next pg' = pg_next pg
    \<and> pg_prev pg' = pg_prev pg \<and> is_owned pg' = is_owned pg"

lemma same_header_refl [simp]: "same_header pg pg"
  by (simp add: same_header_def)

lemma same_header_trans: "same_header a b \<Longrightarrow> same_header b c \<Longrightarrow> same_header a c"
  by (simp add: same_header_def)

lemma shapeD:
  assumes "shape pg' = shape pg"
  shows "pg_reserved pg' = pg_reserved pg" "pg_block_size pg' = pg_block_size pg" "pg_page_start pg' = pg_page_start pg"
    "pg_keys pg' = pg_keys pg" "pg_slice_index pg' = pg_slice_index pg" "pg_slice_count pg' = pg_slice_count pg"
    "pg_theap pg' = pg_theap pg" "pg_arena pg' = pg_arena pg" "pg_bin pg' = pg_bin pg"
    "block_at pg' = block_at pg" "grid pg' = grid pg" "all_blocks pg' = all_blocks pg"
    "page_geometry enc pg' = page_geometry enc pg"
  using assms by (simp_all add: shape_def block_at_def grid_def all_blocks_def page_geometry_def fun_eq_iff)

lemmas same_headerD = shapeD [OF conjunct1 [OF iffD1 [OF same_header_def]]]

lemma core_lists:
  assumes "core pg' = core pg"
  shows "page_lists enc pg' m fs ls ts = page_lists enc pg m fs ls ts" "live pg' fs ls ts = live pg fs ls ts"
  using assms by (simp_all add: core_def page_lists_def page_geometry_def live_def grid_def block_at_def)

lemma core_live:
  assumes "core pg' = core pg"
  shows "page_live enc pg' m L = page_live enc pg m L"
  unfolding page_live_def core_lists [OF assms] ..

lemma live_geometry: "page_live enc pg m L \<Longrightarrow> page_geometry enc pg"
  by (auto simp: page_live_def page_lists_def)

lemma lists_in:
  assumes "page_lists enc pg m fs ls ts"
  shows "set (fs @ ls @ ts) \<subseteq> all_blocks pg" "live pg fs ls ts \<subseteq> all_blocks pg"
proof -
  have "set (grid pg (unat (pg_capacity pg))) \<subseteq> all_blocks pg"
    unfolding all_blocks_def using page_listsD(9) [OF assms] by (rule grid_mono)
  then show "set (fs @ ls @ ts) \<subseteq> all_blocks pg" "live pg fs ls ts \<subseteq> all_blocks pg"
    using assms by (auto simp: page_lists_def live_def)
qed

lemma live_in: "page_live enc pg m L \<Longrightarrow> L \<subseteq> all_blocks pg"
  using lists_in(2) by (metis page_liveE)

lemma live_block:
  assumes "page_live enc pg m L" "b \<in> all_blocks pg"
  obtains i where "i < unat (pg_reserved pg)" "b = block_at pg i"
    "unat b = unat (pg_page_start pg) + i * unat (pg_block_size pg)"
  using assms block_offset(1) [OF live_geometry [OF assms(1)]] by (auto simp: all_blocks_def grid_def)

text \<open>The lists depend on the link words of the page's own free blocks only.\<close>

lemma live_frame:
  assumes "page_live enc pg m L" "\<And>c. c \<in> all_blocks pg \<Longrightarrow> c \<notin> L \<Longrightarrow> m' c = m c"
  shows "page_live enc pg m' L"
proof -
  obtain fs ls ts where l: "page_lists enc pg m fs ls ts" "live pg fs ls ts = L" using assms(1) by (rule page_liveE)
  have same: "block_next enc (pg_keys pg) m' x = block_next enc (pg_keys pg) m x" if "x \<in> set (fs @ ls @ ts)" for x
    using lists_in(1) [OF l(1)] that assms(2) [of x] l(2) by (auto simp: block_next_def live_def)
  have "chain (block_next enc (pg_keys pg) m') p xs = chain (block_next enc (pg_keys pg) m) p xs"
    if "set xs \<subseteq> set (fs @ ls @ ts)" for p xs
    using same that by (intro chain_cong) blast
  from this [of fs] this [of ls] this [of ts]
  have "chain (block_next enc (pg_keys pg) m') p fs = chain (block_next enc (pg_keys pg) m) p fs"
      "chain (block_next enc (pg_keys pg) m') p ls = chain (block_next enc (pg_keys pg) m) p ls"
      "chain (block_next enc (pg_keys pg) m') p ts = chain (block_next enc (pg_keys pg) m) p ts" for p
    by auto
  then have "page_lists enc pg m' fs ls ts"
    using l(1) by (simp add: page_lists_def)
  then show ?thesis using l(2) by (rule page_liveI)
qed

section \<open>Operations on the owner's side\<close>

text \<open>An operation that turns the page \<open>pg\<close> with live blocks \<open>L\<close> into one with \<open>L'\<close>.\<close>

definition page_step :: "bool \<Rightarrow> page \<times> links \<Rightarrow> page \<times> links \<Rightarrow> ptr set \<Rightarrow> ptr set \<Rightarrow> bool" where
  "page_step enc = (\<lambda>(pg, m) (pg', m') L L'. page_live enc pg' m' L' \<and> same_header pg pg'
    \<and> (\<forall>c. c \<notin> all_blocks pg \<longrightarrow> m' c = m c) \<and> (\<forall>c\<in>L \<inter> L'. m' c = m c))"

lemma page_stepD:
  assumes "page_step enc (pg, m) (pg', m') L L'"
  shows "page_live enc pg' m' L'" "same_header pg pg'" "c \<notin> all_blocks pg \<Longrightarrow> m' c = m c" "c \<in> L \<Longrightarrow> c \<in> L' \<Longrightarrow> m' c = m c"
  using assms by (simp_all add: page_step_def)

lemma collected_header: "same_header pg (collected pg fs ls ts)"
proof -
  have "tf_is_owned (tf_create 0 b) = b" for b
    by (simp add: tf_is_owned_def tf_create_def TF_OWNED_def split: if_split)
  then show ?thesis by (simp add: same_header_def shape_def collected_def is_owned_def)
qed

lemma collect_step:
  assumes "page_lists enc pg m fs ls ts"
  shows "\<exists>m'. collect enc pg m = Some (collected pg fs ls ts, m') \<and> page_lists enc (collected pg fs ls ts) m' (ls @ rev ts @ fs) [] []
    \<and> page_step enc (pg, m) (collected pg fs ls ts, m') (live pg fs ls ts) (live pg fs ls ts)"
proof -
  obtain m' where m: "collect enc pg m = Some (collected pg fs ls ts, m')"
      "page_lists enc (collected pg fs ls ts) m' (ls @ rev ts @ fs) [] []" "\<forall>c. c \<notin> set (ls @ ts) \<longrightarrow> m' c = m c"
    using collect_lists [OF assms] by blast
  have "page_live enc (collected pg fs ls ts) m' (live pg fs ls ts)"
    using m(2) live_collected by (rule page_liveI)
  moreover have "m' c = m c" if "c \<notin> all_blocks pg \<or> c \<in> live pg fs ls ts" for c
    using that lists_in(1) [OF assms] m(3) by (auto simp: live_def)
  ultimately show ?thesis using m(1,2) collected_header by (auto simp: page_step_def)
qed

lemma collect_live:
  assumes "page_live enc pg m L"
  shows "\<exists>pg' m'. collect enc pg m = Some (pg', m') \<and> page_step enc (pg, m) (pg', m') L L \<and> (is_all_free pg' \<longleftrightarrow> L = {})"
proof -
  obtain fs ls ts where l: "page_lists enc pg m fs ls ts" "live pg fs ls ts = L" using assms by (rule page_liveE)
  obtain m' where m: "collect enc pg m = Some (collected pg fs ls ts, m')"
      "page_lists enc (collected pg fs ls ts) m' (ls @ rev ts @ fs) [] []"
      "page_step enc (pg, m) (collected pg fs ls ts, m') L L"
    using collect_step [OF l(1)] l(2) by blast
  have "card L = unat (pg_used (collected pg fs ls ts))"
    using page_lists_count(2) [OF m(2)] live_collected l(2) by simp
  moreover have "finite L" using l(2) by (auto simp: live_def)
  ultimately have "is_all_free (collected pg fs ls ts) \<longleftrightarrow> L = {}" by (auto simp: is_all_free_def unat_eq_0)
  then show ?thesis using m(1,3) by blast
qed

lemma is_full_live:
  assumes "page_live enc pg m L"
  shows "\<exists>full pg' m'. is_full enc pg m = Some (full, pg', m') \<and> page_step enc (pg, m) (pg', m') L L \<and> (full \<longleftrightarrow> L = all_blocks pg)"
proof -
  obtain fs ls ts where l: "page_lists enc pg m fs ls ts" "live pg fs ls ts = L" using assms(1) by (rule page_liveE)
  obtain full pg' m' where f: "is_full enc pg m = Some (full, pg', m')" "full \<longleftrightarrow> L = all_blocks pg"
    using is_full_exact [OF l(1)] l(2) by (auto simp: all_blocks_def)
  have "page_step enc (pg, m) (pg', m') L L"
  proof (cases "pg_free pg = 0")
    case True
    then show ?thesis using f(1) collect_step [OF l(1)] l(2) by (auto simp: is_full_def)
  next
    case False
    then show ?thesis using f(1) assms by (simp add: is_full_def page_step_def)
  qed
  then show ?thesis using f by blast
qed

section \<open>Allocation\<close>

lemma pop_header: "same_header pg (snd (pop enc b pg m))"
  by (simp add: pop_def same_header_def shape_def is_owned_def)

lemma extend_loop_other:
  "c \<notin> set (map (block_at pg) [cap..<cap + k]) \<Longrightarrow> snd (extend_loop enc pg cap k h m) c = m c"
  by (induction k arbitrary: h m) (auto simp: Let_def block_set_next_def)

lemma extend_free_header: "same_header pg (fst (extend_free enc pg m))"
  by (simp add: extend_free_def Let_def same_header_def shape_def is_owned_def split: prod.split)

lemma extend_free_other:
  assumes "c \<notin> all_blocks pg"
  shows "snd (extend_free enc pg m) c = m c"
proof -
  let ?n = "min (unat (pg_reserved pg) - unat (pg_capacity pg)) (max (MI_MAX_EXTEND_SIZE div unat (pg_block_size pg)) MI_MIN_EXTEND)"
  have "c \<notin> set (map (block_at pg) [unat (pg_capacity pg)..<unat (pg_capacity pg) + ?n])" if "\<not> unat (pg_capacity pg) \<ge> unat (pg_reserved pg)"
    using assms that by (auto simp: all_blocks_def grid_def)
  from extend_loop_other [OF this, of enc "pg_free pg" m] show ?thesis
    by (auto simp: extend_free_def Let_def split: prod.split)
qed

lemma alloc_header:
  assumes "page_lists enc pg m fs ls ts" "alloc enc pg m = Some (r, pg', m')"
  shows "same_header pg pg'" "c \<notin> all_blocks pg \<Longrightarrow> m' c = m c"
proof -
  let ?pg = "collected pg fs ls ts"
  obtain m1 where m1: "collect enc pg m = Some (?pg, m1)" "page_step enc (pg, m) (?pg, m1) (live pg fs ls ts) (live pg fs ls ts)"
    using collect_step [OF assms(1)] by blast
  obtain pg2 m2 where e: "extend_free enc ?pg m1 = (pg2, m2)" by fastforce
  have h1: "same_header pg ?pg" by (rule collected_header)
  have h2: "same_header pg pg2" using same_header_trans [OF h1] extend_free_header [of ?pg enc m1] e by simp
  have m2: "m2 c = m c" if "c \<notin> all_blocks pg" for c
    using extend_free_other [of c ?pg enc m1] e page_stepD(3) [OF m1(2) that] that same_headerD(12) [OF h1] by simp
  have pop: "same_header pg (snd (pop enc b q n))" if "same_header pg q" for b q n
    using same_header_trans [OF that pop_header] .
  have "same_header pg pg' \<and> (\<forall>c. c \<notin> all_blocks pg \<longrightarrow> m' c = m c)"
  proof (cases "pg_free pg = 0")
    case False
    then show ?thesis using assms(2) pop [OF same_header_refl, of "pg_free pg" m] by (auto simp: alloc_def Let_def split: prod.splits)
  next
    case True
    then have "alloc_slow enc pg m = Some (r, pg', m')" using assms(2) by (simp add: alloc_def)
    then show ?thesis
      using m1(1) e h2 m2 pop [OF h1, of "pg_free ?pg" m1] pop [OF h2, of "pg_free pg2" m2] page_stepD(3) [OF m1(2)]
      by (auto simp: alloc_slow_def Let_def split: if_splits prod.splits)
  qed
  then show "same_header pg pg'" "c \<notin> all_blocks pg \<Longrightarrow> m' c = m c" by simp_all
qed

lemma alloc_lists:
  assumes "page_lists enc pg m fs ls ts"
  shows "\<exists>r pg' m'. alloc enc pg m = Some (r, pg', m') \<and> alloc_result enc pg m (live pg fs ls ts) r pg' m'"
proof (cases "pg_free pg = 0")
  case True
  then show ?thesis using alloc_slow_result [of enc pg m ls ts] assms free_null_iff [OF assms] by (simp add: alloc_def)
next
  case False
  then show ?thesis using alloc_result_pop [OF assms False refl refl refl] by (fastforce simp: alloc_def Let_def)
qed

definition alloc_outcome :: "page \<Rightarrow> ptr set \<Rightarrow> ptr option \<Rightarrow> ptr set \<Rightarrow> bool" where
  "alloc_outcome pg L r L' \<longleftrightarrow> (case r of Some b \<Rightarrow> b \<in> all_blocks pg - L \<and> L' = insert b L | None \<Rightarrow> L = all_blocks pg \<and> L' = L)"

lemma alloc_live:
  assumes "page_live enc pg m L"
  shows "\<exists>r pg' m' L'. alloc enc pg m = Some (r, pg', m') \<and> page_step enc (pg, m) (pg', m') L L' \<and> alloc_outcome pg L r L'"
proof -
  obtain fs ls ts where l: "page_lists enc pg m fs ls ts" "live pg fs ls ts = L" using assms(1) by (rule page_liveE)
  obtain r pg' m' where a: "alloc enc pg m = Some (r, pg', m')" "alloc_result enc pg m L r pg' m'"
    using alloc_lists [OF l(1)] l(2) by blast
  note h = alloc_header [OF l(1) a(1)]
  obtain gs ks us where g: "page_lists enc pg' m' gs ks us" "\<forall>c\<in>L. m' c = m c"
      "case r of Some b \<Rightarrow> b \<notin> L \<and> b \<in> all_blocks pg \<and> live pg' gs ks us = insert b L
        | None \<Rightarrow> live pg' gs ks us = L \<and> L = all_blocks pg"
    using a(2) unfolding alloc_result_def all_blocks_def by blast
  have "page_step enc (pg, m) (pg', m') L (live pg' gs ks us)"
    using h g(1,2) by (auto simp: page_step_def page_live_def)
  moreover have "alloc_outcome pg L r (live pg' gs ks us)"
    using g(3) by (auto simp: alloc_outcome_def split: option.splits)
  ultimately show ?thesis using a(1) by blast
qed

section \<open>Freeing\<close>

lemma free_local_live:
  assumes "page_live enc pg m L" "b \<in> L" "free_local enc b pg m = (pg', m')"
  shows "page_step enc (pg, m) (pg', m') L (L - {b})" "is_all_free pg' \<Longrightarrow> L = {b}"
proof -
  obtain fs ls ts where l: "page_lists enc pg m fs ls ts" "live pg fs ls ts = L" using assms(1) by (rule page_liveE)
  have bl: "b \<in> live pg fs ls ts" using assms(2) l(2) by simp
  note f = free_local_lists [OF l(1) bl, unfolded assms(3), simplified, unfolded l(2)]
  have "b \<in> all_blocks pg" using live_in [OF assms(1)] assms(2) by blast
  moreover have "same_header pg pg'"
    using assms(3) by (auto simp: free_local_def same_header_def shape_def is_owned_def)
  ultimately show "page_step enc (pg, m) (pg', m') L (L - {b})"
    using page_liveI [OF f(1,2)] unfolding page_step_def split_conv by (intro conjI allI ballI impI f(3)) auto
  show "L = {b}" if "is_all_free pg'"
  proof -
    have "length ts + card (L - {b}) = 0" using page_lists_count(2) [OF f(1)] f(2) that by (simp add: is_all_free_def)
    moreover have "finite (L - {b})" using l(2) by (auto simp: live_def)
    ultimately have "L - {b} = {}" by (simp del: Diff_eq_empty_iff)
    then show ?thesis using assms(2) by blast
  qed
qed

lemma push_live:
  assumes "page_live enc pg m L" "b \<in> L" "thread_free_push enc b pg m = (claimed, pg', m')" "is_owned pg"
  shows "page_step enc (pg, m) (pg', m') L (L - {b})" "\<not> claimed"
proof -
  obtain fs ls ts where l: "page_lists enc pg m fs ls ts" "live pg fs ls ts = L" using assms(1) by (rule page_liveE)
  have bl: "b \<in> live pg fs ls ts" using assms(2) l(2) by simp
  note f = thread_free_push_queues [OF l(1) bl assms(3), unfolded l(2)]
  have "b \<in> all_blocks pg" using live_in [OF assms(1)] assms(2) by blast
  moreover have "shape pg' = shape pg" "pg_xthread_id pg' = pg_xthread_id pg" "pg_next pg' = pg_next pg" "pg_prev pg' = pg_prev pg"
    using assms(3) by (auto simp: thread_free_push_def Let_def shape_def)
  ultimately show "page_step enc (pg, m) (pg', m') L (L - {b})" "\<not> claimed"
    using f assms(4) page_liveI [of enc pg' m' fs ls "b # ts" "L - {b}"] by (auto simp: page_step_def same_header_def)
qed

lemma listed_live:
  assumes "page_live enc pg m L" "b \<in> L"
  shows "owner_lists_contain enc b pg m = Some False" "contains b pg"
proof -
  obtain fs ls ts where l: "page_lists enc pg m fs ls ts" "live pg fs ls ts = L" using assms(1) by (rule page_liveE)
  show "owner_lists_contain enc b pg m = Some False"
    using owner_lists_contain_exact [OF l(1), of b] assms(2) l(2) by blast
  have "b \<in> all_blocks pg" using live_in [OF assms(1)] assms(2) by blast
  then obtain i where i: "i < unat (pg_reserved pg)" "unat b = unat (pg_page_start pg) + i * unat (pg_block_size pg)"
    using live_block [OF assms(1)] by metis
  have g: "8 \<le> unat (pg_block_size pg)"
      "unat (pg_page_start pg) + unat (pg_reserved pg) * unat (pg_block_size pg) < 2 ^ 64"
    using live_geometry [OF assms(1)] by (simp_all add: page_geometry_def)
  have u: "unat (ucast (pg_reserved pg) :: usize) = unat (pg_reserved pg)" using unsigned_less [of "pg_reserved pg", where ?'a = nat] by (simp add: unsigned_ucast_eq take_bit_nat_eq_self)
  have n: "unat (ucast (pg_reserved pg) * pg_block_size pg) = unat (pg_reserved pg) * unat (pg_block_size pg)"
    using g(2) u by (simp add: unat_word_ariths)
  have "unat (pg_page_start pg + ucast (pg_reserved pg) * pg_block_size pg)
      = unat (pg_page_start pg) + unat (pg_reserved pg) * unat (pg_block_size pg)"
    using g(2) n by (simp add: unat_add_small)
  moreover have "i * unat (pg_block_size pg) < unat (pg_reserved pg) * unat (pg_block_size pg)" using i(1) g(1) by simp
  ultimately show "contains b pg" using i(2) by (simp add: contains_def Let_def word_le_nat_alt word_less_nat_alt)
qed

section \<open>New pages\<close>

lemma init_live:
  assumes "sp \<noteq> 0" "8 dvd unat sp" "unat sp + unat sc * 65536 < 2 ^ 64" "0 < sc"
    and "8 \<le> unat bs" "8 dvd unat bs" "unat sc * 65536 < 2 ^ 32"
    and "\<And>b. unat sp + 144 \<le> unat b \<Longrightarrow> unat b < unat sp + unat sc * 65536 \<Longrightarrow> 8 dvd unat b \<Longrightarrow> linkable enc ks b"
  shows "page_live enc (init sp si sc bs ks z) m {}"
    "i < unat (pg_reserved (init sp si sc bs ks z)) \<Longrightarrow> unat sp + 144 \<le> unat (block_at (init sp si sc bs ks z) i)
      \<and> unat (block_at (init sp si sc bs ks z) i) + unat bs \<le> unat sp + unat sc * 65536"
proof -
  note i = init_lists [OF assms(1-7) assms(8), of si z m]
  show "page_live enc (init sp si sc bs ks z) m {}" by (rule page_liveI) (use i in blast)+
  show "i < unat (pg_reserved (init sp si sc bs ks z)) \<Longrightarrow> unat sp + 144 \<le> unat (block_at (init sp si sc bs ks z) i)
      \<and> unat (block_at (init sp si sc bs ks z) i) + unat bs \<le> unat sp + unat sc * 65536"
    using i by blast
qed

text \<open>A huge page holds its one block from the start.\<close>

lemma huge_live:
  assumes "sp \<noteq> 0" "8 dvd unat sp" "unat sp + unat bs < 2 ^ 64" "8 \<le> unat bs" "8 dvd unat bs" "linkable enc ks sp"
  shows "page_live enc (snd (serve_huge (init_huge sp si sc bs ks z))) m {sp}" "fst (serve_huge (init_huge sp si sc bs ks z)) = sp"
proof -
  let ?pg = "snd (serve_huge (init_huge sp si sc bs ks z))"
  have g: "grid ?pg 1 = [sp]" "unat (pg_reserved ?pg) = 1" "unat (pg_capacity ?pg) = 1"
    by (simp_all add: grid_def block_at_def serve_huge_def init_huge_def)
  have "page_lists enc ?pg m [] [] []"
    using assms g by (simp add: page_lists_def page_geometry_def)
      (simp add: serve_huge_def init_huge_def tf_block_def TF_OWNED_def)
  moreover have "live ?pg [] [] [] = {sp}" using g by (simp add: live_def)
  ultimately show "page_live enc ?pg m {sp}" by (rule page_liveI)
  show "fst (serve_huge (init_huge sp si sc bs ks z)) = sp" by (simp add: serve_huge_def init_huge_def)
qed

end
