(* ===== verification/MiHeapInv.thy ===== *)
theory MiHeapInv
  imports MiPool MiPageLive MiFree
begin

unbundle bit_operations_syntax

text \<open>
  \<^verbatim>\<open>src/heap.rs\<close> over \<^verbatim>\<open>src/page.rs\<close>, \<^verbatim>\<open>src/page_queue.rs\<close>, \<^verbatim>\<open>src/page_map.rs\<close>, \<^verbatim>\<open>src/subproc.rs\<close>
  and below: the invariant of the whole allocator while no thread heap has been torn down, and the
  changes of state the operations of a thread heap are made of.

  The state represents queues of pages \<open>Q\<close>, by thread heap and bin, and for every page its live
  blocks \<open>L\<close>. \<open>I\<close> is the set of live blocks that may have been handed out by an interior pointer.
\<close>

section \<open>The place of a page\<close>

definition page_slices :: "('z world_scheme) \<Rightarrow> page \<Rightarrow> nat set" where
  "page_slices w pg = slice_bytes (wd_arenas w (pg_arena pg)) (unat (pg_slice_index pg)) (unat (pg_slice_count pg))"

text \<open>The slices of a page and, for a huge page, the metadata block of its header.\<close>

definition foot :: "('z world_scheme) \<Rightarrow> ptr \<Rightarrow> page \<Rightarrow> nat set" where
  "foot w p pg = page_slices w pg \<union> (if is_huge pg then block_bytes p 3 else {})"

definition header_ok :: "('z world_scheme) \<Rightarrow> ptr \<Rightarrow> page \<Rightarrow> bool" where
  "header_ok w p pg \<longleftrightarrow>
    (if is_huge pg
     then holds (wd_meta w) 3 p \<and> (\<forall>ar\<in>set (wd_arena_list w). block_bytes ar 3 \<inter> block_bytes p 3 = {})
     else p = slice_ptr (wd_arenas w (pg_arena pg)) (unat (pg_slice_index pg)))"

definition homed :: "env \<Rightarrow> ('z world_scheme) \<Rightarrow> ptr \<Rightarrow> page \<Rightarrow> bool" where
  "homed env w p pg \<longleftrightarrow> pg_arena pg \<in> set (wd_arena_list w)
    \<and> in_unit (wd_arenas w (pg_arena pg)) (unat (pg_slice_index pg)) (unat (pg_slice_count pg))
    \<and> page_slices w pg \<subseteq> used w \<and> (\<not> sy_hard (en_sys env) \<longrightarrow> page_slices w pg \<subseteq> accessible (wd_log w))
    \<and> header_ok w p pg"

definition block_span :: "page \<Rightarrow> ptr \<Rightarrow> nat set" where
  "block_span pg b = {unat b ..< unat b + unat (pg_block_size pg)}"

definition fits :: "('z world_scheme) \<Rightarrow> page \<Rightarrow> bool" where
  "fits w pg \<longleftrightarrow> (\<forall>b\<in>all_blocks pg. block_span pg b \<subseteq> page_slices w pg)"

lemma place_shape:
  assumes "shape pg' = shape pg"
  shows "page_slices w pg' = page_slices w pg" "foot w p pg' = foot w p pg" "homed env w p pg' = homed env w p pg"
    "fits w pg' = fits w pg" "block_span pg' = block_span pg" "is_huge pg' = is_huge pg"
  using shapeD [OF assms]
  by (simp_all add: page_slices_def foot_def homed_def header_ok_def fits_def block_span_def is_huge_def fun_eq_iff)

lemma page_slices_step:
  assumes "pool_step env U w w'" "pg_arena pg \<in> set (wd_arena_list w)"
  shows "page_slices w' pg = page_slices w pg" "foot w' p pg = foot w p pg" "fits w' pg = fits w pg"
proof -
  show s: "page_slices w' pg = page_slices w pg"
    using same_arena_range(2) [OF pool_stepD(3) [OF assms]] by (simp add: page_slices_def)
  show "foot w' p pg = foot w p pg" "fits w' pg = fits w pg" by (simp_all add: foot_def fits_def s)
qed

text \<open>A metadata block in use stays apart from the descriptors of the arenas.\<close>

lemma header_apart_step:
  assumes "pool_step env U w w'" "holds (wd_meta w) 3 p" "\<forall>ar\<in>set (wd_arena_list w). block_bytes ar 3 \<inter> block_bytes p 3 = {}"
    and "block_bytes p 3 \<subseteq> U"
  shows "holds (wd_meta w') 3 p" "\<forall>ar\<in>set (wd_arena_list w'). block_bytes ar 3 \<inter> block_bytes p 3 = {}"
proof -
  obtain xs where xs: "wd_arena_list w' = wd_arena_list w @ xs" "\<forall>ar\<in>set xs. ar_abandoned (wd_arenas w' ar) = None \<and> spares U (wd_meta w) ar"
    using assms(1) unfolding pool_step_def by blast
  have "block_bytes ar 3 \<inter> block_bytes p 3 = {}" if "ar \<in> set xs" for ar
    using xs(2) that assms(2,4) unfolding spares_def by blast
  then show "\<forall>ar\<in>set (wd_arena_list w'). block_bytes ar 3 \<inter> block_bytes p 3 = {}" using assms(3) xs(1) by auto
  show "holds (wd_meta w') 3 p" by (rule pool_stepD(7) [OF assms(1,2,4)])
qed

lemma header_step:
  assumes "pool_step env U w w'" "homed env w p pg" "foot w p pg \<subseteq> U"
  shows "header_ok w' p pg"
proof (cases "is_huge pg")
  case True
  have h: "holds (wd_meta w) 3 p" "\<forall>ar\<in>set (wd_arena_list w). block_bytes ar 3 \<inter> block_bytes p 3 = {}" "block_bytes p 3 \<subseteq> U"
    using assms(2,3) True by (auto simp: homed_def header_ok_def foot_def)
  then show ?thesis using True header_apart_step [OF assms(1) h] by (simp add: header_ok_def)
next
  case False
  have "pg_arena pg \<in> set (wd_arena_list w)" using assms(2) by (simp add: homed_def)
  then show ?thesis
    using assms(2) False same_arena_range(4) [OF pool_stepD(3) [OF assms(1)]] by (simp add: homed_def header_ok_def)
qed

lemma homed_step:
  assumes "pool_step env U w w'" "homed env w p pg" "foot w p pg \<subseteq> U"
  shows "homed env w' p pg"
proof -
  have ar: "pg_arena pg \<in> set (wd_arena_list w)" using assms(2) by (simp add: homed_def)
  have sub: "page_slices w pg \<subseteq> U" using assms(3) by (simp add: foot_def)
  have u: "page_slices w pg \<subseteq> used w'" using assms(2) sub pool_stepD(4) [OF assms(1)] unfolding homed_def by blast
  have acc: "page_slices w pg \<subseteq> accessible (wd_log w')" if "\<not> sy_hard (en_sys env)"
    using assms(2) sub pool_stepD(5) [OF assms(1)] that unfolding homed_def by blast
  show ?thesis
    unfolding homed_def page_slices_step(1) [OF assms(1) ar]
    using assms(2) u acc header_step [OF assms] ar pool_stepD(2) [OF assms(1)]
      same_arena_range(1) [OF pool_stepD(3) [OF assms(1) ar]] unfolding homed_def by auto
qed

lemma homed_extent:
  assumes "pool_ok env w" "homed env w p pg"
  shows "page_slices w pg \<subseteq> extent (wd_arenas w (pg_arena pg))" "page_slices w pg \<inter> regions (wd_meta w) = {}"
    "is_huge pg \<Longrightarrow> block_bytes p 3 \<subseteq> regions (wd_meta w)" "unat p \<in> foot w p pg" "p \<noteq> 0"
proof -
  let ?a = "wd_arenas w (pg_arena pg)"
  have ar: "pg_arena pg \<in> set (wd_arena_list w)" and iu: "in_unit ?a (unat (pg_slice_index pg)) (unat (pg_slice_count pg))"
    and h: "header_ok w p pg"
    using assms(2) by (simp_all add: homed_def)
  note a = pool_arena [OF assms(1) ar]
  show e: "page_slices w pg \<subseteq> extent ?a" using unit_extent [OF iu] by (simp add: page_slices_def)
  show "page_slices w pg \<inter> regions (wd_meta w) = {}" using e a(3) by blast
  show r: "block_bytes p 3 \<subseteq> regions (wd_meta w)" if "is_huge pg"
    using h that by (simp add: header_ok_def holds_regions)
  have i: "0 < unat (pg_slice_count pg)" "unat (pg_slice_index pg) \<le> ar_slice_count ?a" using iu by (auto simp: in_unit_def)
  have b: "unat (slice_ptr ?a (unat (pg_slice_index pg))) = unat (ar_start ?a) + 65536 * unat (pg_slice_index pg)"
    by (rule slice_ptr_unat [OF a(1) i(2)])
  have "unat p \<in> foot w p pg \<and> p \<noteq> 0"
  proof (cases "is_huge pg")
    case True
    then show ?thesis
      using h holds_nonzero [OF pool_okD(1) [OF assms(1)]] by (auto simp: foot_def header_ok_def block_bytes_def)
  next
    case False
    then have p: "unat p = unat (ar_start ?a) + 65536 * unat (pg_slice_index pg)" using h b by (simp add: header_ok_def)
    have "0 < unat (ar_start ?a)" using arena_okD(7) [OF a(1)] by (simp add: unat_gt_0)
    then have "p \<noteq> 0" using p by auto
    then show ?thesis using p i(1) by (simp add: foot_def page_slices_def slice_bytes_def)
  qed
  then show "unat p \<in> foot w p pg" "p \<noteq> 0" by simp_all
qed

text \<open>The slots of the page map that the slices of a page cover.\<close>

lemma unat_slice_index: "unat (pm_slice_index q) = unat q div 65536"
  by (simp add: pm_slice_index_def mi_consts unat_drop_bit_eq drop_bit_eq_div unat_div)

lemma slices_window:
  assumes "arena_ok a" "in_unit a i n"
  shows "pm_slice_index q \<in> window (pm_slice_index (slice_ptr a i)) n \<longleftrightarrow> unat q \<in> slice_bytes a i n"
proof -
  obtain k where k: "unat (ar_start a) = 65536 * k" using arena_okD(8) [OF assms(1)] by (auto elim: dvdE)
  have "unat (slice_ptr a i) = 65536 * (k + i)"
    using slice_ptr_unat [OF assms(1), of i] assms(2) k by (simp add: in_unit_def algebra_simps)
  then have "unat (pm_slice_index (slice_ptr a i)) = k + i" by (simp add: unat_slice_index)
  then show ?thesis by (auto simp: window_def slice_bytes_def k unat_slice_index)
qed


section \<open>The invariant\<close>

text \<open>
  What a state represents: the queues by thread heap and bin, and for every page its block size and
  its live blocks; last, the live blocks that may have been handed out by an interior pointer.
\<close>

record ghost =
  gh_queue :: "ptr \<Rightarrow> nat \<Rightarrow> ptr list"
  gh_size :: "ptr \<Rightarrow> nat"
  gh_live :: "ptr \<Rightarrow> ptr set"
  gh_inner :: "ptr set"

definition pages_of :: "ghost \<Rightarrow> ptr set" where
  "pages_of g = (\<Union>th b. set (gh_queue g th b))"

text \<open>The blocks in use: address, size, whether an interior pointer to it may be about.\<close>

definition blocks_of :: "ghost \<Rightarrow> (ptr \<times> nat \<times> bool) set" where
  "blocks_of g = {(b, gh_size g p, b \<in> gh_inner g) | p b. p \<in> pages_of g \<and> b \<in> gh_live g p}"

text \<open>In hardened builds the keys must not encode a block address as the null word.\<close>

definition keys_ok :: "bool \<Rightarrow> keys \<Rightarrow> bool" where
  "keys_ok enc ks \<longleftrightarrow> (\<forall>b. 8 dvd unat b \<longrightarrow> unat b < 2 ^ 63 \<longrightarrow> linkable enc ks b)"

definition flagged :: "page \<Rightarrow> bool" where
  "flagged pg \<longleftrightarrow> pg_xthread_id pg AND MI_PAGE_FLAG_MASK \<noteq> 0"

definition page_good :: "env \<Rightarrow> hworld \<Rightarrow> ptr \<Rightarrow> nat \<Rightarrow> ptr \<Rightarrow> nat \<Rightarrow> ptr set \<Rightarrow> bool" where
  "page_good env w th b p sz L \<longleftrightarrow> page_live (en_enc env) (wd_pages w p) (wd_links w) L \<and> is_owned (wd_pages w p)
    \<and> owner_tid (wd_pages w p) = th_tid (wd_theaps w th) \<and> pg_theap (wd_pages w p) = th \<and> unat (pg_bin (wd_pages w p)) = b
    \<and> unat (pg_block_size (wd_pages w p)) = sz \<and> (b < MI_BIN_HUGE \<longrightarrow> pg_block_size (wd_pages w p) = bin_block_size b)
    \<and> homed env w p (wd_pages w p) \<and> fits w (wd_pages w p)
    \<and> (\<forall>a. lookup a (wd_pm w) = p \<longleftrightarrow> unat a \<in> page_slices w (wd_pages w p))"

definition direct_ok :: "ghost \<Rightarrow> ptr \<Rightarrow> (nat \<Rightarrow> ptr) \<Rightarrow> bool" where
  "direct_ok g th d \<longleftrightarrow> (\<forall>i. d i \<noteq> 0 \<longrightarrow> (\<exists>b. d i \<in> set (gh_queue g th b)) \<and> 8 * i \<le> gh_size g (d i))"

definition theap_good :: "env \<Rightarrow> ghost \<Rightarrow> hworld \<Rightarrow> ptr \<Rightarrow> bool" where
  "theap_good env g w th \<longleftrightarrow> keys_ok (en_enc env) (th_keys (wd_theaps w th)) \<and> tid_ok (th_tid (wd_theaps w th))
    \<and> (\<forall>b. queue_is (th_pages (wd_theaps w th) b, wd_pages w) (gh_queue g th b))
    \<and> direct_ok g th (th_direct (wd_theaps w th))"

definition inner_ok :: "ghost \<Rightarrow> pages \<Rightarrow> bool" where
  "inner_ok g ps \<longleftrightarrow> gh_inner g \<subseteq> (\<Union>p\<in>pages_of g. gh_live g p)
    \<and> (\<forall>p\<in>pages_of g. gh_live g p \<inter> gh_inner g \<noteq> {} \<longrightarrow> flagged (ps p))"

definition feet_apart :: "ghost \<Rightarrow> hworld \<Rightarrow> bool" where
  "feet_apart g w \<longleftrightarrow> (\<forall>p\<in>pages_of g. \<forall>q\<in>pages_of g. p \<noteq> q \<longrightarrow> foot w p (wd_pages w p) \<inter> foot w q (wd_pages w q) = {})"

definition no_abandoned :: "('z world_scheme) \<Rightarrow> bool" where
  "no_abandoned w \<longleftrightarrow> (\<forall>ar\<in>set (wd_arena_list w). ar_abandoned (wd_arenas w ar) = None)"

definition heap_inv :: "env \<Rightarrow> ptr set \<Rightarrow> ghost \<Rightarrow> hworld \<Rightarrow> bool" where
  "heap_inv env T g w \<longleftrightarrow> pool_ok env w \<and> no_abandoned w \<and> pm_inv (wd_pm w)
    \<and> (\<forall>th\<in>T. theap_good env g w th)
    \<and> (\<forall>th b p. p \<in> set (gh_queue g th b) \<longrightarrow> th \<in> T \<and> b \<le> MI_BIN_HUGE \<and> page_good env w th b p (gh_size g p) (gh_live g p))
    \<and> feet_apart g w \<and> (\<forall>a. lookup a (wd_pm w) \<noteq> 0 \<longrightarrow> lookup a (wd_pm w) \<in> pages_of g) \<and> inner_ok g (wd_pages w)"

lemma heap_invD:
  assumes "heap_inv env T g w"
  shows "pool_ok env w" "no_abandoned w" "pm_inv (wd_pm w)" "th \<in> T \<Longrightarrow> theap_good env g w th"
    "p \<in> set (gh_queue g th b) \<Longrightarrow> th \<in> T" "p \<in> set (gh_queue g th b) \<Longrightarrow> b \<le> MI_BIN_HUGE"
    "p \<in> set (gh_queue g th b) \<Longrightarrow> page_good env w th b p (gh_size g p) (gh_live g p)"
    "feet_apart g w" "lookup a (wd_pm w) \<noteq> 0 \<Longrightarrow> lookup a (wd_pm w) \<in> pages_of g" "inner_ok g (wd_pages w)"
  using assms by (simp_all add: heap_inv_def)

lemma page_goodD:
  assumes "page_good env w th b p sz L"
  shows "page_live (en_enc env) (wd_pages w p) (wd_links w) L" "is_owned (wd_pages w p)"
    "owner_tid (wd_pages w p) = th_tid (wd_theaps w th)" "pg_theap (wd_pages w p) = th" "unat (pg_bin (wd_pages w p)) = b"
    "unat (pg_block_size (wd_pages w p)) = sz" "b < MI_BIN_HUGE \<Longrightarrow> pg_block_size (wd_pages w p) = bin_block_size b"
    "homed env w p (wd_pages w p)" "fits w (wd_pages w p)"
    "lookup a (wd_pm w) = p \<longleftrightarrow> unat a \<in> page_slices w (wd_pages w p)"
  using assms by (simp_all add: page_good_def)

lemma theap_goodD:
  assumes "theap_good env g w th"
  shows "keys_ok (en_enc env) (th_keys (wd_theaps w th))" "tid_ok (th_tid (wd_theaps w th))"
    "queue_is (th_pages (wd_theaps w th) b, wd_pages w) (gh_queue g th b)" "direct_ok g th (th_direct (wd_theaps w th))"
  using assms by (simp_all add: theap_good_def)

lemma pages_ofE:
  assumes "p \<in> pages_of g"
  obtains th b where "p \<in> set (gh_queue g th b)"
  using assms unfolding pages_of_def by blast

lemma pages_ofI: "p \<in> set (gh_queue g th b) \<Longrightarrow> p \<in> pages_of g"
  unfolding pages_of_def by blast

text \<open>A page is in one queue.\<close>

lemma queue_unique:
  assumes "heap_inv env T g w" "p \<in> set (gh_queue g th b)" "p \<in> set (gh_queue g th' b')"
  shows "th' = th" "b' = b"
  using page_goodD(4,5) [OF heap_invD(7) [OF assms(1,2)]] page_goodD(4,5) [OF heap_invD(7) [OF assms(1,3)]] by simp_all

lemma page_nonzero: "heap_inv env T g w \<Longrightarrow> p \<in> pages_of g \<Longrightarrow> p \<noteq> 0"
  using homed_extent(5) [OF heap_invD(1) page_goodD(8) [OF heap_invD(7)]] by (blast elim: pages_ofE)

section \<open>Frames\<close>

text \<open>What the invariant reads of a header, its queue links aside.\<close>

definition body :: "page \<Rightarrow> page \<Rightarrow> bool" where
  "body pg pg' \<longleftrightarrow> core pg' = core pg \<and> shape pg' = shape pg \<and> pg_xthread_id pg' = pg_xthread_id pg"

lemma body_refl [simp]: "body pg pg"
  by (simp add: body_def)

lemma body_owned: "body pg pg' \<Longrightarrow> is_owned pg' = is_owned pg"
  by (simp add: body_def core_def is_owned_def)

lemma page_good_frame:
  assumes "page_good env w th b p sz L"
    and "page_live (en_enc env) (wd_pages w' p) (wd_links w') L'" "shape (wd_pages w' p) = shape (wd_pages w p)"
    and "is_owned (wd_pages w' p)" "owner_tid (wd_pages w' p) = owner_tid (wd_pages w p)"
    and "th_tid (wd_theaps w' th) = th_tid (wd_theaps w th)" "homed env w' p (wd_pages w p)"
    and "page_slices w' (wd_pages w p) = page_slices w (wd_pages w p)"
    and "\<And>a. lookup a (wd_pm w') = p \<longleftrightarrow> lookup a (wd_pm w) = p"
  shows "page_good env w' th b p sz L'"
  using assms by (simp add: page_good_def fits_def place_shape [OF assms(3)] shapeD [OF assms(3)])

lemma queue_cong:
  assumes "\<And>x. x \<in> set xs \<Longrightarrow> pg_next (ps' x) = pg_next (ps x) \<and> pg_prev (ps' x) = pg_prev (ps x)"
  shows "queue_is (q, ps') xs = queue_is (q, ps) xs"
proof -
  have "dll ps' 0 xs 0 = dll ps 0 xs 0" using assms by (intro dll_cong) simp
  then show ?thesis by (simp add: queue_is_def)
qed

lemma links_more:
  assumes "world.more w' = world.more w"
  shows "wd_links w' = wd_links w \<and> wd_pm w' = wd_pm w \<and> wd_theaps w' = wd_theaps w \<and> wd_tid w' = wd_tid w"
  using assms by (cases w; cases w'; simp)

text \<open>The same pool.\<close>

definition same_pool :: "hworld \<Rightarrow> hworld \<Rightarrow> bool" where
  "same_pool w w' \<longleftrightarrow> wd_arenas w' = wd_arenas w \<and> wd_arena_list w' = wd_arena_list w \<and> wd_meta w' = wd_meta w \<and> wd_log w' = wd_log w"

lemma same_poolD:
  assumes "same_pool w w'"
  shows "pool_ok env w' = pool_ok env w" "used w' = used w" "page_slices w' pg = page_slices w pg" "foot w' p pg = foot w p pg"
    "homed env w' p pg = homed env w p pg" "no_abandoned w' = no_abandoned w"
  using assms
  by (simp_all add: same_pool_def pool_ok_def apart_def used_def page_slices_def foot_def homed_def header_ok_def no_abandoned_def)

definition same_place :: "page \<Rightarrow> page \<Rightarrow> bool" where
  "same_place pg pg' \<longleftrightarrow> shape pg' = shape pg \<and> is_owned pg' = is_owned pg \<and> owner_tid pg' = owner_tid pg
    \<and> pg_next pg' = pg_next pg \<and> pg_prev pg' = pg_prev pg"

lemma same_place_refl [simp]: "same_place pg pg"
  by (simp add: same_place_def)

lemma header_place: "same_header pg pg' \<Longrightarrow> same_place pg pg'"
  by (simp add: same_header_def same_place_def owner_tid_def)

definition same_theap :: "theap \<Rightarrow> theap \<Rightarrow> bool" where
  "same_theap t t' \<longleftrightarrow> th_keys t' = th_keys t \<and> th_tid t' = th_tid t \<and> th_pages t' = th_pages t"

lemma same_theap_refl [simp]: "same_theap t t"
  by (simp add: same_theap_def)

text \<open>A change that moves no page.\<close>

lemma heap_inv_change:
  assumes inv: "heap_inv env T g w" and pool: "same_pool w w'" and pm: "wd_pm w' = wd_pm w"
    and place: "\<And>q. q \<in> pages_of g \<Longrightarrow> same_place (wd_pages w q) (wd_pages w' q)"
    and live: "\<And>q. q \<in> pages_of g \<Longrightarrow> page_live (en_enc env) (wd_pages w' q) (wd_links w') (gh_live g' q)"
    and theaps: "\<And>th. th \<in> T \<Longrightarrow> same_theap (wd_theaps w th) (wd_theaps w' th)"
    and direct: "\<And>th. th \<in> T \<Longrightarrow> direct_ok g' th (th_direct (wd_theaps w' th))"
    and ghost: "gh_queue g' = gh_queue g" "gh_size g' = gh_size g" and inner: "inner_ok g' (wd_pages w')"
  shows "heap_inv env T g' w'"
proof -
  have pages: "pages_of g' = pages_of g" by (simp add: pages_of_def ghost)
  have good: "theap_good env g' w' th" if th: "th \<in> T" for th
  proof -
    have "queue_is (q, wd_pages w') (gh_queue g th b) = queue_is (q, wd_pages w) (gh_queue g th b)" for q b
      using place by (intro queue_cong) (auto simp: same_place_def dest: pages_ofI)
    then show ?thesis
      using heap_invD(4) [OF inv th] theaps [OF th] direct [OF th] by (simp add: theap_good_def same_theap_def ghost)
  qed
  have page: "page_good env w' th b p (gh_size g p) (gh_live g' p)" if p: "p \<in> set (gh_queue g th b)" for th b p
  proof -
    note pg = heap_invD(7) [OF inv p] and q = pages_ofI [OF p]
    have "th_tid (wd_theaps w' th) = th_tid (wd_theaps w th)"
      using theaps [OF heap_invD(5) [OF inv p]] by (simp add: same_theap_def)
    moreover have "homed env w' p (wd_pages w p)" using page_goodD(8) [OF pg] by (simp add: same_poolD [OF pool])
    moreover have "is_owned (wd_pages w' p)" using place [OF q] page_goodD(2) [OF pg] by (simp add: same_place_def)
    ultimately show ?thesis
      using page_good_frame [OF pg live [OF q]] place [OF q] by (simp add: same_place_def same_poolD [OF pool] pm)
  qed
  have feet: "feet_apart g' w'"
  proof -
    have "foot w' q (wd_pages w' q) = foot w q (wd_pages w q)" if "q \<in> pages_of g" for q
    proof -
      have "shape (wd_pages w' q) = shape (wd_pages w q)" using place [OF that] by (simp add: same_place_def)
      from place_shape(2) [OF this] show ?thesis by (simp add: same_poolD [OF pool])
    qed
    then show ?thesis using heap_invD(8) [OF inv] by (simp add: feet_apart_def pages)
  qed
  show ?thesis
    using heap_invD [OF inv] good page feet inner by (simp add: heap_inv_def same_poolD [OF pool] pm ghost pages)
qed

lemma block_place:
  assumes "heap_inv env T g w" "p \<in> pages_of g" "c \<in> all_blocks (wd_pages w p)"
  shows "unat c \<in> block_span (wd_pages w p) c" "block_span (wd_pages w p) c \<subseteq> page_slices w (wd_pages w p)"
    "lookup c (wd_pm w) = p" "8 dvd unat c"
proof -
  obtain th b where q: "p \<in> set (gh_queue g th b)" using assms(2) by (rule pages_ofE)
  note pg = heap_invD(7) [OF assms(1) q]
  have geo: "page_geometry (en_enc env) (wd_pages w p)" by (rule live_geometry [OF page_goodD(1) [OF pg]])
  then show s: "unat c \<in> block_span (wd_pages w p) c" by (simp add: page_geometry_def block_span_def)
  show f: "block_span (wd_pages w p) c \<subseteq> page_slices w (wd_pages w p)"
    using page_goodD(9) [OF pg] assms(3) by (simp add: fits_def)
  show "lookup c (wd_pm w) = p" using page_goodD(10) [OF pg] s f by blast
  obtain i where "unat c = unat (pg_page_start (wd_pages w p)) + i * unat (pg_block_size (wd_pages w p))"
    using live_block [OF page_goodD(1) [OF pg] assms(3)] by blast
  then show "8 dvd unat c" using geo by (simp add: page_geometry_def)
qed

lemma page_lives: "heap_inv env T g w \<Longrightarrow> p \<in> pages_of g \<Longrightarrow> page_live (en_enc env) (wd_pages w p) (wd_links w) (gh_live g p)"
  using page_goodD(1) [OF heap_invD(7)] by (blast elim: pages_ofE)

lemma live_place:
  assumes "heap_inv env T g w" "p \<in> pages_of g" "c \<in> gh_live g p"
  shows "c \<in> all_blocks (wd_pages w p)" "unat c \<in> page_slices w (wd_pages w p)"
proof -
  show c: "c \<in> all_blocks (wd_pages w p)" using live_in [OF page_lives [OF assms(1,2)]] assms(3) by blast
  show "unat c \<in> page_slices w (wd_pages w p)" using block_place(1,2) [OF assms(1,2) c] by blast
qed

lemma blocks_apart:
  assumes "heap_inv env T g w" "p \<in> pages_of g" "q \<in> pages_of g" "c \<in> all_blocks (wd_pages w p)" "c \<in> all_blocks (wd_pages w q)"
  shows "p = q"
  using block_place(3) [OF assms(1,2,4)] block_place(3) [OF assms(1,3,5)] by simp

text \<open>Two blocks of a page do not overlap.\<close>

lemma span_block:
  assumes "page_live enc pg m L" "c \<in> all_blocks pg" "b \<in> all_blocks pg" "unat c \<in> block_span pg b"
  shows "c = b"
proof -
  obtain i where i: "i < unat (pg_reserved pg)" "c = block_at pg i" "unat c = unat (pg_page_start pg) + i * unat (pg_block_size pg)"
    using live_block [OF assms(1,2)] by blast
  obtain j where j: "j < unat (pg_reserved pg)" "b = block_at pg j" "unat b = unat (pg_page_start pg) + j * unat (pg_block_size pg)"
    using live_block [OF assms(1,3)] by blast
  let ?s = "unat (pg_block_size pg)"
  have "j * ?s \<le> i * ?s" "i * ?s < j * ?s + ?s" using assms(4) i(3) j(3) by (simp_all add: block_span_def)
  then have "j * ?s \<le> i * ?s" "i * ?s < Suc j * ?s" by simp_all
  then have "j \<le> i" "i < Suc j" by (metis mult_le_cancel2 nat_less_le not_le mult_less_cancel2)+
  then have "i = j" by simp
  then show ?thesis using i(2) j(2) by simp
qed

lemma spans_disjoint:
  assumes "page_live enc pg m L" "b \<in> all_blocks pg" "c \<in> all_blocks pg" "b \<noteq> c"
  shows "block_span pg b \<inter> block_span pg c = {}"
proof (rule ccontr)
  assume "block_span pg b \<inter> block_span pg c \<noteq> {}"
  then have "unat b \<in> block_span pg c \<or> unat c \<in> block_span pg b" by (auto simp: block_span_def)
  then show False using span_block [OF assms(1)] assms(2-4) by blast
qed

text \<open>An operation on the lists of one page.\<close>

lemma page_op:
  assumes inv: "heap_inv env T g w" and p: "p \<in> pages_of g"
    and st: "page_step (en_enc env) (wd_pages w p, wd_links w) (pg', m') (gh_live g p) L'"
    and I: "I' \<subseteq> gh_inner g" "L' \<inter> I' \<subseteq> gh_live g p" "gh_live g p \<inter> I' \<subseteq> L'"
    and w': "w' = w\<lparr>wd_pages := (wd_pages w)(p := pg'), wd_links := m'\<rparr>"
    and g': "g' = g\<lparr>gh_live := (gh_live g)(p := L'), gh_inner := I'\<rparr>"
  shows "heap_inv env T g' w'"
proof (rule heap_inv_change [OF inv])
  note h = page_stepD(2) [OF st]
  have pages: "pages_of g' = pages_of g" by (simp add: g' pages_of_def)
  show "same_pool w w'" "wd_pm w' = wd_pm w" "gh_queue g' = gh_queue g" "gh_size g' = gh_size g"
    by (simp_all add: w' g' same_pool_def)
  show "same_place (wd_pages w q) (wd_pages w' q)" for q using header_place [OF h] by (simp add: w')
  show "same_theap (wd_theaps w th) (wd_theaps w' th)" for th by (simp add: w')
  show "direct_ok g' th (th_direct (wd_theaps w' th))" if "th \<in> T" for th
    using theap_goodD(4) [OF heap_invD(4) [OF inv that]] by (simp add: w' g' direct_ok_def)
  show "page_live (en_enc env) (wd_pages w' q) (wd_links w') (gh_live g' q)" if q: "q \<in> pages_of g" for q
  proof (cases "q = p")
    case True
    then show ?thesis using page_stepD(1) [OF st] by (simp add: w' g')
  next
    case False
    obtain th b where "q \<in> set (gh_queue g th b)" using q by (rule pages_ofE)
    note l = page_goodD(1) [OF heap_invD(7) [OF inv this]]
    have "m' c = wd_links w c" if "c \<in> all_blocks (wd_pages w q)" for c
      using page_stepD(3) [OF st] blocks_apart [OF inv p q _ that] False by blast
    then show ?thesis using live_frame [OF l] False by (simp add: w' g')
  qed
  have i: "gh_inner g \<subseteq> (\<Union>p\<in>pages_of g. gh_live g p)" "\<And>q. q \<in> pages_of g \<Longrightarrow> gh_live g q \<inter> gh_inner g \<noteq> {} \<Longrightarrow> flagged (wd_pages w q)"
    using heap_invD(10) [OF inv] by (simp_all add: inner_ok_def)
  have "pg_xthread_id pg' = pg_xthread_id (wd_pages w p)" using h by (simp add: same_header_def)
  then have fl: "flagged (wd_pages w' q) = flagged (wd_pages w q)" for q by (simp add: w' flagged_def)
  have "\<exists>q\<in>pages_of g. x \<in> gh_live g' q" if x: "x \<in> I'" for x
  proof -
    obtain q where q: "q \<in> pages_of g" "x \<in> gh_live g q" using x I(1) i(1) by blast
    then have "x \<in> gh_live g' q" using I(3) x by (auto simp: g')
    with q(1) show ?thesis ..
  qed
  moreover have "flagged (wd_pages w q)" if "q \<in> pages_of g" "gh_live g' q \<inter> I' \<noteq> {}" for q
    using i(2) [OF that(1)] that(2) I(1,2) by (cases "q = p") (auto simp: g')
  moreover have "gh_inner g' = I'" by (simp add: g')
  ultimately show "inner_ok g' (wd_pages w')" by (auto simp: inner_ok_def pages fl)
qed

text \<open>Changes that touch neither a list nor the place of a page.\<close>

lemma heap_inv_tweak:
  assumes inv: "heap_inv env T g w" and pool: "same_pool w w'" and pm: "wd_pm w' = wd_pm w" "wd_links w' = wd_links w"
    and pages: "\<And>q. q \<in> pages_of g \<Longrightarrow> core (wd_pages w' q) = core (wd_pages w q) \<and> same_place (wd_pages w q) (wd_pages w' q)
      \<and> (flagged (wd_pages w q) \<longrightarrow> flagged (wd_pages w' q))"
    and theaps: "\<And>th. th \<in> T \<Longrightarrow> same_theap (wd_theaps w th) (wd_theaps w' th)"
    and direct: "\<And>th. th \<in> T \<Longrightarrow> direct_ok g th (th_direct (wd_theaps w' th))"
  shows "heap_inv env T g w'"
proof (rule heap_inv_change [OF inv pool pm(1)])
  show "same_place (wd_pages w q) (wd_pages w' q)" if "q \<in> pages_of g" for q using pages [OF that] by simp
  show "page_live (en_enc env) (wd_pages w' q) (wd_links w') (gh_live g q)" if q: "q \<in> pages_of g" for q
  proof -
    obtain th b where "q \<in> set (gh_queue g th b)" using q by (rule pages_ofE)
    then show ?thesis using page_goodD(1) [OF heap_invD(7) [OF inv]] core_live pages [OF q] pm(2) by metis
  qed
  show "inner_ok g (wd_pages w')" using heap_invD(10) [OF inv] pages by (simp add: inner_ok_def)
qed (use theaps direct in simp_all)

text \<open>The program may write anything into its blocks.\<close>

lemma heap_inv_write:
  assumes inv: "heap_inv env T g w"
    and m: "\<And>c. m c \<noteq> wd_links w c \<Longrightarrow> \<exists>p\<in>pages_of g. \<exists>b\<in>gh_live g p. unat c \<in> block_span (wd_pages w p) b"
  shows "heap_inv env T g (w\<lparr>wd_links := m\<rparr>)"
proof (rule heap_inv_change [OF inv])
  let ?w = "w\<lparr>wd_links := m\<rparr>"
  show "page_live (en_enc env) (wd_pages ?w q) (wd_links ?w) (gh_live g q)" if q: "q \<in> pages_of g" for q
  proof -
    have "m c = wd_links w c" if c: "c \<in> all_blocks (wd_pages w q)" "c \<notin> gh_live g q" for c
    proof (rule ccontr)
      assume "m c \<noteq> wd_links w c"
      then obtain p b where pb: "p \<in> pages_of g" "b \<in> gh_live g p" "unat c \<in> block_span (wd_pages w p) b" using m by blast
      note b = live_place(1) [OF inv pb(1,2)]
      have "unat c \<in> page_slices w (wd_pages w p)" using block_place(2) [OF inv pb(1) b] pb(3) by blast
      moreover obtain th bn where "p \<in> set (gh_queue g th bn)" using pb(1) by (rule pages_ofE)
      ultimately have "lookup c (wd_pm w) = p" using page_goodD(10) [OF heap_invD(7) [OF inv]] by blast
      then have e: "p = q" using block_place(3) [OF inv q c(1)] by simp
      have "c = b" by (rule span_block [OF page_lives [OF inv q] c(1) b [unfolded e] pb(3) [unfolded e]])
      then show False using pb(2) c(2) e by blast
    qed
    then show ?thesis using live_frame [OF page_lives [OF inv q]] by simp
  qed
  show "direct_ok g th (th_direct (wd_theaps ?w th))" if "th \<in> T" for th
    using theap_goodD(4) [OF heap_invD(4) [OF inv that]] by simp
qed (use heap_invD(10) [OF inv] in \<open>simp_all add: same_pool_def\<close>)

text \<open>A step of the pool that leaves the pages alone.\<close>

lemma heap_inv_pool:
  assumes inv: "heap_inv env T g w" and st: "pool_step env U w w'"
    and feet: "\<And>p. p \<in> pages_of g \<Longrightarrow> foot w p (wd_pages w p) \<subseteq> U"
  shows "heap_inv env T g w'"
proof -
  have same: "wd_links w' = wd_links w" "wd_pm w' = wd_pm w" "wd_theaps w' = wd_theaps w" "wd_pages w' = wd_pages w"
    using links_more [OF pool_stepD(9) [OF st]] pool_stepD(8) [OF st] by simp_all
  have page: "page_good env w' th b p (gh_size g p) (gh_live g p)" "foot w' p (wd_pages w p) = foot w p (wd_pages w p)"
    if p: "p \<in> set (gh_queue g th b)" for th b p
  proof -
    note pg = heap_invD(7) [OF inv p] and f = feet [OF pages_ofI [OF p]]
    have ar: "pg_arena (wd_pages w p) \<in> set (wd_arena_list w)" using page_goodD(8) [OF pg] by (simp add: homed_def)
    note sl = page_slices_step [OF st ar]
    show "page_good env w' th b p (gh_size g p) (gh_live g p)"
      using page_good_frame [OF pg, of w' "gh_live g p"] page_goodD [OF pg] homed_step [OF st page_goodD(8) [OF pg] f] sl
      by (simp add: same)
    show "foot w' p (wd_pages w p) = foot w p (wd_pages w p)" by (rule sl)
  qed
  have "feet_apart g w'"
    using heap_invD(8) [OF inv] page(2) unfolding feet_apart_def same by (metis pages_ofE)
  moreover have "no_abandoned w'"
  proof -
    obtain xs where xs: "wd_arena_list w' = wd_arena_list w @ xs" "\<forall>ar\<in>set xs. ar_abandoned (wd_arenas w' ar) = None \<and> spares U (wd_meta w) ar"
      using st unfolding pool_step_def by blast
    have "ar_abandoned (wd_arenas w' ar) = None" if "ar \<in> set (wd_arena_list w)" for ar
      using heap_invD(2) [OF inv] that same_arena_fields(5) [OF pool_stepD(3) [OF st that]] by (simp add: no_abandoned_def)
    then show ?thesis using xs by (auto simp: no_abandoned_def)
  qed
  moreover have "theap_good env g w' th" if "th \<in> T" for th
    using heap_invD(4) [OF inv that] by (simp add: theap_good_def same)
  ultimately show ?thesis
    using heap_invD [OF inv] page(1) pool_stepD(1) [OF st] by (simp add: heap_inv_def same)
qed

section \<open>Pages come and go\<close>

lemma page_good_keep:
  assumes "page_good env w th b q sz L" "same_pool w w'" "body (wd_pages w q) (wd_pages w' q)" "wd_links w' = wd_links w"
    and "th_tid (wd_theaps w' th) = th_tid (wd_theaps w th)" "\<And>a. lookup a (wd_pm w') = q \<longleftrightarrow> lookup a (wd_pm w) = q"
  shows "page_good env w' th b q sz L"
proof (rule page_good_frame [OF assms(1) _ _ _ _ assms(5) _ _ assms(6)])
  note d = page_goodD [OF assms(1)]
  have b: "core (wd_pages w' q) = core (wd_pages w q)" "shape (wd_pages w' q) = shape (wd_pages w q)"
      "pg_xthread_id (wd_pages w' q) = pg_xthread_id (wd_pages w q)"
    using assms(3) by (simp_all add: body_def)
  show "page_live (en_enc env) (wd_pages w' q) (wd_links w') L" using d(1) by (simp add: core_live [OF b(1)] assms(4))
  show "shape (wd_pages w' q) = shape (wd_pages w q)" by (rule b(2))
  show "is_owned (wd_pages w' q)" using d(2) body_owned [OF assms(3)] by simp
  show "owner_tid (wd_pages w' q) = owner_tid (wd_pages w q)" using b(3) by (simp add: owner_tid_def)
  show "homed env w' q (wd_pages w q)" using d(8) by (simp add: same_poolD [OF assms(2)])
  show "page_slices w' (wd_pages w q) = page_slices w (wd_pages w q)" by (rule same_poolD(3) [OF assms(2)])
qed

text \<open>The queue \<open>b\<close> of the thread heap \<open>th\<close> changes, and the links of the pages in it.\<close>

definition requeued :: "ghost \<Rightarrow> ptr \<Rightarrow> nat \<Rightarrow> ptr list \<Rightarrow> hworld \<Rightarrow> hworld \<Rightarrow> bool" where
  "requeued g th b xs w w' \<longleftrightarrow> wd_links w' = wd_links w
    \<and> (\<forall>q\<in>pages_of g. body (wd_pages w q) (wd_pages w' q)
        \<and> (q \<notin> set (gh_queue g th b) \<longrightarrow> pg_next (wd_pages w' q) = pg_next (wd_pages w q) \<and> pg_prev (wd_pages w' q) = pg_prev (wd_pages w q)))
    \<and> queue_is (th_pages (wd_theaps w' th) b, wd_pages w') xs
    \<and> (\<forall>t. th_keys (wd_theaps w' t) = th_keys (wd_theaps w t) \<and> th_tid (wd_theaps w' t) = th_tid (wd_theaps w t)
        \<and> (\<forall>c. t \<noteq> th \<or> c \<noteq> b \<longrightarrow> th_pages (wd_theaps w' t) c = th_pages (wd_theaps w t) c))"

lemma requeuedD:
  assumes "requeued g th b xs w w'"
  shows "wd_links w' = wd_links w" "q \<in> pages_of g \<Longrightarrow> body (wd_pages w q) (wd_pages w' q)"
    "q \<in> pages_of g \<Longrightarrow> q \<notin> set (gh_queue g th b) \<Longrightarrow> pg_next (wd_pages w' q) = pg_next (wd_pages w q) \<and> pg_prev (wd_pages w' q) = pg_prev (wd_pages w q)"
    "queue_is (th_pages (wd_theaps w' th) b, wd_pages w') xs"
    "th_keys (wd_theaps w' t) = th_keys (wd_theaps w t)" "th_tid (wd_theaps w' t) = th_tid (wd_theaps w t)"
    "t \<noteq> th \<or> c \<noteq> b \<Longrightarrow> th_pages (wd_theaps w' t) c = th_pages (wd_theaps w t) c"
  using assms unfolding requeued_def by blast+

lemma requeued_queue:
  assumes inv: "heap_inv env T g w" and re: "requeued g th b xs w w'" and t: "t \<in> T"
  shows "queue_is (th_pages (wd_theaps w' t) c, wd_pages w') (if t = th \<and> c = b then xs else gh_queue g t c)"
proof (cases "t = th \<and> c = b")
  case True
  then show ?thesis using requeuedD(4) [OF re] by simp
next
  case False
  have "queue_is (q, wd_pages w') (gh_queue g t c) = queue_is (q, wd_pages w) (gh_queue g t c)" for q
  proof (rule queue_cong)
    fix x assume x: "x \<in> set (gh_queue g t c)"
    have "x \<notin> set (gh_queue g th b)" using queue_unique [OF inv x] False by blast
    then show "pg_next (wd_pages w' x) = pg_next (wd_pages w x) \<and> pg_prev (wd_pages w' x) = pg_prev (wd_pages w x)"
      by (rule requeuedD(3) [OF re pages_ofI [OF x]])
  qed
  moreover have "th_pages (wd_theaps w' t) c = th_pages (wd_theaps w t) c" using False by (intro requeuedD(7) [OF re]) blast
  ultimately show ?thesis using theap_goodD(3) [OF heap_invD(4) [OF inv t]] by (simp add: False)
qed

definition with_page :: "ptr \<Rightarrow> nat \<Rightarrow> ptr \<Rightarrow> nat \<Rightarrow> ptr set \<Rightarrow> ghost \<Rightarrow> ghost" where
  "with_page th b p sz L g = g\<lparr>gh_queue := (gh_queue g)(th := (gh_queue g th)(b := p # gh_queue g th b)),
     gh_size := (gh_size g)(p := sz), gh_live := (gh_live g)(p := L)\<rparr>"

lemma pages_with: "pages_of (with_page th b p sz L g) = insert p (pages_of g)"
proof -
  have "gh_queue (with_page th b p sz L g) t c = (if t = th \<and> c = b then p # gh_queue g th b else gh_queue g t c)" for t c
    by (simp add: with_page_def)
  then have "q \<in> set (gh_queue (with_page th b p sz L g) t c) \<longleftrightarrow> q \<in> set (gh_queue g t c) \<or> t = th \<and> c = b \<and> q = p" for q t c
    by auto
  then have "q \<in> pages_of (with_page th b p sz L g) \<longleftrightarrow> q \<in> insert p (pages_of g)" for q
    by (simp add: pages_of_def) blast
  then show ?thesis by blast
qed

lemma add_page:
  assumes inv: "heap_inv env T g w" and th: "th \<in> T" and b: "b \<le> MI_BIN_HUGE" and pool: "same_pool w w'"
    and re: "requeued g th b (p # gh_queue g th b) w w'"
    and direct: "\<And>t. th_direct (wd_theaps w' t) = th_direct (wd_theaps w t)"
    and pm: "pm_inv (wd_pm w')" "\<And>a. lookup a (wd_pm w') = (if unat a \<in> page_slices w (wd_pages w' p) then p else lookup a (wd_pm w))"
    and page: "page_live (en_enc env) (wd_pages w' p) (wd_links w) L" "is_owned (wd_pages w' p)"
      "owner_tid (wd_pages w' p) = th_tid (wd_theaps w th)" "pg_theap (wd_pages w' p) = th" "unat (pg_bin (wd_pages w' p)) = b"
      "unat (pg_block_size (wd_pages w' p)) = sz" "b < MI_BIN_HUGE \<Longrightarrow> pg_block_size (wd_pages w' p) = bin_block_size b"
      "homed env w p (wd_pages w' p)" "fits w (wd_pages w' p)"
    and feet: "\<And>q. q \<in> pages_of g \<Longrightarrow> foot w q (wd_pages w q) \<inter> foot w p (wd_pages w' p) = {}"
  shows "heap_inv env T (with_page th b p sz L g) w'" "p \<notin> pages_of g"
proof -
  let ?g = "with_page th b p sz L g"
  note here = homed_extent(4,5) [OF heap_invD(1) [OF inv] page(8)]
  have foot_in: "unat q \<in> foot w q (wd_pages w q)" if "q \<in> pages_of g" for q
    using homed_extent(4) [OF heap_invD(1) [OF inv] page_goodD(8) [OF heap_invD(7) [OF inv]]] that by (blast elim: pages_ofE)
  show new: "p \<notin> pages_of g" using feet foot_in here(1) by blast
  have old: "q \<noteq> p" if "q \<in> pages_of g" for q using new that by blast
  have sl: "page_slices w (wd_pages w q) \<inter> page_slices w (wd_pages w' p) = {}" if "q \<in> pages_of g" for q
    using feet [OF that] unfolding foot_def by blast
  have queue: "gh_queue ?g t c = (if t = th \<and> c = b then p # gh_queue g th b else gh_queue g t c)" for t c
    by (simp add: with_page_def)
  have look: "lookup a (wd_pm w') = q \<longleftrightarrow> lookup a (wd_pm w) = q" if q: "q \<in> set (gh_queue g t c)" for a q t c
  proof -
    have "lookup a (wd_pm w) = q \<longleftrightarrow> unat a \<in> page_slices w (wd_pages w q)" by (rule page_goodD(10) [OF heap_invD(7) [OF inv q]])
    then show ?thesis using sl [OF pages_ofI [OF q]] old [OF pages_ofI [OF q]] by (auto simp: pm(2))
  qed
  have look_p: "lookup a (wd_pm w') = p \<longleftrightarrow> unat a \<in> page_slices w (wd_pages w' p)" for a
    using heap_invD(9) [OF inv, of a] new here(2) by (auto simp: pm(2))
  have tid: "th_tid (wd_theaps w' t) = th_tid (wd_theaps w t)" for t by (rule requeuedD(6) [OF re])
  have kept: "t \<in> T \<and> c \<le> MI_BIN_HUGE \<and> page_good env w' t c q (gh_size ?g q) (gh_live ?g q)" if q: "q \<in> set (gh_queue g t c)" for t c q
    using heap_invD(5,6) [OF inv q] page_good_keep [OF heap_invD(7) [OF inv q] pool requeuedD(2) [OF re pages_ofI [OF q]] requeuedD(1) [OF re] tid look [OF q]]
      old [OF pages_ofI [OF q]] by (simp add: with_page_def)
  have added: "page_good env w' th b p (gh_size ?g p) (gh_live ?g p)"
    using page look_p by (simp add: page_good_def with_page_def requeuedD(1) [OF re] tid same_poolD [OF pool] fits_def)
  have "theap_good env ?g w' t" if t: "t \<in> T" for t
  proof -
    note h = theap_goodD [OF heap_invD(4) [OF inv t]]
    have "direct_ok ?g t (th_direct (wd_theaps w t))"
      using h(4) old unfolding direct_ok_def queue with_page_def pages_of_def by fastforce
    then show ?thesis
      using h(1,2) requeued_queue [OF inv re t] by (simp add: theap_good_def requeuedD(5,6) [OF re] queue direct)
  qed
  moreover have "feet_apart ?g w'"
  proof -
    have "foot w' q (wd_pages w' q) = foot w q (wd_pages w q)" if "q \<in> pages_of g" for q
      using place_shape(2) [of "wd_pages w' q" "wd_pages w q"] requeuedD(2) [OF re that] by (simp add: body_def same_poolD [OF pool])
    moreover have "foot w' p (wd_pages w' p) = foot w p (wd_pages w' p)" by (simp add: same_poolD [OF pool])
    ultimately show ?thesis
      using heap_invD(8) [OF inv] feet unfolding feet_apart_def pages_with by (metis Int_commute insert_iff)
  qed
  moreover have "inner_ok ?g (wd_pages w')"
  proof -
    have i: "gh_inner g \<subseteq> (\<Union>q\<in>pages_of g. gh_live g q)" "\<forall>q\<in>pages_of g. gh_live g q \<inter> gh_inner g \<noteq> {} \<longrightarrow> flagged (wd_pages w q)"
      using heap_invD(10) [OF inv] by (simp_all add: inner_ok_def)
    have fl: "flagged (wd_pages w' q) = flagged (wd_pages w q)" if "q \<in> pages_of g" for q
      using requeuedD(2) [OF re that] by (simp add: body_def flagged_def)
    have in_slices: "c \<in> gh_live g q \<Longrightarrow> unat c \<in> page_slices w (wd_pages w q)" if q: "q \<in> pages_of g" for q c
      by (rule live_place(2) [OF inv q])
    have "L \<inter> gh_inner g = {}"
    proof -
      have "unat c \<in> page_slices w (wd_pages w' p)" if "c \<in> L" for c
      proof -
        have "c \<in> all_blocks (wd_pages w' p)" using live_in [OF page(1)] that by blast
        moreover have "unat c \<in> block_span (wd_pages w' p) c"
          using live_geometry [OF page(1)] by (simp add: block_span_def page_geometry_def)
        ultimately show ?thesis using page(9) unfolding fits_def by blast
      qed
      then show ?thesis using i(1) in_slices sl by blast
    qed
    then have "gh_live ?g p \<inter> gh_inner ?g = {}" by (simp add: with_page_def)
    moreover have "gh_live ?g q = gh_live g q" "gh_inner ?g = gh_inner g" if "q \<in> pages_of g" for q
      using old [OF that] by (simp_all add: with_page_def)
    moreover have "gh_inner ?g = gh_inner g" by (simp add: with_page_def)
    ultimately show ?thesis using i fl unfolding inner_ok_def pages_with by auto
  qed
  moreover have "\<forall>a. lookup a (wd_pm w') \<noteq> 0 \<longrightarrow> lookup a (wd_pm w') \<in> pages_of ?g"
    using heap_invD(9) [OF inv] by (simp add: pm(2) pages_with)
  moreover have "t \<in> T \<and> c \<le> MI_BIN_HUGE \<and> page_good env w' t c q (gh_size ?g q) (gh_live ?g q)" if q: "q \<in> set (gh_queue ?g t c)" for t c q
  proof (cases "q \<in> set (gh_queue g t c)")
    case True
    then show ?thesis by (rule kept)
  next
    case False
    then have "t = th" "c = b" "q = p" using q by (simp_all add: queue split: if_splits)
    then show ?thesis using added th b by simp
  qed
  ultimately show "heap_inv env T ?g w'"
    using heap_invD(1,2) [OF inv] pm(1) by (simp add: heap_inv_def same_poolD [OF pool])
qed

definition without_page :: "ptr \<Rightarrow> nat \<Rightarrow> ptr \<Rightarrow> ghost \<Rightarrow> ghost" where
  "without_page th b p g = g\<lparr>gh_queue := (gh_queue g)(th := (gh_queue g th)(b := remove1 p (gh_queue g th b)))\<rparr>"

lemma queue_distinct: "heap_inv env T g w \<Longrightarrow> distinct (gh_queue g th b)"
proof (cases "gh_queue g th b")
  case (Cons q qs)
  assume inv: "heap_inv env T g w"
  have "th \<in> T" using heap_invD(5) [OF inv, of q th b] Cons by simp
  then show ?thesis using theap_goodD(3) [OF heap_invD(4) [OF inv], of th b] by (simp add: queue_is_def)
qed simp

lemma queue_without:
  assumes "heap_inv env T g w" "p \<in> set (gh_queue g th b)"
  shows "q \<in> set (gh_queue (without_page th b p g) t c) \<longleftrightarrow> q \<in> set (gh_queue g t c) \<and> q \<noteq> p"
    "pages_of (without_page th b p g) = pages_of g - {p}"
proof -
  show q: "q \<in> set (gh_queue (without_page th b p g) t c) \<longleftrightarrow> q \<in> set (gh_queue g t c) \<and> q \<noteq> p" for q t c
  proof (cases "t = th \<and> c = b")
    case True
    then show ?thesis using queue_distinct [OF assms(1), of th b] by (simp add: without_page_def conj_commute)
  next
    case False
    then have "gh_queue (without_page th b p g) t c = gh_queue g t c" by (auto simp: without_page_def)
    then show ?thesis using queue_unique [OF assms] False by metis
  qed
  have "x \<in> pages_of (without_page th b p g) \<longleftrightarrow> x \<in> pages_of g - {p}" for x by (simp add: pages_of_def q)
  then show "pages_of (without_page th b p g) = pages_of g - {p}" by blast
qed

lemma blocks_without:
  assumes "heap_inv env T g w" "p \<in> set (gh_queue g th b)" "gh_live g p = {}"
  shows "blocks_of (without_page th b p g) = blocks_of g"
proof -
  have "gh_size (without_page th b p g) = gh_size g" "gh_live (without_page th b p g) = gh_live g"
      "gh_inner (without_page th b p g) = gh_inner g"
    by (simp_all add: without_page_def)
  moreover have "q \<in> pages_of g - {p} \<and> c \<in> gh_live g q \<longleftrightarrow> q \<in> pages_of g \<and> c \<in> gh_live g q" for q c
    using assms(3) by auto
  ultimately show ?thesis unfolding blocks_of_def queue_without(2) [OF assms(1,2)] by simp
qed

lemma drop_from:
  assumes inv: "heap_inv env T g w" and p: "p \<in> set (gh_queue g th b)" and empty: "gh_live g p = {}" and pool: "same_pool w w'"
    and re: "requeued g th b (remove1 p (gh_queue g th b)) w w'"
    and direct: "\<And>t. th_direct (wd_theaps w' t) = (if t = th then (\<lambda>i. if th_direct (wd_theaps w th) i = p then 0 else th_direct (wd_theaps w th) i)
      else th_direct (wd_theaps w t))"
    and pm: "pm_inv (wd_pm w')" "\<And>a. lookup a (wd_pm w') = (if unat a \<in> page_slices w (wd_pages w p) then 0 else lookup a (wd_pm w))"
  shows "heap_inv env T (without_page th b p g) w'"
proof -
  let ?g = "without_page th b p g"
  note queue = queue_without(1) [OF inv p] and pages = queue_without(2) [OF inv p]
  have same: "gh_size ?g = gh_size g" "gh_live ?g = gh_live g" "gh_inner ?g = gh_inner g" by (simp_all add: without_page_def)
  note pq = pages_ofI [OF p]
  have tid: "th_tid (wd_theaps w' t) = th_tid (wd_theaps w t)" for t by (rule requeuedD(6) [OF re])
  have look: "lookup a (wd_pm w') = q \<longleftrightarrow> lookup a (wd_pm w) = q" if q: "q \<in> set (gh_queue g t c)" "q \<noteq> p" for a q t c
  proof -
    have "lookup a (wd_pm w) = p \<longleftrightarrow> unat a \<in> page_slices w (wd_pages w p)" by (rule page_goodD(10) [OF heap_invD(7) [OF inv p]])
    then show ?thesis using q(2) page_nonzero [OF inv pages_ofI [OF q(1)]] by (auto simp: pm(2))
  qed
  have kept: "t \<in> T \<and> c \<le> MI_BIN_HUGE \<and> page_good env w' t c q (gh_size ?g q) (gh_live ?g q)" if q: "q \<in> set (gh_queue ?g t c)" for t c q
  proof -
    have q': "q \<in> set (gh_queue g t c)" "q \<noteq> p" using q queue by simp_all
    then show ?thesis
      using heap_invD(5,6) [OF inv q'(1)] page_good_keep [OF heap_invD(7) [OF inv q'(1)] pool requeuedD(2) [OF re pages_ofI [OF q'(1)]]
          requeuedD(1) [OF re] tid look [OF q']] by (simp add: same)
  qed
  have "theap_good env ?g w' t" if t: "t \<in> T" for t
  proof -
    note h = theap_goodD [OF heap_invD(4) [OF inv t]]
    have "direct_ok ?g t (th_direct (wd_theaps w' t))"
      unfolding direct_ok_def queue same
    proof (intro allI impI)
      fix i assume i: "th_direct (wd_theaps w' t) i \<noteq> 0"
      have e: "th_direct (wd_theaps w' t) i = th_direct (wd_theaps w t) i" using i by (simp add: direct split: if_splits)
      have d: "\<exists>c. th_direct (wd_theaps w t) i \<in> set (gh_queue g t c)" "8 * i \<le> gh_size g (th_direct (wd_theaps w t) i)"
        using h(4) i e by (simp_all add: direct_ok_def)
      have "th_direct (wd_theaps w t) i \<noteq> p"
      proof (cases "t = th")
        case True
        then show ?thesis using i by (auto simp: direct)
      next
        case False
        then show ?thesis using d(1) queue_unique(1) [OF inv p] by metis
      qed
      then show "(\<exists>c. th_direct (wd_theaps w' t) i \<in> set (gh_queue g t c) \<and> th_direct (wd_theaps w' t) i \<noteq> p)
        \<and> 8 * i \<le> gh_size g (th_direct (wd_theaps w' t) i)" using d by (simp add: e)
    qed
    moreover have "gh_queue ?g t c = (if t = th \<and> c = b then remove1 p (gh_queue g th b) else gh_queue g t c)" for c
      by (simp add: without_page_def)
    ultimately show ?thesis
      using h(1,2) requeued_queue [OF inv re t] by (simp add: theap_good_def requeuedD(5,6) [OF re])
  qed
  moreover have "feet_apart ?g w'"
  proof -
    have "foot w' q (wd_pages w' q) = foot w q (wd_pages w q)" if "q \<in> pages_of g" for q
      using place_shape(2) [of "wd_pages w' q" "wd_pages w q"] requeuedD(2) [OF re that] by (simp add: body_def same_poolD [OF pool])
    then show ?thesis using heap_invD(8) [OF inv] by (simp add: feet_apart_def pages)
  qed
  moreover have "inner_ok ?g (wd_pages w')"
  proof -
    have fl: "flagged (wd_pages w' q) = flagged (wd_pages w q)" if "q \<in> pages_of g" for q
      using requeuedD(2) [OF re that] by (simp add: body_def flagged_def)
    show ?thesis using heap_invD(10) [OF inv] fl empty unfolding inner_ok_def pages same by blast
  qed
  moreover have "lookup a (wd_pm w') \<noteq> 0 \<longrightarrow> lookup a (wd_pm w') \<in> pages_of ?g" for a
  proof -
    have "lookup a (wd_pm w) = p \<longleftrightarrow> unat a \<in> page_slices w (wd_pages w p)" by (rule page_goodD(10) [OF heap_invD(7) [OF inv p]])
    then show ?thesis using heap_invD(9) [OF inv, of a] by (simp add: pm(2) pages)
  qed
  ultimately show "heap_inv env T ?g w'"
    using heap_invD(1,2) [OF inv] pm(1) kept by (simp add: heap_inv_def same_poolD [OF pool])
qed

end
