(* ===== verification/MiHeapOps.thy ===== *)
theory MiHeapOps
  imports MiHeapInv
begin

unbundle bit_operations_syntax

text \<open>
  \<^verbatim>\<open>src/heap.rs\<close>: what every step of a thread heap does to the invariant of \<open>MiHeapInv\<close>. A quiet
  step keeps the blocks in use and their contents.
\<close>

section \<open>Quiet steps\<close>

definition addrs :: "ghost \<Rightarrow> ptr set" where
  "addrs g = (\<Union>p\<in>pages_of g. gh_live g p)"

text \<open>The addresses inside a set of blocks, and that their words are as before.\<close>

definition span :: "ptr \<Rightarrow> nat \<Rightarrow> nat set" where
  "span b n = {unat b ..< unat b + n}"

definition insides :: "(ptr \<times> nat \<times> bool) set \<Rightarrow> ptr set" where
  "insides H = {c. \<exists>b n i. (b, n, i) \<in> H \<and> unat c \<in> span b n}"

definition undisturbed :: "(ptr \<times> nat \<times> bool) set \<Rightarrow> hworld \<Rightarrow> hworld \<Rightarrow> bool" where
  "undisturbed H w w' \<longleftrightarrow> (\<forall>c\<in>insides H. wd_links w' c = wd_links w c)"

lemma undisturbed_links [simp]: "wd_links w' = wd_links w \<Longrightarrow> undisturbed H w w'"
  by (simp add: undisturbed_def)

lemma undisturbed_mono: "undisturbed H w w' \<Longrightarrow> G \<subseteq> H \<Longrightarrow> undisturbed G w w'"
  unfolding undisturbed_def insides_def by blast

lemma undisturbed_trans: "undisturbed H w w1 \<Longrightarrow> undisturbed H w1 w2 \<Longrightarrow> undisturbed H w w2"
  by (simp add: undisturbed_def)

definition quiet :: "env \<Rightarrow> ptr set \<Rightarrow> ghost \<Rightarrow> hworld \<Rightarrow> ghost \<Rightarrow> hworld \<Rightarrow> bool" where
  "quiet env T g w g' w' \<longleftrightarrow> heap_inv env T g' w' \<and> blocks_of g' = blocks_of g \<and> undisturbed (blocks_of g) w w'
    \<and> wd_tid w' = wd_tid w"

lemma addrs_blocks: "addrs g = fst ` blocks_of g"
  by (force simp: addrs_def blocks_of_def)

lemma quietD:
  assumes "quiet env T g w g' w'"
  shows "heap_inv env T g' w'" "blocks_of g' = blocks_of g" "undisturbed (blocks_of g) w w'" "wd_tid w' = wd_tid w"
  using assms by (simp_all add: quiet_def)

lemma quiet_refl: "heap_inv env T g w \<Longrightarrow> quiet env T g w g w"
  by (simp add: quiet_def undisturbed_links)

lemma quiet_trans: "quiet env T g w g1 w1 \<Longrightarrow> quiet env T g1 w1 g2 w2 \<Longrightarrow> quiet env T g w g2 w2"
  unfolding quiet_def using undisturbed_trans by metis

lemma blocks_iff: "(c, k, i) \<in> blocks_of g \<longleftrightarrow> (\<exists>p\<in>pages_of g. c \<in> gh_live g p \<and> k = gh_size g p \<and> (i \<longleftrightarrow> c \<in> gh_inner g))"
  by (auto simp: blocks_of_def)

text \<open>A step of one page writes to free blocks of that page only.\<close>

lemma step_undisturbed:
  assumes inv: "heap_inv env T g w" and p: "p \<in> pages_of g"
    and st: "page_step (en_enc env) (wd_pages w p, wd_links w) (pg', m') (gh_live g p) L'"
    and H: "H \<subseteq> blocks_of g" "\<And>b n i. (b, n, i) \<in> H \<Longrightarrow> b \<in> gh_live g p \<Longrightarrow> b \<in> L'" and m: "wd_links w' = m'"
  shows "undisturbed H w w'"
proof -
  have "m' c = wd_links w c" if h: "(b, n, i) \<in> H" "unat c \<in> span b n" for b n i c
  proof (cases "c \<in> all_blocks (wd_pages w p)")
    case True
    have "(b, n, i) \<in> blocks_of g" using h(1) H(1) by blast
    then obtain q where q: "q \<in> pages_of g" "b \<in> gh_live g q" "n = gh_size g q" unfolding blocks_iff by blast
    obtain th bn where qu: "q \<in> set (gh_queue g th bn)" using q(1) by (rule pages_ofE)
    note good = heap_invD(7) [OF inv qu]
    have in_b: "unat c \<in> block_span (wd_pages w q) b" using h(2) q(3) page_goodD(6) [OF good] by (simp add: span_def block_span_def)
    then have "unat c \<in> page_slices w (wd_pages w q)" using block_place(2) [OF inv q(1) live_place(1) [OF inv q(1,2)]] by blast
    then have "lookup c (wd_pm w) = q" using page_goodD(10) [OF good] by blast
    then have pq: "q = p" using block_place(3) [OF inv p True] by simp
    have "c = b" by (rule span_block [OF page_lives [OF inv p] True live_place(1) [OF inv q(1,2), unfolded pq] in_b [unfolded pq]])
    then show ?thesis using page_stepD(4) [OF st] q(2) H(2) [OF h(1)] pq by blast
  qed (use page_stepD(3) [OF st] in blast)
  then show ?thesis using m unfolding undisturbed_def insides_def by blast
qed

section \<open>Queues\<close>

lemma set_links_body: "body (ps x) (set_next p v ps x)" "body (ps x) (set_prev p v ps x)"
  by (simp_all add: set_next_def set_prev_def body_def core_def shape_def)

lemma body_trans: "body a b \<Longrightarrow> body b c \<Longrightarrow> body a c"
  by (simp add: body_def)

lemma push_front_body: "body (ps x) (snd (push_front p (q, ps)) x)"
  by (auto simp: push_front_def Let_def intro!: set_links_body body_trans [OF _ set_links_body(1)] body_trans [OF _ set_links_body(2)])

lemma remove_body: "body (ps x) (snd (remove p (q, ps)) x)"
  by (auto simp: remove_def Let_def intro!: body_trans [OF _ set_links_body(1)] body_trans [OF _ set_links_body(2)])

lemma on_queue_fields:
  assumes "f (th_pages (wd_theaps w th) b, wd_pages w) = (q, ps)"
  shows "on_queue th b f w = w\<lparr>wd_pages := ps, wd_theaps := (wd_theaps w)(th := (wd_theaps w th)\<lparr>th_pages := (th_pages (wd_theaps w th))(b := q)\<rparr>)\<rparr>"
  using assms by (simp add: on_queue_def upd_theap_def)

text \<open>The number of pages is bounded by the address space.\<close>

lemma queue_short:
  assumes inv: "heap_inv env T g w"
  shows "Suc (length (gh_queue g th b)) < 2 ^ 64"
proof -
  let ?Q = "gh_queue g th b"
  have pg: "homed env w p (wd_pages w p)" if "p \<in> set ?Q" for p
    using page_goodD(8) [OF heap_invD(7) [OF inv that]] .
  have "\<exists>x. x \<in> page_slices w (wd_pages w p)" "page_slices w (wd_pages w p) \<subseteq> {..<2 ^ 63}" if p: "p \<in> set ?Q" for p
  proof -
    let ?a = "wd_arenas w (pg_arena (wd_pages w p))"
    have ar: "pg_arena (wd_pages w p) \<in> set (wd_arena_list w)"
        and iu: "in_unit ?a (unat (pg_slice_index (wd_pages w p))) (unat (pg_slice_count (wd_pages w p)))"
      using pg [OF p] by (simp_all add: homed_def)
    have "unat (ar_start ?a) + 65536 * unat (pg_slice_index (wd_pages w p)) \<in> page_slices w (wd_pages w p)"
      using iu by (auto simp: page_slices_def slice_bytes_def in_unit_def)
    then show "\<exists>x. x \<in> page_slices w (wd_pages w p)" ..
    have "extent ?a \<subseteq> {..<2 ^ 63}"
      using arena_okD(9) [OF pool_arena(1) [OF heap_invD(1) [OF inv] ar]] by (auto simp: extent_def slice_bytes_def)
    then show "page_slices w (wd_pages w p) \<subseteq> {..<2 ^ 63}"
      using homed_extent(1) [OF heap_invD(1) [OF inv] pg [OF p]] by blast
  qed
  then have "\<forall>p\<in>set ?Q. \<exists>x. x \<in> page_slices w (wd_pages w p) \<and> x \<in> {..<2 ^ 63}" by blast
  from bchoice [OF this] obtain f where f: "\<forall>p\<in>set ?Q. f p \<in> page_slices w (wd_pages w p) \<and> f p \<in> {..<2 ^ 63}" ..
  have "inj_on f (set ?Q)"
  proof (rule inj_onI, rule ccontr)
    fix p q assume p: "p \<in> set ?Q" and q: "q \<in> set ?Q" and e: "f p = f q" "p \<noteq> q"
    have "foot w p (wd_pages w p) \<inter> foot w q (wd_pages w q) = {}"
      using heap_invD(8) [OF inv] pages_ofI [OF p] pages_ofI [OF q] e(2) by (simp add: feet_apart_def)
    then show False using f p q e(1) by (auto simp: foot_def)
  qed
  moreover have "f ` set ?Q \<subseteq> {..<2 ^ 63}" using f by blast
  ultimately have "card (set ?Q) \<le> card {..<2 ^ 63 :: nat}" by (meson card_inj_on_le finite_lessThan)
  then have "length ?Q \<le> 2 ^ 63" using distinct_card [OF queue_distinct [OF inv, of th b]] by simp
  then show ?thesis by simp
qed

lemma requeued_remove:
  assumes inv: "heap_inv env T g w" and p: "p \<in> set (gh_queue g th b)"
    and w': "w' = on_queue th b (remove p) (upd_theap th (clear_direct p) w)"
  shows "requeued g th b (remove1 p (gh_queue g th b)) w w'" "same_pool w w'" "wd_pm w' = wd_pm w" "wd_tid w' = wd_tid w"
    "wd_links w' = wd_links w"
    "th_direct (wd_theaps w' t) = (if t = th then (\<lambda>i. if th_direct (wd_theaps w th) i = p then 0 else th_direct (wd_theaps w th) i)
      else th_direct (wd_theaps w t))"
    "body (wd_pages w x) (wd_pages w' x)"
proof -
  have T: "th \<in> T" by (rule heap_invD(5) [OF inv p])
  note q = theap_goodD(3) [OF heap_invD(4) [OF inv T], of b]
  obtain q' ps where r: "remove p (th_pages (wd_theaps w th) b, wd_pages w) = (q', ps)" by fastforce
  obtain us vs where xs: "gh_queue g th b = us @ p # vs" using p by (meson split_list)
  have "p \<notin> set us" using queue_distinct [OF inv, of th b] xs by simp
  then have rem: "remove1 p (gh_queue g th b) = us @ vs" by (simp add: xs remove1_append)
  note rl = remove_list [OF q [unfolded xs], unfolded r]
  have t: "th_pages (wd_theaps (upd_theap th (clear_direct p) w) th) b = th_pages (wd_theaps w th) b"
      "wd_pages (upd_theap th (clear_direct p) w) = wd_pages w"
    by (simp_all add: upd_theap_def clear_direct_def)
  have e: "w' = (upd_theap th (clear_direct p) w)\<lparr>wd_pages := ps,
      wd_theaps := (wd_theaps (upd_theap th (clear_direct p) w))(th := (wd_theaps (upd_theap th (clear_direct p) w) th)
        \<lparr>th_pages := (th_pages (wd_theaps (upd_theap th (clear_direct p) w) th))(b := q')\<rparr>)\<rparr>"
    unfolding w' by (rule on_queue_fields) (simp only: t r)
  have b: "body (wd_pages w x) (ps x)" for x using remove_body [of "wd_pages w" x p "th_pages (wd_theaps w th) b"] r by simp
  show "same_pool w w'" "wd_pm w' = wd_pm w" "wd_tid w' = wd_tid w" "wd_links w' = wd_links w"
    by (simp_all add: e upd_theap_def same_pool_def)
  show "th_direct (wd_theaps w' t) = (if t = th then (\<lambda>i. if th_direct (wd_theaps w th) i = p then 0 else th_direct (wd_theaps w th) i)
      else th_direct (wd_theaps w t))"
    by (simp add: e upd_theap_def clear_direct_def)
  show "body (wd_pages w x) (wd_pages w' x)" using b by (simp add: e)
  show "requeued g th b (remove1 p (gh_queue g th b)) w w'"
    unfolding rem using rl b by (auto simp: requeued_def e upd_theap_def clear_direct_def xs)
qed

section \<open>Releasing a page\<close>

lemma slots_range:
  assumes "in_unit a i n"
  shows "reg_range (slice_ptr a i) n"
proof -
  have "n \<le> 512" using assms by (simp add: in_unit_def mi_consts)
  moreover have "unat (pm_slice_index (slice_ptr a i)) < 2 ^ 48"
    using unat_lt [of "slice_ptr a i"] by (simp add: unat_slice_index less_mult_imp_div_less)
  ultimately show ?thesis by (simp add: reg_range_def)
qed

lemma drop_page_keeps:
  assumes env: "env_ok env" and inv: "heap_inv env T g w" and p: "p \<in> set (gh_queue g th b)" and empty: "gh_live g p = {}"
  shows "\<exists>w'. drop_page env th b p w = Some w' \<and> quiet env T g w (without_page th b p g) w'"
proof -
  let ?g = "without_page th b p g" and ?pg = "wd_pages w p"
  define w1 where "w1 = on_queue th b (remove p) (upd_theap th (clear_direct p) w)"
  note re = requeued_remove [OF inv p w1_def]
  note pg = heap_invD(7) [OF inv p]
  note h = page_goodD(8) [OF pg]
  have ar: "pg_arena ?pg \<in> set (wd_arena_list w)" and iu: "in_unit (wd_arenas w (pg_arena ?pg)) (unat (pg_slice_index ?pg)) (unat (pg_slice_count ?pg))"
    using h by (simp_all add: homed_def)
  have sh: "shape (wd_pages w1 p) = shape ?pg" using re(7) [of p] by (simp add: body_def)
  have fields: "pg_arena (wd_pages w1 p) = pg_arena ?pg" "pg_slice_index (wd_pages w1 p) = pg_slice_index ?pg"
      "pg_slice_count (wd_pages w1 p) = pg_slice_count ?pg" "is_huge (wd_pages w1 p) = is_huge ?pg"
    using shapeD [OF sh] by (simp_all add: is_huge_def)
  have pool: "wd_arenas w1 = wd_arenas w" "wd_arena_list w1 = wd_arena_list w" using re(2) by (simp_all add: same_pool_def)
  let ?a = "wd_arenas w (pg_arena ?pg)" and ?i = "unat (pg_slice_index ?pg)" and ?n = "unat (pg_slice_count ?pg)"
  define w2 where "w2 = w1\<lparr>wd_pm := unregister (slice_ptr ?a ?i) ?n (wd_pm w1)\<rparr>"
  note aok = pool_arena(1) [OF heap_invD(1) [OF inv] ar]
  have un: "pm_inv (wd_pm w2)" "lookup x (wd_pm w2) = (if unat x \<in> page_slices w ?pg then 0 else lookup x (wd_pm w))" for x
    using pmap.unreg_slot [OF heap_invD(3) [OF inv] slots_range [OF iu]] pmap.look_unreg [OF heap_invD(3) [OF inv] slots_range [OF iu], of x]
    by (simp_all add: w2_def re(3) slices_window [OF aok iu] page_slices_def)
  have re2: "requeued g th b (remove1 p (gh_queue g th b)) w w2" "same_pool w w2"
    using re(1,2) by (simp_all add: requeued_def same_pool_def w2_def)
  have "wd_theaps w2 = wd_theaps w1" by (simp add: w2_def)
  then have inv2: "heap_inv env T ?g w2"
    using drop_from [OF inv p empty re2(2,1) _ un] re(6) by simp
  have pages2: "wd_pages w2 = wd_pages w1" "wd_links w2 = wd_links w" "wd_tid w2 = wd_tid w" by (simp_all add: w2_def re)
  have foot2: "foot w2 q (wd_pages w2 q) = foot w q (wd_pages w q)" for q
    using re(7) [of q] place_shape(2) [of "wd_pages w1 q" "wd_pages w q"] by (simp add: same_poolD [OF re2(2)] pages2 body_def)
  have away: "foot w2 q (wd_pages w2 q) \<inter> foot w p ?pg = {}" if "q \<in> pages_of ?g" for q
    using heap_invD(8) [OF inv] that pages_ofI [OF p] by (simp add: queue_without(2) [OF inv p] foot2 feet_apart_def)
  have sl: "slice_bytes ?a ?i ?n = page_slices w ?pg" by (simp add: page_slices_def)
  have ar2: "pg_arena ?pg \<in> set (wd_arena_list w2)" "wd_arenas w2 = wd_arenas w" using ar by (simp_all add: w2_def pool)
  obtain w3 where w3: "w_free_slices env (pg_arena ?pg) ?i ?n w2 = Some w3" "pool_step env (- page_slices w ?pg) w2 w3"
    using w_free_slices_step [OF env heap_invD(1) [OF inv2] ar2(1), unfolded ar2(2), OF iu] unfolding sl by blast
  have foot3: "foot w2 q (wd_pages w2 q) \<subseteq> - page_slices w ?pg" if "q \<in> pages_of ?g" for q
    using away [OF that] by (auto simp: foot_def)
  note inv3 = heap_inv_pool [OF inv2 w3(2) foot3]
  have same3: "wd_links w3 = wd_links w2" "wd_pages w3 = wd_pages w2" "wd_tid w3 = wd_tid w2"
    using links_more [OF pool_stepD(9) [OF w3(2)]] pool_stepD(8) [OF w3(2)] by simp_all
  have ar0: "pg_arena ?pg \<noteq> 0" by (rule pool_arena(5) [OF heap_invD(1) [OF inv] ar])
  have run: "drop_page env th b p w = (if is_huge ?pg then w_meta_free p sizeof_page w3 else Some w3)"
    using w3(1) ar0 by (simp add: drop_page_def release_page_slices_def Let_def fields pool w1_def [symmetric] w2_def [symmetric])
  have q: "quiet env T g w ?g v" if "heap_inv env T ?g v" "wd_links v = wd_links w3" "wd_tid v = wd_tid w3" for v
    using that blocks_without [OF inv p empty] by (simp add: quiet_def same3 pages2)
  show ?thesis
  proof (cases "is_huge ?pg")
    case False
    then show ?thesis using run q [OF inv3] by simp
  next
    case True
    have sub: "block_bytes p 3 \<subseteq> - page_slices w ?pg"
      using homed_extent(2,3) [OF heap_invD(1) [OF inv] h] True by blast
    have held: "holds (wd_meta w2) 3 p" "\<forall>ar\<in>set (wd_arena_list w2). block_bytes ar 3 \<inter> block_bytes p 3 = {}"
      using h True re2(2) by (simp_all add: homed_def header_ok_def same_pool_def)
    note h3 = header_apart_step [OF w3(2) held sub]
    have n: "(3 :: nat) = nat_div_ceil (unat sizeof_page) 64" by (simp add: sizeof_page_def nat_div_ceil_def)
    obtain w4 where w4: "w_meta_free p sizeof_page w3 = Some w4" "pool_step env (- block_bytes p 3) w3 w4"
      using w_meta_free_step [OF heap_invD(1) [OF inv3] h3(1) n _ h3(2)] by auto
    have foot4: "foot w3 q (wd_pages w3 q) \<subseteq> - block_bytes p 3" if q: "q \<in> pages_of ?g" for q
    proof -
      obtain t c where "q \<in> set (gh_queue ?g t c)" using q by (rule pages_ofE)
      then have "pg_arena (wd_pages w2 q) \<in> set (wd_arena_list w2)"
        using page_goodD(8) [OF heap_invD(7) [OF inv2]] by (auto simp: homed_def)
      then have "foot w3 q (wd_pages w3 q) = foot w2 q (wd_pages w2 q)" using page_slices_step(2) [OF w3(2)] by (simp add: same3)
      then show ?thesis using away [OF q] True by (auto simp: foot_def)
    qed
    note inv4 = heap_inv_pool [OF inv3 w4(2) foot4]
    have "wd_links w4 = wd_links w3" "wd_tid w4 = wd_tid w3" using links_more [OF pool_stepD(9) [OF w4(2)]] by simp_all
    then show ?thesis using run True w4(1) q [OF inv4] by simp
  qed
qed

section \<open>Steps that move no page\<close>

lemma quiet_theap:
  assumes inv: "heap_inv env T g w" and f: "same_theap (wd_theaps w th) (f (wd_theaps w th))"
    and direct: "th \<in> T \<Longrightarrow> direct_ok g th (th_direct (f (wd_theaps w th)))"
  shows "quiet env T g w g (upd_theap th f w)"
proof -
  have "heap_inv env T g (upd_theap th f w)"
  proof (rule heap_inv_tweak [OF inv])
    show "same_theap (wd_theaps w t) (wd_theaps (upd_theap th f w) t)" for t using f by (simp add: upd_theap_def)
    show "direct_ok g t (th_direct (wd_theaps (upd_theap th f w) t))" if "t \<in> T" for t
      using direct that theap_goodD(4) [OF heap_invD(4) [OF inv that]] by (cases "t = th") (simp_all add: upd_theap_def)
  qed (simp_all add: upd_theap_def same_pool_def)
  then show ?thesis by (simp add: quiet_def upd_theap_def)
qed

lemma quiet_counters:
  assumes inv: "heap_inv env T g w" and f: "same_theap (wd_theaps w th) (f (wd_theaps w th))"
    "th_direct (f (wd_theaps w th)) = th_direct (wd_theaps w th)"
  shows "quiet env T g w g (upd_theap th f w)"
proof (rule quiet_theap [of env T g w th f])
  show "direct_ok g th (th_direct (f (wd_theaps w th)))" if "th \<in> T"
    using theap_goodD(4) [OF heap_invD(4) [OF inv that]] f(2) by simp
qed (rule inv f(1))+

text \<open>The header fields no list depends on.\<close>

lemma quiet_page:
  assumes inv: "heap_inv env T g w"
    and f: "core (f (wd_pages w p)) = core (wd_pages w p)" "same_place (wd_pages w p) (f (wd_pages w p))"
      "flagged (wd_pages w p) \<longrightarrow> flagged (f (wd_pages w p))"
  shows "quiet env T g w g (upd_page p f w)"
proof -
  have "heap_inv env T g (upd_page p f w)"
  proof (rule heap_inv_tweak [OF inv])
    show "core (wd_pages (upd_page p f w) q) = core (wd_pages w q) \<and> same_place (wd_pages w q) (wd_pages (upd_page p f w) q)
      \<and> (flagged (wd_pages w q) \<longrightarrow> flagged (wd_pages (upd_page p f w) q))" for q
      using f by (simp add: upd_page_def)
    show "direct_ok g th (th_direct (wd_theaps (upd_page p f w) th))" if "th \<in> T" for th
      using theap_goodD(4) [OF heap_invD(4) [OF inv that]] by (simp add: upd_page_def)
  qed (simp_all add: upd_page_def same_pool_def)
  then show ?thesis by (simp add: quiet_def upd_page_def)
qed

lemma quiet_expire: "heap_inv env T g w \<Longrightarrow> quiet env T g w g (upd_page p (\<lambda>pg. pg\<lparr>pg_retire_expire := n\<rparr>) w)"
  by (rule quiet_page) (simp_all add: core_def same_place_def shape_def is_owned_def owner_tid_def flagged_def)

lemma quiet_page_op:
  assumes inv: "heap_inv env T g w" and p: "p \<in> pages_of g"
    and st: "page_step (en_enc env) (wd_pages w p, wd_links w) (pg', m') (gh_live g p) (gh_live g p)"
  shows "quiet env T g w g (w\<lparr>wd_pages := (wd_pages w)(p := pg'), wd_links := m'\<rparr>)"
proof -
  have "heap_inv env T g (w\<lparr>wd_pages := (wd_pages w)(p := pg'), wd_links := m'\<rparr>)"
    using page_op [OF inv p st order_refl _ _ refl refl] by simp
  moreover have "undisturbed (blocks_of g) w (w\<lparr>wd_pages := (wd_pages w)(p := pg'), wd_links := m'\<rparr>)"
    by (rule step_undisturbed [OF inv p st order_refl]) simp_all
  ultimately show ?thesis by (simp add: quiet_def)
qed

lemma quiet_collect:
  assumes "heap_inv env T g w" "p \<in> pages_of g"
  shows "\<exists>w'. page_collect env p w = Some w' \<and> quiet env T g w g w' \<and> (is_all_free (wd_pages w' p) \<longleftrightarrow> gh_live g p = {})"
proof -
  obtain pg' m' where c: "collect (en_enc env) (wd_pages w p) (wd_links w) = Some (pg', m')"
      "page_step (en_enc env) (wd_pages w p, wd_links w) (pg', m') (gh_live g p) (gh_live g p)" "is_all_free pg' \<longleftrightarrow> gh_live g p = {}"
    using collect_live [OF page_lives [OF assms]] by blast
  show ?thesis using c(1,3) quiet_page_op [OF assms c(2)] by (simp add: page_collect_def)
qed

lemma quiet_is_full:
  assumes "heap_inv env T g w" "p \<in> pages_of g"
  shows "\<exists>full w'. on_page p (is_full (en_enc env)) w = Some (full, w') \<and> quiet env T g w g w'"
proof -
  obtain full pg' m' where f: "is_full (en_enc env) (wd_pages w p) (wd_links w) = Some (full, pg', m')"
      "page_step (en_enc env) (wd_pages w p, wd_links w) (pg', m') (gh_live g p) (gh_live g p)"
    using is_full_live [OF page_lives [OF assms]] by blast
  show ?thesis using f(1) quiet_page_op [OF assms f(2)] by (simp add: on_page_def)
qed

lemma quiet_pool:
  assumes inv: "heap_inv env T g w" and st: "pool_step env UNIV w w'"
  shows "quiet env T g w g w'"
  using heap_inv_pool [OF inv st] links_more [OF pool_stepD(9) [OF st]] by (simp add: quiet_def)

lemma quiet_try_purge:
  assumes "env_ok env" "heap_inv env T g w"
  shows "\<exists>w'. try_purge env force w = Some w' \<and> quiet env T g w g w'"
  using try_purge_step [OF assms(1) heap_invD(1) [OF assms(2)], of force] quiet_pool [OF assms(2)] by blast

lemma quiet_tseq:
  assumes "heap_inv env T g w"
  shows "quiet env T g w g (snd (next_tseq th w))"
  unfolding next_tseq_def snd_conv by (rule quiet_counters [OF assms]) (simp_all add: same_theap_def)

section \<open>Retirement\<close>

lemma retire_page_keeps:
  assumes env: "env_ok env" and inv: "heap_inv env T g w" and p: "p \<in> set (gh_queue g th b)" and empty: "gh_live g p = {}"
  shows "\<exists>w' g'. retire_page env p w = Some w' \<and> quiet env T g w g' w' \<and> (g' = g \<or> g' = without_page th b p g)"
proof -
  note pg = page_goodD [OF heap_invD(7) [OF inv p]]
  let ?mark = "upd_theap th (note_retired b) (upd_page p (\<lambda>q. q\<lparr>pg_retire_expire := of_nat (retire_cycles (wd_pages w p))\<rparr>) w)"
  have q1: "quiet env T g w g (upd_page p (\<lambda>q. q\<lparr>pg_retire_expire := of_nat (retire_cycles (wd_pages w p))\<rparr>) w)"
    by (rule quiet_expire [OF inv])
  have "quiet env T g w g ?mark"
    using quiet_trans [OF q1 quiet_counters [OF quietD(1) [OF q1]]] by (simp add: note_retired_def same_theap_def)
  moreover obtain w' where "drop_page env th b p w = Some w'" "quiet env T g w (without_page th b p g) w'"
    using drop_page_keeps [OF env inv p empty] by blast
  ultimately show ?thesis using pg(4,5) quiet_refl [OF inv] by (auto simp: retire_page_def Let_def)
qed

section \<open>Looking for a page with room\<close>

lemma queue_next:
  assumes inv: "heap_inv env T g w" and th: "th \<in> T" and q: "gh_queue g th b = us @ cur # vs"
  shows "cur \<noteq> 0" "pg_next (wd_pages w cur) = head_or vs 0"
proof -
  have "queue_is (th_pages (wd_theaps w th) b, wd_pages w) (us @ cur # vs)"
    using theap_goodD(3) [OF heap_invD(4) [OF inv th], of b] q by simp
  then show "cur \<noteq> 0" "pg_next (wd_pages w cur) = head_or vs 0" by (simp_all add: queue_is_def dll_append)
qed

lemma queue_first: 
  assumes "heap_inv env T g w" "th \<in> T"
  shows "pq_first (th_pages (wd_theaps w th) b) = head_or (gh_queue g th b) 0"
  using theap_goodD(3) [OF heap_invD(4) [OF assms], of b] by (simp add: queue_is_def)

lemma first_free_keeps:
  assumes th: "th \<in> T"
  shows "heap_inv env T g w \<Longrightarrow> gh_queue g th b = us @ xs \<Longrightarrow>
    \<exists>r w'. first_free env (head_or xs 0) w = Some (r, w') \<and> quiet env T g w g w' \<and> (\<forall>p. r = Some p \<longrightarrow> p \<in> set xs)"
proof (induction xs arbitrary: us w)
  case Nil
  then show ?case by (simp add: first_free.simps quiet_refl)
next
  case (Cons cur vs)
  note inv = Cons.prems(1) and q = Cons.prems(2)
  have cur: "cur \<in> set (gh_queue g th b)" by (simp add: q)
  obtain full w1 where f: "on_page cur (is_full (en_enc env)) w = Some (full, w1)" "quiet env T g w g w1"
    using quiet_is_full [OF inv pages_ofI [OF cur]] by blast
  note inv1 = quietD(1) [OF f(2)]
  note nz = queue_next(1) [OF inv th q] and nxt = queue_next(2) [OF inv1 th q]
  show ?case
  proof (cases full)
    case True
    obtain r w2 where r: "first_free env (head_or vs 0) w1 = Some (r, w2)" "quiet env T g w1 g w2" "\<forall>p. r = Some p \<longrightarrow> p \<in> set vs"
      using Cons.IH [OF inv1, of "us @ [cur]"] q by auto
    have "first_free env cur w = Some (r, w2)" using nz f(1) True nxt r(1) by (subst first_free.simps) simp
    then show ?thesis using r(3) quiet_trans [OF f(2) r(2)] by auto
  next
    case False
    let ?w2 = "if pg_retire_expire (wd_pages w1 cur) \<noteq> 0 then upd_page cur (\<lambda>pg. pg\<lparr>pg_retire_expire := 0\<rparr>) w1 else w1"
    have "first_free env cur w = Some (Some cur, ?w2)" using nz f(1) False by (subst first_free.simps) simp
    moreover have "quiet env T g w g ?w2" using quiet_trans [OF f(2) quiet_expire [OF inv1]] f(2) by simp
    ultimately show ?thesis by auto
  qed
qed

lemma reclaim_loop_none:
  assumes "no_abandoned w" "pool_ok env w"
  shows "set is \<subseteq> {..<arena_count w} \<Longrightarrow> reclaim_loop b tseq is w = Some (None, w)"
proof (induction "is")
  case (Cons i js)
  then have "i < arena_count w" by simp
  then obtain ar where ar: "arena_at i w = Some ar" "ar \<in> set (wd_arena_list w)" using arena_at_in [OF assms(2)] by blast
  have "reclaim_abandoned b tseq (wd_arenas w ar, wd_pages w) = Inr (None, wd_arenas w ar, wd_pages w)"
    using assms(1) ar(2) by (simp add: reclaim_abandoned_def no_abandoned_def)
  then show ?case using Cons ar(1) by simp
qed simp

lemma find_free_page_keeps:
  assumes inv: "heap_inv env T g w" and th: "th \<in> T"
  shows "\<exists>r w'. find_free_page env th b w = Some (r, w') \<and> quiet env T g w g w' \<and> (\<forall>p. r = Some p \<longrightarrow> p \<in> set (gh_queue g th b))"
proof -
  obtain r w1 where f: "first_free env (pq_first (th_pages (wd_theaps w th) b)) w = Some (r, w1)" "quiet env T g w g w1"
      "\<forall>p. r = Some p \<longrightarrow> p \<in> set (gh_queue g th b)"
    using first_free_keeps [OF th inv, of b "[]" "gh_queue g th b"] queue_first [OF inv th] by auto
  show ?thesis
  proof (cases r)
    case (Some p)
    then show ?thesis using f by (simp add: find_free_page_def)
  next
    case None
    let ?w2 = "snd (next_tseq th w1)"
    note q2 = quiet_trans [OF f(2) quiet_tseq [OF quietD(1) [OF f(2)], of th]]
    note inv2 = quietD(1) [OF q2]
    have "reclaim_page b tseq ?w2 = Some (None, ?w2)" for tseq
      unfolding reclaim_page_def by (rule reclaim_loop_none [OF heap_invD(2,1) [OF inv2]]) auto
    then have "try_reclaim env th b w1 = Some (None, ?w2)" by (simp add: try_reclaim_def next_tseq_def)
    then show ?thesis using f(1) None q2 by (simp add: find_free_page_def)
  qed
qed

section \<open>Retired pages\<close>

lemma empty_page:
  assumes "heap_inv env T g w" "p \<in> pages_of g" "is_all_free (wd_pages w p)"
  shows "gh_live g p = {}"
proof -
  obtain fs ls ts where l: "page_lists (en_enc env) (wd_pages w p) (wd_links w) fs ls ts" "live (wd_pages w p) fs ls ts = gh_live g p"
    using page_lives [OF assms(1,2)] by (rule page_liveE)
  have "card (gh_live g p) = 0" using page_lists_count(2) [OF l(1)] assms(3) l(2) by (simp add: is_all_free_def)
  moreover have "finite (gh_live g p)" using l(2) by (auto simp: live_def)
  ultimately show ?thesis by simp
qed

lemma retired_bin_keeps:
  assumes env: "env_ok env" and inv: "heap_inv env T g w" and th: "th \<in> T"
  shows "\<exists>mm' w' g'. collect_retired_bin env th force b mm w = Some (mm', w') \<and> quiet env T g w g' w'"
proof (cases "gh_queue g th b")
  case Nil
  then show ?thesis using queue_first [OF inv th, of b] quiet_refl [OF inv] by (auto simp: collect_retired_bin_def Let_def)
next
  case (Cons p ps)
  have p: "p \<in> set (gh_queue g th b)" by (simp add: Cons)
  have first: "pq_first (th_pages (wd_theaps w th) b) = p" "p \<noteq> 0"
    using queue_first [OF inv th, of b] Cons page_nonzero [OF inv pages_ofI [OF p]] by simp_all
  let ?w = "\<lambda>n. upd_page p (\<lambda>pg. pg\<lparr>pg_retire_expire := n\<rparr>) w"
  have q: "quiet env T g w g (?w n)" for n by (rule quiet_expire [OF inv])
  have drop: "\<exists>w'. drop_page env th b p (?w n) = Some w' \<and> quiet env T g w (without_page th b p g) w'" if "is_all_free (wd_pages w p)" for n
    using drop_page_keeps [OF env quietD(1) [OF q [of n]] p empty_page [OF inv pages_ofI [OF p] that]] quiet_trans [OF q [of n]] by blast
  show ?thesis
  proof (cases "is_all_free (wd_pages w p)")
    case True
    obtain w' where "drop_page env th b p (?w (pg_retire_expire (wd_pages w p) - 1)) = Some w'" "quiet env T g w (without_page th b p g) w'"
      using drop [OF True] by blast
    then show ?thesis using first True quiet_refl [OF inv] q by (auto simp: collect_retired_bin_def Let_def)
  next
    case False
    then show ?thesis using first quiet_refl [OF inv] q by (auto simp: collect_retired_bin_def Let_def)
  qed
qed

lemma retired_loop_keeps:
  assumes env: "env_ok env" and th: "th \<in> T"
  shows "heap_inv env T g w \<Longrightarrow> \<exists>mm' w' g'. collect_retired_loop env th force bs mm w = Some (mm', w') \<and> quiet env T g w g' w'"
proof (induction bs arbitrary: mm w g)
  case Nil
  then show ?case using quiet_refl [OF Nil] by auto
next
  case (Cons b bs)
  obtain mm1 w1 g1 where c: "collect_retired_bin env th force b mm w = Some (mm1, w1)" "quiet env T g w g1 w1"
    using retired_bin_keeps [OF env Cons.prems th] by blast
  obtain mm2 w2 g2 where "collect_retired_loop env th force bs mm1 w1 = Some (mm2, w2)" "quiet env T g1 w1 g2 w2"
    using Cons.IH [OF quietD(1) [OF c(2)]] by blast
  then show ?case using c quiet_trans [OF c(2)] by auto
qed

lemma collect_retired_keeps:
  assumes env: "env_ok env" and inv: "heap_inv env T g w" and th: "th \<in> T"
  shows "\<exists>w' g'. collect_retired env th force w = Some w' \<and> quiet env T g w g' w'"
proof -
  let ?bs = "[th_retired_min (wd_theaps w th)..<Suc (th_retired_max (wd_theaps w th))]"
  obtain mm w1 g1 where l: "collect_retired_loop env th force ?bs (MI_BIN_FULL, 0) w = Some (mm, w1)" "quiet env T g w g1 w1"
    using retired_loop_keeps [OF env th inv] by blast
  let ?w2 = "upd_theap th (\<lambda>t. t\<lparr>th_retired_min := fst mm, th_retired_max := snd mm\<rparr>) w1"
  have q2: "quiet env T g w g1 ?w2"
    using quiet_trans [OF l(2) quiet_counters [OF quietD(1) [OF l(2)]]] by (simp add: same_theap_def)
  obtain w3 where w3: "try_purge env False ?w2 = Some w3" "quiet env T g1 ?w2 g1 w3"
    using quiet_try_purge [OF env quietD(1) [OF q2]] by blast
  have "collect_retired env th force w = Some w3" using l(1) w3(1) by (simp add: collect_retired_def del: upt_Suc)
  then show ?thesis using quiet_trans [OF q2 w3(2)] by blast
qed

section \<open>New pages\<close>

lemma heap_inv_pm:
  assumes inv: "heap_inv env T g w" and pm: "pm_inv pm" "\<And>x. lookup x pm = lookup x (wd_pm w)"
  shows "heap_inv env T g (w\<lparr>wd_pm := pm\<rparr>)"
proof -
  let ?w = "w\<lparr>wd_pm := pm\<rparr>"
  have pool: "same_pool w ?w" by (simp add: same_pool_def)
  have "page_good env ?w th b p (gh_size g p) (gh_live g p)" if "p \<in> set (gh_queue g th b)" for th b p
    by (rule page_good_keep [OF heap_invD(7) [OF inv that] pool]) (simp_all add: pm)
  moreover have "theap_good env g ?w th" if "th \<in> T" for th using heap_invD(4) [OF inv that] by (simp add: theap_good_def)
  moreover have "feet_apart g ?w" using heap_invD(8) [OF inv] by (simp add: feet_apart_def same_poolD [OF pool])
  ultimately show ?thesis
    using heap_invD [OF inv] pm by (simp add: heap_inv_def same_poolD [OF pool])
qed

lemma requeued_push:
  assumes inv: "heap_inv env T g w" and th: "th \<in> T" and p: "p \<notin> pages_of g" "p \<noteq> 0"
    and w': "w' = on_queue th b (push_front p) w"
  shows "requeued g th b (p # gh_queue g th b) w w'" "same_pool w w'" "wd_pm w' = wd_pm w" "wd_tid w' = wd_tid w"
    "wd_links w' = wd_links w" "th_direct (wd_theaps w' t) = th_direct (wd_theaps w t)" "body (wd_pages w x) (wd_pages w' x)"
proof -
  have "p \<notin> set (gh_queue g th b)" using p(1) pages_ofI by blast
  note pf = push_front_list [OF theap_goodD(3) [OF heap_invD(4) [OF inv th], of b] p(2) this queue_short [OF inv]]
  obtain q ps where r: "push_front p (th_pages (wd_theaps w th) b, wd_pages w) = (q, ps)" by fastforce
  note e = on_queue_fields [of "push_front p", OF r, folded w']
  have b: "body (wd_pages w x) (ps x)" for x using push_front_body [of "wd_pages w" x p "th_pages (wd_theaps w th) b"] r by simp
  show "same_pool w w'" "wd_pm w' = wd_pm w" "wd_tid w' = wd_tid w" "wd_links w' = wd_links w"
    by (simp_all add: e same_pool_def)
  show "th_direct (wd_theaps w' t) = th_direct (wd_theaps w t)" by (simp add: e)
  show "body (wd_pages w x) (wd_pages w' x)" using b by (simp add: e)
  have "\<forall>q\<in>pages_of g. q \<noteq> p" using p(1) by blast
  then show "requeued g th b (p # gh_queue g th b) w w'"
    using pf b r by (auto simp: requeued_def e)
qed

lemma register_new:
  assumes pm: "pm_inv pm" and a: "arena_ok a" "in_unit a i n" and free: "\<And>x. unat x \<in> slice_bytes a i n \<Longrightarrow> lookup x pm = 0"
    and r: "register ok (slice_ptr a i) n page pm = (r, pm')"
  shows "pm_inv pm'" "lookup x pm' = (if r \<and> unat x \<in> slice_bytes a i n then page else lookup x pm)"
proof -
  note rg = slots_range [OF a(2)]
  have "slot pm u = 0" if u: "u \<in> window (pm_slice_index (slice_ptr a i)) n" for u
  proof -
    have b: "unat (ar_start a) + 65536 * ar_slice_count a < 2 ^ 64" using arena_okD(9) [OF a(1)] by simp
    have s: "unat (slice_ptr a i) = unat (ar_start a) + 65536 * i" using a(2) by (intro slice_ptr_unat [OF a(1)]) (simp add: in_unit_def)
    have "unat u < unat (slice_ptr a i) div 65536 + n" using u by (simp add: window_def unat_slice_index)
    then have "65536 * unat u < unat (slice_ptr a i) + 65536 * n" by linarith
    also have "\<dots> \<le> unat (ar_start a) + 65536 * ar_slice_count a" using a(2) s by (simp add: in_unit_def)
    finally have "65536 * unat u < 2 ^ 64" using b by linarith
    then have n: "unat (of_nat (65536 * unat u) :: ptr) = 65536 * unat u" by (rule unat_of_nat_small)
    then have e: "pm_slice_index (of_nat (65536 * unat u)) = u" by (intro word_unat_eq_iff [THEN iffD2]) (simp add: unat_slice_index del: of_nat_mult)
    then have "unat (of_nat (65536 * unat u) :: ptr) \<in> slice_bytes a i n"
      using u slices_window [OF a, of "of_nat (65536 * unat u)"] by simp
    from free [OF this] show ?thesis using e by (simp add: lookup_slot)
  qed
  then have un: "\<forall>w\<in>window (pm_slice_index (slice_ptr a i)) n. slot pm w = 0" by blast
  show "pm_inv pm'" "lookup x pm' = (if r \<and> unat x \<in> slice_bytes a i n then page else lookup x pm)"
  proof (atomize (full), cases r)
    case True
    then have r': "register ok (slice_ptr a i) n page pm = (True, pm')" using r by simp
    show "pm_inv pm' \<and> lookup x pm' = (if r \<and> unat x \<in> slice_bytes a i n then page else lookup x pm)"
      using pmap.reg_true [OF pm rg r'] pmap.look_reg [OF pm rg r', of x] True by (simp add: slices_window [OF a])
  next
    case False
    then have r': "register ok (slice_ptr a i) n page pm = (False, pm')" using r by simp
    show "pm_inv pm' \<and> lookup x pm' = (if r \<and> unat x \<in> slice_bytes a i n then page else lookup x pm)"
      using pmap.reg_false [OF pm rg r'] pmap.reg_failed [OF pm rg un r'] False by (simp add: lookup_slot)
  qed
qed

text \<open>Slices just claimed are clear of every page.\<close>

lemma new_slices:
  assumes inv: "heap_inv env T g w" and st: "pool_step env UNIV w w'" and got: "claimed env n w (ar, i, p, z) w'"
  shows "heap_inv env T g w'" "q \<in> pages_of g \<Longrightarrow> foot w' q (wd_pages w' q) \<inter> slice_bytes (wd_arenas w' ar) i n = {}"
    "unat x \<in> slice_bytes (wd_arenas w' ar) i n \<Longrightarrow> lookup x (wd_pm w') = 0"
    "ar \<in> set (wd_arena_list w')" "in_unit (wd_arenas w' ar) i n" "arena_ok (wd_arenas w' ar)" "p = slice_ptr (wd_arenas w' ar) i"
    "slice_bytes (wd_arenas w' ar) i n \<subseteq> used w'" "\<not> sy_hard (en_sys env) \<Longrightarrow> slice_bytes (wd_arenas w' ar) i n \<subseteq> accessible (wd_log w')"
proof -
  let ?S = "slice_bytes (wd_arenas w' ar) i n"
  have c: "ar \<in> set (wd_arena_list w')" "in_unit (wd_arenas w' ar) i n" "p = slice_ptr (wd_arenas w' ar) i" "?S \<inter> used w = {}"
      "used w' = used w \<union> ?S" "\<not> sy_hard (en_sys env) \<Longrightarrow> ?S \<subseteq> accessible (wd_log w')"
    using got by (simp_all add: claimed_def)
  then show "ar \<in> set (wd_arena_list w')" "in_unit (wd_arenas w' ar) i n" "p = slice_ptr (wd_arenas w' ar) i"
    "?S \<subseteq> used w'" "\<not> sy_hard (en_sys env) \<Longrightarrow> ?S \<subseteq> accessible (wd_log w')" by simp_all
  show inv': "heap_inv env T g w'" by (rule heap_inv_pool [OF inv st]) simp
  show "arena_ok (wd_arenas w' ar)" by (rule pool_arena(1) [OF heap_invD(1) [OF inv'] c(1)])
  have same: "wd_pages w' = wd_pages w" by (rule pool_stepD(8) [OF st])
  have sl: "page_slices w' (wd_pages w' q) \<inter> ?S = {}" "header_ok w' q (wd_pages w' q)" if q: "q \<in> pages_of g" for q
  proof -
    obtain th b where "q \<in> set (gh_queue g th b)" using q by (rule pages_ofE)
    then have h: "homed env w q (wd_pages w q)" "homed env w' q (wd_pages w' q)"
      using page_goodD(8) [OF heap_invD(7)] inv inv' by blast+
    then show "header_ok w' q (wd_pages w' q)" by (simp add: homed_def)
    have "page_slices w (wd_pages w q) \<subseteq> used w" using h(1) by (simp add: homed_def)
    moreover have "page_slices w' (wd_pages w q) = page_slices w (wd_pages w q)"
      using h(1) by (intro page_slices_step(1) [OF st]) (simp add: homed_def)
    ultimately show "page_slices w' (wd_pages w' q) \<inter> ?S = {}" using c(4) by (auto simp: same)
  qed
  have ext: "?S \<inter> regions (wd_meta w') = {}"
    using unit_extent [OF c(2)] pool_arena(3) [OF heap_invD(1) [OF inv'] c(1)] by blast
  show "foot w' q (wd_pages w' q) \<inter> ?S = {}" if q: "q \<in> pages_of g"
  proof (cases "is_huge (wd_pages w' q)")
    case True
    then have "block_bytes q 3 \<subseteq> regions (wd_meta w')" using sl(2) [OF q] by (simp add: header_ok_def holds_regions)
    then show ?thesis using sl(1) [OF q] ext unfolding foot_def by auto
  qed (use sl(1) [OF q] in \<open>simp add: foot_def\<close>)
  show "lookup x (wd_pm w') = 0" if x: "unat x \<in> ?S"
  proof (rule ccontr)
    assume "lookup x (wd_pm w') \<noteq> 0"
    then have q: "lookup x (wd_pm w') \<in> pages_of g" by (rule heap_invD(9) [OF inv'])
    then obtain th b where "lookup x (wd_pm w') \<in> set (gh_queue g th b)" by (rule pages_ofE)
    then have "unat x \<in> page_slices w' (wd_pages w' (lookup x (wd_pm w')))" using page_goodD(10) [OF heap_invD(7) [OF inv']] by blast
    then show False using sl(1) [OF q] x by blast
  qed
qed

lemma give_back:
  assumes env: "env_ok env" and inv: "heap_inv env T g w" and ar: "ar \<in> set (wd_arena_list w)" "in_unit (wd_arenas w ar) i n"
    and feet: "\<And>q. q \<in> pages_of g \<Longrightarrow> foot w q (wd_pages w q) \<inter> slice_bytes (wd_arenas w ar) i n = {}"
  shows "\<exists>w'. w_free_slices env ar i n w = Some w' \<and> quiet env T g w g w' \<and> pool_step env (- slice_bytes (wd_arenas w ar) i n) w w'"
proof -
  obtain w' where w': "w_free_slices env ar i n w = Some w'" "pool_step env (- slice_bytes (wd_arenas w ar) i n) w w'"
    using w_free_slices_step [OF env heap_invD(1) [OF inv] ar] by blast
  have "heap_inv env T g w'" using feet by (intro heap_inv_pool [OF inv w'(2)]) blast
  then show ?thesis using w' links_more [OF pool_stepD(9) [OF w'(2)]] by (simp add: quiet_def)
qed

lemma own_page_fields:
  assumes "tid_ok (th_tid t)" "b \<le> MI_BIN_HUGE"
  shows "core (own_page th t ar b pg) = core pg" "owner_tid (own_page th t ar b pg) = th_tid t" "pg_theap (own_page th t ar b pg) = th"
    "pg_arena (own_page th t ar b pg) = ar" "unat (pg_bin (own_page th t ar b pg)) = b"
    "pg_slice_index (own_page th t ar b pg) = pg_slice_index pg" "pg_slice_count (own_page th t ar b pg) = pg_slice_count pg"
    "is_owned (own_page th t ar b pg) = is_owned pg" "pg_block_size (own_page th t ar b pg) = pg_block_size pg"
    "all_blocks (own_page th t ar b pg) = all_blocks pg" "block_span (own_page th t ar b pg) = block_span pg"
proof -
  have a: "th_tid t AND MI_PAGE_FLAG_MASK = 0" using assms(1) by (simp add: tid_ok_def)
  have "\<not> (bit (th_tid t) n \<and> bit MI_PAGE_FLAG_MASK n)" for n using zero_bits [OF a, of n] by (simp add: bit_simps)
  then have "th_tid t AND NOT MI_PAGE_FLAG_MASK = th_tid t" by (intro bit_word_eqI) (auto simp: bit_simps)
  then show "owner_tid (own_page th t ar b pg) = th_tid t"
    by (simp add: own_page_def set_provenance_def set_owner_fresh_def owner_tid_def)
  have "unat (of_nat b :: u32) = b" using assms(2) by (simp add: mi_consts unat_of_nat take_bit_nat_eq_self)
  then show "unat (pg_bin (own_page th t ar b pg)) = b" by (simp add: own_page_def set_provenance_def)
qed (simp_all add: own_page_def set_provenance_def set_owner_fresh_def core_def is_owned_def all_blocks_def grid_def block_at_def
    block_span_def fun_eq_iff)

lemma on_queue_pm: "on_queue th b f (w\<lparr>wd_pm := pm\<rparr>) = (on_queue th b f w)\<lparr>wd_pm := pm\<rparr>"
  by (simp add: on_queue_def upd_theap_def split: prod.split)

text \<open>A header written at an address where no page is.\<close>

lemma fresh_header:
  assumes inv: "heap_inv env T g w" and home: "homed env w h pg"
    and feet: "\<And>q. q \<in> pages_of g \<Longrightarrow> foot w q (wd_pages w q) \<inter> foot w h pg = {}"
  shows "h \<notin> pages_of g" "h \<noteq> 0"
proof -
  note here = homed_extent(4,5) [OF heap_invD(1) [OF inv] home]
  have "unat q \<in> foot w q (wd_pages w q)" if "q \<in> pages_of g" for q
    using homed_extent(4) [OF heap_invD(1) [OF inv] page_goodD(8) [OF heap_invD(7) [OF inv]]] that by (blast elim: pages_ofE)
  then show "h \<notin> pages_of g" using feet here(1) by blast
  show "h \<noteq> 0" by (rule here(2))
qed

lemma stale_header:
  assumes inv: "heap_inv env T g w" and new: "h \<notin> pages_of g"
  shows "heap_inv env T g (w\<lparr>wd_pages := (wd_pages w)(h := pg)\<rparr>)"
proof (rule heap_inv_tweak [OF inv])
  let ?w = "w\<lparr>wd_pages := (wd_pages w)(h := pg)\<rparr>"
  show "core (wd_pages ?w q) = core (wd_pages w q) \<and> same_place (wd_pages w q) (wd_pages ?w q)
    \<and> (flagged (wd_pages w q) \<longrightarrow> flagged (wd_pages ?w q))" if "q \<in> pages_of g" for q
    using that new by auto
  show "direct_ok g t (th_direct (wd_theaps ?w t))" if "t \<in> T" for t
    using theap_goodD(4) [OF heap_invD(4) [OF inv that]] by simp
qed (simp_all add: same_pool_def)

text \<open>A page is entered into the map and its queue; \<open>f\<close> is what is done to its lists afterwards.\<close>

lemma install_page:
  assumes inv: "heap_inv env T g w" and th: "th \<in> T" and b: "b \<le> MI_BIN_HUGE"
    and slices: "ar \<in> set (wd_arena_list w)" "in_unit (wd_arenas w ar) i n" "arena_ok (wd_arenas w ar)"
      "slice_bytes (wd_arenas w ar) i n \<subseteq> used w" "\<not> sy_hard (en_sys env) \<Longrightarrow> slice_bytes (wd_arenas w ar) i n \<subseteq> accessible (wd_log w)"
      "\<And>x. unat x \<in> slice_bytes (wd_arenas w ar) i n \<Longrightarrow> lookup x (wd_pm w) = 0"
    and reg: "register (en_map_ok env) (slice_ptr (wd_arenas w ar) i) n h (wd_pm w) = (True, pm')"
    and pg: "pg = own_page th (wd_theaps w th) ar b pg0" "unat (pg_slice_index pg0) = i" "unat (pg_slice_count pg0) = n"
      "is_owned pg0" "\<And>x. x \<in> all_blocks pg0 \<Longrightarrow> block_span pg0 x \<subseteq> slice_bytes (wd_arenas w ar) i n"
      "b < MI_BIN_HUGE \<Longrightarrow> pg_block_size pg0 = bin_block_size b" "unat (pg_block_size pg0) = sz"
    and f: "\<And>q. same_header q (f q)" "\<And>q. core q = core pg \<Longrightarrow> page_live (en_enc env) (f q) (wd_links w) L"
    and head: "header_ok w h pg" and feet: "\<And>q. q \<in> pages_of g \<Longrightarrow> foot w q (wd_pages w q) \<inter> foot w h pg = {}"
    and w': "w1 = on_queue th b (push_front h) (w\<lparr>wd_pages := (wd_pages w)(h := pg), wd_pm := pm'\<rparr>)"
      "w' = w1\<lparr>wd_pages := (wd_pages w1)(h := f (wd_pages w1 h))\<rparr>"
  shows "heap_inv env T (with_page th b h sz L g) w'" "h \<notin> pages_of g" "wd_links w' = wd_links w" "wd_tid w' = wd_tid w"
proof -
  let ?a = "wd_arenas w ar"
  have tid: "tid_ok (th_tid (wd_theaps w th))" by (rule theap_goodD(2) [OF heap_invD(4) [OF inv th]])
  note own = own_page_fields [OF tid b, of th ar pg0, folded pg(1)]
  have sl: "page_slices w pg = slice_bytes ?a i n" by (simp add: page_slices_def own pg(2,3))
  have home: "homed env w h pg"
    using slices(1,2,4,5) head unfolding homed_def sl by (simp add: own pg(2,3))
  note new = fresh_header [OF inv home feet]
  show "h \<notin> pages_of g" by (rule new(1))
  define w0 where "w0 = w\<lparr>wd_pages := (wd_pages w)(h := pg)\<rparr>"
  have pool0: "same_pool w w0" by (simp add: w0_def same_pool_def)
  have inv0: "heap_inv env T g w0" unfolding w0_def by (rule stale_header [OF inv new(1)])
  note re = requeued_push [OF inv0 th new refl]
  have w1: "w1 = (on_queue th b (push_front h) w0)\<lparr>wd_pm := pm'\<rparr>"
    using on_queue_pm [of th b "push_front h" pm' w0] by (simp add: w'(1) w0_def)
  have w'1: "wd_pages w' x = (if x = h then f (wd_pages w1 h) else wd_pages w1 x)" "wd_links w' = wd_links w1" "wd_theaps w' = wd_theaps w1"
      "wd_pm w' = pm'" "wd_tid w' = wd_tid w1" for x
    by (simp_all add: w'(2) w1)
  have "wd_links w0 = wd_links w" "wd_tid w0 = wd_tid w" by (simp_all add: w0_def)
  then have w1f: "wd_pages w1 = wd_pages (on_queue th b (push_front h) w0)" "wd_links w1 = wd_links w" "wd_tid w1 = wd_tid w"
      "wd_theaps w1 = wd_theaps (on_queue th b (push_front h) w0)"
    by (simp_all add: w1 re(4,5))
  show "wd_links w' = wd_links w" "wd_tid w' = wd_tid w" by (simp_all add: w'1 w1f)
  have hb: "body pg (wd_pages w1 h)" using re(7) [of h b] by (simp add: w1f w0_def)
  have fh: "same_header (wd_pages w1 h) (wd_pages w' h)" using f(1) by (simp add: w'1)
  then have sh: "shape (wd_pages w' h) = shape pg" using hb by (simp add: same_header_def body_def)
  have pool: "same_pool w0 w'" using re(2) [of b] by (simp add: same_pool_def w'(2) w1)
  have requeue: "requeued g th b (h # gh_queue g th b) w0 w'"
  proof -
    have n: "q \<noteq> h" if "q \<in> pages_of g" for q using that new(1) by blast
    have "queue_is (q, wd_pages w') xs = queue_is (q, wd_pages w1) xs" for q xs
      using fh by (intro queue_cong) (simp add: w'1(1) same_header_def)
    then show ?thesis
      using re(1) [of b] n unfolding requeued_def by (simp add: w'1 w1f w0_def)
  qed
  note rn = register_new [OF heap_invD(3) [OF inv] slices(3,2,6) reg]
  have live: "page_live (en_enc env) (wd_pages w' h) (wd_links w0) L"
    using f(2) [of "wd_pages w1 h"] hb by (simp add: w'1(1) w0_def body_def)
  have o: "is_owned (wd_pages w' h)" "owner_tid (wd_pages w' h) = th_tid (wd_theaps w th)"
    using fh hb body_owned [OF hb] own(2,8) pg(4) by (simp_all add: same_header_def owner_tid_def body_def)
  note s = shapeD [OF sh] and ps = place_shape [OF sh]
  have fit: "fits w pg" unfolding fits_def sl by (simp add: own(10,11) pg(5))
  note add = add_page(1) [OF inv0 th b pool requeue]
  show "heap_inv env T (with_page th b h sz L g) w'"
  proof (rule add)
    show "th_direct (wd_theaps w' t) = th_direct (wd_theaps w0 t)" for t using re(6) [of b t] by (simp add: w'1 w1f)
    show "pm_inv (wd_pm w')" using rn(1) by (simp add: w'1)
    show "lookup x (wd_pm w') = (if unat x \<in> page_slices w0 (wd_pages w' h) then h else lookup x (wd_pm w0))" for x
    proof -
      have "page_slices w0 (wd_pages w' h) = slice_bytes (wd_arenas w ar) i n" "wd_pm w0 = wd_pm w"
        by (simp_all add: ps(1) sl same_poolD [OF pool0] del: w'1(1)) (simp add: w0_def)
      then show ?thesis using rn(2) by (simp add: w'1(4))
    qed
    show "page_live (en_enc env) (wd_pages w' h) (wd_links w0) L" "is_owned (wd_pages w' h)" by (rule live o)+
    show "owner_tid (wd_pages w' h) = th_tid (wd_theaps w0 th)" using o(2) by (simp add: w0_def)
    show "pg_theap (wd_pages w' h) = th" "unat (pg_bin (wd_pages w' h)) = b" "unat (pg_block_size (wd_pages w' h)) = sz"
      "b < MI_BIN_HUGE \<Longrightarrow> pg_block_size (wd_pages w' h) = bin_block_size b"
      by (simp_all add: s own pg(6,7))
    show "homed env w0 h (wd_pages w' h)" using home by (simp add: ps(3) same_poolD [OF pool0])
    show "fits w0 (wd_pages w' h)" using fit unfolding ps(4) by (simp add: fits_def same_poolD [OF pool0])
    show "foot w0 q (wd_pages w0 q) \<inter> foot w0 h (wd_pages w' h) = {}" if "q \<in> pages_of g" for q
    proof -
      have "wd_pages w0 q = wd_pages w q" using that new(1) by (auto simp: w0_def)
      then show ?thesis using feet [OF that] by (simp add: ps(2) same_poolD [OF pool0])
    qed
  qed
qed

lemma blocks_with:
  assumes "h \<notin> pages_of g"
  shows "blocks_of (with_page th b h sz L g) = blocks_of g \<union> {(x, sz, x \<in> gh_inner g) | x. x \<in> L}"
    "addrs (with_page th b h sz L g) = addrs g \<union> L"
proof -
  have f: "gh_size (with_page th b h sz L g) = (gh_size g)(h := sz)" "gh_live (with_page th b h sz L g) = (gh_live g)(h := L)"
      "gh_inner (with_page th b h sz L g) = gh_inner g"
    by (simp_all add: with_page_def)
  have old: "p \<in> pages_of g \<Longrightarrow> p \<noteq> h" for p using assms by blast
  show "blocks_of (with_page th b h sz L g) = blocks_of g \<union> {(x, sz, x \<in> gh_inner g) | x. x \<in> L}"
    unfolding blocks_of_def pages_with f using old by fastforce
  show "addrs (with_page th b h sz L g) = addrs g \<union> L"
    unfolding addrs_def pages_with f using old by fastforce
qed

lemma unit_small:
  assumes "arena_ok a" "in_unit a i n"
  shows "unat (of_nat i :: usize) = i" "unat (of_nat n :: usize) = n" "n \<le> 512" "0 < n"
    "slice_ptr a i \<noteq> 0" "65536 dvd unat (slice_ptr a i)" "unat (slice_ptr a i) + 65536 * n < 2 ^ 63"
    "slice_bytes a i n = {unat (slice_ptr a i) ..< unat (slice_ptr a i) + 65536 * n}"
proof -
  note k = arena_okD [OF assms(1)]
  have u: "0 < n" "i + n \<le> ar_slice_count a" "n \<le> 512" using assms(2) by (simp_all add: in_unit_def mi_consts)
  then have s: "unat (slice_ptr a i) = unat (ar_start a) + 65536 * i" by (intro slice_ptr_unat [OF assms(1)]) simp
  show "0 < n" "n \<le> 512" by (rule u)+
  then show "unat (of_nat n :: usize) = n" by (intro unat_of_nat_small) simp
  have "i \<le> 512 * 512" using u(2) k(5,6) by linarith
  then show "unat (of_nat i :: usize) = i" by (intro unat_of_nat_small) simp
  have "0 < unat (ar_start a)" using k(7) by (simp add: unat_gt_0)
  then show "slice_ptr a i \<noteq> 0" using s by auto
  show "65536 dvd unat (slice_ptr a i)" using k(8) s by simp
  show "unat (slice_ptr a i) + 65536 * n < 2 ^ 63" using k(9) u(2) s by simp
  show "slice_bytes a i n = {unat (slice_ptr a i) ..< unat (slice_ptr a i) + 65536 * n}" by (simp add: slice_bytes_def s algebra_simps)
qed

lemma new_page_keeps:
  assumes env: "env_ok env" and inv: "heap_inv env T g w" and th: "th \<in> T" and b: "b < MI_BIN_HUGE"
    and bs: "bs = bin_block_size b" "8 \<le> unat bs" "8 dvd unat bs" and n: "0 < n" "n \<le> 512"
  shows "\<exists>r w' g'. new_page env th b bs n w = Some (r, w') \<and> quiet env T g w g' w'
    \<and> (\<forall>p. r = Some p \<longrightarrow> p \<in> set (gh_queue g' th b) \<and> gh_live g' p = {})"
proof -
  let ?eager = "eager_commit (sy_vals (en_sys env))" and ?w1 = "snd (next_tseq th w)" and ?t = "fst (next_tseq th w)"
  note q1 = quiet_tseq [OF inv, of th]
  note inv1 = quietD(1) [OF q1]
  obtain got w2 where c: "sp_alloc_slices env n ?eager ?t ?w1 = Some (got, w2)" "claim_result env n ?w1 got w2"
    using sp_alloc_slices_step [OF env heap_invD(1) [OF inv1] n(1), of ?eager ?t] n(2) by (auto simp: mi_consts)
  have st: "pool_step env UNIV ?w1 w2" using c(2) by (simp add: claim_result_def)
  note q2 = quiet_trans [OF q1 quiet_pool [OF inv1 st]]
  show ?thesis
  proof (cases got)
    case None
    then show ?thesis using c(1) q2 by (auto simp: new_page_def case_prod_beta)
  next
    case (Some gt)
    obtain ar i p z where gt: "gt = (ar, i, p, z)" by (cases gt)
    have cl: "claimed env n ?w1 (ar, i, p, z) w2" using c(2) Some gt by (simp add: claim_result_def)
    note ns = new_slices [OF inv1 st cl]
    note us = unit_small [OF ns(6,5)]
    let ?a = "wd_arenas w2 ar" and ?t2 = "wd_theaps w2 th"
    define pg0 where "pg0 = init p (of_nat i) (of_nat n) bs (th_keys ?t2) z"
    define pg where "pg = own_page th ?t2 ar b pg0"
    obtain ok pm' where reg: "register (en_map_ok env) (slice_ptr ?a i) n p (wd_pm w2) = (ok, pm')" by fastforce
    let ?w3 = "w2\<lparr>wd_pages := (wd_pages w2)(p := pg), wd_pm := pm'\<rparr>"
    have run: "new_page env th b bs n w = (if \<not> ok then do { w \<leftarrow> w_free_slices env ar i n ?w3; Some (None, w) }
        else Some (Some p, on_queue th b (push_front p) ?w3))"
      using c(1) Some gt reg by (simp add: new_page_def case_prod_beta Let_def pg_def pg0_def ns(7))
    have keys: "keys_ok (en_enc env) (th_keys ?t2)" "tid_ok (th_tid ?t2)"
      using theap_goodD(1,2) [OF heap_invD(4) [OF ns(1) th]] by simp_all
    have blk: "pg_block_size pg0 = bs" "unat (pg_slice_index pg0) = i" "unat (pg_slice_count pg0) = n" "is_owned pg0"
      by (simp_all add: pg0_def init_def Let_def us(1,2) is_owned_def tf_is_owned_def TF_OWNED_def)
    have "(8 :: nat) dvd 65536" by simp
    then have p0: "p \<noteq> 0" "8 dvd unat p" using us(5) dvd_trans [OF _ us(6)] unfolding ns(7) by blast+
    have p1: "unat p + n * 65536 < 2 ^ 64" using us(7) unfolding ns(7) by simp
    have lnk: "linkable (en_enc env) (th_keys ?t2) x" if "unat x < unat p + n * 65536" "8 dvd unat x" for x
      using keys(1) that us(7) ns(7) by (simp add: keys_ok_def)
    have big: "unat (of_nat n :: usize) * 65536 < 2 ^ 32" using us(2,3) by simp
    have sc: "0 < (of_nat n :: usize)" using us(2) n(1) by (simp add: word_less_nat_alt)
    have live: "page_live (en_enc env) pg0 m {}" for m
      unfolding pg0_def by (rule init_live(1)) (use p0 p1 bs lnk us(2) sc big in simp_all)
    have at: "unat p + 144 \<le> unat (block_at pg0 j) \<and> unat (block_at pg0 j) + unat bs \<le> unat p + n * 65536"
      if "j < unat (pg_reserved pg0)" for j
      using that init_live(2) [of p "of_nat n" bs "en_enc env" "th_keys ?t2" j "of_nat i" z] p0 p1 bs lnk us(2) sc big
      unfolding pg0_def [symmetric] by simp
    have span: "block_span pg0 x \<subseteq> slice_bytes ?a i n" if x: "x \<in> all_blocks pg0" for x
    proof -
      obtain j where j: "j < unat (pg_reserved pg0)" "x = block_at pg0 j" using x by (auto simp: all_blocks_def grid_def)
      have "slice_bytes ?a i n = {unat p ..< unat p + n * 65536}" using us(8) ns(7) by (simp add: mult.commute)
      moreover have "unat p \<le> unat x" "unat x + unat bs \<le> unat p + n * 65536" using at [OF j(1)] j(2) by simp_all
      ultimately show ?thesis by (auto simp: block_span_def blk)
    qed
    have huge: "\<not> is_huge pg"
    proof -
      have "unat (pg_bin pg) = b" unfolding pg_def by (rule own_page_fields(5)) (use keys b in simp_all)
      then show ?thesis using b by (simp add: is_huge_def)
    qed
    note own = own_page_fields [OF keys(2) less_imp_le [OF b], of th ar pg0, folded pg_def]
    have foot: "foot w2 p pg = slice_bytes ?a i n" using huge by (simp add: foot_def page_slices_def own blk)
    have head: "header_ok w2 p pg" using huge by (simp add: header_ok_def own blk ns(7))
    have home: "homed env w2 p pg"
      using ns(4,5,8,9) head by (simp add: homed_def page_slices_def own blk)
    show ?thesis
    proof (cases ok)
      case True
      let ?w4 = "on_queue th b (push_front p) ?w3" and ?g = "with_page th b p (unat bs) {} g"
      have sh: "page_live (en_enc env) q (wd_links w2) {}" if "core q = core pg" for q
      proof -
        have "core q = core pg0" using that own(1) by simp
        from core_live [OF this] show ?thesis using live by simp
      qed
      have reg': "register (en_map_ok env) (slice_ptr ?a i) n p (wd_pm w2) = (True, pm')" using reg True by simp
      have w4: "?w4 = ?w4\<lparr>wd_pages := (wd_pages ?w4)(p := wd_pages ?w4 p)\<rparr>" by simp
      note inst = install_page [where f = "\<lambda>q. q", OF ns(1) th less_imp_le [OF b] ns(4-6) ns(8,9) ns(3) reg' pg_def blk(2-4) span _ _ _ sh head _ refl w4]
      have "heap_inv env T ?g ?w4 \<and> p \<notin> pages_of g \<and> wd_links ?w4 = wd_links w2 \<and> wd_tid ?w4 = wd_tid w2"
        using inst [of "unat bs"] ns(2) foot blk(1) bs(1) by simp
      then have "quiet env T g w2 ?g ?w4" using blocks_with(1) [of p g th b "unat bs" "{}"] by (simp add: quiet_def)
      moreover have "p \<in> set (gh_queue ?g th b) \<and> gh_live ?g p = {}" by (simp add: with_page_def)
      ultimately show ?thesis using run True quiet_trans [OF q2] by auto
    next
      case False
      have reg': "register (en_map_ok env) (slice_ptr ?a i) n p (wd_pm w2) = (False, pm')" using reg False by simp
      note rn = register_new [OF heap_invD(3) [OF ns(1)] ns(6,5,3) reg']
      have new: "p \<notin> pages_of g" by (rule fresh_header(1) [OF ns(1) home]) (use ns(2) foot in simp)
      have inv3: "heap_inv env T g ?w3"
        using heap_inv_pm [OF stale_header [OF ns(1) new, of pg] _, of pm'] rn by simp
      have feet3: "foot ?w3 q (wd_pages ?w3 q) \<inter> slice_bytes (wd_arenas ?w3 ar) i n = {}" if q: "q \<in> pages_of g" for q
      proof -
        have "foot ?w3 q (wd_pages ?w3 q) = foot w2 q (wd_pages w2 q)" using q new by (auto simp: foot_def page_slices_def)
        then show ?thesis using ns(2) [OF q] by simp
      qed
      have "ar \<in> set (wd_arena_list ?w3)" "in_unit (wd_arenas ?w3 ar) i n" using ns(4,5) by simp_all
      from give_back [OF env inv3 this feet3] obtain w4 where w4: "w_free_slices env ar i n ?w3 = Some w4" "quiet env T g ?w3 g w4"
        by blast
      have "quiet env T g w2 g ?w3" by (simp add: quiet_def inv3)
      from quiet_trans [OF q2 quiet_trans [OF this w4(2)]] show ?thesis using run False w4(1) by auto
    qed
  qed
qed

section \<open>Huge pages\<close>

text \<open>What an allocation of \<open>sz\<close> bytes does.\<close>

definition served :: "env \<Rightarrow> ptr set \<Rightarrow> nat \<Rightarrow> ghost \<Rightarrow> hworld \<Rightarrow> ptr option \<Rightarrow> ghost \<Rightarrow> hworld \<Rightarrow> bool" where
  "served env T sz g w r g' w' \<longleftrightarrow>
    (case r of
       None \<Rightarrow> quiet env T g w g' w'
     | Some b \<Rightarrow> heap_inv env T g' w' \<and> b \<notin> addrs g \<and> (\<exists>n\<ge>sz. blocks_of g' = insert (b, n, False) (blocks_of g))
         \<and> undisturbed (blocks_of g) w w' \<and> wd_tid w' = wd_tid w)"

lemma served_None [simp]: "served env T sz g w None g' w' \<longleftrightarrow> quiet env T g w g' w'"
  by (simp add: served_def)

lemma served_after: "quiet env T g w g1 w1 \<Longrightarrow> served env T sz g1 w1 r g' w' \<Longrightarrow> served env T sz g w r g' w'"
  by (cases r) (auto simp: served_def addrs_blocks quiet_def intro: undisturbed_trans)

lemma slices_not_live:
  assumes inv: "heap_inv env T g w" and feet: "\<And>q. q \<in> pages_of g \<Longrightarrow> foot w q (wd_pages w q) \<inter> S = {}" and x: "unat x \<in> S"
  shows "x \<notin> addrs g" "x \<notin> gh_inner g"
proof -
  show a: "x \<notin> addrs g"
  proof
    assume "x \<in> addrs g"
    then obtain q where q: "q \<in> pages_of g" "x \<in> gh_live g q" by (auto simp: addrs_def)
    have "unat x \<in> foot w q (wd_pages w q)" using live_place(2) [OF inv q] by (simp add: foot_def)
    then show False using feet [OF q(1)] x by blast
  qed
  then show "x \<notin> gh_inner g" using heap_invD(10) [OF inv] by (auto simp: inner_ok_def addrs_def)
qed

lemma meta_give_back:
  assumes inv: "heap_inv env T g w" and h: "holds (wd_meta w) 3 h" "\<forall>ar\<in>set (wd_arena_list w). block_bytes ar 3 \<inter> block_bytes h 3 = {}"
    and feet: "\<And>q. q \<in> pages_of g \<Longrightarrow> foot w q (wd_pages w q) \<inter> block_bytes h 3 = {}"
  shows "\<exists>w'. w_meta_free h sizeof_page w = Some w' \<and> quiet env T g w g w'"
proof -
  have n: "(3 :: nat) = nat_div_ceil (unat sizeof_page) 64" by (simp add: sizeof_page_def nat_div_ceil_def)
  obtain w' where w': "w_meta_free h sizeof_page w = Some w'" "pool_step env (- block_bytes h 3) w w'"
    using w_meta_free_step [OF heap_invD(1) [OF inv] h(1) n _ h(2)] by auto
  have "heap_inv env T g w'" using feet by (intro heap_inv_pool [OF inv w'(2)]) blast
  then show ?thesis using w' links_more [OF pool_stepD(9) [OF w'(2)]] by (simp add: quiet_def)
qed

lemma huge_sizes:
  assumes "0 < unat sz" "unat sz \<le> 2 ^ 25" and bs: "bs = align_up sz (of_nat MI_MAX_ALIGN_SIZE)"
    and n: "n = unat (align_up bs (of_nat MI_ARENA_SLICE_SIZE) div of_nat MI_ARENA_SLICE_SIZE)"
  shows "unat sz \<le> unat bs" "8 \<le> unat bs" "8 dvd unat bs" "0 < n" "n \<le> 512" "unat bs \<le> n * 65536"
proof -
  have b: "unat bs = nat_div_ceil (unat sz) 16 * 16" unfolding bs using assms(2) by (subst align_up_unat) (simp_all add: mi_consts)
  have c: "nat_div_ceil (unat sz) 16 \<le> 2097152" using assms(2) by (intro nat_div_ceil_least) simp_all
  then have b25: "unat bs \<le> 33554432" using b by simp
  show s: "unat sz \<le> unat bs" using nat_div_ceil_le [of 16 "unat sz"] b by simp
  have "0 < nat_div_ceil (unat sz) 16" using s b assms(1) by (cases "nat_div_ceil (unat sz) 16") auto
  then show "8 \<le> unat bs" "8 dvd unat bs" using b by simp_all
  have "unat (align_up bs 65536) = nat_div_ceil (unat bs) 65536 * 65536" using b25 by (subst align_up_unat) simp_all
  then have n': "n = nat_div_ceil (unat bs) 65536" by (simp add: n mi_consts unat_div)
  show nb: "unat bs \<le> n * 65536" unfolding n' by (rule nat_div_ceil_le) simp
  then show "0 < n" using s assms(1) by (cases n) auto
  show "n \<le> 512" unfolding n' using b25 by (intro nat_div_ceil_least) simp_all
qed

text \<open>The part of \<open>alloc_huge\<close> after the header has been allocated.\<close>

lemma place_huge:
  assumes env: "env_ok env" and inv: "heap_inv env T g w" and th: "th \<in> T"
    and slices: "ar \<in> set (wd_arena_list w)" "in_unit (wd_arenas w ar) i n" "arena_ok (wd_arenas w ar)"
      "slice_bytes (wd_arenas w ar) i n \<subseteq> used w" "\<not> sy_hard (en_sys env) \<Longrightarrow> slice_bytes (wd_arenas w ar) i n \<subseteq> accessible (wd_log w)"
      "\<And>x. unat x \<in> slice_bytes (wd_arenas w ar) i n \<Longrightarrow> lookup x (wd_pm w) = 0" "p = slice_ptr (wd_arenas w ar) i"
    and feetS: "\<And>q. q \<in> pages_of g \<Longrightarrow> foot w q (wd_pages w q) \<inter> slice_bytes (wd_arenas w ar) i n = {}"
    and h: "holds (wd_meta w) 3 h" "\<forall>ar\<in>set (wd_arena_list w). block_bytes ar 3 \<inter> block_bytes h 3 = {}"
    and feetH: "\<And>q. q \<in> pages_of g \<Longrightarrow> foot w q (wd_pages w q) \<inter> block_bytes h 3 = {}"
    and bs: "sz \<le> unat bs" "8 \<le> unat bs" "8 dvd unat bs" "unat bs \<le> n * 65536"
    and pg: "pg = own_page th (wd_theaps w th) ar MI_BIN_HUGE (init_huge p (of_nat i) (of_nat n) bs (th_keys (wd_theaps w th)) z)"
    and reg: "register (en_map_ok env) p n h (wd_pm w) = (ok, pm')"
    and w1: "w1 = w\<lparr>wd_pages := (wd_pages w)(h := pg), wd_pm := pm'\<rparr>"
    and w2: "w2 = on_queue th MI_BIN_HUGE (push_front h) w1"
  shows "ok \<Longrightarrow> \<exists>g'. served env T sz g w (Some (fst (serve_huge (wd_pages w2 h)))) g'
      (w2\<lparr>wd_pages := (wd_pages w2)(h := snd (serve_huge (wd_pages w2 h)))\<rparr>)"
    "\<not> ok \<Longrightarrow> \<exists>w4 w5. w_free_slices env ar i n w1 = Some w4 \<and> w_meta_free h sizeof_page w4 = Some w5 \<and> quiet env T g w g w5"
proof -
  let ?a = "wd_arenas w ar" and ?t = "wd_theaps w th" and ?S = "slice_bytes (wd_arenas w ar) i n"
  let ?pg0 = "init_huge p (of_nat i) (of_nat n) bs (th_keys ?t) z" and ?f = "\<lambda>q. snd (serve_huge q)"
  note us = unit_small [OF slices(3,2)]
  have keys: "keys_ok (en_enc env) (th_keys ?t)" "tid_ok (th_tid ?t)"
    using theap_goodD(1,2) [OF heap_invD(4) [OF inv th]] by simp_all
  note own = own_page_fields [OF keys(2) order_refl, of th ar ?pg0, folded pg]
  have blk: "pg_block_size ?pg0 = bs" "unat (pg_slice_index ?pg0) = i" "unat (pg_slice_count ?pg0) = n" "is_owned ?pg0"
    by (simp_all add: init_huge_def us(1,2) is_owned_def tf_is_owned_def TF_OWNED_def)
  have all: "all_blocks ?pg0 = {p}" by (simp add: all_blocks_def grid_def block_at_def init_huge_def)
  have S: "?S = {unat p ..< unat p + n * 65536}" using us(8) slices(7) by (simp add: mult.commute)
  have span: "block_span ?pg0 x \<subseteq> ?S" if "x \<in> all_blocks ?pg0" for x
    using that bs(4) unfolding all S by (auto simp: block_span_def blk)
  have huge: "is_huge pg" using own(5) by (simp add: is_huge_def)
  have foot: "foot w h pg = ?S \<union> block_bytes h 3" using huge by (simp add: foot_def page_slices_def own blk)
  have head: "header_ok w h pg" using huge h by (simp add: header_ok_def)
  have home: "homed env w h pg" using slices(1,2,4,5) head by (simp add: homed_def page_slices_def own blk)
  have feet: "foot w q (wd_pages w q) \<inter> foot w h pg = {}" if "q \<in> pages_of g" for q
    using feetS [OF that] feetH [OF that] unfolding foot by blast
  have "(8 :: nat) dvd 65536" by simp
  then have p: "p \<noteq> 0" "8 dvd unat p" using us(5) dvd_trans [OF _ us(6)] unfolding slices(7) by blast+
  have p1: "unat p + n * 65536 < 2 ^ 63" using us(7) unfolding slices(7) by simp
  then have lnk: "linkable (en_enc env) (th_keys ?t) p" using keys(1) p(2) by (simp add: keys_ok_def)
  have live: "page_live (en_enc env) (?f ?pg0) m {p}" for m
    using huge_live(1) [OF p _ bs(2,3) lnk, of "of_nat i" "of_nat n" z m] p1 bs(4) by simp
  have sv: "same_header q (?f q)" for q
    by (simp add: serve_huge_def same_header_def shape_def is_owned_def)
  have pl: "page_live (en_enc env) (?f q) (wd_links w) {p}" if "core q = core pg" for q
  proof -
    have "core (?f q) = core (?f ?pg0)" using that own(1) by (simp add: serve_huge_def core_def)
    from core_live [OF this] show ?thesis using live by simp
  qed
  show "\<exists>g'. served env T sz g w (Some (fst (serve_huge (wd_pages w2 h)))) g' (w2\<lparr>wd_pages := (wd_pages w2)(h := ?f (wd_pages w2 h))\<rparr>)" if ok
  proof -
    let ?w = "w2\<lparr>wd_pages := (wd_pages w2)(h := ?f (wd_pages w2 h))\<rparr>" and ?g = "with_page th MI_BIN_HUGE h (unat bs) {p} g"
    have reg': "register (en_map_ok env) (slice_ptr ?a i) n h (wd_pm w) = (True, pm')" using reg that slices(7) by simp
    note inst = install_page [where f = ?f, OF inv th order_refl slices(1-6) reg' pg blk(2-4) span _ _ sv pl head feet w2 [unfolded w1] refl]
    have i: "heap_inv env T ?g ?w" "h \<notin> pages_of g" "wd_links ?w = wd_links w" "wd_tid ?w = wd_tid w"
      using inst [of "unat bs"] blk(1) by simp_all
    have pS: "unat p \<in> ?S" using us(4) by (simp add: S)
    note nl = slices_not_live [OF inv feetS pS]
    have b: "blocks_of ?g = insert (p, unat bs, False) (blocks_of g)" using blocks_with(1) [OF i(2)] nl(2) by simp
    have "pg_page_start (wd_pages w2 h) = p"
    proof -
      have "body (wd_pages w1 h) (wd_pages w2 h)" 
        using push_front_body [of "wd_pages w1" h h "th_pages (wd_theaps w1 th) MI_BIN_HUGE"]
        by (simp add: w2 on_queue_def upd_theap_def split: prod.split) fastforce
      then show ?thesis using own(1) by (simp add: w1 body_def core_def init_huge_def)
    qed
    then have "fst (serve_huge (wd_pages w2 h)) = p" by (simp add: serve_huge_def)
    then have "served env T sz g w (Some (fst (serve_huge (wd_pages w2 h)))) ?g ?w"
      using i b nl(1) bs(1) by (auto simp: served_def)
    then show ?thesis ..
  qed
  show "\<exists>w4 w5. w_free_slices env ar i n w1 = Some w4 \<and> w_meta_free h sizeof_page w4 = Some w5 \<and> quiet env T g w g w5" if "\<not> ok"
  proof -
    have reg': "register (en_map_ok env) (slice_ptr ?a i) n h (wd_pm w) = (False, pm')" using reg that slices(7) by simp
    note rn = register_new [OF heap_invD(3) [OF inv] slices(3,2,6) reg']
    have new: "h \<notin> pages_of g" by (rule fresh_header(1) [OF inv home feet])
    have inv1: "heap_inv env T g w1" using heap_inv_pm [OF stale_header [OF inv new, of pg] _, of pm'] rn by (simp add: w1)
    have f1: "foot w1 q (wd_pages w1 q) = foot w q (wd_pages w q)" if "q \<in> pages_of g" for q
      using that new by (auto simp: w1 foot_def page_slices_def)
    have "ar \<in> set (wd_arena_list w1)" "in_unit (wd_arenas w1 ar) i n" using slices(1,2) by (simp_all add: w1)
    moreover have "foot w1 q (wd_pages w1 q) \<inter> slice_bytes (wd_arenas w1 ar) i n = {}" if "q \<in> pages_of g" for q
      using f1 [OF that] feetS [OF that] by (simp add: w1)
    ultimately obtain w4 where w4: "w_free_slices env ar i n w1 = Some w4" "quiet env T g w1 g w4"
        "pool_step env (- slice_bytes (wd_arenas w1 ar) i n) w1 w4"
      using give_back [OF env inv1] by blast
    have ext: "block_bytes h 3 \<subseteq> - slice_bytes (wd_arenas w1 ar) i n"
      using holds_regions [OF h(1)] unit_extent [OF slices(2)] pool_arena(3) [OF heap_invD(1) [OF inv] slices(1)] by (auto simp: w1)
    have h1: "holds (wd_meta w1) 3 h" "\<forall>ar\<in>set (wd_arena_list w1). block_bytes ar 3 \<inter> block_bytes h 3 = {}" using h by (simp_all add: w1)
    note h4 = header_apart_step [OF w4(3) h1 ext]
    have "foot w4 q (wd_pages w4 q) \<inter> block_bytes h 3 = {}" if q: "q \<in> pages_of g" for q
    proof -
      obtain t c where "q \<in> set (gh_queue g t c)" using q by (rule pages_ofE)
      then have "pg_arena (wd_pages w1 q) \<in> set (wd_arena_list w1)" using page_goodD(8) [OF heap_invD(7) [OF inv1]] by (auto simp: homed_def)
      then have "foot w4 q (wd_pages w4 q) = foot w1 q (wd_pages w1 q)"
        using page_slices_step(2) [OF w4(3)] pool_stepD(8) [OF w4(3)] by simp
      then show ?thesis using feetH [OF q] f1 [OF q] by simp
    qed
    then obtain w5 where w5: "w_meta_free h sizeof_page w4 = Some w5" "quiet env T g w4 g w5"
      using meta_give_back [OF quietD(1) [OF w4(2)] h4] by blast
    have "quiet env T g w g w1" using inv1 by (simp add: quiet_def w1)
    then show ?thesis using w4(1) w5 quiet_trans [OF w4(2) w5(2)] quiet_trans by blast
  qed
qed

lemma alloc_huge_keeps:
  assumes env: "env_ok env" and inv: "heap_inv env T g w" and th: "th \<in> T" and sz: "0 < unat sz" "unat sz \<le> 2 ^ 25"
  shows "\<exists>r w' g'. alloc_huge env th sz w = Some (r, w') \<and> served env T (unat sz) g w r g' w'"
proof -
  let ?eager = "eager_commit (sy_vals (en_sys env))" and ?w1 = "snd (next_tseq th w)" and ?t = "fst (next_tseq th w)"
  define bs where "bs = align_up sz (of_nat MI_MAX_ALIGN_SIZE)"
  define n where "n = unat (align_up bs (of_nat MI_ARENA_SLICE_SIZE) div of_nat MI_ARENA_SLICE_SIZE)"
  note hs = huge_sizes [OF sz bs_def n_def]
  note q1 = quiet_tseq [OF inv, of th]
  note inv1 = quietD(1) [OF q1]
  obtain got w2 where c: "sp_alloc_slices env n ?eager ?t ?w1 = Some (got, w2)" "claim_result env n ?w1 got w2"
    using sp_alloc_slices_step [OF env heap_invD(1) [OF inv1] hs(4), of ?eager ?t] hs(5) by (auto simp: mi_consts)
  have st: "pool_step env UNIV ?w1 w2" using c(2) by (simp add: claim_result_def)
  note q2 = quiet_trans [OF q1 quiet_pool [OF inv1 st]]
  show ?thesis
  proof (cases got)
    case None
    have "alloc_huge env th sz w = Some (None, w2)" using c(1) None by (simp add: alloc_huge_def case_prod_beta Let_def bs_def [symmetric] n_def [symmetric])
    then show ?thesis using q2 by auto
  next
    case (Some gt)
    obtain ar i p z where gt: "gt = (ar, i, p, z)" by (cases gt)
    have cl: "claimed env n ?w1 (ar, i, p, z) w2" using c(2) Some gt by (simp add: claim_result_def)
    note ns = new_slices [OF inv1 st cl]
    let ?S = "slice_bytes (wd_arenas w2 ar) i n"
    obtain hdr w3 where m: "w_meta_zalloc env sizeof_page w2 = Some (hdr, w3)" "pool_step env UNIV w2 w3" "used w3 = used w2"
        "wd_arena_list w3 = wd_arena_list w2" "wd_arenas w3 = wd_arenas w2"
        "\<forall>h. hdr = Some h \<longrightarrow> holds (wd_meta w3) 3 h \<and> (\<forall>m q. holds (wd_meta w2) m q \<longrightarrow> block_bytes q m \<inter> block_bytes h 3 = {})"
      using w_meta_zalloc_step [OF env heap_invD(1) [OF ns(1)], of sizeof_page 3] by (auto simp: sizeof_page_def nat_div_ceil_def)
    note q3 = quiet_trans [OF q2 quiet_pool [OF ns(1) m(2)]]
    note inv3 = quietD(1) [OF q3]
    have same3: "wd_links w3 = wd_links w2" "wd_pm w3 = wd_pm w2" "wd_theaps w3 = wd_theaps w2" "wd_pages w3 = wd_pages w2" "wd_tid w3 = wd_tid w2"
      using links_more [OF pool_stepD(9) [OF m(2)]] pool_stepD(8) [OF m(2)] by simp_all
    have in2: "homed env w2 q (wd_pages w2 q)" if "q \<in> pages_of g" for q
      using page_goodD(8) [OF heap_invD(7) [OF ns(1)]] that by (blast elim: pages_ofE)
    have foot3: "foot w3 q (wd_pages w3 q) = foot w2 q (wd_pages w2 q)" for q by (simp add: same3 foot_def page_slices_def m(5))
    have feetS: "foot w3 q (wd_pages w3 q) \<inter> slice_bytes (wd_arenas w3 ar) i n = {}" if "q \<in> pages_of g" for q
      using ns(2) [OF that] by (simp add: foot3 m(5))
    have acc3: "slice_bytes (wd_arenas w3 ar) i n \<subseteq> accessible (wd_log w3)" if "\<not> sy_hard (en_sys env)"
      using ns(8) ns(9) [OF that] pool_stepD(5) [OF m(2)] unfolding m(5) by blast
    have S3: "ar \<in> set (wd_arena_list w3)" "in_unit (wd_arenas w3 ar) i n" "arena_ok (wd_arenas w3 ar)"
        "slice_bytes (wd_arenas w3 ar) i n \<subseteq> used w3" "p = slice_ptr (wd_arenas w3 ar) i"
      using ns(4-8) by (simp_all add: m(3-5))
    have un3: "lookup x (wd_pm w3) = 0" if "unat x \<in> slice_bytes (wd_arenas w3 ar) i n" for x
      using ns(3) that by (simp add: same3 m(5))
    show ?thesis
    proof (cases hdr)
      case None
      have run: "alloc_huge env th sz w = do { w \<leftarrow> w_free_slices env ar i n w3; Some (None, w) }"
        using c(1) Some gt m(1) None by (simp add: alloc_huge_def case_prod_beta Let_def bs_def [symmetric] n_def [symmetric])
      obtain w4 where "w_free_slices env ar i n w3 = Some w4" "quiet env T g w3 g w4"
        using give_back [OF env inv3 S3(1,2) feetS] by blast
      then show ?thesis using run quiet_trans [OF q3] by auto
    next
      case hs': (Some h)
      have h: "holds (wd_meta w3) 3 h" "holds (wd_meta w2) m q \<Longrightarrow> block_bytes q m \<inter> block_bytes h 3 = {}" for m q
        using m(6) hs' by simp_all
      have apart: "\<forall>ar\<in>set (wd_arena_list w3). block_bytes ar 3 \<inter> block_bytes h 3 = {}"
        using h(2) pool_arena(4) [OF heap_invD(1) [OF ns(1)]] by (simp add: m(4))
      have feetH: "foot w3 q (wd_pages w3 q) \<inter> block_bytes h 3 = {}" if q: "q \<in> pages_of g" for q
      proof -
        have "homed env w3 q (wd_pages w3 q)" using q page_goodD(8) [OF heap_invD(7) [OF inv3]] by (blast elim: pages_ofE)
        then have "page_slices w3 (wd_pages w3 q) \<inter> block_bytes h 3 = {}"
          using homed_extent(2) [OF heap_invD(1) [OF inv3]] holds_regions [OF h(1)] by blast
        moreover have "block_bytes q 3 \<inter> block_bytes h 3 = {}" if "is_huge (wd_pages w3 q)"
          using h(2) in2 [OF q] that by (simp add: homed_def header_ok_def same3)
        ultimately show ?thesis by (auto simp: foot_def)
      qed
      define pg where "pg = own_page th (wd_theaps w3 th) ar MI_BIN_HUGE (init_huge p (of_nat i) (of_nat n) bs (th_keys (wd_theaps w3 th)) z)"
      obtain ok pm' where reg: "register (en_map_ok env) p n h (wd_pm w3) = (ok, pm')" by fastforce
      define w4 where "w4 = w3\<lparr>wd_pages := (wd_pages w3)(h := pg), wd_pm := pm'\<rparr>"
      define w5 where "w5 = on_queue th MI_BIN_HUGE (push_front h) w4"
      note pl = place_huge [OF env inv3 th S3(1-4) acc3 un3 S3(5) feetS h(1) apart feetH hs(1-3) hs(6) pg_def reg w4_def w5_def]
      have run: "alloc_huge env th sz w = (if \<not> ok then do { w \<leftarrow> w_free_slices env ar i n w4; w \<leftarrow> w_meta_free h sizeof_page w; Some (None, w) }
          else Some (Some (fst (serve_huge (wd_pages w5 h))), w5\<lparr>wd_pages := (wd_pages w5)(h := snd (serve_huge (wd_pages w5 h)))\<rparr>))"
        using c(1) Some gt m(1) hs' reg
        by (simp add: alloc_huge_def case_prod_beta Let_def bs_def [symmetric] n_def [symmetric] pg_def [symmetric] w4_def [symmetric] w5_def [symmetric])
      show ?thesis
      proof (cases ok)
        case True
        then obtain g' where "served env T (unat sz) g w3 (Some (fst (serve_huge (wd_pages w5 h)))) g'
            (w5\<lparr>wd_pages := (wd_pages w5)(h := snd (serve_huge (wd_pages w5 h)))\<rparr>)" using pl(1) by blast
        from served_after [OF q3 this] show ?thesis using run True by auto
      next
        case False
        then obtain w6 w7 where "w_free_slices env ar i n w4 = Some w6" "w_meta_free h sizeof_page w6 = Some w7" "quiet env T g w3 g w7"
          using pl(2) by blast
        then show ?thesis using run False quiet_trans [OF q3] by auto
      qed
    qed
  qed
qed

section \<open>Allocation\<close>

lemma served_mono: "served env T m g w r g' w' \<Longrightarrow> n \<le> m \<Longrightarrow> served env T n g w r g' w'"
  by (cases r) (simp, auto simp: served_def intro: le_trans)

lemma served_then:
  assumes "served env T sz g w r g1 w1" "quiet env T g1 w1 g' w'"
  shows "served env T sz g w r g' w'"
proof (cases r)
  case None
  then show ?thesis using assms quiet_trans by simp
next
  case (Some b)
  note q = quietD [OF assms(2)]
  obtain n where n: "b \<notin> addrs g" "n \<ge> sz" "blocks_of g1 = insert (b, n, False) (blocks_of g)"
      "undisturbed (blocks_of g) w w1" "wd_tid w1 = wd_tid w"
    using assms(1) Some by (auto simp: served_def)
  have "undisturbed (blocks_of g) w1 w'" by (rule undisturbed_mono [OF q(3)]) (auto simp: n(3))
  with n(4) have "undisturbed (blocks_of g) w w'" by (rule undisturbed_trans)
  moreover have "\<exists>n\<ge>sz. blocks_of g' = insert (b, n, False) (blocks_of g)" using n(2,3) q(2) by auto
  ultimately show ?thesis using Some q(1,4) n(1,5) by (simp add: served_def)
qed

lemma page_alloc_keeps:
  assumes inv: "heap_inv env T g w" and p: "p \<in> pages_of g"
  shows "\<exists>r w' g'. page_alloc env p w = Some (r, w') \<and> served env T (gh_size g p) g w r g' w'
    \<and> gh_queue g' = gh_queue g \<and> gh_size g' = gh_size g"
proof -
  obtain r pg' m' L' where a: "alloc (en_enc env) (wd_pages w p) (wd_links w) = Some (r, pg', m')"
      "page_step (en_enc env) (wd_pages w p, wd_links w) (pg', m') (gh_live g p) L'" "alloc_outcome (wd_pages w p) (gh_live g p) r L'"
    using alloc_live [OF page_lives [OF inv p]] by blast
  let ?w = "w\<lparr>wd_pages := (wd_pages w)(p := pg'), wd_links := m'\<rparr>"
  have run: "page_alloc env p w = Some (r, ?w)" by (simp add: page_alloc_def on_page_def a(1))
  show ?thesis
  proof (cases r)
    case None
    then have "L' = gh_live g p" using a(3) by (simp add: alloc_outcome_def)
    then have "quiet env T g w g ?w" using quiet_page_op [OF inv p] a(2) by simp
    then show ?thesis using run None by auto
  next
    case (Some b)
    let ?g = "g\<lparr>gh_live := (gh_live g)(p := L'), gh_inner := gh_inner g\<rparr>"
    have b: "b \<in> all_blocks (wd_pages w p)" "b \<notin> gh_live g p" "L' = insert b (gh_live g p)"
      using a(3) Some by (simp_all add: alloc_outcome_def)
    have fresh: "b \<notin> gh_live g q" if q: "q \<in> pages_of g" for q
      using blocks_apart [OF inv p q b(1) live_place(1) [OF inv q]] b(2) by blast
    then have new: "b \<notin> addrs g" by (auto simp: addrs_def)
    then have inner: "b \<notin> gh_inner g" using heap_invD(10) [OF inv] by (auto simp: inner_ok_def addrs_def)
    have inv': "heap_inv env T ?g ?w"
      by (rule page_op [OF inv p a(2) order_refl _ _ refl refl]) (use b inner in auto)
    have same: "pages_of ?g = pages_of g" by (simp add: pages_of_def)
    have "blocks_of ?g = insert (b, gh_size g p, False) (blocks_of g)"
      using p inner unfolding blocks_of_def same by (auto simp: b(3))
    moreover have "undisturbed (blocks_of g) w ?w"
      by (rule step_undisturbed [OF inv p a(2) order_refl]) (simp_all add: b(3))
    ultimately have "served env T (gh_size g p) g w (Some b) ?g ?w" using inv' new by (auto simp: served_def)
    moreover have "gh_queue ?g = gh_queue g" "gh_size ?g = gh_size g" by simp_all
    ultimately show ?thesis using run Some by blast
  qed
qed

text \<open>The block size of a bin.\<close>

lemma bin_room:
  assumes "8 \<le> unat sz" "bin sz < MI_BIN_HUGE" "bs = bin_block_size (bin sz)"
  shows "8 \<le> unat bs" "8 dvd unat bs" "unat sz \<le> unat bs" "8 * unat (wsize_from_size sz) \<le> unat bs"
    "0 < page_slices_for bs" "page_slices_for bs \<le> 512"
proof -
  let ?w = "nat_div_ceil (unat sz) 8"
  have b: "bin sz = bin_words ?w" by (rule bin_bin_words)
  have le: "unat sz \<le> ?w * 8" by (rule nat_div_ceil_le) simp
  have w: "1 \<le> ?w" "?w \<le> 65536"
    using le assms(1,2) bin_words_huge [of ?w] by (auto simp: b mi_consts not_le [symmetric])
  obtain v where v: "?w \<le> v" "v \<le> 65536" "bin_block_size (bin_words ?w) = words v"
    using block_size_of_bin [OF w] by metis
  have "unat bs = v * 8" using v(2,3) assms(3) by (simp add: b unat_words)
  then show "8 \<le> unat bs" "8 dvd unat bs" "unat sz \<le> unat bs" "8 * unat (wsize_from_size sz) \<le> unat bs"
    using v(1) w(1) le by (simp_all add: unat_wsize)
  show "0 < page_slices_for bs" "page_slices_for bs \<le> 512" by (simp_all add: page_slices_for_def)
qed

lemma page_size_bin:
  assumes "heap_inv env T g w" "p \<in> set (gh_queue g th b)" "b < MI_BIN_HUGE"
  shows "gh_size g p = unat (bin_block_size b)"
  using page_goodD(6,7) [OF heap_invD(7) [OF assms(1,2)]] assms(3) by simp

lemma direct_entry:
  assumes inv: "heap_inv env T g w" and p: "p \<in> set (gh_queue g th b)" and sz: "8 * i \<le> gh_size g p"
  shows "quiet env T g w g (upd_theap th (\<lambda>t. t\<lparr>th_direct := (th_direct t)(i := p)\<rparr>) w)"
proof (rule quiet_theap [OF inv])
  have "direct_ok g th (th_direct (wd_theaps w th))"
    by (rule theap_goodD(4) [OF heap_invD(4) [OF inv heap_invD(5) [OF inv p]]])
  then show "direct_ok g th (th_direct ((wd_theaps w th)\<lparr>th_direct := (th_direct (wd_theaps w th))(i := p)\<rparr>))"
    using p sz by (auto simp: direct_ok_def)
qed (simp add: same_theap_def)

text \<open>The page of the right bin serves the request, and is remembered for the next one.\<close>

lemma bin_page_serves:
  assumes inv: "heap_inv env T g w" and p: "p \<in> set (gh_queue g th b)" and b: "b = bin sz" "b < MI_BIN_HUGE" "8 \<le> unat sz"
    and i: "i = unat (wsize_from_size sz)"
  shows "\<exists>r w' g'. page_alloc env p w = Some (r, w') \<and> gh_queue g' = gh_queue g \<and> served env T (unat sz) g w r g' w'
    \<and> served env T (unat sz) g w r g' (upd_theap th (\<lambda>t. t\<lparr>th_direct := (th_direct t)(i := p)\<rparr>) w')"
proof -
  obtain r w1 g1 where a: "page_alloc env p w = Some (r, w1)" "served env T (gh_size g p) g w r g1 w1"
      "gh_queue g1 = gh_queue g" "gh_size g1 = gh_size g"
    using page_alloc_keeps [OF inv pages_ofI [OF p]] by blast
  have s: "gh_size g p = unat (bin_block_size b)" by (rule page_size_bin [OF inv p b(2)])
  note room = bin_room [OF b(3) b(2) [unfolded b(1)] refl]
  have sv: "served env T (unat sz) g w r g1 w1" using served_mono [OF a(2)] room(3) s b(1) by simp
  have "heap_inv env T g1 w1" using a(2) by (cases r) (auto simp: served_def quiet_def)
  then have "quiet env T g1 w1 g1 (upd_theap th (\<lambda>t. t\<lparr>th_direct := (th_direct t)(i := p)\<rparr>) w1)"
    by (rule direct_entry [of env T g1 w1 p th b]) (use p a(3,4) s room(4) b(1) i in simp_all)
  then show ?thesis using a(1,3) sv served_then [OF sv] by blast
qed

lemma alloc_generic_keeps:
  assumes env: "env_ok env" and inv: "heap_inv env T g w" and th: "th \<in> T" and sz: "8 \<le> unat sz" "unat sz \<le> 2 ^ 25"
    and i: "i = unat (wsize_from_size sz)"
  shows "\<exists>r w' g'. alloc_generic env th sz i w = Some (r, w') \<and> served env T (unat sz) g w r g' w'"
proof (cases "bin sz \<ge> MI_BIN_HUGE")
  case True
  then show ?thesis using alloc_huge_keeps [OF env inv th _ sz(2)] sz(1) by (simp add: alloc_generic_def)
next
  case False
  let ?b = "bin sz" and ?bs = "bin_block_size (bin sz)"
  have b: "?b < MI_BIN_HUGE" using False by simp
  note room = bin_room [OF sz(1) b refl]
  have fresh: "\<exists>r w' g'. new_page env th ?b ?bs (page_slices_for ?bs) v = Some (r, w') \<and> quiet env T h v g' w'
    \<and> (\<forall>p. r = Some p \<longrightarrow> p \<in> set (gh_queue g' th ?b))" if "heap_inv env T h v" for h v
    using new_page_keeps [OF env that th b refl room(1,2,5,6)] by blast
  obtain r1 w1 where f: "find_free_page env th ?b w = Some (r1, w1)" "quiet env T g w g w1"
      "\<forall>p. r1 = Some p \<longrightarrow> p \<in> set (gh_queue g th ?b)"
    using find_free_page_keeps [OF inv th] by blast
  let ?get = "case r1 of Some p \<Rightarrow> Some (Some p, w1)
    | None \<Rightarrow> do { w \<leftarrow> collect_retired env th False w1; new_page env th ?b ?bs (page_slices_for ?bs) w }"
  have "\<exists>r2 w2 g2. ?get = Some (r2, w2) \<and> quiet env T g w g2 w2 \<and> (\<forall>p. r2 = Some p \<longrightarrow> p \<in> set (gh_queue g2 th ?b))"
  proof (cases r1)
    case (Some p)
    then show ?thesis using f by auto
  next
    case None
    obtain w' g' where c: "collect_retired env th False w1 = Some w'" "quiet env T g w1 g' w'"
      using collect_retired_keeps [OF env quietD(1) [OF f(2)] th] by blast
    obtain r2 w2 g2 where n: "new_page env th ?b ?bs (page_slices_for ?bs) w' = Some (r2, w2)" "quiet env T g' w' g2 w2"
        "\<forall>p. r2 = Some p \<longrightarrow> p \<in> set (gh_queue g2 th ?b)"
      using fresh [OF quietD(1) [OF c(2)]] by blast
    show ?thesis
      using None c(1) n(1,3) quiet_trans [OF f(2) quiet_trans [OF c(2) n(2)]] by auto
  qed
  then obtain r2 w2 g2 where g2: "?get = Some (r2, w2)" "quiet env T g w g2 w2" "\<forall>p. r2 = Some p \<longrightarrow> p \<in> set (gh_queue g2 th ?b)"
    by blast
  note inv2 = quietD(1) [OF g2(2)]
  let ?set = "\<lambda>p w. if i \<le> MI_SMALL_WSIZE_MAX then upd_theap th (\<lambda>t. t\<lparr>th_direct := (th_direct t)(i := p)\<rparr>) w else w"
  show ?thesis
  proof (cases r2)
    case None
    then have "alloc_generic env th sz i w = Some (None, w2)" using False f(1) g2(1) by (simp add: alloc_generic_def Let_def)
    then show ?thesis using g2(2) by auto
  next
    case (Some p)
    have p: "p \<in> set (gh_queue g2 th ?b)" using g2(3) Some by simp
    obtain r3 w3 g3 where a: "page_alloc env p w2 = Some (r3, w3)" "gh_queue g3 = gh_queue g2" "served env T (unat sz) g2 w2 r3 g3 w3"
        "served env T (unat sz) g2 w2 r3 g3 (upd_theap th (\<lambda>t. t\<lparr>th_direct := (th_direct t)(i := p)\<rparr>) w3)"
      using bin_page_serves [OF inv2 p refl b sz(1) i] by blast
    show ?thesis
    proof (cases r3)
      case blk: (Some x)
      have "alloc_generic env th sz i w = Some (Some x, ?set p w3)"
        using False f(1) g2(1) Some a(1) blk by (simp add: alloc_generic_def Let_def)
      moreover have "served env T (unat sz) g w (Some x) g3 (?set p w3)"
        using served_after [OF g2(2)] a(3,4) blk by auto
      ultimately show ?thesis by blast
    next
      case None
      have q3: "quiet env T g w g3 w3" using quiet_trans [OF g2(2)] a(3) None by simp
      obtain r4 w4 g4 where n: "new_page env th ?b ?bs (page_slices_for ?bs) w3 = Some (r4, w4)" "quiet env T g3 w3 g4 w4"
          "\<forall>p. r4 = Some p \<longrightarrow> p \<in> set (gh_queue g4 th ?b)"
        using fresh [OF quietD(1) [OF q3]] by blast
      note q4 = quiet_trans [OF q3 n(2)]
      show ?thesis
      proof (cases r4)
        case None4: None
        then have "alloc_generic env th sz i w = Some (None, w4)"
          using False f(1) g2(1) Some a(1) None n(1) by (simp add: alloc_generic_def Let_def)
        then show ?thesis using q4 by auto
      next
        case Some4: (Some p')
        have p': "p' \<in> set (gh_queue g4 th ?b)" using n(3) Some4 by simp
        obtain r5 w5 g5 where a5: "page_alloc env p' w4 = Some (r5, w5)" "served env T (unat sz) g4 w4 r5 g5 w5"
            "served env T (unat sz) g4 w4 r5 g5 (upd_theap th (\<lambda>t. t\<lparr>th_direct := (th_direct t)(i := p')\<rparr>) w5)"
          using bin_page_serves [OF quietD(1) [OF q4] p' refl b sz(1) i] by blast
        have "alloc_generic env th sz i w = Some (r5, case r5 of Some _ \<Rightarrow> ?set p' w5 | None \<Rightarrow> w5)"
          using False f(1) g2(1) Some a(1) None n(1) Some4 a5(1) by (simp add: alloc_generic_def Let_def split: option.split)
        moreover have "served env T (unat sz) g w r5 g5 (case r5 of Some _ \<Rightarrow> ?set p' w5 | None \<Rightarrow> w5)"
          using served_after [OF q4 a5(2)] served_after [OF q4 a5(3)] by (auto split: option.split)
        ultimately show ?thesis by blast
      qed
    qed
  qed
qed

text \<open>Every request of up to 32 MiB returns, with a block of its own or none.\<close>

lemma theap_alloc_keeps:
  assumes env: "env_ok env" and inv: "heap_inv env T g w" and th: "th \<in> T" and sz: "unat sz \<le> 2 ^ 25"
  shows "\<exists>r w' g'. theap_alloc env th sz w = Some (r, w') \<and> served env T (max 8 (unat sz)) g w r g' w'"
proof -
  let ?sz = "max sz 8" and ?i = "unat (wsize_from_size (max sz 8))"
  have u: "unat ?sz = max 8 (unat sz)" by (simp add: max_def word_le_nat_alt)
  have r: "8 \<le> unat ?sz" "unat ?sz \<le> 2 ^ 25" using sz by (simp_all add: u)
  have i: "unat ?sz \<le> 8 * ?i" unfolding unat_wsize using nat_div_ceil_le [of 8 "unat ?sz"] by simp
  define p where "p = (if ?i \<le> MI_SMALL_WSIZE_MAX then th_direct (wd_theaps w th) ?i else 0)"
  have d: "direct_ok g th (th_direct (wd_theaps w th))" by (rule theap_goodD(4) [OF heap_invD(4) [OF inv th]])
  have "\<exists>r w1 g1. (if p \<noteq> 0 then page_alloc env p w else Some (None, w)) = Some (r, w1) \<and> served env T (unat ?sz) g w r g1 w1"
  proof (cases "p = 0")
    case True
    then show ?thesis using quiet_refl [OF inv] by auto
  next
    case False
    then have q: "p \<in> pages_of g" "8 * ?i \<le> gh_size g p"
      using d by (auto simp: p_def direct_ok_def split: if_splits intro: pages_ofI)
    obtain r w1 g1 where a: "page_alloc env p w = Some (r, w1)" "served env T (gh_size g p) g w r g1 w1"
      using page_alloc_keeps [OF inv q(1)] by blast
    have "served env T (unat ?sz) g w r g1 w1" using served_mono [OF a(2)] i q(2) by simp
    then show ?thesis using a(1) False by auto
  qed
  then obtain r1 w1 g1 where f: "(if p \<noteq> 0 then page_alloc env p w else Some (None, w)) = Some (r1, w1)" "served env T (unat ?sz) g w r1 g1 w1"
    by blast
  have c: "of_nat MI_INTPTR_SIZE = (8 :: usize)" by (simp add: mi_consts)
  have run: "theap_alloc env th sz w = (case r1 of Some b \<Rightarrow> Some (Some b, w1) | None \<Rightarrow> alloc_generic env th ?sz ?i w1)"
    unfolding theap_alloc_def c Let_def p_def [symmetric] f(1) by simp
  show ?thesis
  proof (cases r1)
    case (Some x)
    then have "theap_alloc env th sz w = Some (Some x, w1)" using run by simp
    then show ?thesis using f(2) Some u by auto
  next
    case None
    then have q1: "quiet env T g w g1 w1" using f(2) by simp
    obtain r w' g' where a: "alloc_generic env th ?sz ?i w1 = Some (r, w')" "served env T (unat ?sz) g1 w1 r g' w'"
      using alloc_generic_keeps [OF env quietD(1) [OF q1] th r refl] by blast
    have "theap_alloc env th sz w = Some (r, w')" using run None a(1) by simp
    then show ?thesis using served_after [OF q1 a(2)] u by auto
  qed
qed

section \<open>Freeing\<close>

definition freed :: "env \<Rightarrow> ptr set \<Rightarrow> ptr \<Rightarrow> ghost \<Rightarrow> hworld \<Rightarrow> ghost \<Rightarrow> hworld \<Rightarrow> bool" where
  "freed env T b g w g' w' \<longleftrightarrow> heap_inv env T g' w' \<and> blocks_of g' = {x \<in> blocks_of g. fst x \<noteq> b}
    \<and> undisturbed (blocks_of g') w w' \<and> wd_tid w' = wd_tid w"

lemma freed_then: 
  assumes "freed env T b g w g1 w1" "quiet env T g1 w1 g' w'"
  shows "freed env T b g w g' w'"
proof -
  note q = quietD [OF assms(2)]
  have "undisturbed (blocks_of g1) w w'" using assms(1) q(3) undisturbed_trans by (auto simp: freed_def)
  then show ?thesis using assms(1) q by (simp add: freed_def)
qed

text \<open>A block leaves a page.\<close>

lemma page_frees:
  assumes inv: "heap_inv env T g w" and p: "p \<in> pages_of g" and b: "b \<in> gh_live g p"
    and st: "page_step (en_enc env) (wd_pages w p, wd_links w) (pg', m') (gh_live g p) (gh_live g p - {b})"
    and g': "g' = g\<lparr>gh_live := (gh_live g)(p := gh_live g p - {b}), gh_inner := gh_inner g - {b}\<rparr>"
  shows "freed env T b g w g' (w\<lparr>wd_pages := (wd_pages w)(p := pg'), wd_links := m'\<rparr>)"
proof -
  let ?w = "w\<lparr>wd_pages := (wd_pages w)(p := pg'), wd_links := m'\<rparr>"
  have inv': "heap_inv env T g' ?w"
    by (rule page_op [OF inv p st _ _ _ refl g']) auto
  have other: "b \<notin> gh_live g q" if "q \<in> pages_of g" "q \<noteq> p" for q
    using blocks_apart [OF inv p that(1) live_place(1) [OF inv p b] live_place(1) [OF inv that(1)]] that(2) by blast
  have same: "pages_of g' = pages_of g" by (simp add: g' pages_of_def)
  have left: "blocks_of g' = {x \<in> blocks_of g. fst x \<noteq> b}"
  proof -
    have "c \<in> gh_live g' q \<longleftrightarrow> c \<in> gh_live g q \<and> c \<noteq> b" if "q \<in> pages_of g" for q c
      using other [OF that] by (auto simp: g')
    moreover have "c \<noteq> b \<Longrightarrow> c \<in> gh_inner g' \<longleftrightarrow> c \<in> gh_inner g" "gh_size g' = gh_size g" for c by (simp_all add: g')
    ultimately have "(c, k, i) \<in> blocks_of g' \<longleftrightarrow> (c, k, i) \<in> blocks_of g \<and> c \<noteq> b" for c k i
      unfolding blocks_iff same by auto
    then show ?thesis by auto
  qed
  moreover have "undisturbed (blocks_of g') w ?w"
    by (rule step_undisturbed [OF inv p st]) (auto simp: left)
  ultimately show ?thesis using inv' by (simp add: freed_def)
qed

lemma owner_free_keeps:
  assumes env: "env_ok env" and inv: "heap_inv env T g w" and p: "p \<in> set (gh_queue g th b)" and x: "x \<in> gh_live g p"
  shows "\<exists>w' g'. owner_free env x p w = Some (Free_Done, w') \<and> freed env T x g w g' w'"
proof -
  note pq = pages_ofI [OF p]
  note live = page_lives [OF inv pq]
  obtain pg' m' where f: "free_local (en_enc env) x (wd_pages w p) (wd_links w) = (pg', m')" by fastforce
  note fl = free_local_live [OF live x f]
  let ?g = "g\<lparr>gh_live := (gh_live g)(p := gh_live g p - {x}), gh_inner := gh_inner g - {x}\<rparr>"
  let ?w = "w\<lparr>wd_pages := (wd_pages w)(p := pg'), wd_links := m'\<rparr>"
  have fr: "freed env T x g w ?g ?w" by (rule page_frees [OF inv pq x fl(1) refl])
  have "check_block env (wd_pages w p) (wd_links w) x = Some Free_Done"
    using listed_live [OF live x] by (simp add: check_block_def)
  then have run: "owner_free env x p w = (if is_all_free pg' then map_option (Pair Free_Done) (retire_page env p ?w) else Some (Free_Done, ?w))"
    by (simp add: owner_free_def f)
  show ?thesis
  proof (cases "is_all_free pg'")
    case False
    then show ?thesis using run fr by auto
  next
    case True
    have inv': "heap_inv env T ?g ?w" using fr by (simp add: freed_def)
    have "gh_live ?g p = {}" using fl(2) [OF True] by simp
    moreover have "p \<in> set (gh_queue ?g th b)" using p by simp
    ultimately obtain w' g' where r: "retire_page env p ?w = Some w'" "quiet env T ?g ?w g' w'"
      using retire_page_keeps [OF env inv'] by blast
    then show ?thesis using run True freed_then [OF fr r(2)] by auto
  qed
qed

lemma foreign_free_keeps:
  assumes inv: "heap_inv env T g w" and p: "p \<in> set (gh_queue g th b)" and x: "x \<in> gh_live g p"
    and push: "thread_free_push (en_enc env) x (wd_pages w p) (wd_links w) = (won, pg', m')"
  shows "\<not> won" "\<exists>g'. freed env T x g w g' (w\<lparr>wd_pages := (wd_pages w)(p := pg'), wd_links := m'\<rparr>)"
proof -
  note pq = pages_ofI [OF p]
  note pl = push_live [OF page_lives [OF inv pq] x push page_goodD(2) [OF heap_invD(7) [OF inv p]]]
  show "\<not> won" by (rule pl(2))
  show "\<exists>g'. freed env T x g w g' (w\<lparr>wd_pages := (wd_pages w)(p := pg'), wd_links := m'\<rparr>)"
    using page_frees [OF inv pq x pl(1) refl] by blast
qed

lemma current_tid_inv:
  assumes "heap_inv env T g w" "current_tid w = (tid, w')"
  shows "heap_inv env T g w'" "wd_links w' = wd_links w" "wd_pages w' = wd_pages w" "wd_pm w' = wd_pm w"
proof -
  have w': "w' = w \<or> w' = w\<lparr>wd_next_tid := wd_next_tid w + 1, wd_tid := push_bit 2 (wd_next_tid w)\<rparr>"
    using assms(2) by (auto simp: current_tid_def Let_def split: if_splits)
  then show "wd_links w' = wd_links w" "wd_pages w' = wd_pages w" "wd_pm w' = wd_pm w" by auto
  show "heap_inv env T g w'"
    by (rule heap_inv_tweak [OF assms(1)]) (use w' theap_goodD(4) [OF heap_invD(4) [OF assms(1)]] in \<open>auto simp: same_pool_def\<close>)
qed

text \<open>
  Freeing any address of a block, if the program got an interior pointer to it, and else its start:
  the block is found and freed, by its owner or by another thread.
\<close>

lemma heap_free_keeps:
  assumes env: "env_ok env" and inv: "heap_inv env T g w" and tid: "wd_tid w AND MI_PAGE_FLAG_MASK = 0"
    and b: "(b, n, i) \<in> blocks_of g" and q: "unat b \<le> unat q" "unat q < unat b + n" "q = b \<or> i"
  shows "\<exists>w' g'. heap_free env q w = Some (Free_Done, w') \<and> freed env T b g (w\<lparr>wd_tid := wd_tid w'\<rparr>) g' w' \<and> wd_tid w' AND MI_PAGE_FLAG_MASK = 0"
proof -
  obtain p where p: "p \<in> pages_of g" "b \<in> gh_live g p" "n = gh_size g p" "i \<longleftrightarrow> b \<in> gh_inner g"
    using b by (auto simp: blocks_of_def)
  obtain th bn where qu: "p \<in> set (gh_queue g th bn)" using p(1) by (rule pages_ofE)
  let ?pg = "wd_pages w p"
  note pg = heap_invD(7) [OF inv qu]
  note ba = live_place(1) [OF inv p(1,2)]
  have n: "n = unat (pg_block_size ?pg)" using page_goodD(6) [OF pg] p(3) by simp
  have "unat q \<in> block_span ?pg b" using q(1,2) n by (simp add: block_span_def)
  then have look: "lookup q (wd_pm w) = p" using block_place(2) [OF inv p(1) ba] page_goodD(10) [OF pg] by blast
  have p0: "p \<noteq> 0" by (rule page_nonzero [OF inv p(1)])
  obtain tid' w1 where t: "current_tid w = (tid', w1)" by fastforce
  note c = current_tid_inv [OF inv t]
  have tid1: "wd_tid w1 = tid'" "tid' AND MI_PAGE_FLAG_MASK = 0" "w1 = w\<lparr>wd_tid := tid', wd_next_tid := wd_next_tid w1\<rparr>"
    using t current_tid_flags [OF tid t] by (auto simp: current_tid_def Let_def split: if_splits)
  obtain j where j: "j < unat (pg_reserved ?pg)" "b = block_at ?pg j" using ba by (auto simp: all_blocks_def grid_def)
  have rec: "recover_block_start ?pg q (pg_block_size ?pg) = b"
    using recover_block [OF live_geometry [OF page_goodD(1) [OF pg]] j(1), of q "unat q - unat b"] q(1,2) n j(2) by simp
  have "flagged ?pg" if "b \<in> gh_inner g" using heap_invD(10) [OF inv] p(1,2) that by (auto simp: inner_ok_def)
  then have start: "(if xthread_id_raw ?pg AND MI_PAGE_FLAG_MASK \<noteq> 0 then recover_block_start ?pg q (pg_block_size ?pg) else q) = b"
    using q(3) p(4) rec by (auto simp: flagged_def xthread_id_raw_def)
  have run: "heap_free env q w = (if owner_tid ?pg = tid' then owner_free env b p w1
      else case thread_free_push (en_enc env) b ?pg (wd_links w1) of (won, pg, m) \<Rightarrow>
        (let w = w1\<lparr>wd_pages := (wd_pages w1)(p := pg), wd_links := m\<rparr>
         in if won then map_option (Pair Free_Done) (free_try_collect_mt env p b w) else Some (Free_Done, w)))"
    using p0 by (simp only: heap_free_reference [OF tid] free_reference_def look t c(3) Let_def split_conv start if_False)
  have "\<exists>w' g'. heap_free env q w = Some (Free_Done, w') \<and> freed env T b g w1 g' w'"
  proof (cases "owner_tid ?pg = tid'")
    case True
    then show ?thesis using run owner_free_keeps [OF env c(1) qu p(2)] by simp
  next
    case False
    obtain won pg' m' where push: "thread_free_push (en_enc env) b ?pg (wd_links w1) = (won, pg', m')" by (cases "thread_free_push (en_enc env) b ?pg (wd_links w1)") 
    note ff = foreign_free_keeps [OF c(1) qu p(2), unfolded c(3), OF push]
    have "heap_free env q w = Some (Free_Done, w1\<lparr>wd_pages := (wd_pages w)(p := pg'), wd_links := m'\<rparr>)"
      using run False push ff(1) by (simp add: c(3))
    then show ?thesis using ff(2) by blast
  qed
  then obtain w' g' where f: "heap_free env q w = Some (Free_Done, w')" "freed env T b g w1 g' w'" by blast
  have "wd_tid w' = tid'" using f(2) tid1(1) by (simp add: freed_def)
  moreover from this f(2) have "freed env T b g (w\<lparr>wd_tid := wd_tid w'\<rparr>) g' w'" by (simp add: freed_def undisturbed_def c(2))
  ultimately show ?thesis using f(1) tid1(2) by blast
qed

end
