(* ===== verification/MiHeapCalls.thy ===== *)
theory MiHeapCalls
  imports MiHeapOps
begin

unbundle bit_operations_syntax

text \<open>
  \<^verbatim>\<open>src/heap.rs\<close>: the calls of a program on a thread heap other than the plain allocation and free:
  aligned and zeroed allocation, and the collection of a heap.
\<close>

section \<open>Soundness of the blocks\<close>

lemma block_in:
  assumes inv: "heap_inv env T g w" and b: "(b, n, i) \<in> blocks_of g"
  obtains p th bn where "p \<in> set (gh_queue g th bn)" "b \<in> gh_live g p" "b \<in> all_blocks (wd_pages w p)" "n = unat (pg_block_size (wd_pages w p))"
    "span b n \<subseteq> page_slices w (wd_pages w p)" "span b n = block_span (wd_pages w p) b" "i \<longleftrightarrow> b \<in> gh_inner g"
    "lookup b (wd_pm w) = p"
proof -
  obtain p where p: "p \<in> pages_of g" "b \<in> gh_live g p" "n = gh_size g p" "i \<longleftrightarrow> b \<in> gh_inner g"
    using b by (auto simp: blocks_iff)
  obtain th bn where q: "p \<in> set (gh_queue g th bn)" using p(1) by (rule pages_ofE)
  note ba = live_place(1) [OF inv p(1,2)]
  have n: "n = unat (pg_block_size (wd_pages w p))" using page_goodD(6) [OF heap_invD(7) [OF inv q]] p(3) by simp
  have s: "span b n = block_span (wd_pages w p) b" by (simp add: span_def block_span_def n)
  show thesis
    by (rule that [OF q p(2) ba n _ s p(4) block_place(3) [OF inv p(1) ba]]) (use s block_place(2) [OF inv p(1) ba] in simp)
qed

lemma block_facts:
  assumes inv: "heap_inv env T g w" and x: "(b, n, i) \<in> blocks_of g"
  shows "b \<noteq> 0" "8 dvd unat b" "8 \<le> n" "8 dvd n" "unat b + n \<le> 2 ^ 63"
    "\<not> sy_hard (en_sys env) \<Longrightarrow> span b n \<subseteq> accessible (wd_log w)"
proof -
  obtain p th bn where p: "p \<in> set (gh_queue g th bn)" "b \<in> gh_live g p" "b \<in> all_blocks (wd_pages w p)"
      "n = unat (pg_block_size (wd_pages w p))" "span b n \<subseteq> page_slices w (wd_pages w p)"
    by (rule block_in [OF inv x])
  note home = page_goodD(8) [OF heap_invD(7) [OF inv p(1)]] and live = page_goodD(1) [OF heap_invD(7) [OF inv p(1)]]
  show n: "8 \<le> n" "8 dvd n" using live_geometry [OF live] p(4) by (simp_all add: page_geometry_def)
  obtain j where j: "j < unat (pg_reserved (wd_pages w p))" "b = block_at (wd_pages w p) j"
      "unat b = unat (pg_page_start (wd_pages w p)) + j * unat (pg_block_size (wd_pages w p))"
    by (rule live_block [OF live p(3)])
  show "b \<noteq> 0" unfolding j(2) by (rule block_at_nonzero [OF live_geometry [OF live] j(1)])
  show "8 dvd unat b" by (rule block_place(4) [OF inv pages_ofI [OF p(1)] p(3)])
  let ?a = "wd_arenas w (pg_arena (wd_pages w p))"
  have "pg_arena (wd_pages w p) \<in> set (wd_arena_list w)" using home by (simp add: homed_def)
  then have "unat (ar_start ?a) + 65536 * ar_slice_count ?a < 2 ^ 63"
    using arena_okD(9) [OF pool_arena(1) [OF heap_invD(1) [OF inv]]] by blast
  moreover have "unat b + n - 1 \<in> span b n" using n by (simp add: span_def)
  then have "unat b + n - 1 \<in> extent ?a" using homed_extent(1) [OF heap_invD(1) [OF inv] home] p(5) by blast
  then have "unat b + n - 1 < unat (ar_start ?a) + 65536 * ar_slice_count ?a" by (simp add: extent_def slice_bytes_def)
  ultimately show "unat b + n \<le> 2 ^ 63" using n by linarith
  show "span b n \<subseteq> accessible (wd_log w)" if "\<not> sy_hard (en_sys env)" using home p(5) that unfolding homed_def by blast
qed

lemma blocks_disjoint:
  assumes inv: "heap_inv env T g w" and b: "(b, n, i) \<in> blocks_of g" and c: "(c, k, j) \<in> blocks_of g"
  shows "b = c \<Longrightarrow> n = k \<and> i = j" "b \<noteq> c \<Longrightarrow> span b n \<inter> span c k = {}"
proof -
  obtain p th bn where p: "p \<in> set (gh_queue g th bn)" "b \<in> gh_live g p" "b \<in> all_blocks (wd_pages w p)"
      "n = unat (pg_block_size (wd_pages w p))" "span b n \<subseteq> page_slices w (wd_pages w p)"
      "span b n = block_span (wd_pages w p) b" "i \<longleftrightarrow> b \<in> gh_inner g" "lookup b (wd_pm w) = p"
    by (rule block_in [OF inv b])
  obtain q th' bn' where q: "q \<in> set (gh_queue g th' bn')" "c \<in> gh_live g q" "c \<in> all_blocks (wd_pages w q)"
      "k = unat (pg_block_size (wd_pages w q))" "span c k \<subseteq> page_slices w (wd_pages w q)"
      "span c k = block_span (wd_pages w q) c" "j \<longleftrightarrow> c \<in> gh_inner g" "lookup c (wd_pm w) = q"
    by (rule block_in [OF inv c])
  show "n = k \<and> i = j" if "b = c" using that p(4,7,8) q(4,7,8) by simp
  show "span b n \<inter> span c k = {}" if ne: "b \<noteq> c"
  proof (cases "p = q")
    case True
    note live = page_goodD(1) [OF heap_invD(7) [OF inv p(1)]]
    show ?thesis unfolding p(6) q(6) True
      by (rule spans_disjoint [OF live [unfolded True] p(3) [unfolded True] q(3) ne])
  next
    case other: False
    have "foot w p (wd_pages w p) \<inter> foot w q (wd_pages w q) = {}"
      using heap_invD(8) [OF inv] pages_ofI [OF p(1)] pages_ofI [OF q(1)] other by (simp add: feet_apart_def)
    then show ?thesis using p(5) q(5) unfolding foot_def by blast
  qed
qed

lemma blocks_eq:
  assumes "heap_inv env T g w" "x \<in> blocks_of g" "y \<in> blocks_of g" "y \<noteq> x"
  shows "fst y \<noteq> fst x"
proof -
  obtain b n i where x: "x = (b, n, i)" by (cases x)
  obtain c k j where y: "y = (c, k, j)" by (cases y)
  have "b = c \<Longrightarrow> n = k \<and> i = j" by (rule blocks_disjoint(1) [OF assms(1) assms(2,3) [unfolded x y]])
  then show ?thesis using assms(4) unfolding x y by auto
qed

section \<open>Aligned allocation\<close>

lemma interior_flag:
  "flagged (set_has_interior pg)" "owner_tid (set_has_interior pg) = owner_tid pg" "core (set_has_interior pg) = core pg"
  "same_place pg (set_has_interior pg)"
proof -
  have m: "MI_PAGE_FLAG_MASK = mask 2" by (simp add: mi_consts mask_eq_exp_minus_1)
  have f: "MI_PAGE_HAS_INTERIOR_POINTERS = push_bit 1 1" by (simp add: mi_consts)
  have "bit ((pg_xthread_id pg OR MI_PAGE_HAS_INTERIOR_POINTERS) AND MI_PAGE_FLAG_MASK) 1" by (simp add: m f bit_simps)
  then have "(pg_xthread_id pg OR MI_PAGE_HAS_INTERIOR_POINTERS) AND MI_PAGE_FLAG_MASK \<noteq> 0" using zero_bits by metis
  then show "flagged (set_has_interior pg)" by (simp add: flagged_def set_has_interior_def)
  show o: "owner_tid (set_has_interior pg) = owner_tid pg"
    unfolding owner_tid_def set_has_interior_def m f by (simp, intro bit_word_eqI) (auto simp: bit_simps)
  show "core (set_has_interior pg) = core pg" by (simp add: core_def set_has_interior_def)
  show "same_place pg (set_has_interior pg)" using o by (simp add: same_place_def shape_def is_owned_def) (simp add: set_has_interior_def)
qed

lemma mark_interior:
  assumes inv: "heap_inv env T g w" and b: "(b, n, i) \<in> blocks_of g" and q: "unat b \<le> unat q" "unat q < unat b + n"
    and g': "g' = g\<lparr>gh_inner := insert b (gh_inner g)\<rparr>"
  shows "heap_inv env T g' (upd_page (lookup q (wd_pm w)) set_has_interior w)"
    "blocks_of g' = insert (b, n, True) (blocks_of g - {(b, n, i)})"
proof -
  obtain p th bn where p: "p \<in> set (gh_queue g th bn)" "b \<in> gh_live g p" "b \<in> all_blocks (wd_pages w p)"
      "n = unat (pg_block_size (wd_pages w p))" "span b n \<subseteq> page_slices w (wd_pages w p)"
      "span b n = block_span (wd_pages w p) b" "i \<longleftrightarrow> b \<in> gh_inner g" "lookup b (wd_pm w) = p"
    by (rule block_in [OF inv b])
  have look: "lookup q (wd_pm w) = p"
    using p(5) q page_goodD(10) [OF heap_invD(7) [OF inv p(1)], of q] by (auto simp: span_def)
  let ?w = "upd_page (lookup q (wd_pm w)) set_has_interior w"
  have same: "pages_of g' = pages_of g" by (simp add: g' pages_of_def)
  show "heap_inv env T g' ?w"
  proof (rule heap_inv_change [OF inv])
    show "same_place (wd_pages w x) (wd_pages ?w x)" for x using interior_flag(4) by (simp add: upd_page_def)
    show "page_live (en_enc env) (wd_pages ?w x) (wd_links ?w) (gh_live g' x)" if "x \<in> pages_of g" for x
    proof -
      have "core (wd_pages ?w x) = core (wd_pages w x)" using interior_flag(3) by (simp add: upd_page_def)
      from core_live [OF this] show ?thesis using page_lives [OF inv that] by (simp add: upd_page_def g')
    qed
    show "direct_ok g' t (th_direct (wd_theaps ?w t))" if "t \<in> T" for t
      using theap_goodD(4) [OF heap_invD(4) [OF inv that]] by (simp add: upd_page_def direct_ok_def g')
    have fl: "flagged (wd_pages ?w x)" if "x = p \<or> flagged (wd_pages w x)" for x
      using that interior_flag(1) by (auto simp: upd_page_def look)
    have only: "x = p" if "x \<in> pages_of g" "b \<in> gh_live g x" for x
      using blocks_apart [OF inv that(1) pages_ofI [OF p(1)] live_place(1) [OF inv that] p(3)] .
    have i: "gh_inner g \<subseteq> (\<Union>x\<in>pages_of g. gh_live g x)" "\<And>x. x \<in> pages_of g \<Longrightarrow> gh_live g x \<inter> gh_inner g \<noteq> {} \<Longrightarrow> flagged (wd_pages w x)"
      using heap_invD(10) [OF inv] by (simp_all add: inner_ok_def)
    have "flagged (wd_pages ?w x)" if x: "x \<in> pages_of g" "gh_live g x \<inter> insert b (gh_inner g) \<noteq> {}" for x
      using only [OF x(1)] i(2) [OF x(1)] x(2) by (intro fl) blast
    then show "inner_ok g' (wd_pages ?w)"
      using i(1) p(2) pages_ofI [OF p(1)] unfolding inner_ok_def same by (auto simp: g')
  qed (simp_all add: g' upd_page_def same_pool_def)
  have "(c, k, j) \<in> blocks_of g' \<longleftrightarrow> (c, k, j) = (b, n, True) \<or> (c, k, j) \<in> blocks_of g - {(b, n, i)}" for c k j
  proof (cases "c = b")
    case True
    have one: "(b, x, y) \<in> blocks_of g \<longleftrightarrow> x = n \<and> y = i" for x y
    proof
      assume "(b, x, y) \<in> blocks_of g"
      from blocks_disjoint(1) [OF inv b this refl] show "x = n \<and> y = i" by simp
    qed (use b in simp)
    have "(b, k, j) \<in> blocks_of g' \<longleftrightarrow> j \<and> (\<exists>y. (b, k, y) \<in> blocks_of g)" unfolding blocks_iff same by (auto simp: g')
    then show ?thesis by (auto simp: True one)
  next
    case False
    then show ?thesis unfolding Diff_iff blocks_iff same by (auto simp: g')
  qed
  then show "blocks_of g' = insert (b, n, True) (blocks_of g - {(b, n, i)})" by auto
qed

text \<open>What an aligned allocation of \<open>sz\<close> bytes does.\<close>

definition placed_at :: "env \<Rightarrow> ptr set \<Rightarrow> nat \<Rightarrow> nat \<Rightarrow> ghost \<Rightarrow> hworld \<Rightarrow> ptr option \<Rightarrow> ghost \<Rightarrow> hworld \<Rightarrow> bool" where
  "placed_at env T sz al g w r g' w' \<longleftrightarrow>
    (case r of
       None \<Rightarrow> quiet env T g w g' w'
     | Some q \<Rightarrow> heap_inv env T g' w' \<and> wd_tid w' = wd_tid w \<and> undisturbed (blocks_of g) w w' \<and> al dvd unat q
         \<and> (\<exists>b n i. b \<notin> addrs g \<and> blocks_of g' = insert (b, n, i) (blocks_of g) \<and> unat b \<le> unat q \<and> unat q < unat b + n
             \<and> unat q + sz \<le> unat b + n \<and> (q = b \<or> i)))"

lemma placed_atI:
  assumes "heap_inv env T g' w'" "b \<notin> addrs g" "blocks_of g' = insert (b, n, i) (blocks_of g)" "undisturbed (blocks_of g) w w'"
    "wd_tid w' = wd_tid w" "al dvd unat q" "unat b \<le> unat q" "unat q < unat b + n" "unat q + sz \<le> unat b + n" "q = b \<or> i"
  shows "placed_at env T sz al g w (Some q) g' w'"
  unfolding placed_at_def option.case using assms by blast

text \<open>Blocks are word-aligned, so alignments up to a word need no care.\<close>

lemma served_placed:
  assumes a: "served env T (max 8 (unat sz)) g w r g' w'" and al: "pow2_word align k" and le: "align \<le> 8"
  shows "placed_at env T (unat sz) (unat align) g w r g' w'"
proof (cases r)
  case None
  then show ?thesis using a by (simp add: placed_at_def)
next
  case (Some b)
  have al2: "unat align = 2 ^ k" using al by (auto simp: pow2_word_def unat_pow2)
  then have "2 ^ k \<le> (2 :: nat) ^ 3" using le by (simp add: word_le_nat_alt)
  then have "k \<le> 3" by (simp only: power_increasing_iff [of "2 :: nat"])
  then have dvd8: "unat align dvd 8" using le_imp_power_dvd [of k 3 "2 :: nat"] al2 by simp
  obtain n where n: "heap_inv env T g' w'" "b \<notin> addrs g" "n \<ge> max 8 (unat sz)" "blocks_of g' = insert (b, n, False) (blocks_of g)"
      "undisturbed (blocks_of g) w w'" "wd_tid w' = wd_tid w"
    using a Some by (auto simp: served_def)
  have "8 dvd unat b" using block_facts(2) [OF n(1), of b n False] n(4) by simp
  then have "unat align dvd unat b" using dvd8 dvd_trans by blast
  then show ?thesis using n(3) unfolding Some by (intro placed_atI [OF n(1,2,4-6)]) simp_all
qed

lemma alloc_aligned_keeps:
  assumes env: "env_ok env" and inv: "heap_inv env T g w" and th: "th \<in> T" and al: "pow2_word align k"
    and sz: "unat sz + unat align \<le> 2 ^ 25"
  shows "\<exists>r w' g'. alloc_aligned_in env th sz align w = Some (r, w') \<and> placed_at env T (unat sz) (unat align) g w r g' w'"
proof -
  have al2: "unat align = 2 ^ k" "align \<noteq> 0" using al by (auto simp: pow2_word_def unat_pow2)
  have c: "of_nat MI_INTPTR_SIZE = (8 :: usize)" by (simp add: mi_consts)
  show ?thesis
  proof (cases "align \<le> 8")
    case True
    obtain r w' g' where a: "theap_alloc env th sz w = Some (r, w')" "served env T (max 8 (unat sz)) g w r g' w'"
      using theap_alloc_keeps [OF env inv th, of sz] sz by auto
    have "placed_at env T (unat sz) (unat align) g w r g' w'" by (rule served_placed [OF a(2) al True])
    then show ?thesis using a(1) True by (auto simp: alloc_aligned_in_def c)
  next
    case False
    then have big: "8 < unat align" by (simp add: word_le_nat_alt)
    have a1: "unat (align - 1) = unat align - 1" using big by (subst unat_diff_le) (auto simp: word_le_nat_alt)
    have tot: "unat (sz + (align - 1)) = unat sz + (unat align - 1)" using sz by (simp add: unat_add_small a1)
    have small: "\<not> 2 ^ 64 \<le> unat sz + unat (align - 1)" using sz by (simp add: a1)
    obtain r w' g' where a: "theap_alloc env th (sz + (align - 1)) w = Some (r, w')" "served env T (max 8 (unat (sz + (align - 1)))) g w r g' w'"
    proof -
      have "unat (sz + (align - 1)) \<le> 2 ^ 25" unfolding tot using sz by linarith
      from theap_alloc_keeps [OF env inv th this] show thesis using that by blast
    qed
    show ?thesis
    proof (cases r)
      case None
      then have "alloc_aligned_in env th sz align w = Some (None, w')" using a(1) False small by (simp add: alloc_aligned_in_def c Let_def)
      then show ?thesis using a(2) None by (auto simp: placed_at_def)
    next
      case (Some b)
      obtain n where n: "heap_inv env T g' w'" "b \<notin> addrs g" "n \<ge> max 8 (unat sz + (unat align - 1))" "blocks_of g' = insert (b, n, False) (blocks_of g)"
          "undisturbed (blocks_of g) w w'" "wd_tid w' = wd_tid w"
        using a(2) Some tot by (auto simp: served_def)
      have bl: "(b, n, False) \<in> blocks_of g'" by (simp add: n(4))
      note bf = block_facts [OF n(1) bl]
      let ?q = "align_up b align"
      have "unat b + unat align \<le> 2 ^ 64" using bf(3,5) sz by simp
      note up = align_up_range [OF al this]
      have n8: "unat align \<le> n"
      proof -
        have "4 \<le> k \<or> k < 4" by linarith
        moreover have "\<not> k < 4"
        proof
          assume "k < 4"
          then have "k \<in> {0, 1, 2, 3}" by auto
          then show False using big al2(1) by auto
        qed
        ultimately have "8 dvd unat align" using le_imp_power_dvd [of 3 k "2 :: nat"] al2(1) by simp
        moreover have "unat align - 1 \<le> n" using n(3) by simp
        ultimately show ?thesis using bf(4) big by (elim dvdE) simp
      qed
      have q: "unat b \<le> unat ?q" "unat ?q < unat b + n" "unat ?q + unat sz \<le> unat b + n" "unat align dvd unat ?q"
        using up n8 n(3) big by (simp, simp, linarith, simp)
      have run: "alloc_aligned_in env th sz align w = Some (Some ?q, if ?q \<noteq> b then upd_page (lookup b (wd_pm w')) set_has_interior w' else w')"
        using a(1) False small Some by (simp add: alloc_aligned_in_def c Let_def)
      show ?thesis
      proof (cases "?q = b")
        case True
        have "placed_at env T (unat sz) (unat align) g w (Some ?q) g' w'"
          unfolding True by (rule placed_atI [OF n(1,2,4-6) q(4,1-3) [unfolded True]]) simp
        then show ?thesis using run True by auto
      next
        case ne: False
        let ?g = "g'\<lparr>gh_inner := insert b (gh_inner g')\<rparr>" and ?w = "upd_page (lookup b (wd_pm w')) set_has_interior w'"
        have b0: "unat b < unat b + n" using bf(3) by simp
        note mi = mark_interior [OF n(1) bl order_refl b0 refl]
        have "(b, n, False) \<notin> blocks_of g" using n(2) by (force simp: addrs_blocks)
        then have "blocks_of ?g = insert (b, n, True) (blocks_of g)" using mi(2) n(4) by simp
        moreover have "undisturbed (blocks_of g) w ?w" "wd_tid ?w = wd_tid w'"
          using n(5) by (simp_all add: upd_page_def undisturbed_def)
        ultimately have "placed_at env T (unat sz) (unat align) g w (Some ?q) ?g ?w"
          using n(5,6) by (intro placed_atI [where i = True, OF mi(1) n(2) _ _ _ q(4,1-3)]) simp_all
        then show ?thesis using run ne by auto
      qed
    qed
  qed
qed

section \<open>Zeroed allocation\<close>

lemma zero_range_fields [simp]:
  "wd_tid (zero_range p n w) = wd_tid w" "wd_pages (zero_range p n w) = wd_pages w" "wd_pm (zero_range p n w) = wd_pm w"
  "wd_links (zero_range p n w) a = (if unat p \<le> unat a \<and> unat a < unat p + unat n then 0 else wd_links w a)"
  by (simp_all add: zero_range_def)

text \<open>Any change of the bytes of a block in use keeps the invariant and the other blocks.\<close>

lemma block_write:
  assumes inv: "heap_inv env T g w" and b: "(b, n, i) \<in> blocks_of g"
    and m: "\<And>c. wd_links w' c \<noteq> wd_links w c \<Longrightarrow> unat c \<in> span b n"
    and rest: "w' = w\<lparr>wd_links := wd_links w', wd_zeroed := wd_zeroed w', wd_copied := wd_copied w'\<rparr>"
  shows "heap_inv env T g w'" "undisturbed {x \<in> blocks_of g. fst x \<noteq> b} w w'"
proof -
  obtain p th bn where p: "p \<in> set (gh_queue g th bn)" "b \<in> gh_live g p" "span b n = block_span (wd_pages w p) b"
    by (rule block_in [OF inv b])
  have "heap_inv env T g (w\<lparr>wd_links := wd_links w'\<rparr>)"
    by (rule heap_inv_write [OF inv]) (use m p(2,3) pages_ofI [OF p(1)] in blast)
  then have "heap_inv env T g (w\<lparr>wd_links := wd_links w'\<rparr>\<lparr>wd_zeroed := wd_zeroed w', wd_copied := wd_copied w'\<rparr>)"
    by (rule heap_inv_tweak) (simp_all add: same_pool_def theap_goodD(4) [OF heap_invD(4) [OF inv]])
  then show "heap_inv env T g w'" using rest by simp
  have "wd_links w' a = wd_links w a" if c: "(c, k, j) \<in> blocks_of g" "c \<noteq> b" "unat a \<in> span c k" for a c k j
  proof (rule ccontr)
    assume "wd_links w' a \<noteq> wd_links w a"
    from m [OF this] have "unat a \<in> span b n" .
    then show False using blocks_disjoint(2) [OF inv b c(1)] c(2,3) by blast
  qed
  then show "undisturbed {x \<in> blocks_of g. fst x \<noteq> b} w w'" unfolding undisturbed_def insides_def by fastforce
qed

text \<open>Clearing bytes inside a new block.\<close>

lemma zero_new_block:
  assumes inv: "heap_inv env T g' w'" and new: "b \<notin> addrs g" "blocks_of g' = insert (b, n, i) (blocks_of g)" "undisturbed (blocks_of g) w w'"
    and q: "unat b \<le> unat q" "unat q + unat k \<le> unat b + n"
  shows "heap_inv env T g' (zero_range q k w')" "undisturbed (blocks_of g) w (zero_range q k w')"
proof -
  have bl: "(b, n, i) \<in> blocks_of g'" by (simp add: new(2))
  have inside: "unat c \<in> span b n" if "wd_links (zero_range q k w') c \<noteq> wd_links w' c" for c
    using that q by (auto simp: span_def split: if_splits)
  have rest: "zero_range q k w' = w'\<lparr>wd_links := wd_links (zero_range q k w'), wd_zeroed := wd_zeroed (zero_range q k w'),
      wd_copied := wd_copied (zero_range q k w')\<rparr>" by (simp add: zero_range_def)
  note bw = block_write [OF inv bl inside rest]
  show "heap_inv env T g' (zero_range q k w')" by (rule bw(1))
  have "blocks_of g \<subseteq> {x \<in> blocks_of g'. fst x \<noteq> b}" using new(1) by (auto simp: new(2) addrs_blocks)
  from undisturbed_mono [OF bw(2) this] show "undisturbed (blocks_of g) w (zero_range q k w')" by (rule undisturbed_trans [OF new(3)])
qed

text \<open>The words of a range are zero.\<close>

definition zeroed :: "ptr \<Rightarrow> nat \<Rightarrow> hworld \<Rightarrow> bool" where
  "zeroed q n w \<longleftrightarrow> (\<forall>a. unat a \<in> span q n \<longrightarrow> wd_links w a = 0)"

lemma zero_range_zeroed: "n \<le> unat k \<Longrightarrow> zeroed q n (zero_range q k w)"
  by (simp add: zeroed_def span_def)

lemma placed_zero:
  assumes pl: "placed_at env T sz al g w (Some q) g' w'" and k: "unat k = sz"
  shows "placed_at env T sz al g w (Some q) g' (zero_range q k w')"
proof -
  obtain b n i where b: "heap_inv env T g' w'" "b \<notin> addrs g" "blocks_of g' = insert (b, n, i) (blocks_of g)"
      "undisturbed (blocks_of g) w w'" "wd_tid w' = wd_tid w" "al dvd unat q" "unat b \<le> unat q" "unat q < unat b + n"
      "unat q + sz \<le> unat b + n" "q = b \<or> i"
    using pl unfolding placed_at_def option.case by blast
  have fit: "unat q + unat k \<le> unat b + n" using b(9) k by simp
  note z = zero_new_block [OF b(1-4) b(7) fit]
  show ?thesis using b by (intro placed_atI [OF z(1) b(2,3) z(2)]) simp_all
qed

lemma alloc_zeroed_keeps:
  assumes env: "env_ok env" and inv: "heap_inv env T g w" and th: "th \<in> T" and sz: "unat sz \<le> 2 ^ 25"
  shows "\<exists>r w' g'. alloc_zeroed_in env th sz w = Some (r, w') \<and> served env T (max 8 (unat sz)) g w r g' w'
    \<and> (\<forall>q. r = Some q \<longrightarrow> unat sz \<le> 4096 \<longrightarrow> zeroed q (unat sz) w')"
proof -
  obtain r w' g' where a: "theap_alloc env th sz w = Some (r, w')" "served env T (max 8 (unat sz)) g w r g' w'"
    using theap_alloc_keeps [OF env inv th sz] by blast
  show ?thesis
  proof (cases r)
    case None
    then show ?thesis using a by (auto simp: alloc_zeroed_in_def)
  next
    case (Some b)
    obtain n where n: "heap_inv env T g' w'" "b \<notin> addrs g" "n \<ge> max 8 (unat sz)" "blocks_of g' = insert (b, n, False) (blocks_of g)"
        "undisturbed (blocks_of g) w w'" "wd_tid w' = wd_tid w"
      using a(2) Some by (auto simp: served_def)
    have bl: "(b, n, False) \<in> blocks_of g'" by (simp add: n(4))
    obtain p th' bn where p: "p \<in> set (gh_queue g' th' bn)" "n = unat (pg_block_size (wd_pages w' p))" "lookup b (wd_pm w') = p"
      by (rule block_in [OF n(1) bl])
    let ?k = "if sz > ZERO_VIA_PAGE_MIN then zero_block (wd_pages w' p) else sz"
    have k: "unat ?k \<le> n" using p(2) n(3) block_facts(3) [OF n(1) bl] by (auto simp: zero_block_def)
    then have fit: "unat b + unat ?k \<le> unat b + n" by simp
    note z = zero_new_block [OF n(1,2,4,5) order_refl fit]
    have "served env T (max 8 (unat sz)) g w (Some b) g' (zero_range b ?k w')"
      unfolding served_def option.case using z n(2,3,4,6) by auto
    moreover have "unat sz \<le> 4096 \<longrightarrow> zeroed b (unat sz) (zero_range b ?k w')"
      by (auto simp: ZERO_VIA_PAGE_MIN_def word_less_nat_alt zero_range_zeroed)
    moreover have "alloc_zeroed_in env th sz w = Some (Some b, zero_range b ?k w')"
      using a(1) Some p(3) by (simp add: alloc_zeroed_in_def)
    ultimately show ?thesis by blast
  qed
qed

lemma alloc_zeroed_aligned_keeps:
  assumes env: "env_ok env" and inv: "heap_inv env T g w" and th: "th \<in> T" and al: "pow2_word align k"
    and sz: "unat sz + unat align \<le> 2 ^ 25"
  shows "\<exists>r w' g'. alloc_zeroed_aligned_in env th sz align w = Some (r, w') \<and> placed_at env T (unat sz) (unat align) g w r g' w'
    \<and> (\<forall>q. r = Some q \<longrightarrow> unat sz \<le> 4096 \<or> 8 < unat align \<longrightarrow> zeroed q (unat sz) w')"
proof (cases "align \<le> of_nat MI_INTPTR_SIZE")
  case True
  obtain r w' g' where a: "alloc_zeroed_in env th sz w = Some (r, w')" "served env T (max 8 (unat sz)) g w r g' w'"
      "\<forall>q. r = Some q \<longrightarrow> unat sz \<le> 4096 \<longrightarrow> zeroed q (unat sz) w'"
    using alloc_zeroed_keeps [OF env inv th, of sz] sz by auto
  have le: "align \<le> 8" using True by (simp add: mi_consts)
  then have "\<not> 8 < unat align" by (simp add: word_le_nat_alt)
  moreover have "alloc_zeroed_aligned_in env th sz align w = Some (r, w')" using a(1) True by (simp add: alloc_zeroed_aligned_in_def)
  ultimately show ?thesis using a(3) served_placed [OF a(2) al le] by blast
next
  case False
  obtain r w' g' where a: "alloc_aligned_in env th sz align w = Some (r, w')" "placed_at env T (unat sz) (unat align) g w r g' w'"
    using alloc_aligned_keeps [OF env inv th al sz] by blast
  show ?thesis
  proof (cases r)
    case None
    then show ?thesis using a False by (auto simp: alloc_zeroed_aligned_in_def)
  next
    case (Some q)
    have "alloc_zeroed_aligned_in env th sz align w = Some (Some q, zero_range q sz w')"
      using a(1) False Some by (simp add: alloc_zeroed_aligned_in_def)
    then show ?thesis using placed_zero [OF a(2) [unfolded Some] refl] zero_range_zeroed [OF order_refl] by blast
  qed
qed

section \<open>Collecting a heap\<close>

lemma collect_pages_keeps:
  assumes env: "env_ok env" and th: "th \<in> T"
  shows "heap_inv env T g w \<Longrightarrow> gh_queue g th b = us @ xs \<Longrightarrow>
    \<exists>w' g'. collect_pages env th force b (head_or xs 0) w = Some w' \<and> quiet env T g w g' w'"
proof (induction xs arbitrary: us g w)
  case Nil
  then show ?case using quiet_refl [OF Nil(1)] by (auto simp: collect_pages.simps)
next
  case (Cons cur vs)
  note inv = Cons.prems(1) and q = Cons.prems(2)
  note nx = queue_next [OF inv th q]
  have p: "cur \<in> set (gh_queue g th b)" using q by simp
  obtain w1 where w1: "page_collect env cur w = Some w1" "quiet env T g w g w1" "is_all_free (wd_pages w1 cur) \<longleftrightarrow> gh_live g cur = {}"
    using quiet_collect [OF inv pages_ofI [OF p]] by blast
  note inv1 = quietD(1) [OF w1(2)]
  have rest: "remove1 cur (gh_queue g th b) = us @ vs" using queue_distinct [OF inv, of th b] q by (simp add: remove1_append)
  have "\<exists>w2 g2 us2. (if is_all_free (wd_pages w1 cur) then if force then drop_page env th b cur w1 else retire_page env cur w1 else Some w1) = Some w2
      \<and> quiet env T g w1 g2 w2 \<and> gh_queue g2 th b = us2 @ vs"
  proof (cases "is_all_free (wd_pages w1 cur)")
    case False
    then show ?thesis using quiet_refl [OF inv1] q by (intro exI [of _ w1] exI [of _ g] exI [of _ "us @ [cur]"]) simp
  next
    case True
    then have empty: "gh_live g cur = {}" using w1(3) by simp
    have gone: "gh_queue (without_page th b cur g) th b = us @ vs" by (simp add: without_page_def rest)
    show ?thesis
    proof (cases force)
      case True
      obtain w2 where "drop_page env th b cur w1 = Some w2" "quiet env T g w1 (without_page th b cur g) w2"
        using drop_page_keeps [OF env inv1 p empty] by blast
      then show ?thesis using gone True \<open>is_all_free (wd_pages w1 cur)\<close> by auto
    next
      case False
      obtain w2 g2 where r: "retire_page env cur w1 = Some w2" "quiet env T g w1 g2 w2" "g2 = g \<or> g2 = without_page th b cur g"
        using retire_page_keeps [OF env inv1 p empty] by blast
      have "\<exists>us2. gh_queue g2 th b = us2 @ vs" using r(3) q gone by (metis append.assoc append_Cons append_Nil)
      then show ?thesis using r(1,2) False \<open>is_all_free (wd_pages w1 cur)\<close> by auto
    qed
  qed
  then obtain w2 g2 us2 where w2: "(if is_all_free (wd_pages w1 cur) then if force then drop_page env th b cur w1 else retire_page env cur w1 else Some w1) = Some w2"
      "quiet env T g w1 g2 w2" "gh_queue g2 th b = us2 @ vs" by blast
  obtain w' g' where w': "collect_pages env th force b (head_or vs 0) w2 = Some w'" "quiet env T g2 w2 g' w'"
    using Cons.IH [OF quietD(1) [OF w2(2)] w2(3)] by blast
  have "collect_pages env th force b (head_or (cur # vs) 0) w = Some w'"
    using nx w1(1) w2(1) w'(1) by (simp add: collect_pages.simps [of env th force b cur])
  then show ?case using quiet_trans [OF quiet_trans [OF w1(2) w2(2)] w'(2)] by blast
qed

lemma collect_bins_keeps:
  assumes env: "env_ok env" and th: "th \<in> T"
  shows "heap_inv env T g w \<Longrightarrow> \<exists>w' g'. collect_bins env th force bs w = Some w' \<and> quiet env T g w g' w'"
proof (induction bs arbitrary: g w)
  case Nil
  then show ?case using quiet_refl [OF Nil] by auto
next
  case (Cons b bs)
  have "gh_queue g th b = [] @ gh_queue g th b" by simp
  from collect_pages_keeps [OF env th Cons.prems this]
  obtain w1 g1 where w1: "collect_pages env th force b (pq_first (th_pages (wd_theaps w th) b)) w = Some w1" "quiet env T g w g1 w1"
    unfolding queue_first [OF Cons.prems th, of b] by blast
  obtain w' g' where w': "collect_bins env th force bs w1 = Some w'" "quiet env T g1 w1 g' w'"
    using Cons.IH [OF quietD(1) [OF w1(2)]] by blast
  show ?case using w1(1) w'(1) quiet_trans [OF w1(2) w'(2)] by auto
qed

lemma theap_collect_keeps:
  assumes env: "env_ok env" and inv: "heap_inv env T g w" and th: "th \<in> T" and cb: "wd_deferred_fn w = 0"
  shows "\<exists>w' g'. theap_collect cb env th force w = Some w' \<and> quiet env T g w g' w'"
proof -
  obtain w1 g1 where w1: "collect_bins env th force [0..<MI_BIN_COUNT] w = Some w1" "quiet env T g w g1 w1"
    using collect_bins_keeps [OF env th inv] by blast
  let ?w2 = "if force then upd_theap th (\<lambda>t. t\<lparr>th_retired_min := MI_BIN_FULL, th_retired_max := 0\<rparr>) w1 else w1"
  have "quiet env T g1 w1 g1 (upd_theap th (\<lambda>t. t\<lparr>th_retired_min := MI_BIN_FULL, th_retired_max := 0\<rparr>) w1)"
    by (rule quiet_counters [OF quietD(1) [OF w1(2)]]) (simp_all add: same_theap_def)
  then have w2: "quiet env T g1 w1 g1 ?w2" using quiet_refl [OF quietD(1) [OF w1(2)]] by simp
  obtain w' where w': "try_purge env force ?w2 = Some w'" "quiet env T g1 ?w2 g1 w'"
    using quiet_try_purge [OF env quietD(1) [OF w2]] by blast
  have "theap_collect cb env th force w = Some w'"
    using cb w1(1) w'(1) by (simp add: theap_collect_def run_deferred_free_def)
  then show ?thesis using quiet_trans [OF quiet_trans [OF w1(2) w2] w'(2)] by blast
qed

end
