(* ===== verification/MiRealloc.thy ===== *)
theory MiRealloc
  imports MiHeapCalls MiHeap
begin

unbundle bit_operations_syntax

text \<open>
  \<^verbatim>\<open>src/heap.rs\<close>, \<^verbatim>\<open>src/init.rs\<close>: reallocation, in place or by moving the block, keeps the
  invariant of the thread heaps and every other block in use.
\<close>

lemma usable_inside:
  assumes inv: "heap_inv env T g w" and x: "(b, n, i) \<in> blocks_of g" and q: "unat b \<le> unat q" "unat q < unat b + n"
  shows "unat (usable_size q w) = unat b + n - unat q"
proof -
  obtain p th bn where p: "p \<in> set (gh_queue g th bn)" "b \<in> gh_live g p" "b \<in> all_blocks (wd_pages w p)"
      "n = unat (pg_block_size (wd_pages w p))" "span b n \<subseteq> page_slices w (wd_pages w p)"
    by (rule block_in [OF inv x])
  note pg = page_goodD [OF heap_invD(7) [OF inv p(1)]]
  have look: "lookup q (wd_pm w) = p" using p(5) q pg(10) [of q] by (auto simp: span_def)
  obtain j where j: "j < unat (pg_reserved (wd_pages w p))" "b = block_at (wd_pages w p) j"
    by (rule live_block [OF pg(1) p(3)])
  have "unat ((q - pg_page_start (wd_pages w p)) mod pg_block_size (wd_pages w p)) = unat q - unat b"
    by (rule inside_block(3) [OF live_geometry [OF pg(1)] j(1)]) (use q p(4) in \<open>simp_all add: j(2)\<close>)
  then show ?thesis
    using q p(4) look page_nonzero [OF inv pages_ofI [OF p(1)]]
    by (simp add: usable_size_def Let_def unat_diff_le word_le_nat_alt)
qed

lemma copy_range_fields [simp]:
  "wd_tid (copy_range s q k w) = wd_tid w"
  "wd_links (copy_range s q k w) a = (if unat q \<le> unat a \<and> unat a < unat q + unat k then wd_links w (a - q + s) else wd_links w a)"
  by (simp_all add: copy_range_def)

text \<open>The first bytes of \<open>q\<close> now are what the first bytes of \<open>p\<close> were.\<close>

definition copied :: "ptr \<Rightarrow> ptr \<Rightarrow> nat \<Rightarrow> hworld \<Rightarrow> hworld \<Rightarrow> bool" where
  "copied p q n w w' \<longleftrightarrow> (\<forall>a. unat a \<in> span q n \<longrightarrow> wd_links w' a = wd_links w (a - q + p))"

text \<open>What a reallocation of the pointer \<open>p\<close> into the block \<open>b\<close> does.\<close>

definition moved :: "env \<Rightarrow> ptr set \<Rightarrow> ptr \<Rightarrow> nat \<Rightarrow> nat \<Rightarrow> ptr \<times> nat \<times> bool \<Rightarrow> ghost \<Rightarrow> hworld \<Rightarrow> ptr option \<Rightarrow> ghost \<Rightarrow> hworld \<Rightarrow> bool" where
  "moved env T p sz al x g w r g' w' \<longleftrightarrow>
    (case r of
       None \<Rightarrow> quiet env T g w g' w'
     | Some q \<Rightarrow> heap_inv env T g' w' \<and> al dvd unat q \<and> undisturbed (blocks_of g - {x}) w w'
         \<and> copied p q (min (unat (usable_size p w)) sz) w w'
         \<and> (\<exists>b n i. b \<notin> addrs g \<and> blocks_of g' = insert (b, n, i) (blocks_of g - {x}) \<and> unat b \<le> unat q \<and> unat q < unat b + n
             \<and> unat q + sz \<le> unat b + n \<and> (q = b \<or> i)))"

lemma movedI:
  assumes "heap_inv env T g' w'" "al dvd unat q" "undisturbed (blocks_of g - {x}) w w'" "copied p q (min (unat (usable_size p w)) sz) w w'"
    "b \<notin> addrs g" "blocks_of g' = insert (b, n, i) (blocks_of g - {x})" "unat b \<le> unat q" "unat q < unat b + n" "unat q + sz \<le> unat b + n"
    "q = b \<or> i"
  shows "moved env T p sz al x g w (Some q) g' w'"
  unfolding moved_def option.case using assms by blast

lemma move_block_keeps:
  assumes env: "env_ok env" and inv: "heap_inv env T g w" and tid: "wd_tid w AND MI_PAGE_FLAG_MASK = 0"
    and x: "(b, n, i) \<in> blocks_of g" and p: "unat b \<le> unat p" "unat p < unat b + n" "p = b \<or> i"
    and pl: "placed_at env T (unat sz) al g w r g1 w1"
  shows "\<exists>w' g'. move_block env p (usable_size p w) sz (r, w1) = Some (r, w') \<and> moved env T p (unat sz) al (b, n, i) g w r g' w'
    \<and> wd_tid w' AND MI_PAGE_FLAG_MASK = 0"
proof (cases r)
  case None
  then have "quiet env T g w g1 w1" using pl by (simp add: placed_at_def)
  then show ?thesis using None tid quietD(4) [of env T g w g1 w1] by (auto simp: move_block_def moved_def)
next
  case (Some q)
  obtain c k j where c: "heap_inv env T g1 w1" "wd_tid w1 = wd_tid w" "undisturbed (blocks_of g) w w1" "al dvd unat q"
      "c \<notin> addrs g" "blocks_of g1 = insert (c, k, j) (blocks_of g)" "unat c \<le> unat q" "unat q < unat c + k" "unat q + unat sz \<le> unat c + k" "q = c \<or> j"
    using pl unfolding Some placed_at_def option.case by blast
  have new: "(c, k, j) \<in> blocks_of g1" and old: "(b, n, i) \<in> blocks_of g1" using x by (simp_all add: c(6))
  let ?old = "usable_size p w"
  let ?w2 = "copy_range p q (min ?old sz) w1"
  have le: "unat (min ?old sz) = min (unat ?old) (unat sz)" by (simp add: min_def word_le_nat_alt)
  have inside: "unat a \<in> span c k" if "wd_links ?w2 a \<noteq> wd_links w1 a" for a
    using that le c(7,9) by (auto simp: span_def split: if_splits)
  have rest: "?w2 = w1\<lparr>wd_links := wd_links ?w2, wd_zeroed := wd_zeroed ?w2, wd_copied := wd_copied ?w2\<rparr>" by (simp add: copy_range_def)
  note bw = block_write [OF c(1) new inside rest]
  have tid2: "wd_tid ?w2 AND MI_PAGE_FLAG_MASK = 0" using tid c(2) by simp
  obtain w' g' where f: "heap_free env p ?w2 = Some (Free_Done, w')" "freed env T b g1 (?w2\<lparr>wd_tid := wd_tid w'\<rparr>) g' w'"
      "wd_tid w' AND MI_PAGE_FLAG_MASK = 0"
    using heap_free_keeps [OF env bw(1) tid2 old p] by blast
  have run: "move_block env p ?old sz (r, w1) = Some (r, w')" using f(1) Some by (simp add: move_block_def)
  have ne: "c \<noteq> b" using c(5) x by (force simp: addrs_blocks)
  have only: "fst y \<noteq> b \<longleftrightarrow> y \<noteq> (b, n, i)" if "y \<in> blocks_of g" for y
    using blocks_eq [OF inv x that] by auto
  have g': "blocks_of g' = insert (c, k, j) (blocks_of g - {(b, n, i)})"
    using f(2) only ne by (auto simp: freed_def c(6))
  have keep: "undisturbed (blocks_of g') ?w2 w'" using f(2) by (simp add: freed_def undisturbed_def del: copy_range_fields)
  have "undisturbed (blocks_of g - {(b, n, i)}) w w1" by (rule undisturbed_mono [OF c(3)]) auto
  moreover have "undisturbed (blocks_of g - {(b, n, i)}) w1 ?w2"
    by (rule undisturbed_mono [OF bw(2)]) (use c(5) in \<open>auto simp: c(6) addrs_blocks\<close>)
  moreover have "undisturbed (blocks_of g - {(b, n, i)}) ?w2 w'" by (rule undisturbed_mono [OF keep]) (auto simp: g')
  ultimately have same: "undisturbed (blocks_of g - {(b, n, i)}) w w'" using undisturbed_trans by blast
  have "wd_links w' a = wd_links w (a - q + p)" if a: "unat a \<in> span q (min (unat ?old) (unat sz))" for a
  proof -
    have r: "unat q \<le> unat a" "unat a < unat q + min (unat ?old) (unat sz)" using a by (simp_all add: span_def)
    have "unat a \<in> span c k" using r c(7,9) by (simp add: span_def)
    then have "a \<in> insides (blocks_of g')" unfolding g' insides_def by blast
    then have "wd_links w' a = wd_links ?w2 a" using keep by (simp add: undisturbed_def del: copy_range_fields)
    also have "\<dots> = wd_links w1 (a - q + p)" using r by (simp add: le)
    also have "\<dots> = wd_links w (a - q + p)"
    proof -
      have u: "unat ?old = unat b + n - unat p" by (rule usable_inside [OF inv x p(1,2)])
      have d: "unat (a - q) = unat a - unat q" using r(1) by (simp add: unat_diff_le word_le_nat_alt)
      have "unat a - unat q < unat b + n - unat p" using r u by linarith
      moreover have "unat b + n \<le> 2 ^ 63" by (rule block_facts(5) [OF inv x])
      ultimately have "unat (a - q + p) = unat a - unat q + unat p" unfolding d [symmetric] using p(2) by (intro unat_add_small) simp
      then have v: "unat (a - q + p) = unat a - unat q + unat p" .
      have "unat b \<le> unat (a - q + p)" using v p(1) by linarith
      moreover have "unat (a - q + p) < unat b + n" using v \<open>unat a - unat q < _\<close> p(2) by linarith
      ultimately have "unat (a - q + p) \<in> span b n" by (simp add: span_def)
      then have "a - q + p \<in> insides (blocks_of g)" using x by (auto simp: insides_def)
      then show ?thesis using c(3) by (simp add: undisturbed_def)
    qed
    finally show ?thesis .
  qed
  then have cp: "copied p q (min (unat ?old) (unat sz)) w w'" by (simp add: copied_def)
  have inv': "heap_inv env T g' w'" using f(2) by (simp add: freed_def)
  have "moved env T p (unat sz) al (b, n, i) g w (Some q) g' w'" by (rule movedI [OF inv' c(4) same cp c(5) g' c(7-10)])
  then show ?thesis using run f(3) Some by blast
qed

lemma realloc_keeps:
  assumes env: "env_ok env" and inv: "heap_inv env T g w" and tid: "wd_tid w AND MI_PAGE_FLAG_MASK = 0" and th: "th \<in> T"
    and x: "(b, n, i) \<in> blocks_of g" and p: "unat b \<le> unat p" "unat p < unat b + n" "p = b \<or> i" and sz: "unat sz \<le> 2 ^ 25"
  shows "\<exists>r w' g'. realloc env th p sz w = Some (r, w') \<and> wd_tid w' AND MI_PAGE_FLAG_MASK = 0
    \<and> (r = Some p \<and> w' = w \<and> unat p + unat sz \<le> unat b + n \<or> moved env T p (unat sz) 1 (b, n, i) g w r g' w')"
proof (cases "sz \<le> usable_size p w")
  case True
  then have "unat p + unat sz \<le> unat b + n" using usable_inside [OF inv x p(1,2)] p(2) by (simp add: word_le_nat_alt)
  then show ?thesis using True tid by (auto simp: realloc_def)
next
  case False
  have one: "pow2_word 1 0" by (simp add: pow2_word_def)
  obtain r w1 g1 where a: "theap_alloc env th sz w = Some (r, w1)" "served env T (max 8 (unat sz)) g w r g1 w1"
    using theap_alloc_keeps [OF env inv th sz] by blast
  have le: "(1 :: usize) \<le> 8" by simp
  from served_placed [OF a(2) one le] have "placed_at env T (unat sz) 1 g w r g1 w1" by simp
  from move_block_keeps [OF env inv tid x p this]
  show ?thesis using a(1) False by (auto simp: realloc_def)
qed

lemma realloc_aligned_keeps:
  assumes env: "env_ok env" and inv: "heap_inv env T g w" and tid: "wd_tid w AND MI_PAGE_FLAG_MASK = 0" and th: "th \<in> T"
    and x: "(b, n, i) \<in> blocks_of g" and p: "unat b \<le> unat p" "unat p < unat b + n" "p = b \<or> i"
    and al: "pow2_word align k" and sz: "unat sz + unat align \<le> 2 ^ 25"
  shows "\<exists>r w' g'. realloc_aligned env th p sz align w = Some (r, w') \<and> wd_tid w' AND MI_PAGE_FLAG_MASK = 0
    \<and> moved env T p (unat sz) (unat align) (b, n, i) g w r g' w'"
proof -
  obtain r w1 g1 where a: "alloc_aligned_in env th sz align w = Some (r, w1)" "placed_at env T (unat sz) (unat align) g w r g1 w1"
    using alloc_aligned_keeps [OF env inv th al sz] by blast
  from move_block_keeps [OF env inv tid x p a(2)]
  show ?thesis using a(1) by (auto simp: realloc_aligned_def)
qed

end
