(* ===== verification/MiHeapSafe.thy ===== *)
theory MiHeapSafe
  imports MiRealloc
begin

unbundle bit_operations_syntax

text \<open>
  \<^verbatim>\<open>src/heap.rs\<close>, \<^verbatim>\<open>src/api\<close>: what the allocator promises the program. A state represents the set
  of the blocks in use; every call is the corresponding operation on that set, and no sequence of
  calls from any thread leads out of it.
\<close>

section \<open>The blocks in use\<close>

text \<open>
  \<open>H\<close> holds, for every block in use, its address, its size and whether the program may have an
  interior pointer to it. \<open>T\<close> are the thread heaps, none of which has been torn down.
\<close>

definition represents :: "env \<Rightarrow> ptr set \<Rightarrow> (ptr \<times> nat \<times> bool) set \<Rightarrow> hworld \<Rightarrow> bool" where
  "represents env T H w \<longleftrightarrow> wd_tid w AND MI_PAGE_FLAG_MASK = 0 \<and> (\<exists>g. heap_inv env T g w \<and> blocks_of g = H)"

text \<open>What holds of the blocks in use: they are aligned, accessible and do not overlap.\<close>

definition sound :: "env \<Rightarrow> (ptr \<times> nat \<times> bool) set \<Rightarrow> hworld \<Rightarrow> bool" where
  "sound env H w \<longleftrightarrow>
    (\<forall>(b, n, i)\<in>H. b \<noteq> 0 \<and> 8 dvd unat b \<and> 8 \<le> n \<and> 8 dvd n \<and> unat b + n \<le> 2 ^ 63
      \<and> (\<not> sy_hard (en_sys env) \<longrightarrow> span b n \<subseteq> accessible (wd_log w)))
    \<and> (\<forall>(b, n, i)\<in>H. \<forall>(c, k, j)\<in>H. if b = c then n = k \<and> i = j else span b n \<inter> span c k = {})"

lemma represents_sound:
  assumes "represents env T H w"
  shows "sound env H w"
proof -
  obtain g where g: "heap_inv env T g w" "blocks_of g = H" using assms by (auto simp: represents_def)
  note facts = block_facts [OF g(1), unfolded g(2)] and apart = blocks_disjoint [OF g(1), unfolded g(2)]
  have one: "b \<noteq> 0 \<and> 8 dvd unat b \<and> 8 \<le> n \<and> 8 dvd n \<and> unat b + n \<le> 2 ^ 63 \<and> (\<not> sy_hard (en_sys env) \<longrightarrow> span b n \<subseteq> accessible (wd_log w))"
    if "(b, n, i) \<in> H" for b n i using facts [OF that] by blast
  have two: "if b = c then n = k \<and> i = j else span b n \<inter> span c k = {}" if "(b, n, i) \<in> H" "(c, k, j) \<in> H" for b n i c k j
    using apart [OF that] by simp
  show ?thesis unfolding sound_def using one two by blast
qed

lemma soundD:
  assumes "sound env H w" "(b, n, i) \<in> H"
  shows "b \<noteq> 0" "8 dvd unat b" "8 \<le> n" "unat b + n \<le> 2 ^ 63" "\<not> sy_hard (en_sys env) \<Longrightarrow> span b n \<subseteq> accessible (wd_log w)"
    "(c, k, j) \<in> H \<Longrightarrow> c \<noteq> b \<Longrightarrow> span b n \<inter> span c k = {}" "(b, k, j) \<in> H \<Longrightarrow> n = k \<and> i = j"
  using assms unfolding sound_def by fastforce+

section \<open>Calls as operations on the set\<close>

text \<open>
  A pointer \<open>q\<close> to \<open>sz\<close> bytes is served from the block \<open>b\<close>; it may be an interior pointer only where the
  block is marked for that.
\<close>

definition serves :: "ptr \<times> nat \<times> bool \<Rightarrow> ptr \<Rightarrow> nat \<Rightarrow> bool" where
  "serves = (\<lambda>(b, n, i) q sz. unat b \<le> unat q \<and> unat q < unat b + n \<and> unat q + sz \<le> unat b + n \<and> (q = b \<or> i))"

lemma serves_nonzero: "serves (b, n, i) q sz \<Longrightarrow> b \<noteq> 0 \<Longrightarrow> q \<noteq> 0"
  using word_unat_eq_iff [of b 0] by (auto simp: serves_def)

text \<open>An allocation either fails and leaves the set alone or adds one new block.\<close>

definition allocates :: "env \<Rightarrow> ptr set \<Rightarrow> nat \<Rightarrow> nat \<Rightarrow> (ptr \<times> nat \<times> bool) set \<Rightarrow> hworld \<Rightarrow> ptr \<Rightarrow> hworld \<Rightarrow> bool" where
  "allocates env T sz al H w q w' \<longleftrightarrow> undisturbed H w w' \<and>
    (if q = 0 then represents env T H w'
     else al dvd unat q \<and> (\<exists>x. fst x \<notin> fst ` H \<and> serves x q sz \<and> represents env T (insert x H) w'))"

text \<open>
  A reallocation of the pointer \<open>p\<close> into \<open>x\<close> fails, or stays where it is, or replaces \<open>x\<close> by a new block,
  to which it has copied what was there.
\<close>

definition reallocates :: "env \<Rightarrow> ptr set \<Rightarrow> ptr \<Rightarrow> nat \<Rightarrow> nat \<Rightarrow> ptr \<times> nat \<times> bool \<Rightarrow> (ptr \<times> nat \<times> bool) set \<Rightarrow> hworld \<Rightarrow> ptr \<Rightarrow> hworld \<Rightarrow> bool" where
  "reallocates env T p sz al x H w q w' \<longleftrightarrow> undisturbed (H - {x}) w w' \<and>
    (if q = 0 then represents env T H w' \<and> undisturbed H w w'
     else al dvd unat q \<and> copied p q (min (unat (usable_size p w)) sz) w w'
       \<and> (q = p \<and> serves x q sz \<and> represents env T H w'
         \<or> (\<exists>y. fst y \<notin> fst ` H \<and> serves y q sz \<and> represents env T (insert y (H - {x})) w')))"

lemma placed_allocates:
  assumes "wd_tid w AND MI_PAGE_FLAG_MASK = 0" "placed_at env T sz al g w r g' w'"
  shows "allocates env T sz al (blocks_of g) w (case r of None \<Rightarrow> 0 | Some q \<Rightarrow> q) w'"
proof (cases r)
  case None
  then have q: "quiet env T g w g' w'" using assms(2) by (simp add: placed_at_def)
  have "represents env T (blocks_of g) w'" using quietD(1,2,4) [OF q] assms(1) by (auto simp: represents_def)
  then show ?thesis using None quietD(3) [OF q] by (simp add: allocates_def)
next
  case (Some q)
  obtain b n i where b: "heap_inv env T g' w'" "wd_tid w' = wd_tid w" "undisturbed (blocks_of g) w w'" "al dvd unat q"
      "b \<notin> addrs g" "blocks_of g' = insert (b, n, i) (blocks_of g)" "serves (b, n, i) q sz"
    using assms(2) unfolding Some placed_at_def option.case serves_def split_conv by blast
  have rep: "represents env T (insert (b, n, i) (blocks_of g)) w'" using b(1,2,6) assms(1) by (auto simp: represents_def)
  have "b \<noteq> 0" by (rule soundD(1) [OF represents_sound [OF rep], of b n i]) simp
  then have "q \<noteq> 0" using serves_nonzero [OF b(7)] by blast
  moreover have "fst (b, n, i) \<notin> fst ` blocks_of g" using b(5) by (simp add: addrs_blocks)
  ultimately show ?thesis
    using rep b(3,4,7) Some unfolding allocates_def by (simp only: option.case if_False) blast
qed

lemma moved_reallocates:
  assumes x: "x \<in> blocks_of g" and tid: "wd_tid w' AND MI_PAGE_FLAG_MASK = 0" and mv: "moved env T p sz al x g w r g' w'"
  shows "reallocates env T p sz al x (blocks_of g) w (case r of None \<Rightarrow> 0 | Some q \<Rightarrow> q) w'"
proof (cases r)
  case None
  then have q: "quiet env T g w g' w'" using mv by (simp add: moved_def)
  have "represents env T (blocks_of g) w'" using quietD(1,2) [OF q] tid by (auto simp: represents_def)
  then show ?thesis using None quietD(3) [OF q] undisturbed_mono [OF quietD(3) [OF q], of "blocks_of g - {x}"] by (auto simp: reallocates_def)
next
  case (Some q)
  obtain b n i where b: "heap_inv env T g' w'" "undisturbed (blocks_of g - {x}) w w'" "al dvd unat q"
      "b \<notin> addrs g" "blocks_of g' = insert (b, n, i) (blocks_of g - {x})" "serves (b, n, i) q sz"
      "copied p q (min (unat (usable_size p w)) sz) w w'"
    using mv unfolding Some moved_def option.case serves_def split_conv by blast
  have rep: "represents env T (insert (b, n, i) (blocks_of g - {x})) w'" using b(1,5) tid by (auto simp: represents_def)
  have "b \<noteq> 0" by (rule soundD(1) [OF represents_sound [OF rep], of b n i]) simp
  then have "q \<noteq> 0" using serves_nonzero [OF b(6)] by blast
  moreover have "fst (b, n, i) \<notin> fst ` blocks_of g" using b(4) by (simp add: addrs_blocks)
  ultimately show ?thesis
    using rep b(2,3,6,7) Some unfolding reallocates_def by (simp only: option.case if_False) blast
qed

lemma word_power: "k < 64 \<Longrightarrow> pow2_word (2 ^ k) k"
  by (simp add: pow2_word_def)

lemma or_null_case: "f = Some (r, w') \<Longrightarrow> or_null f = Some ((case r of None \<Rightarrow> 0 | Some q \<Rightarrow> q), w')"
  by (simp add: or_null_def)

lemma ga_alloc_spec:
  assumes env: "env_ok env" and rep: "represents env T H w" and th: "th \<in> T" and al: "pow2_word align k"
    and sz: "unat (max sz 1) + unat align \<le> 2 ^ 25"
  shows "\<exists>q w'. ga_alloc env th sz align w = Some (q, w') \<and> allocates env T (unat (max sz 1)) (unat align) H w q w'"
proof -
  obtain g where g: "heap_inv env T g w" "blocks_of g = H" "wd_tid w AND MI_PAGE_FLAG_MASK = 0" using rep by (auto simp: represents_def)
  obtain r w' g' where a: "alloc_aligned_in env th (max sz 1) align w = Some (r, w')"
      "placed_at env T (unat (max sz 1)) (unat align) g w r g' w'"
    using alloc_aligned_keeps [OF env g(1) th al sz] by blast
  show ?thesis
    using or_null_case [OF a(1)] placed_allocates [OF g(3) a(2)] unfolding ga_alloc_def g(2) by blast
qed

lemma ga_alloc_zeroed_spec:
  assumes env: "env_ok env" and rep: "represents env T H w" and th: "th \<in> T" and al: "pow2_word align k"
    and sz: "unat (max sz 1) + unat align \<le> 2 ^ 25"
  shows "\<exists>q w'. ga_alloc_zeroed env th sz align w = Some (q, w') \<and> allocates env T (unat (max sz 1)) (unat align) H w q w'
    \<and> (q \<noteq> 0 \<longrightarrow> unat (max sz 1) \<le> 4096 \<or> 8 < unat align \<longrightarrow> zeroed q (unat (max sz 1)) w')"
proof -
  obtain g where g: "heap_inv env T g w" "blocks_of g = H" "wd_tid w AND MI_PAGE_FLAG_MASK = 0" using rep by (auto simp: represents_def)
  obtain r w' g' where a: "alloc_zeroed_aligned_in env th (max sz 1) align w = Some (r, w')"
      "placed_at env T (unat (max sz 1)) (unat align) g w r g' w'"
      "\<forall>q. r = Some q \<longrightarrow> unat (max sz 1) \<le> 4096 \<or> 8 < unat align \<longrightarrow> zeroed q (unat (max sz 1)) w'"
    using alloc_zeroed_aligned_keeps [OF env g(1) th al sz] by blast
  have "(case r of None \<Rightarrow> 0 | Some q \<Rightarrow> q) \<noteq> 0 \<longrightarrow> unat (max sz 1) \<le> 4096 \<or> 8 < unat align
      \<longrightarrow> zeroed (case r of None \<Rightarrow> 0 | Some q \<Rightarrow> q) (unat (max sz 1)) w'"
    using a(3) by (cases r) simp_all
  then show ?thesis
    using or_null_case [OF a(1)] placed_allocates [OF g(3) a(2)] unfolding ga_alloc_zeroed_def g(2) by blast
qed

text \<open>The entry points of \<^verbatim>\<open>src/api/mod.rs\<close>: what they return is aligned to a word at least.\<close>

lemma mi_malloc_spec:
  assumes env: "env_ok env" and rep: "represents env T H w" and th: "th \<in> T" and sz: "unat sz \<le> 2 ^ 25"
  shows "\<exists>q w'. mi_malloc env th sz w = Some (q, w') \<and> allocates env T (unat sz) 8 H w q w'"
proof -
  obtain g where g: "heap_inv env T g w" "blocks_of g = H" "wd_tid w AND MI_PAGE_FLAG_MASK = 0" using rep by (auto simp: represents_def)
  obtain r w' g' where a: "theap_alloc env th sz w = Some (r, w')" "served env T (max 8 (unat sz)) g w r g' w'"
    using theap_alloc_keeps [OF env g(1) th sz] by blast
  have "placed_at env T (unat sz) 8 g w r g' w'" using served_placed [OF a(2) word_power [of 3], simplified] by simp
  from placed_allocates [OF g(3) this] show ?thesis using or_null_case [OF a(1)] unfolding mi_malloc_def g(2) by blast
qed

lemma mi_zalloc_spec:
  assumes env: "env_ok env" and rep: "represents env T H w" and th: "th \<in> T" and sz: "unat sz \<le> 2 ^ 25"
  shows "\<exists>q w'. mi_zalloc env th sz w = Some (q, w') \<and> allocates env T (unat sz) 8 H w q w'
    \<and> (q \<noteq> 0 \<longrightarrow> unat sz \<le> 4096 \<longrightarrow> zeroed q (unat sz) w')"
proof -
  obtain g where g: "heap_inv env T g w" "blocks_of g = H" "wd_tid w AND MI_PAGE_FLAG_MASK = 0" using rep by (auto simp: represents_def)
  obtain r w' g' where a: "alloc_zeroed_in env th sz w = Some (r, w')" "served env T (max 8 (unat sz)) g w r g' w'"
      "\<forall>q. r = Some q \<longrightarrow> unat sz \<le> 4096 \<longrightarrow> zeroed q (unat sz) w'"
    using alloc_zeroed_keeps [OF env g(1) th sz] by blast
  have "placed_at env T (unat sz) 8 g w r g' w'" using served_placed [OF a(2) word_power [of 3], simplified] by simp
  moreover have "(case r of None \<Rightarrow> 0 | Some q \<Rightarrow> q) \<noteq> 0 \<longrightarrow> unat sz \<le> 4096 \<longrightarrow> zeroed (case r of None \<Rightarrow> 0 | Some q \<Rightarrow> q) (unat sz) w'"
    using a(3) by (cases r) simp_all
  ultimately show ?thesis using or_null_case [OF a(1)] placed_allocates [OF g(3)] unfolding mi_zalloc_def g(2) [symmetric] by blast
qed

lemma null_allocates: "represents env T H w \<Longrightarrow> allocates env T k a H w 0 w"
  by (simp add: allocates_def undisturbed_def)

lemma mi_calloc_spec:
  assumes env: "env_ok env" and rep: "represents env T H w" and th: "th \<in> T"
    and sz: "unat count * unat sz \<le> 2 ^ 25 \<or> 2 ^ 64 \<le> unat count * unat sz"
  shows "\<exists>q w'. mi_calloc env th count sz w = Some (q, w') \<and> allocates env T (unat count * unat sz) 8 H w q w'
    \<and> (2 ^ 64 \<le> unat count * unat sz \<longrightarrow> q = 0)"
proof (cases "unat count * unat sz < 2 ^ 64")
  case True
  then have le: "unat count * unat sz \<le> 2 ^ 25" using sz by simp
  have u: "unat (count * sz) = unat count * unat sz" by (rule unat_mult_small [OF True])
  from mi_zalloc_spec [OF env rep th, of "count * sz"] show ?thesis using True le by (auto simp: mi_calloc_def u)
next
  case False
  then show ?thesis using null_allocates [OF rep] by (simp add: mi_calloc_def)
qed

lemma mi_malloc_aligned_spec:
  assumes env: "env_ok env" and rep: "represents env T H w" and th: "th \<in> T"
    and sz: "unat sz + unat align \<le> 2 ^ 25 \<or> \<not> (\<exists>k. pow2_word align k)"
  shows "\<exists>q w'. mi_malloc_aligned env th sz align w = Some (q, w') \<and> allocates env T (unat sz) (unat align) H w q w'
    \<and> (\<not> (\<exists>k. pow2_word align k) \<longrightarrow> q = 0)"
proof (cases "\<exists>k. pow2_word align k")
  case True
  then obtain k where k: "pow2_word align k" ..
  have al: "align \<noteq> 0" "is_power_of_two align" using k by (auto simp: pow2_word_def is_power_of_two_iff)
  obtain g where g: "heap_inv env T g w" "blocks_of g = H" "wd_tid w AND MI_PAGE_FLAG_MASK = 0" using rep by (auto simp: represents_def)
  have le: "unat sz + unat align \<le> 2 ^ 25" using sz True by blast
  obtain r w' g' where a: "alloc_aligned_in env th sz align w = Some (r, w')" "placed_at env T (unat sz) (unat align) g w r g' w'"
    using alloc_aligned_keeps [OF env g(1) th k le] by blast
  show ?thesis using or_null_case [OF a(1)] placed_allocates [OF g(3) a(2)] al k unfolding mi_malloc_aligned_def g(2) by auto
next
  case False
  then have "align = 0 \<or> \<not> is_power_of_two align" by (auto simp: pow2_word_def is_power_of_two_iff)
  then show ?thesis using null_allocates [OF rep] by (simp add: mi_malloc_aligned_def)
qed

lemma ga_dealloc_spec:
  assumes env: "env_ok env" and rep: "represents env T H w" and x: "x \<in> H" "serves x q sz"
  shows "\<exists>w'. ga_dealloc env q w = Some (Free_Done, w') \<and> represents env T (H - {x}) w' \<and> undisturbed (H - {x}) w w'"
proof -
  obtain g where g: "heap_inv env T g w" "blocks_of g = H" "wd_tid w AND MI_PAGE_FLAG_MASK = 0" using rep by (auto simp: represents_def)
  obtain b n i where b: "x = (b, n, i)" "(b, n, i) \<in> blocks_of g" "unat b \<le> unat q" "unat q < unat b + n" "q = b \<or> i"
    using x g(2) by (cases x) (auto simp: serves_def)
  obtain w' g' where f: "heap_free env q w = Some (Free_Done, w')" "freed env T b g (w\<lparr>wd_tid := wd_tid w'\<rparr>) g' w'"
      "wd_tid w' AND MI_PAGE_FLAG_MASK = 0"
    using heap_free_keeps [OF env g(1,3) b(2-5)] by blast
  have only: "fst y \<noteq> b \<longleftrightarrow> y \<noteq> x" if "y \<in> H" for y
    using blocks_eq [OF g(1), of x y] that x(1) by (auto simp: b(1) g(2))
  have H': "blocks_of g' = H - {x}" using f(2) only by (auto simp: freed_def g(2))
  have rep': "represents env T (H - {x}) w'" using f(2,3) H' by (auto simp: freed_def represents_def)
  have same: "undisturbed (H - {x}) w w'" using f(2) H' by (simp add: freed_def undisturbed_def)
  have "q \<noteq> 0" using serves_nonzero [OF x(2) [unfolded b(1)]] soundD(1) [OF represents_sound [OF rep] x(1) [unfolded b(1)]] by blast
  then show ?thesis using f(1) rep' same by (auto simp: ga_dealloc_def mi_free_def)
qed

lemma mi_realloc_spec:
  assumes env: "env_ok env" and rep: "represents env T H w" and th: "th \<in> T" and x: "x \<in> H" "serves x p s" and sz: "unat sz \<le> 2 ^ 25"
  shows "\<exists>q w'. mi_realloc env th p sz w = Some (q, w') \<and> reallocates env T p (unat sz) 1 x H w q w'"
proof -
  obtain g where g: "heap_inv env T g w" "blocks_of g = H" "wd_tid w AND MI_PAGE_FLAG_MASK = 0" using rep by (auto simp: represents_def)
  obtain b n i where b: "x = (b, n, i)" "(b, n, i) \<in> blocks_of g" "unat b \<le> unat p" "unat p < unat b + n" "p = b \<or> i"
    using x g(2) by (cases x) (auto simp: serves_def)
  have p0: "p \<noteq> 0" using serves_nonzero [OF x(2) [unfolded b(1)]] soundD(1) [OF represents_sound [OF rep] x(1) [unfolded b(1)]] by blast
  obtain r w' g' where r: "realloc env th p sz w = Some (r, w')" "wd_tid w' AND MI_PAGE_FLAG_MASK = 0"
      "r = Some p \<and> w' = w \<and> unat p + unat sz \<le> unat b + n \<or> moved env T p (unat sz) 1 (b, n, i) g w r g' w'"
    using realloc_keeps [OF env g(1,3) th b(2-5) sz] by blast
  let ?q = "case r of None \<Rightarrow> 0 | Some q \<Rightarrow> q"
  have run: "mi_realloc env th p sz w = Some (?q, w')" using or_null_case [OF r(1)] p0 by (simp add: mi_realloc_def)
  from r(3) have "reallocates env T p (unat sz) 1 x H w ?q w'"
  proof
    assume same: "r = Some p \<and> w' = w \<and> unat p + unat sz \<le> unat b + n"
    then have "serves x p (unat sz)" using b(1,3-5) by (simp add: serves_def)
    then show ?thesis using same rep p0 by (simp add: reallocates_def copied_def)
  next
    assume "moved env T p (unat sz) 1 (b, n, i) g w r g' w'"
    then have "reallocates env T p (unat sz) 1 (b, n, i) (blocks_of g) w ?q w'"
      by (rule moved_reallocates [OF b(2) r(2)])
    then show ?thesis by (simp only: b(1) g(2))
  qed
  then show ?thesis using run by blast
qed

lemma ga_realloc_spec:
  assumes env: "env_ok env" and rep: "represents env T H w" and th: "th \<in> T" and x: "x \<in> H" "serves x p s"
    and al: "pow2_word align k" and sz: "unat sz + unat align \<le> 2 ^ 25"
  shows "\<exists>q w'. ga_realloc env th p align sz w = Some (q, w') \<and> reallocates env T p (unat sz) (unat align) x H w q w'"
proof -
  obtain g where g: "heap_inv env T g w" "blocks_of g = H" "wd_tid w AND MI_PAGE_FLAG_MASK = 0" using rep by (auto simp: represents_def)
  obtain b n i where b: "x = (b, n, i)" "(b, n, i) \<in> blocks_of g" "unat b \<le> unat p" "unat p < unat b + n" "p = b \<or> i"
    using x g(2) by (cases x) (auto simp: serves_def)
  have p0: "p \<noteq> 0" using serves_nonzero [OF x(2) [unfolded b(1)]] soundD(1) [OF represents_sound [OF rep] x(1) [unfolded b(1)]] by blast
  obtain r w' g' where r: "realloc_aligned env th p sz align w = Some (r, w')" "wd_tid w' AND MI_PAGE_FLAG_MASK = 0"
      "moved env T p (unat sz) (unat align) (b, n, i) g w r g' w'"
    using realloc_aligned_keeps [OF env g(1,3) th b(2-5) al sz] by blast
  let ?q = "case r of None \<Rightarrow> 0 | Some q \<Rightarrow> q"
  have run: "ga_realloc env th p align sz w = Some (?q, w')" using or_null_case [OF r(1)] p0 by (simp add: ga_realloc_def)
  have "reallocates env T p (unat sz) (unat align) x H w ?q w'"
    using moved_reallocates [OF b(2) r(2,3)] by (simp only: b(1) g(2))
  then show ?thesis using run by blast
qed

lemma collect_spec:
  assumes env: "env_ok env" and rep: "represents env T H w" and th: "th \<in> T" and cb: "wd_deferred_fn w = 0"
  shows "\<exists>w'. theap_collect cb env th force w = Some w' \<and> represents env T H w' \<and> undisturbed H w w'"
proof -
  obtain g where g: "heap_inv env T g w" "blocks_of g = H" "wd_tid w AND MI_PAGE_FLAG_MASK = 0" using rep by (auto simp: represents_def)
  obtain w' g' where c: "theap_collect cb env th force w = Some w'" "quiet env T g w g' w'"
    using theap_collect_keeps [OF env g(1) th cb] by blast
  show ?thesis using c(1) quietD [OF c(2)] g(2,3) by (auto simp: represents_def)
qed

end
