(* ===== verification/MiRoom.thy ===== *)
theory MiRoom
  imports MiHeapSafe
begin

unbundle bit_operations_syntax

text \<open>
  When allocation succeeds: as long as some arena has a free run and the OS commits memory, slices are
  found, a page is built on them, and the page serves a block.
\<close>

section \<open>Slices\<close>

text \<open>A free run of \<open>n\<close> slices in one chunk of the arena.\<close>

definition has_run :: "nat \<Rightarrow> arena \<Rightarrow> bool" where
  "has_run n a \<longleftrightarrow> (\<exists>i. i mod CHUNK_BITS + n \<le> CHUNK_BITS \<and> {i..<i + n} \<subseteq> bits_of (ar_free a))"

text \<open>The OS commits whatever it is asked to.\<close>

definition commits :: "sys \<Rightarrow> bool" where
  "commits sy \<longleftrightarrow> (\<forall>p n lg. fst (os_commit (sy_libc sy) (sy_cfg sy) p n lg) \<noteq> None)"

lemma arena_alloc_outcome:
  assumes env: "env_ok env" and pool: "pool_ok env w" and ar: "ar \<in> set (wd_arena_list w)" and n: "0 < n" "n \<le> CHUNK_BITS"
    and com: "commits (en_sys env)" and run: "arena_alloc env n tseq ar w = Some (r, w')"
  shows "wd_arena_list w' = wd_arena_list w" "has_run n (wd_arenas w ar) \<Longrightarrow> r \<noteq> None"
    "r = None \<Longrightarrow> has_run m (wd_arenas w' x) = has_run m (wd_arenas w x)"
proof -
  let ?a = "wd_arenas w ar" and ?sy = "en_sys env"
  obtain r' a' lg' where c: "alloc_slices ?sy (en_now env (wd_clock w)) n tseq (?a, wd_log w) = Inr (r', a', lg')"
      "case r' of Some got \<Rightarrow> handed_out ?sy n (?a, wd_log w) got (a', lg') | None \<Rightarrow> not_handed_out ?sy n (?a, wd_log w) (a', lg')"
    using alloc_slices_spec [OF pool_arena(1) [OF pool ar] env_okD(1) [OF env] n] by blast
  have r: "r = map_option (\<lambda>(idx, p, z). (ar, idx, p, z)) r'"
    "w' = w\<lparr>wd_arenas := (wd_arenas w)(ar := a'), wd_log := lg', wd_clock := wd_clock w + 1\<rparr>"
    using run by (simp_all add: arena_alloc_def on_arena_def c(1))
  show "r \<noteq> None" if "has_run n ?a"
  proof
    assume "r = None"
    then have "not_handed_out ?sy n (?a, wd_log w) (a', lg')" using c(2) r(1) by simp
    then show False using that com unfolding not_handed_out_def has_run_def commits_def split_conv by blast
  qed
  show "wd_arena_list w' = wd_arena_list w" by (simp add: r(2))
  show "has_run m (wd_arenas w' x) = has_run m (wd_arenas w x)" if "r = None"
    using that c(2) r by (auto simp: not_handed_out_def has_run_def)
qed

lemma alloc_in_pool_finds:
  assumes env: "env_ok env" and n: "0 < n" "n \<le> CHUNK_BITS" and com: "commits (en_sys env)" and count: "0 < count"
  shows "pool_ok env w \<Longrightarrow> count \<le> arena_count w \<Longrightarrow> k \<in> set ks \<Longrightarrow> has_run n (wd_arenas w (wd_arena_list w ! ((start + k) mod count))) \<Longrightarrow>
    \<exists>got w'. alloc_in_pool env n tseq start count ks w = Some (Some got, w') \<and> wd_arena_list w' = wd_arena_list w"
proof (induction ks arbitrary: w)
  case Nil
  then show ?case by simp
next
  case (Cons j ks)
  let ?i = "(start + j) mod count"
  have i: "?i < arena_count w" using Cons.prems(2) count by (meson less_le_trans mod_less_divisor)
  then obtain ar where ar: "arena_at ?i w = Some ar" "ar \<in> set (wd_arena_list w)" using arena_at_in Cons.prems(1) by blast
  have at: "wd_arena_list w ! ?i = ar" using ar(1) by (simp add: arena_at_def Let_def split: if_splits)
  obtain r w1 where w1: "arena_alloc env n tseq ar w = Some (r, w1)" "claim_result env n w r w1"
    using arena_alloc_step [OF env Cons.prems(1) ar(2) n] by blast
  note o = arena_alloc_outcome [OF env Cons.prems(1) ar(2) n com w1(1)]
  show ?case
  proof (cases r)
    case (Some got)
    then show ?thesis using ar(1) w1(1) o(1) by (cases got) (simp add: Let_def)
  next
    case None
    have ne: "k \<noteq> j" using o(2) None Cons.prems(4) at by auto
    have st: "pool_ok env w1" using w1(2) None pool_stepD(1) by (auto simp: claim_result_def)
    have "count \<le> arena_count w1" "has_run n (wd_arenas w1 (wd_arena_list w1 ! ((start + k) mod count)))"
      using Cons.prems(2,4) o(1) o(3) [OF None] by (simp_all add: arena_count_def)
    then obtain got w' where "alloc_in_pool env n tseq start count ks w1 = Some (Some got, w')" "wd_arena_list w' = wd_arena_list w1"
      using Cons.IH [OF st] Cons.prems(3) ne by auto
    then show ?thesis using ar(1) w1(1) o(1) None by (cases got) (simp add: Let_def)
  qed
qed

lemma slices_found:
  assumes env: "env_ok env" and pool: "pool_ok env w" and n: "0 < n" "n \<le> CHUNK_BITS" and com: "commits (en_sys env)"
    and ar: "ar \<in> set (wd_arena_list w)" "has_run n (wd_arenas w ar)"
  shows "\<exists>got w'. sp_alloc_slices env n commit tseq w = Some (Some got, w') \<and> claimed env n w got w' \<and> pool_step env UNIV w w'
    \<and> wd_arena_list w' = wd_arena_list w"
proof -
  obtain i where i: "i < arena_count w" "wd_arena_list w ! i = ar" using ar(1) by (auto simp: in_set_conv_nth arena_count_def)
  let ?c = "arena_count w" and ?s = "wd_cursor w mod arena_count w"
  have c0: "0 < ?c" using i(1) by simp
  let ?k = "(i + (?c - ?s)) mod ?c"
  have "?s < ?c" using c0 by simp
  then have "?s + (i + (?c - ?s)) = i + ?c" by simp
  then have "(?s + ?k) mod ?c = i" using i(1) by (simp only: mod_add_right_eq) simp
  then have "has_run n (wd_arenas w (wd_arena_list w ! ((?s + ?k) mod ?c)))" using i(2) ar(2) by simp
  moreover have "?k \<in> set [0..<?c]" using c0 by simp
  ultimately obtain got w' where p: "alloc_in_pool env n tseq ?s ?c [0..<?c] w = Some (Some got, w')" "wd_arena_list w' = wd_arena_list w"
    using alloc_in_pool_finds [OF env n com c0 pool] by blast
  then have "sp_alloc_slices env n commit tseq w = Some (Some got, w')" using c0 by (cases got) (simp add: sp_alloc_slices_def Let_def)
  moreover obtain r w2 where "sp_alloc_slices env n commit tseq w = Some (r, w2)" "claim_result env n w r w2"
    using sp_alloc_slices_step [OF env pool n] by blast
  ultimately show ?thesis using p(2) by (auto simp: claim_result_def)
qed

section \<open>Pages\<close>

lemma page_map_reach:
  assumes "arena_ok a" "in_unit a i n" "unat (ar_start a) + 65536 * ar_slice_count a \<le> 2 ^ 47" "pm_inv pm"
  shows "\<exists>pm'. register (\<lambda>_. True) (slice_ptr a i) n p pm = (True, pm')"
proof -
  let ?p = "slice_ptr a i"
  note us = unit_small [OF assms(1,2)]
  have "i + n \<le> ar_slice_count a" using assms(2) by (simp add: in_unit_def)
  moreover have "unat ?p = unat (ar_start a) + 65536 * i" using slice_ptr_unat [OF assms(1), of i] calculation by simp
  ultimately have "unat ?p + 65536 * n \<le> 2 ^ 47" using assms(3) by simp
  moreover have "unat (pm_slice_index ?p) = unat ?p div 65536"
    by (simp add: pm_slice_index_def mi_consts drop_bit_eq_div unat_div unat_pow2)
  ultimately have "unat (pm_slice_index ?p) + n \<le> 2 ^ 31" using div_mult_self1 [of 65536 "unat ?p" n] by simp
  then have "fst (register (\<lambda>_. True) ?p n p pm)" using us(3) by (intro register_slot(3) [OF assms(4)]) simp_all
  then show ?thesis by (cases "register (\<lambda>_. True) ?p n p pm") simp
qed

lemma new_page_succeeds:
  assumes env: "env_ok env" and inv: "heap_inv env T g w" and th: "th \<in> T" and b: "b < MI_BIN_HUGE"
    and bs: "bs = bin_block_size b" "8 \<le> unat bs" "8 dvd unat bs" and n: "0 < n" "n \<le> 512"
    and com: "commits (en_sys env)" "en_map_ok env = (\<lambda>_. True)"
    and ar: "ar \<in> set (wd_arena_list w)" "has_run n (wd_arenas w ar)"
    and low: "\<forall>ar\<in>set (wd_arena_list w). unat (ar_start (wd_arenas w ar)) + 65536 * ar_slice_count (wd_arenas w ar) \<le> 2 ^ 47"
  shows "\<exists>p w' g'. new_page env th b bs n w = Some (Some p, w') \<and> quiet env T g w g' w' \<and> p \<in> set (gh_queue g' th b) \<and> gh_live g' p = {}
    \<and> unat (pg_reserved (wd_pages w' p)) = (n * 65536 - 144) div unat bs"
proof -
  let ?w1 = "snd (next_tseq th w)" and ?t = "fst (next_tseq th w)"
  note q1 = quiet_tseq [OF inv, of th]
  have same: "wd_arena_list ?w1 = wd_arena_list w" "wd_arenas ?w1 = wd_arenas w" by (simp_all add: next_tseq_def upd_theap_def)
  obtain r w' g' where r: "new_page env th b bs n w = Some (r, w')" "quiet env T g w g' w'" "\<forall>p. r = Some p \<longrightarrow> p \<in> set (gh_queue g' th b) \<and> gh_live g' p = {}"
    using new_page_keeps [OF env inv th b bs n] by blast
  have n': "n \<le> CHUNK_BITS" using n(2) by (simp add: mi_consts)
  obtain got w2 where c: "sp_alloc_slices env n (eager_commit (sy_vals (en_sys env))) ?t ?w1 = Some (Some got, w2)"
      "claimed env n ?w1 got w2" "pool_step env UNIV ?w1 w2" "wd_arena_list w2 = wd_arena_list w"
    using slices_found [OF env heap_invD(1) [OF quietD(1) [OF q1]] n(1) n' com(1), unfolded same, OF ar] by blast
  obtain x i p z where got: "got = (x, i, p, z)" by (cases got)
  note ns = new_slices [OF quietD(1) [OF q1] c(3) c(2) [unfolded got]]
  note us = unit_small [OF ns(6,5)]
  let ?a = "wd_arenas w2 x" and ?t2 = "wd_theaps w2 th"
  have x: "x \<in> set (wd_arena_list w)" using ns(4) c(4) by simp
  have "same_arena (wd_arenas w x) ?a" using pool_stepD(3) [OF c(3), of x] x by (simp add: same)
  then have "unat (ar_start ?a) + 65536 * ar_slice_count ?a \<le> 2 ^ 47" using low x same_arena_fields by simp
  then obtain pm' where reg: "register (\<lambda>_. True) p n p (wd_pm w2) = (True, pm')"
    using page_map_reach [OF ns(6,5) _ heap_invD(3) [OF ns(1)], of p] ns(7) by blast
  define pg0 where "pg0 = init p (of_nat i) (of_nat n) bs (th_keys ?t2) z"
  define pg where "pg = own_page th ?t2 x b pg0"
  let ?w3 = "w2\<lparr>wd_pages := (wd_pages w2)(p := pg), wd_pm := pm'\<rparr>"
  have run: "new_page env th b bs n w = Some (Some p, on_queue th b (push_front p) ?w3)"
    using c(1) got reg com(2) by (simp add: new_page_def case_prod_beta Let_def pg_def pg0_def)
  note t2 = heap_invD(4) [OF ns(1) th]
  obtain q ps where f: "push_front p (th_pages ?t2 b, wd_pages ?w3) = (q, ps)" by fastforce
  have "wd_pages (on_queue th b (push_front p) ?w3) = ps" using f by (simp add: on_queue_fields)
  moreover have "body (wd_pages ?w3 p) (ps p)" using push_front_body [of "wd_pages ?w3" p p "th_pages ?t2 b"] f by simp
  ultimately have "pg_reserved (wd_pages (on_queue th b (push_front p) ?w3) p) = pg_reserved pg0"
    using own_page_fields(1) [OF theap_goodD(2) [OF t2] less_imp_le [OF b], of th x pg0] by (simp add: body_def core_def pg_def)
  moreover have "unat (pg_reserved pg0) = (n * 65536 - 144) div unat bs"
  proof -
    have "(8 :: nat) dvd 65536" by simp
    then have p0: "p \<noteq> 0" "8 dvd unat p" using us(5) dvd_trans [OF _ us(6)] unfolding ns(7) by blast+
    have lnk: "linkable (en_enc env) (th_keys ?t2) y" if "unat y < unat p + n * 65536" "8 dvd unat y" for y
      using theap_goodD(1) [OF t2] that us(7) ns(7) by (simp add: keys_ok_def)
    have p1: "unat p + n * 65536 < 2 ^ 64" using us(7) unfolding ns(7) by simp
    have big: "unat (of_nat n :: usize) * 65536 < 2 ^ 32" using us(2,3) by simp
    have sc: "0 < (of_nat n :: usize)" using us(2) n(1) by (simp add: word_less_nat_alt)
    show ?thesis
      using init_lists [of p "of_nat n" bs "en_enc env" "th_keys ?t2" "of_nat i" z "\<lambda>_. 0"] p0 p1 bs lnk us(2) sc big
      unfolding pg0_def [symmetric] by simp
  qed
  ultimately show ?thesis using r run by auto
qed

lemma empty_page_serves:
  assumes inv: "heap_inv env T g w" and p: "p \<in> pages_of g" and empty: "gh_live g p = {}"
    and some: "0 < unat (pg_reserved (wd_pages w p))"
  shows "\<exists>b w' g'. page_alloc env p w = Some (Some b, w') \<and> served env T (gh_size g p) g w (Some b) g' w'"
proof -
  obtain r w' g' where r: "page_alloc env p w = Some (r, w')" "served env T (gh_size g p) g w r g' w'"
    using page_alloc_keeps [OF inv p] by blast
  note live = page_lives [OF inv p]
  obtain r2 pg' m' L' where a: "alloc (en_enc env) (wd_pages w p) (wd_links w) = Some (r2, pg', m')"
      "alloc_outcome (wd_pages w p) (gh_live g p) r2 L'"
    using alloc_live [OF live] by blast
  have "r2 = r" using r(1) a(1) by (simp add: page_alloc_def on_page_def)
  moreover have "all_blocks (wd_pages w p) \<noteq> {}" 
    using some by (auto simp: all_blocks_def grid_def)
  ultimately have "r \<noteq> None" using a(2) empty by (auto simp: alloc_outcome_def)
  then show ?thesis using r by auto
qed

end
