(* ===== verification/MiStart.thy ===== *)
theory MiStart
  imports MiRoom
begin

unbundle bit_operations_syntax

text \<open>
  The states a program starts from: a pool of arenas, an empty page map and thread heaps that have just
  been created. With the states reached from there the theorems about blocks in use and about
  programs are applied to concrete ones.
\<close>

section \<open>Fresh thread heaps\<close>

definition no_pages :: ghost where
  "no_pages = \<lparr>gh_queue = (\<lambda>_ _. []), gh_size = (\<lambda>_. 0), gh_live = (\<lambda>_. {}), gh_inner = {}\<rparr>"

lemma fresh_inv:
  assumes pool: "pool_ok env w" "no_abandoned w" and pm: "wd_pm w = pm_start"
    and th: "\<And>th. th \<in> T \<Longrightarrow> \<exists>hp h tid. wd_theaps w th = theap_new hp h tid \<and> keys_ok (en_enc env) (hp_keys h) \<and> tid_ok tid"
  shows "heap_inv env T no_pages w" "blocks_of no_pages = {}"
proof -
  have none: "pages_of no_pages = {}" by (simp add: pages_of_def no_pages_def)
  have map: "lookup a (wd_pm w) = 0" for a
    using pm by (simp add: lookup_def pm_start_def case_prod_beta)
  have good: "theap_good env no_pages w th" if "th \<in> T" for th
    using th [OF that] by (auto simp: theap_good_def theap_new_def no_pages_def queue_is_def pq_new_def direct_ok_def)
  show "heap_inv env T no_pages w"
    unfolding heap_inv_def using pool pm_inv_start pm good map none
    by (auto simp: feet_apart_def inner_ok_def no_pages_def)
  show "blocks_of no_pages = {}" by (simp add: blocks_of_def none)
qed

lemma fresh_represents:
  assumes "pool_ok env w" "no_abandoned w" "wd_pm w = pm_start" "wd_tid w AND MI_PAGE_FLAG_MASK = 0"
    and "\<And>th. th \<in> T \<Longrightarrow> \<exists>hp h tid. wd_theaps w th = theap_new hp h tid \<and> keys_ok (en_enc env) (hp_keys h) \<and> tid_ok tid"
  shows "represents env T {} w"
  using fresh_inv [OF assms(1-3,5)] assms(4) by (auto simp: represents_def)

section \<open>New threads\<close>

text \<open>A thread that starts brings an empty thread heap of its own; nothing else changes.\<close>

lemma thread_start_keeps:
  assumes inv: "heap_inv env T g w" and th: "th \<notin> T" and ks: "keys_ok (en_enc env) (hp_keys (wd_heaps w hp))" and t: "tid_ok (fst (current_tid w))"
  shows "heap_inv env (insert th T) g (thread_start th hp w)"
proof -
  obtain tid w1 where c: "current_tid w = (tid, w1)" by fastforce
  let ?t = "theap_new hp (wd_heaps w hp) tid" and ?w = "thread_start th hp w"
  have w: "?w = w1\<lparr>wd_theaps := (wd_theaps w)(th := ?t)\<rparr>" and same: "same_pool w ?w" "wd_pm ?w = wd_pm w" "wd_links ?w = wd_links w" "wd_pages ?w = wd_pages w"
    using c by (auto simp: thread_start_def upd_theap_def current_tid_def Let_def same_pool_def split: if_splits)
  have others: "wd_theaps ?w x = wd_theaps w x" if "x \<in> T" for x using that th unfolding w by auto
  have "heap_inv env T g ?w"
    by (rule heap_inv_tweak [OF inv same(1-3)])
      (simp_all add: same(4) same_place_refl others same_theap_refl theap_goodD(4) [OF heap_invD(4) [OF inv]])
  moreover have "gh_queue g th b = []" for b using heap_invD(5) [OF inv, of _ th b] th by (cases "gh_queue g th b") auto
  then have "theap_good env g ?w th"
    using ks t c by (auto simp: theap_good_def w theap_new_def queue_is_def pq_new_def direct_ok_def)
  ultimately show ?thesis unfolding heap_inv_def by blast
qed

lemma thread_start_represents:
  assumes rep: "represents env T H w" and th: "th \<notin> T" and ks: "keys_ok (en_enc env) (hp_keys (wd_heaps w hp))" and t: "tid_ok (fst (current_tid w))"
  shows "represents env (insert th T) H (thread_start th hp w)" "wd_links (thread_start th hp w) = wd_links w"
proof -
  obtain g where g: "heap_inv env T g w" "blocks_of g = H" using rep by (auto simp: represents_def)
  have "wd_tid (thread_start th hp w) = fst (current_tid w)"
    by (auto simp: thread_start_def upd_theap_def current_tid_def Let_def)
  then have "wd_tid (thread_start th hp w) AND MI_PAGE_FLAG_MASK = 0" using t by (simp add: tid_ok_def)
  then show "represents env (insert th T) H (thread_start th hp w)"
    using thread_start_keeps [OF g(1) th ks t] g(2) by (auto simp: represents_def)
  show "wd_links (thread_start th hp w) = wd_links w"
    by (auto simp: thread_start_def upd_theap_def current_tid_def Let_def)
qed

section \<open>Concrete states\<close>

text \<open>
  One metadata chunk at 4096, all of it in use, with the descriptor of the arena in its block 4; the
  arena of 600 slices at 16 MiB, mapped and not committed; thread heaps of thread 8.
\<close>

definition start_chunk :: meta_chunk where
  "start_chunk = \<lparr>mc_memid = memid_none\<lparr>mi_base := 4096\<rparr>, mc_bitmap = \<lparr>bm_chunkmap = chunk_zeroed, bm_chunks = [chunk_zeroed]\<rparr>,
     mc_first_data_block = 4\<rparr>"

definition start_world :: hworld where
  "start_world =
    \<lparr> wd_arenas = (\<lambda>_. case sample_arena of Inr a \<Rightarrow> a | Inl _ \<Rightarrow> undefined), wd_arena_list = [4352], wd_cursor = 0,
      wd_meta = [start_chunk], wd_log = [(Mmap 4096 32768 True, True), (Mmap 16777216 39321600 False, True)], wd_clock = 0,
      wd_pages = (\<lambda>_. undefined), wd_links = (\<lambda>_. 0), wd_pm = pm_start,
      wd_theaps = (\<lambda>_. theap_new 0 \<lparr>hp_keys = (0, 0), hp_seq = 0, hp_theaps = 0, hp_refcount = 0\<rparr> 8),
      wd_heaps = (\<lambda>_. undefined), wd_zeroed = [], wd_copied = [], wd_deferred_fn = 0, wd_deferred_arg = 0,
      wd_recurse = False, wd_heartbeat = 0, wd_next_tid = 3, wd_next_seq = 1, wd_tid = 8, wd_registry = 0 \<rparr>"

lemma start_env [simp]: "env_ok sample_henv" "commits (en_sys sample_henv)" "en_map_ok sample_henv = (\<lambda>_. True)"
  "en_enc sample_henv = False" "sy_hard (en_sys sample_henv) = False"
proof -
  have "sy_hard (sample_sys False) = False" by (simp add: sample_sys_def)
  then show "env_ok sample_henv" "commits (en_sys sample_henv)" "en_map_ok sample_henv = (\<lambda>_. True)"
    "en_enc sample_henv = False" "sy_hard (en_sys sample_henv) = False"
    using sample_commit by (simp_all add: env_ok_def sample_henv_def sample_env commits_def en_enc_def del: not_None_eq)
qed

lemma start_arena:
  "arena_ok (wd_arenas start_world x)" "bits_of (ar_free (wd_arenas start_world x)) = {..<600}"
  "ar_slice_count (wd_arenas start_world x) = 600" "ar_start (wd_arenas start_world x) = 16777216"
  "commit_sound (wd_arenas start_world x) lg" "ar_abandoned (wd_arenas start_world x) = None"
proof -
  obtain a where a: "sample_arena = Inr a" "arena_ok a" "bits_of (ar_free a) = {..<600}" "commit_sound a lg" "ar_slice_count a = 600"
      "ar_start a = 16777216" "ar_abandoned a = None"
    using new_arena_spec [of 16777216 600 2 memid_none 0 0 False] by (auto simp: sample_arena_def commit_sound_def)
  have "wd_arenas start_world x = a" by (simp add: start_world_def a(1))
  then show "arena_ok (wd_arenas start_world x)" "bits_of (ar_free (wd_arenas start_world x)) = {..<600}"
    "ar_slice_count (wd_arenas start_world x) = 600" "ar_start (wd_arenas start_world x) = 16777216"
    "commit_sound (wd_arenas start_world x) lg" "ar_abandoned (wd_arenas start_world x) = None"
    using a by simp_all
qed

lemma start_meta: "chunk_good start_chunk" "region start_chunk = {4096..<36864}" "holds [start_chunk] 3 4352"
proof -
  have base: "region_base start_chunk = 4096" by (simp add: region_base_def start_chunk_def)
  have free: "bits_of (mc_bitmap start_chunk) = {}" "bm_inv (mc_bitmap start_chunk)" using zero_bitmap by (simp_all add: start_chunk_def)
  show good: "chunk_good start_chunk"
    by (simp add: chunk_good_def free base) (simp add: start_chunk_def max_bits_def mi_consts)
  show "region start_chunk = {4096..<36864}" by (simp add: region_def base)
  have "block_ptr start_chunk 4 = 4352" by (simp add: block_ptr_def base mi_consts)
  moreover have "blocks_at start_chunk 4 3 = block_bytes 4352 3" by (simp add: blocks_at_def block_bytes_def base)
  ultimately have "placed [start_chunk] 3 4352 (block_bytes 4352 3)"
    unfolding placed_def by (intro bexI [of _ start_chunk] exI [of _ 4]) simp_all
  moreover have "free_bytes [start_chunk] = {}" by (simp add: free_bytes_def chunk_free_def free)
  ultimately show "holds [start_chunk] 3 4352" by (simp add: holds_def)
qed

lemma start_mapped: "mapped (wd_log start_world) = {4096..<36864} \<union> {16777216..<56098816}"
  by (simp add: start_world_def mapped_def bytes_def)

lemma start_pool: "pool_ok sample_henv start_world" "no_abandoned start_world"
proof -
  have l: "wd_arena_list start_world = [4352]" "wd_meta start_world = [start_chunk]" by (simp_all add: start_world_def)
  have e: "extent (wd_arenas start_world x) = {16777216..<56098816}" for x
    by (simp add: extent_def slice_bytes_def start_arena)
  have "arena_in sample_henv (wd_meta start_world) (wd_log start_world) 4352 (wd_arenas start_world 4352)"
    unfolding arena_in_def e l(2) start_mapped using start_arena(1,5) start_meta(2,3) by (simp add: regions_def)
  then show "pool_ok sample_henv start_world"
    unfolding pool_ok_def l using start_meta(1,2) start_mapped by (auto simp: MAX_ARENAS_def meta_ok_Cons)
  show "no_abandoned start_world" by (simp add: no_abandoned_def start_arena)
qed

lemma start_theaps:
  "wd_pm start_world = pm_start" "wd_tid start_world AND MI_PAGE_FLAG_MASK = 0"
  "\<exists>hp h tid. wd_theaps start_world th = theap_new hp h tid \<and> keys_ok (en_enc sample_henv) (hp_keys h) \<and> tid_ok tid"
proof -
  show "wd_pm start_world = pm_start" "wd_tid start_world AND MI_PAGE_FLAG_MASK = 0" by (simp_all add: start_world_def mi_consts)
  have "tid_ok 8" by (simp add: tid_ok_def mi_consts)
  then show "\<exists>hp h tid. wd_theaps start_world th = theap_new hp h tid \<and> keys_ok (en_enc sample_henv) (hp_keys h) \<and> tid_ok tid"
    by (intro exI conjI) (simp_all add: start_world_def keys_ok_def linkable_def)
qed

lemma start_represents: "represents sample_henv T {} start_world"
  by (rule fresh_represents [OF start_pool start_theaps])

lemma small_bin:
  "bin_words 3 < MI_BIN_HUGE" "24 \<le> unat (bin_block_size (bin_words 3))" "8 dvd unat (bin_block_size (bin_words 3))"
  "8 \<le> unat (bin_block_size (bin_words 3))" "unat (bin_block_size (bin_words 3)) \<le> 32"
proof -
  have three: "1 \<le> (3 :: nat)" "(3 :: nat) \<le> 65536" by simp_all
  obtain v where v: "3 \<le> v" "v \<le> 65536" "bin_words v = bin_words 3" "bin_block_size (bin_words 3) = words v" by (rule block_size_of_bin [OF three])
  have "v \<le> 4" using bin_words_tiny_spread [OF _ v(2,3)] by simp
  then show "24 \<le> unat (bin_block_size (bin_words 3))" "8 dvd unat (bin_block_size (bin_words 3))"
    "8 \<le> unat (bin_block_size (bin_words 3))" "unat (bin_block_size (bin_words 3)) \<le> 32" using v(1,2,4) by (simp_all add: unat_words)
  show "bin_words 3 < MI_BIN_HUGE" by (simp add: mi_consts bin_words_def)
qed

lemma start_room:
  "has_run 1 (wd_arenas start_world 4352)"
  "\<forall>ar\<in>set (wd_arena_list start_world). unat (ar_start (wd_arenas start_world ar)) + 65536 * ar_slice_count (wd_arenas start_world ar) \<le> 2 ^ 47"
  unfolding has_run_def by (intro exI [of _ 0]) (simp_all add: start_arena mi_consts)

text \<open>A first page of the bin 3 and a block on it.\<close>

lemma start_block:
  obtains b n w where "represents sample_henv {1024} {(b, n, False)} w" "24 \<le> n"
proof -
  let ?T = "{1024}"
  obtain g where g: "heap_inv sample_henv ?T g start_world" "blocks_of g = {}" "wd_tid start_world AND MI_PAGE_FLAG_MASK = 0"
    using start_represents [of ?T] by (auto simp: represents_def)
  let ?b = "bin_words 3" and ?bs = "bin_block_size (bin_words 3)"
  note b = small_bin(1) and bs = small_bin(2,5)
  have reserved: "0 < (1 * 65536 - 144) div unat ?bs" using bs by (simp add: div_greater_zero_iff)
  have th: "1024 \<in> ?T" and n: "0 < (1 :: nat)" "(1 :: nat) \<le> 512" and ar: "4352 \<in> set (wd_arena_list start_world)"
    by (simp_all add: start_world_def)
  obtain p w1 g1 where p: "quiet sample_henv ?T g start_world g1 w1" "p \<in> set (gh_queue g1 1024 ?b)"
      "unat (pg_reserved (wd_pages w1 p)) = (1 * 65536 - 144) div unat ?bs"
      "gh_live g1 p = {}"
    using new_page_succeeds [OF start_env(1) g(1) th b refl small_bin(4,3) n start_env(2,3) ar start_room] by blast
  note inv1 = quietD(1) [OF p(1)]
  have "0 < unat (pg_reserved (wd_pages w1 p))" using p(3) reserved by simp
  then obtain x w2 g2 where x: "served sample_henv ?T (gh_size g1 p) g1 w1 (Some x) g2 w2"
    using empty_page_serves [OF inv1 pages_ofI [OF p(2)] p(4)] by blast
  have size: "24 \<le> gh_size g1 p" using page_size_bin [OF inv1 p(2) b] bs(1) by simp
  obtain k where k: "heap_inv sample_henv ?T g2 w2" "24 \<le> k" "blocks_of g2 = {(x, k, False)}" "wd_tid w2 = wd_tid w1"
    using x size quietD(2) [OF p(1)] g(2) by (auto simp: served_def)
  have "represents sample_henv ?T {(x, k, False)} w2"
    unfolding represents_def using k g(3) quietD(4) [OF p(1)] by auto
  from this k(2) show thesis by (rule that)
qed

end
