(* ===== verification/MiServe.thy ===== *)
theory MiServe
  imports MiStart
begin

unbundle bit_operations_syntax

text \<open>
  When a call is served: an allocation of up to the largest size class succeeds whenever some arena has
  a free run of the length its page takes and the OS commits memory, whatever the heap did before.
\<close>

section \<open>Steps that leave the room in the arenas\<close>

definition roomy :: "hworld \<Rightarrow> hworld \<Rightarrow> bool" where
  "roomy w w' \<longleftrightarrow> wd_arena_list w' = wd_arena_list w \<and>
    (\<forall>ar\<in>set (wd_arena_list w). ar_start (wd_arenas w' ar) = ar_start (wd_arenas w ar)
      \<and> ar_slice_count (wd_arenas w' ar) = ar_slice_count (wd_arenas w ar)
      \<and> bits_of (ar_free (wd_arenas w ar)) \<subseteq> bits_of (ar_free (wd_arenas w' ar)))"

lemma roomy_same: "wd_arenas w' = wd_arenas w \<Longrightarrow> wd_arena_list w' = wd_arena_list w \<Longrightarrow> roomy w w'"
  by (simp add: roomy_def)

lemma roomy_trans: "roomy w w1 \<Longrightarrow> roomy w1 w2 \<Longrightarrow> roomy w w2"
  unfolding roomy_def by (metis subset_trans)

lemma roomy_pool:
  assumes pool: "pool_ok env w" and st: "pool_step env U w w'" and l: "wd_arena_list w' = wd_arena_list w" and u: "used w' \<subseteq> used w"
  shows "roomy w w'"
proof -
  have "bits_of (ar_free (wd_arenas w ar)) \<subseteq> bits_of (ar_free (wd_arenas w' ar))" if ar: "ar \<in> set (wd_arena_list w)" for ar
  proof
    let ?a = "wd_arenas w ar" and ?b = "wd_arenas w' ar"
    note same = same_arena_fields [OF pool_stepD(3) [OF st ar]]
    fix i assume i: "i \<in> bits_of (ar_free ?a)"
    let ?x = "unat (ar_start ?a) + 65536 * i"
    have n: "i < ar_slice_count ?a" using bitmap_forD(3) [OF arena_okD(1) [OF pool_arena(1) [OF pool ar]]] i by blast
    have "?x \<in> area ?a (bits_of (ar_free ?a))" using i by (simp add: area_iff)
    then have "?x \<notin> used w" using free_not_used [OF pool ar] by blast
    then have x: "?x \<notin> used w'" using u by blast
    show "i \<in> bits_of (ar_free ?b)"
    proof (rule ccontr)
      assume "i \<notin> bits_of (ar_free ?b)"
      then have "?x \<in> area ?b (used_slices ?b)" using n by (simp add: area_iff same used_slices_def)
      then show False using x ar unfolding used_def l by blast
    qed
  qed
  then show ?thesis using same_arena_fields [OF pool_stepD(3) [OF st]] l by (simp add: roomy_def)
qed

lemma on_arena_list: "on_arena env ar f w = Some (r, w') \<Longrightarrow> wd_arena_list w' = wd_arena_list w"
  by (auto simp: on_arena_def bind_eq_Some_conv)

lemma w_free_slices_room:
  assumes env: "env_ok env" and pool: "pool_ok env w" and ar: "ar \<in> set (wd_arena_list w)" "in_unit (wd_arenas w ar) i n"
    and run: "w_free_slices env ar i n w = Some w'"
  shows "roomy w w'"
proof -
  have st: "pool_step env (- slice_bytes (wd_arenas w ar) i n) w w'" "used w' = used w - slice_bytes (wd_arenas w ar) i n"
    using w_free_slices_step [OF env pool ar] run by auto
  have "wd_arena_list w' = wd_arena_list w" using run on_arena_list by (fastforce simp: w_free_slices_def)
  then show ?thesis using roomy_pool [OF pool st(1)] st(2) by blast
qed

lemma try_purge_loop_list: "try_purge_loop env force is w = Some w' \<Longrightarrow> wd_arena_list w' = wd_arena_list w"
proof (induction "is" arbitrary: w)
  case (Cons i js)
  then show ?case using on_arena_list by (fastforce simp: bind_eq_Some_conv split: option.splits)
qed simp

lemma try_purge_room:
  assumes env: "env_ok env" and pool: "pool_ok env w" and run: "try_purge env force w = Some w'"
  shows "roomy w w'"
proof -
  have st: "pool_step env UNIV w w'" "used w' = used w" using try_purge_step [OF env pool, of force] run by auto
  have "wd_arena_list w' = wd_arena_list w" using run try_purge_loop_list by (auto simp: try_purge_def)
  then show ?thesis using roomy_pool [OF pool st(1)] st(2) by blast
qed

lemma on_queue_pool: "wd_arenas (on_queue th b f w) = wd_arenas w" "wd_arena_list (on_queue th b f w) = wd_arena_list w"
  by (simp_all add: on_queue_def upd_theap_def case_prod_beta)

lemma upd_pool:
  "wd_arenas (upd_theap th h w) = wd_arenas w" "wd_arena_list (upd_theap th h w) = wd_arena_list w"
  "wd_arenas (upd_page p k w) = wd_arenas w" "wd_arena_list (upd_page p k w) = wd_arena_list w"
  by (simp_all add: upd_theap_def upd_page_def)

lemma on_page_pool: "on_page p f w = Some (r, w') \<Longrightarrow> wd_arenas w' = wd_arenas w \<and> wd_arena_list w' = wd_arena_list w"
  by (auto simp: on_page_def bind_eq_Some_conv)

lemma page_alloc_room: "page_alloc env p w = Some (r, w') \<Longrightarrow> roomy w w'"
  unfolding page_alloc_def by (drule on_page_pool) (simp add: roomy_same)

lemma drop_page_room:
  assumes env: "env_ok env" and inv: "heap_inv env T g w" and p: "p \<in> set (gh_queue g th b)" and run: "drop_page env th b p w = Some w'"
  shows "roomy w w'"
proof -
  define w1 where "w1 = on_queue th b (remove p) (upd_theap th (clear_direct p) w)"
  note re = requeued_remove [OF inv p w1_def]
  let ?pg = "wd_pages w p" and ?pg1 = "wd_pages w1 p"
  have sh: "shape ?pg1 = shape ?pg" using re(7) [of p] by (simp add: body_def)
  note f = shapeD [OF sh]
  note h = page_goodD(8) [OF heap_invD(7) [OF inv p]]
  have ar: "pg_arena ?pg1 \<in> set (wd_arena_list w)" and iu: "in_unit (wd_arenas w (pg_arena ?pg1)) (unat (pg_slice_index ?pg1)) (unat (pg_slice_count ?pg1))"
    using h by (simp_all add: homed_def f)
  define w2 where "w2 = w1\<lparr>wd_pm := unregister (slice_ptr (wd_arenas w1 (pg_arena ?pg1)) (unat (pg_slice_index ?pg1))) (unat (pg_slice_count ?pg1)) (wd_pm w1)\<rparr>"
  have w2: "wd_arenas w2 = wd_arenas w" "wd_arena_list w2 = wd_arena_list w" "same_pool w w2"
    using re(2) by (simp_all add: w2_def same_pool_def)
  have pool2: "pool_ok env w2" using same_poolD(1) [OF w2(3)] heap_invD(1) [OF inv] by simp
  have ar0: "pg_arena ?pg1 \<noteq> 0" by (rule pool_arena(5) [OF heap_invD(1) [OF inv] ar])
  obtain w3 where w3: "w_free_slices env (pg_arena ?pg1) (unat (pg_slice_index ?pg1)) (unat (pg_slice_count ?pg1)) w2 = Some w3"
      "(if is_huge ?pg1 then w_meta_free p sizeof_page w3 else Some w3) = Some w'"
    using run ar0 unfolding drop_page_def w1_def [symmetric] release_page_slices_def Let_def w2_def [symmetric]
    by (auto simp: bind_eq_Some_conv)
  have "roomy w w2" by (rule roomy_same) (simp_all add: w2)
  moreover have "roomy w2 w3" by (rule w_free_slices_room [OF env pool2 _ _ w3(1)]) (use ar iu in \<open>simp_all add: w2\<close>)
  moreover have "roomy w3 w'" using w3(2) by (intro roomy_same) (auto simp: w_meta_free_def bind_eq_Some_conv split: if_splits)
  ultimately show ?thesis using roomy_trans by blast
qed

lemma retired_bin_room:
  assumes env: "env_ok env" and inv: "heap_inv env T g w" and th: "th \<in> T"
    and run: "collect_retired_bin env th force b mm w = Some (mm', w')"
  shows "roomy w w'"
proof (cases "gh_queue g th b")
  case Nil
  then have "w' = w" using run queue_first [OF inv th, of b] by (simp add: collect_retired_bin_def)
  then show ?thesis by (simp add: roomy_same)
next
  case (Cons p ps)
  have p: "p \<in> set (gh_queue g th b)" by (simp add: Cons)
  have first: "pq_first (th_pages (wd_theaps w th) b) = p" using queue_first [OF inv th, of b] Cons by simp
  let ?w = "\<lambda>n. upd_page p (\<lambda>pg. pg\<lparr>pg_retire_expire := n\<rparr>) w"
  have q: "roomy w (?w n)" for n by (rule roomy_same) (simp_all add: upd_pool)
  have drop: "roomy w w'" if "drop_page env th b p (?w n) = Some w'" for n
    using drop_page_room [OF env quietD(1) [OF quiet_expire [OF inv, of p n]] p that] roomy_trans [OF q] by blast
  show ?thesis using run first drop q roomy_same [of w w] by (auto simp: collect_retired_bin_def Let_def split: if_splits)
qed

lemma retired_loop_room:
  assumes env: "env_ok env" and th: "th \<in> T"
  shows "heap_inv env T g w \<Longrightarrow> collect_retired_loop env th force bs mm w = Some (mm', w') \<Longrightarrow> roomy w w'"
proof (induction bs arbitrary: mm w g)
  case (Cons b bs)
  obtain mm1 w1 g1 where c: "collect_retired_bin env th force b mm w = Some (mm1, w1)" "quiet env T g w g1 w1"
    using retired_bin_keeps [OF env Cons.prems(1) th] by blast
  have "collect_retired_loop env th force bs mm1 w1 = Some (mm', w')" using Cons.prems(2) c(1) by simp
  from Cons.IH [OF quietD(1) [OF c(2)] this] retired_bin_room [OF env Cons.prems(1) th c(1)] show ?case using roomy_trans by blast
qed (simp add: roomy_same)

lemma collect_retired_room:
  assumes env: "env_ok env" and inv: "heap_inv env T g w" and th: "th \<in> T" and run: "collect_retired env th force w = Some w'"
  shows "roomy w w'"
proof -
  let ?bs = "[th_retired_min (wd_theaps w th)..<Suc (th_retired_max (wd_theaps w th))]"
  obtain mm w1 g1 where l: "collect_retired_loop env th force ?bs (MI_BIN_FULL, 0) w = Some (mm, w1)" "quiet env T g w g1 w1"
    using retired_loop_keeps [OF env th inv] by blast
  let ?w2 = "upd_theap th (\<lambda>t. t\<lparr>th_retired_min := fst mm, th_retired_max := snd mm\<rparr>) w1"
  have r2: "roomy w1 ?w2" by (rule roomy_same) (simp_all add: upd_pool)
  have pool2: "pool_ok env ?w2"
    using same_poolD(1) [of w1 ?w2] heap_invD(1) [OF quietD(1) [OF l(2)]] by (simp add: same_pool_def upd_theap_def)
  have "try_purge env False ?w2 = Some w'" using run l(1) by (simp add: collect_retired_def del: upt_Suc)
  from try_purge_room [OF env pool2 this] retired_loop_room [OF env th inv l(1)] r2 show ?thesis using roomy_trans by blast
qed

lemma first_free_room:
  assumes th: "th \<in> T"
  shows "heap_inv env T g w \<Longrightarrow> gh_queue g th b = us @ xs \<Longrightarrow> first_free env (head_or xs 0) w = Some (r, w') \<Longrightarrow> roomy w w'"
proof (induction xs arbitrary: us w)
  case Nil
  then show ?case by (simp add: first_free.simps roomy_same)
next
  case (Cons cur vs)
  note inv = Cons.prems(1) and q = Cons.prems(2)
  have cur: "cur \<in> set (gh_queue g th b)" by (simp add: q)
  obtain full w1 where f: "on_page cur (is_full (en_enc env)) w = Some (full, w1)" "quiet env T g w g w1"
    using quiet_is_full [OF inv pages_ofI [OF cur]] by blast
  have r1: "roomy w w1" using on_page_pool [OF f(1)] by (simp add: roomy_same)
  note nz = queue_next(1) [OF inv th q] and nxt = queue_next(2) [OF quietD(1) [OF f(2)] th q]
  show ?case
  proof (cases full)
    case True
    have "first_free env (head_or vs 0) w1 = Some (r, w')"
      using Cons.prems(3) nz f(1) True nxt by (simp add: first_free.simps [of env cur])
    from Cons.IH [OF quietD(1) [OF f(2)] _ this, of "us @ [cur]"] show ?thesis using q roomy_trans [OF r1] by simp
  next
    case False
    have "roomy w1 w'" using Cons.prems(3) nz f(1) False
      by (intro roomy_same) (auto simp: first_free.simps [of env cur] upd_pool split: if_splits)
    then show ?thesis using roomy_trans [OF r1] by blast
  qed
qed

lemma find_free_page_room:
  assumes inv: "heap_inv env T g w" and th: "th \<in> T" and run: "find_free_page env th b w = Some (r, w')"
  shows "roomy w w'"
proof -
  obtain r1 w1 where f: "first_free env (pq_first (th_pages (wd_theaps w th) b)) w = Some (r1, w1)" "quiet env T g w g w1"
    using first_free_keeps [OF th inv, of b "[]" "gh_queue g th b"] queue_first [OF inv th] by auto
  have r1: "roomy w w1"
    using first_free_room [OF th inv, of b "[]" "gh_queue g th b" r1 w1] f(1) queue_first [OF inv th, of b] by simp
  show ?thesis
  proof (cases r1)
    case (Some p)
    then show ?thesis using run f(1) r1 by (simp add: find_free_page_def)
  next
    case None
    let ?w2 = "snd (next_tseq th w1)"
    have inv2: "heap_inv env T g ?w2" by (rule quietD(1) [OF quiet_tseq [OF quietD(1) [OF f(2)]]])
    have "reclaim_page b tseq ?w2 = Some (None, ?w2)" for tseq
      unfolding reclaim_page_def by (rule reclaim_loop_none [OF heap_invD(2,1) [OF inv2]]) auto
    then have "w' = ?w2" using run f(1) None by (simp add: find_free_page_def try_reclaim_def next_tseq_def)
    then have "roomy w1 w'" by (intro roomy_same) (simp_all add: next_tseq_def upd_pool)
    then show ?thesis using roomy_trans [OF r1] by blast
  qed
qed

section \<open>Served\<close>

text \<open>There is room for a page of the bin of \<open>sz\<close> bytes.\<close>

definition room_for :: "env \<Rightarrow> usize \<Rightarrow> hworld \<Rightarrow> bool" where
  "room_for env sz w \<longleftrightarrow> commits (en_sys env) \<and> en_map_ok env = (\<lambda>_. True)
    \<and> (\<exists>ar\<in>set (wd_arena_list w). has_run (page_slices_for (bin_block_size (bin sz))) (wd_arenas w ar))
    \<and> (\<forall>ar\<in>set (wd_arena_list w). unat (ar_start (wd_arenas w ar)) + 65536 * ar_slice_count (wd_arenas w ar) \<le> 2 ^ 47)"

lemma room_for_roomy: "room_for env sz w \<Longrightarrow> roomy w w' \<Longrightarrow> room_for env sz w'"
  unfolding room_for_def roomy_def has_run_def by (auto; blast)

lemma bin_block_bound:
  assumes "8 \<le> unat sz" "bin sz < MI_BIN_HUGE"
  shows "unat (bin_block_size (bin sz)) \<le> 524288"
proof -
  let ?w = "nat_div_ceil (unat sz) 8"
  have b: "bin sz = bin_words ?w" by (rule bin_bin_words)
  have le: "unat sz \<le> ?w * 8" by (rule nat_div_ceil_le) simp
  have w: "1 \<le> ?w" "?w \<le> 65536"
    using le assms bin_words_huge [of ?w] by (auto simp: b mi_consts not_le [symmetric])
  obtain v where v: "v \<le> 65536" "bin_block_size (bin_words ?w) = words v" by (rule block_size_of_bin [OF w])
  then show ?thesis by (simp add: b unat_words)
qed

lemma new_page_serves:
  assumes env: "env_ok env" and inv: "heap_inv env T g w" and th: "th \<in> T" and sz: "8 \<le> unat sz" "bin sz < MI_BIN_HUGE" and room: "room_for env sz w"
  shows "\<exists>p w1 b w2. new_page env th (bin sz) (bin_block_size (bin sz)) (page_slices_for (bin_block_size (bin sz))) w = Some (Some p, w1)
    \<and> page_alloc env p w1 = Some (Some b, w2)"
proof -
  let ?bs = "bin_block_size (bin sz)"
  note br = bin_room [OF sz refl]
  obtain ar where ar: "ar \<in> set (wd_arena_list w)" "has_run (page_slices_for ?bs) (wd_arenas w ar)" and com: "commits (en_sys env)" "en_map_ok env = (\<lambda>_. True)"
      and low: "\<forall>ar\<in>set (wd_arena_list w). unat (ar_start (wd_arenas w ar)) + 65536 * ar_slice_count (wd_arenas w ar) \<le> 2 ^ 47"
    using room by (auto simp: room_for_def)
  obtain p w1 g1 where p: "new_page env th (bin sz) ?bs (page_slices_for ?bs) w = Some (Some p, w1)" "quiet env T g w g1 w1"
      "p \<in> set (gh_queue g1 th (bin sz))" "gh_live g1 p = {}" "unat (pg_reserved (wd_pages w1 p)) = (page_slices_for ?bs * 65536 - 144) div unat ?bs"
    using new_page_succeeds [OF env inv th sz(2) refl br(1,2,5,6) com ar low] by blast
  have "unat ?bs \<le> MI_LARGE_MAX_OBJ_SIZE" using bin_block_bound [OF sz] by (simp add: mi_consts)
  then have "unat ?bs \<le> page_slices_for ?bs * 65536 - 144" using page_slices_hold_six_blocks [of ?bs] by (simp add: mi_consts)
  then have "0 < unat (pg_reserved (wd_pages w1 p))" using p(5) br(1) by (simp add: div_greater_zero_iff)
  from empty_page_serves [OF quietD(1) [OF p(2)] pages_ofI [OF p(3)] p(4) this] show ?thesis using p(1) by blast
qed

lemma alloc_generic_serves:
  assumes env: "env_ok env" and inv: "heap_inv env T g w" and th: "th \<in> T" and sz: "8 \<le> unat sz" "bin sz < MI_BIN_HUGE" and room: "room_for env sz w"
  shows "\<exists>x w'. alloc_generic env th sz (unat (wsize_from_size sz)) w = Some (Some x, w')"
proof -
  let ?b = "bin sz" and ?bs = "bin_block_size (bin sz)"
  obtain r1 w1 where f: "find_free_page env th ?b w = Some (r1, w1)" "quiet env T g w g w1" "\<forall>p. r1 = Some p \<longrightarrow> p \<in> set (gh_queue g th ?b)"
    using find_free_page_keeps [OF inv th] by blast
  note inv1 = quietD(1) [OF f(2)] and room1 = room_for_roomy [OF room find_free_page_room [OF inv th f(1)]]
  show ?thesis
  proof (cases r1)
    case None
    obtain w2 g2 where c: "collect_retired env th False w1 = Some w2" "quiet env T g w1 g2 w2"
      using collect_retired_keeps [OF env inv1 th] by blast
    note room2 = room_for_roomy [OF room1 collect_retired_room [OF env inv1 th c(1)]]
    from new_page_serves [OF env quietD(1) [OF c(2)] th sz room2] show ?thesis
      using f(1) None c(1) sz(2) by (auto simp: alloc_generic_def Let_def)
  next
    case (Some p)
    obtain r w2 g2 where a: "page_alloc env p w1 = Some (r, w2)" "served env T (unat sz) g w1 r g2 w2"
      using bin_page_serves [OF inv1 _ refl sz(2,1) refl, of p th] f(3) Some by blast
    show ?thesis
    proof (cases r)
      case (Some x)
      then show ?thesis using f(1) \<open>r1 = Some p\<close> a(1) sz(2) by (simp add: alloc_generic_def Let_def)
    next
      case None
      note room2 = room_for_roomy [OF room1 page_alloc_room [OF a(1)]]
      have "heap_inv env T g2 w2" using a(2) None quietD(1) by simp
      from new_page_serves [OF env this th sz room2] show ?thesis
        using f(1) \<open>r1 = Some p\<close> a(1) None sz(2) by (auto simp: alloc_generic_def Let_def)
    qed
  qed
qed

lemma theap_alloc_serves:
  assumes env: "env_ok env" and inv: "heap_inv env T g w" and th: "th \<in> T" and sz: "bin (max sz 8) < MI_BIN_HUGE" and room: "room_for env (max sz 8) w"
  shows "\<exists>x w'. theap_alloc env th sz w = Some (Some x, w')"
proof -
  let ?sz = "max sz 8" and ?i = "unat (wsize_from_size (max sz 8))"
  have r: "8 \<le> unat ?sz" by (simp add: max_def word_le_nat_alt)
  define p where "p = (if ?i \<le> MI_SMALL_WSIZE_MAX then th_direct (wd_theaps w th) ?i else 0)"
  have c: "of_nat MI_INTPTR_SIZE = (8 :: usize)" by (simp add: mi_consts)
  show ?thesis
  proof (cases "p = 0")
    case True
    from alloc_generic_serves [OF env inv th r sz room] show ?thesis
      using True unfolding theap_alloc_def c Let_def p_def [symmetric] by simp
  next
    case False
    then have q: "p \<in> pages_of g"
      using theap_goodD(4) [OF heap_invD(4) [OF inv th]] by (auto simp: p_def direct_ok_def split: if_splits intro: pages_ofI)
    obtain r1 w1 g1 where a: "page_alloc env p w = Some (r1, w1)" "served env T (gh_size g p) g w r1 g1 w1"
      using page_alloc_keeps [OF inv q] by blast
    have run: "theap_alloc env th sz w = (case r1 of Some b \<Rightarrow> Some (Some b, w1) | None \<Rightarrow> alloc_generic env th ?sz ?i w1)"
      using False unfolding theap_alloc_def c Let_def p_def [symmetric] by (simp add: a(1))
    show ?thesis
    proof (cases r1)
      case (Some x)
      then show ?thesis using run by simp
    next
      case None
      note room1 = room_for_roomy [OF room page_alloc_room [OF a(1)]]
      have "heap_inv env T g1 w1" using a(2) None quietD(1) by simp
      from alloc_generic_serves [OF env this th r sz room1] show ?thesis using run None by simp
    qed
  qed
qed

text \<open>The size an aligned request asks the size classes for.\<close>

definition asked :: "usize \<Rightarrow> usize \<Rightarrow> usize" where
  "asked sz align = (if align \<le> 8 then max sz 8 else max (sz + (align - 1)) 8)"

lemma alloc_aligned_serves:
  assumes env: "env_ok env" and inv: "heap_inv env T g w" and th: "th \<in> T" and sz: "bin (asked sz align) < MI_BIN_HUGE"
    and fit: "unat sz + unat (align - 1) < 2 ^ 64" and room: "room_for env (asked sz align) w"
  shows "\<exists>x w'. alloc_aligned_in env th sz align w = Some (Some x, w')"
proof -
  have c: "of_nat MI_INTPTR_SIZE = (8 :: usize)" by (simp add: mi_consts)
  show ?thesis
  proof (cases "align \<le> 8")
    case True
    then show ?thesis using theap_alloc_serves [OF env inv th, of sz] sz room by (simp add: asked_def alloc_aligned_in_def c)
  next
    case False
    obtain x w' where "theap_alloc env th (sz + (align - 1)) w = Some (Some x, w')"
      using theap_alloc_serves [OF env inv th, of "sz + (align - 1)"] sz room False by (auto simp: asked_def)
    then show ?thesis using False fit by (simp add: alloc_aligned_in_def c Let_def)
  qed
qed

lemma bin_small: "unat sz \<le> 524288 \<Longrightarrow> bin sz < MI_BIN_HUGE"
  using bin_words_lt_huge [OF nat_div_ceil_least [of 8 "unat sz" 65536]] by (simp add: bin_bin_words mi_consts)

lemma ga_alloc_serves:
  assumes env: "env_ok env" and rep: "represents env T H w" and th: "th \<in> T" and al: "pow2_word align k"
    and sz: "unat (max sz 1) + unat align \<le> 524288" and room: "room_for env (asked (max sz 1) align) w"
  shows "\<exists>q w'. ga_alloc env th sz align w = Some (q, w') \<and> q \<noteq> 0 \<and> allocates env T (unat (max sz 1)) (unat align) H w q w'"
proof -
  obtain g where g: "heap_inv env T g w" "blocks_of g = H" using rep by (auto simp: represents_def)
  have al0: "1 \<le> unat align" using al by (auto simp: pow2_word_def unat_pow2)
  then have a1: "unat (align - 1) = unat align - 1" by (simp add: unat_diff_le word_le_nat_alt)
  have fit: "unat (max sz 1) + unat (align - 1) < 2 ^ 64" using sz al0 by (simp add: a1)
  have "unat (max sz 1 + (align - 1)) = unat (max sz 1) + unat (align - 1)" by (rule unat_add_small [OF fit])
  then have "unat (asked (max sz 1) align) \<le> 524288"
    using sz al0 a1 by (auto simp: asked_def max_def word_le_nat_alt)
  note small = bin_small [OF this]
  obtain x w' where x: "alloc_aligned_in env th (max sz 1) align w = Some (Some x, w')"
    using alloc_aligned_serves [OF env g(1) th small fit room] by blast
  have "unat (max sz 1) + unat align \<le> 2 ^ 25" using sz by simp
  from alloc_aligned_keeps [OF env g(1) th al this] obtain g' where pl: "placed_at env T (unat (max sz 1)) (unat align) g w (Some x) g' w'"
    using x by auto
  obtain b n i where b: "heap_inv env T g' w'" "(b, n, i) \<in> blocks_of g'" "unat b \<le> unat x"
    using pl unfolding placed_at_def option.case by auto
  have "x \<noteq> 0" using block_facts(1) [OF b(1,2)] b(3) word_unat_eq_iff [of b 0] by auto
  moreover have "represents env T H w \<Longrightarrow> wd_tid w AND MI_PAGE_FLAG_MASK = 0" by (simp add: represents_def)
  ultimately show ?thesis using placed_allocates [OF _ pl] x rep by (auto simp: ga_alloc_def or_null_def g(2))
qed

section \<open>A call that is served\<close>

lemma start_room_for: "room_for sample_henv sz start_world"
proof -
  have "has_run n (wd_arenas start_world 4352)" if "n \<le> 512" for n
    unfolding has_run_def using that by (intro exI [of _ 0]) (auto simp: start_arena mi_consts)
  moreover have "page_slices_for bs \<le> 512" for bs by (simp add: page_slices_for_def)
  moreover have "4352 \<in> set (wd_arena_list start_world)" by (simp add: start_world_def)
  ultimately show ?thesis unfolding room_for_def using start_env(2,3) start_room(2) by blast
qed

lemma start_call:
  obtains q w where "ga_alloc sample_henv 1024 24 64 start_world = Some (q, w)" "q \<noteq> 0" "allocates sample_henv {1024} 24 64 {} start_world q w"
proof -
  have p: "pow2_word 64 6" and m: "max (24 :: usize) 1 = 24" by (simp_all add: pow2_word_def max_def word_le_nat_alt)
  from ga_alloc_serves [OF start_env(1) start_represents [of "{1024}"] singletonI p, of 24, unfolded m] start_room_for that
  show thesis by auto
qed

end
