(* ===== verification/MiContract.thy ===== *)
theory MiContract
  imports MiServe
begin

unbundle bit_operations_syntax

text \<open>
  The contract of the calls of \<^verbatim>\<open>src/api\<close> and \<^verbatim>\<open>src/heap.rs\<close> on the set of the blocks in use, and of the
  pool under them.
\<close>

text \<open>
  C6. Allocation refines adding a block: for every power-of-two alignment, every size up to what an
  arena serves and every thread heap, \<open>alloc\<close> and \<open>alloc_zeroed\<close> return; they either report failure
  and leave the blocks in use as they were, or they return a pointer, aligned as asked, into one new
  block with room for the request, disjoint from all blocks in use, whose contents stay untouched. Where
  \<open>alloc_zeroed\<close> clears the memory itself (up to a page of the OS, and beyond the word alignment), every word of the request is zero.
\<close>

theorem alloc_adds_block:
  assumes "env_ok env" "represents env T H w" "th \<in> T" "pow2_word align k" "unat (max sz 1) + unat align \<le> 2 ^ 25"
  shows "(\<exists>q w'. ga_alloc env th sz align w = Some (q, w') \<and> allocates env T (unat (max sz 1)) (unat align) H w q w')
    \<and> (\<exists>q w'. ga_alloc_zeroed env th sz align w = Some (q, w') \<and> allocates env T (unat (max sz 1)) (unat align) H w q w'
      \<and> (q \<noteq> 0 \<longrightarrow> unat (max sz 1) \<le> 4096 \<or> 8 < unat align \<longrightarrow> zeroed q (unat (max sz 1)) w'))"
  using ga_alloc_spec [OF assms] ga_alloc_zeroed_spec [OF assms] by blast

lemma alloc_adds_block_witness:
  "\<exists>q w'. ga_alloc sample_henv 1024 24 64 start_world = Some (q, w') \<and> allocates sample_henv {1024} 24 64 {} start_world q w'"
proof -
  have p: "pow2_word 64 6" by (simp add: pow2_word_def)
  have m: "max (24 :: usize) 1 = 24" by (simp add: max_def word_le_nat_alt)
  from alloc_adds_block [OF start_env(1) start_represents [of "{1024}"] _ p, of 1024 24, unfolded m] show ?thesis by simp
qed

text \<open>
  C7. Freeing refines removing a block: for every pointer served by a block in use, also an interior
  one, and whichever thread calls, the free is carried out (also in hardened builds), exactly that
  block goes out of use, and the other blocks keep their contents.
\<close>

theorem dealloc_removes_block:
  assumes "env_ok env" "represents env T H w" "x \<in> H" "serves x q sz"
  shows "\<exists>w'. ga_dealloc env q w = Some (Free_Done, w') \<and> represents env T (H - {x}) w' \<and> undisturbed (H - {x}) w w'"
  by (rule ga_dealloc_spec [OF assms])

lemma dealloc_removes_block_witness:
  "\<exists>b n w w'. represents sample_henv {1024} {(b, n, False)} w \<and> ga_dealloc sample_henv b w = Some (Free_Done, w')
    \<and> represents sample_henv {1024} {} w'"
proof -
  obtain b n w where r: "represents sample_henv {1024} {(b, n, False)} w" "24 \<le> n" by (rule start_block)
  have "serves (b, n, False) b 24" using r(2) by (simp add: serves_def)
  from dealloc_removes_block [OF start_env(1) r(1) _ this] show ?thesis using r(1) by auto
qed

text \<open>
  C8. Reallocation refines replacing a block: it fails and no word of a block in use changes, or the
  pointer stays in its block, which has room for the new size, or the block is replaced by one new block with room for the
  request; what was at the pointer, up to the smaller of the old and the new size, is at the new
  pointer, and the other blocks keep their contents.
\<close>

theorem realloc_replaces_block:
  assumes "env_ok env" "represents env T H w" "th \<in> T" "x \<in> H" "serves x p s" "pow2_word align k" "unat sz + unat align \<le> 2 ^ 25"
  shows "(\<exists>q w'. mi_realloc env th p sz w = Some (q, w') \<and> reallocates env T p (unat sz) 1 x H w q w')
    \<and> (\<exists>q w'. ga_realloc env th p align sz w = Some (q, w') \<and> reallocates env T p (unat sz) (unat align) x H w q w')"
proof -
  have "unat sz \<le> 2 ^ 25" using assms(7) by simp
  from mi_realloc_spec [OF assms(1-5) this] ga_realloc_spec [OF assms] show ?thesis by blast
qed

lemma realloc_replaces_block_witness:
  "\<exists>b n w q w'. represents sample_henv {1024} {(b, n, False)} w \<and> mi_realloc sample_henv 1024 b 4096 w = Some (q, w')
    \<and> reallocates sample_henv {1024} b 4096 1 (b, n, False) {(b, n, False)} w q w'"
proof -
  obtain b n w where r: "represents sample_henv {1024} {(b, n, False)} w" "24 \<le> n" by (rule start_block)
  have s: "serves (b, n, False) b 24" using r(2) by (simp add: serves_def)
  have p: "pow2_word 8 3" by (simp add: pow2_word_def)
  obtain q w' where "mi_realloc sample_henv 1024 b 4096 w = Some (q, w')"
      "reallocates sample_henv {1024} b (unat (4096 :: usize)) 1 (b, n, False) {(b, n, False)} w q w'"
    using realloc_replaces_block [OF start_env(1) r(1) singletonI singletonI s p, of 4096] by auto
  then show ?thesis using r(1) by (intro exI [of _ b] exI [of _ n] exI [of _ w] exI [of _ q] exI [of _ w']) simp
qed

text \<open>
  C9. Collecting a heap, forced or not, when no deferred-free callback is registered: it returns, the
  blocks in use and their contents stay as they are, whatever pages it retires or gives back.
\<close>

theorem collect_keeps_blocks:
  assumes "env_ok env" "represents env T H w" "th \<in> T" "wd_deferred_fn w = 0"
  shows "\<exists>w'. theap_collect cb env th force w = Some w' \<and> represents env T H w' \<and> undisturbed H w w'"
  by (rule collect_spec [OF assms])

lemma collect_keeps_blocks_witness:
  "\<exists>w'. theap_collect (\<lambda>_ _ _ _ _. None) sample_henv 1024 True start_world = Some w' \<and> represents sample_henv {1024} {} w'"
proof -
  have "wd_deferred_fn start_world = 0" by (simp add: start_world_def)
  from collect_keeps_blocks [OF start_env(1) start_represents [of "{1024}"] singletonI this, of "\<lambda>_ _ _ _ _. None" True]
  show ?thesis by auto
qed

text \<open>
  The states a process starts from represent the empty set: over any sound pool whose arenas keep
  no abandoned pages, with the page map not yet allocated and thread heaps just created.
\<close>

theorem fresh_heaps_represent_empty:
  assumes "pool_ok env w" "no_abandoned w" "wd_pm w = pm_start" "wd_tid w AND MI_PAGE_FLAG_MASK = 0"
    and "\<And>th. th \<in> T \<Longrightarrow> \<exists>hp h tid. wd_theaps w th = theap_new hp h tid \<and> keys_ok (en_enc env) (hp_keys h) \<and> tid_ok tid"
  shows "represents env T {} w"
  by (rule fresh_represents [OF assms])

lemma fresh_heaps_represent_empty_witness: "represents sample_henv {1024} {} start_world"
  by (rule fresh_heaps_represent_empty [OF start_pool start_theaps])

text \<open>
  C11. Calls are served as long as there is room: whatever the heap went through before, a request of up
  to 512 KiB, the alignment included, gets a block if some arena has a free run of the length a page
  of its size class takes, the OS commits memory and maps what the page map needs.
\<close>

theorem alloc_when_room:
  assumes "env_ok env" "represents env T H w" "th \<in> T" "pow2_word align k" "unat (max sz 1) + unat align \<le> 524288"
    and "room_for env (asked (max sz 1) align) w"
  shows "\<exists>q w'. ga_alloc env th sz align w = Some (q, w') \<and> q \<noteq> 0 \<and> allocates env T (unat (max sz 1)) (unat align) H w q w'"
  by (rule ga_alloc_serves [OF assms])

lemma alloc_when_room_witness:
  "\<exists>q w'. ga_alloc sample_henv 1024 24 64 start_world = Some (q, w') \<and> q \<noteq> 0 \<and> allocates sample_henv {1024} 24 64 {} start_world q w'"
proof -
  have p: "pow2_word 64 6" and m: "max (24 :: usize) 1 = 24" by (simp_all add: pow2_word_def max_def word_le_nat_alt)
  from alloc_when_room [OF start_env(1) start_represents [of "{1024}"] singletonI p, of 24, unfolded m] start_room_for show ?thesis by simp
qed

text \<open>
  Pages can be built as long as there is room: if some arena has a free run of the length a page
  of the bin needs and the OS commits memory and maps what the page map needs, \<open>new_page\<close> returns a
  page without live blocks, linked into the queue of its bin, and no block in use is touched.
\<close>

theorem page_when_room:
  assumes "env_ok env" "heap_inv env T g w" "th \<in> T" "b < MI_BIN_HUGE" "bs = bin_block_size b" "8 \<le> unat bs" "8 dvd unat bs" "0 < n" "n \<le> 512"
    and "commits (en_sys env)" "en_map_ok env = (\<lambda>_. True)" "ar \<in> set (wd_arena_list w)" "has_run n (wd_arenas w ar)"
    and "\<forall>ar\<in>set (wd_arena_list w). unat (ar_start (wd_arenas w ar)) + 65536 * ar_slice_count (wd_arenas w ar) \<le> 2 ^ 47"
  shows "\<exists>p w' g'. new_page env th b bs n w = Some (Some p, w') \<and> quiet env T g w g' w' \<and> p \<in> set (gh_queue g' th b) \<and> gh_live g' p = {}
    \<and> unat (pg_reserved (wd_pages w' p)) = (n * 65536 - 144) div unat bs"
  by (rule new_page_succeeds [OF assms])

lemma page_when_room_witness:
  "\<exists>p w'. new_page sample_henv 1024 (bin_words 3) (bin_block_size (bin_words 3)) 1 start_world = Some (Some p, w')"
proof -
  obtain g where g: "heap_inv sample_henv {1024} g start_world" using start_represents [of "{1024}"] by (auto simp: represents_def)
  have th: "1024 \<in> {1024 :: ptr}" and n: "0 < (1 :: nat)" "(1 :: nat) \<le> 512" and ar: "4352 \<in> set (wd_arena_list start_world)"
    by (simp_all add: start_world_def)
  note s = small_bin
  from page_when_room [OF start_env(1) g th s(1) refl s(4,3) n start_env(2,3) ar start_room] show ?thesis by blast
qed

text \<open>
  C10. The pool of arenas: a claim of slices never panics, and the slices it hands out, from whichever
  arena or from a new one it reserves, were not in use, are inside that arena, committed and (outside
  hardened builds) accessible; everything that was in use stays so, and all arenas, old and new, stay
  disjoint from each other and from the metadata.
\<close>

theorem pool_claims_disjoint:
  assumes "env_ok env" "pool_ok env w" "0 < n" "n \<le> CHUNK_BITS"
  shows "\<exists>r w'. sp_alloc_slices env n commit tseq w = Some (r, w') \<and> claim_result env n w r w'"
  by (rule sp_alloc_slices_step [OF assms])

lemma pool_claims_disjoint_witness:
  "\<exists>r w'. sp_alloc_slices sample_henv 8 True 3 start_world = Some (r, w') \<and> claim_result sample_henv 8 start_world r w'"
  by (rule pool_claims_disjoint [OF start_env(1) start_pool(1)]) (simp_all add: mi_consts)

end
