(* ===== verification/MiClient.thy ===== *)
theory MiClient
  imports MiContract
begin

unbundle bit_operations_syntax

text \<open>
  A program running on the allocator: any sequence of calls of \<^verbatim>\<open>src/api/global_alloc.rs\<close> and \<^verbatim>\<open>src/api/mod.rs\<close>,
  of writes to the memory it holds, of switches between threads and of starts of threads. The program obeys the contract of
  the calls; the invariant ties what it holds to the blocks in use.
\<close>

section \<open>The program\<close>

text \<open>
  \<open>Alloc\<close>, \<open>Alloc_Zeroed\<close>, \<open>Dealloc\<close> and \<open>Realloc\<close> are the calls of \<^verbatim>\<open>GlobalAlloc\<close>; \<open>Malloc\<close>, \<open>Zalloc\<close>,
  \<open>Calloc\<close>, \<open>Malloc_Aligned\<close>, \<open>C_Realloc\<close> and \<open>Dealloc\<close> once more are the entry points \<^verbatim>\<open>mi_*\<close>, \<open>Collect\<close> is
  \<^verbatim>\<open>mi_collect\<close>; the first argument is the thread heap of the caller. \<open>Store\<close>
  replaces the contents of the memory, \<open>Switch\<close> lets another thread run, with its id, registry and
  heartbeat.
\<close>

datatype request =
    Alloc ptr usize usize
  | Alloc_Zeroed ptr usize usize
  | Malloc ptr usize
  | Zalloc ptr usize
  | Calloc ptr usize usize
  | Malloc_Aligned ptr usize usize
  | Dealloc ptr
  | Realloc ptr ptr usize usize
  | C_Realloc ptr ptr usize
  | Collect ptr bool
  | Store links
  | Switch usize ptr bool "64 word"

text \<open>The program holds pointers with the sizes and alignments it asked for.\<close>

type_synonym held = "ptr \<rightharpoonup> nat \<times> nat"
type_synonym client = "held \<times> hworld"

definition grant :: "held \<Rightarrow> ptr \<Rightarrow> nat \<times> nat \<Rightarrow> held" where
  "grant A q x = (if q = 0 then A else A(q \<mapsto> x))"

definition exchange :: "held \<Rightarrow> ptr \<Rightarrow> ptr \<Rightarrow> nat \<times> nat \<Rightarrow> held" where
  "exchange A p q x = (if q = 0 then A else (A(p := None))(q \<mapsto> x))"

text \<open>An aborting or diverging call has no result.\<close>

fun serve :: "callback \<Rightarrow> env \<Rightarrow> request \<Rightarrow> client \<Rightarrow> client option" where
  "serve cb env (Alloc th sz al) (A, w) = map_option (\<lambda>(q, w'). (grant A q (unat sz, unat al), w')) (ga_alloc env th sz al w)"
| "serve cb env (Alloc_Zeroed th sz al) (A, w) = map_option (\<lambda>(q, w'). (grant A q (unat sz, unat al), w')) (ga_alloc_zeroed env th sz al w)"
| "serve cb env (Malloc th sz) (A, w) = map_option (\<lambda>(q, w'). (grant A q (unat sz, 8), w')) (mi_malloc env th sz w)"
| "serve cb env (Zalloc th sz) (A, w) = map_option (\<lambda>(q, w'). (grant A q (unat sz, 8), w')) (mi_zalloc env th sz w)"
| "serve cb env (Calloc th n sz) (A, w) = map_option (\<lambda>(q, w'). (grant A q (unat n * unat sz, 8), w')) (mi_calloc env th n sz w)"
| "serve cb env (Malloc_Aligned th sz al) (A, w) = map_option (\<lambda>(q, w'). (grant A q (unat sz, unat al), w')) (mi_malloc_aligned env th sz al w)"
| "serve cb env (Dealloc p) (A, w) = (case ga_dealloc env p w of Some (Free_Done, w') \<Rightarrow> Some (A(p := None), w') | _ \<Rightarrow> None)"
| "serve cb env (Realloc th p sz al) (A, w) = map_option (\<lambda>(q, w'). (exchange A p q (unat sz, unat al), w')) (ga_realloc env th p al sz w)"
| "serve cb env (C_Realloc th p sz) (A, w) = map_option (\<lambda>(q, w'). (exchange A p q (unat sz, 1), w')) (mi_realloc env th p sz w)"
| "serve cb env (Collect th force) (A, w) = map_option (Pair A) (theap_collect cb env th force w)"
| "serve cb env (Store m) (A, w) = Some (A, w\<lparr>wd_links := m\<rparr>)"
| "serve cb env (Switch t reg rec hb) (A, w) =
    Some (A, w\<lparr>wd_recurse := rec, wd_heartbeat := hb, wd_tid := t, wd_registry := reg\<rparr>)"

text \<open>
  The contract: live thread heaps, power-of-two alignments (\<open>Malloc_Aligned\<close> takes any), sizes within the
  bound of an arena (or products that overflow), only held pointers freed or resized, only held memory
  written, no callback that would run during a collection.
\<close>

fun allowed :: "ptr set \<Rightarrow> request \<Rightarrow> client \<Rightarrow> bool" where
  "allowed T (Alloc th sz al) (A, w) \<longleftrightarrow> th \<in> T \<and> (\<exists>k. pow2_word al k) \<and> unat (max sz 1) + unat al \<le> 2 ^ 25"
| "allowed T (Alloc_Zeroed th sz al) (A, w) \<longleftrightarrow> th \<in> T \<and> (\<exists>k. pow2_word al k) \<and> unat (max sz 1) + unat al \<le> 2 ^ 25"
| "allowed T (Malloc th sz) (A, w) \<longleftrightarrow> th \<in> T \<and> unat sz \<le> 2 ^ 25"
| "allowed T (Zalloc th sz) (A, w) \<longleftrightarrow> th \<in> T \<and> unat sz \<le> 2 ^ 25"
| "allowed T (Calloc th n sz) (A, w) \<longleftrightarrow> th \<in> T \<and> (unat n * unat sz \<le> 2 ^ 25 \<or> 2 ^ 64 \<le> unat n * unat sz)"
| "allowed T (Malloc_Aligned th sz al) (A, w) \<longleftrightarrow> th \<in> T \<and> (unat sz + unat al \<le> 2 ^ 25 \<or> \<not> (\<exists>k. pow2_word al k))"
| "allowed T (Dealloc p) (A, w) \<longleftrightarrow> A p \<noteq> None"
| "allowed T (Realloc th p sz al) (A, w) \<longleftrightarrow> th \<in> T \<and> A p \<noteq> None \<and> (\<exists>k. pow2_word al k) \<and> unat sz + unat al \<le> 2 ^ 25"
| "allowed T (C_Realloc th p sz) (A, w) \<longleftrightarrow> th \<in> T \<and> (p = 0 \<or> A p \<noteq> None) \<and> unat sz \<le> 2 ^ 25"
| "allowed T (Collect th force) (A, w) \<longleftrightarrow> th \<in> T \<and> wd_deferred_fn w = 0"
| "allowed T (Store m) (A, w) \<longleftrightarrow> (\<forall>c. m c \<noteq> wd_links w c \<longrightarrow> (\<exists>q s a. A q = Some (s, a) \<and> unat c \<in> span q s))"
| "allowed T (Switch t reg rec hb) (A, w) \<longleftrightarrow> t AND MI_PAGE_FLAG_MASK = 0"

text \<open>
  A run from the thread heaps \<open>T0\<close> to the thread heaps \<open>T\<close>: a thread may start at any time, with a
  thread-local slot \<open>th\<close> for its heap, the logical heap \<open>hp\<close> and a new id.
\<close>

inductive run :: "callback \<Rightarrow> env \<Rightarrow> ptr set \<Rightarrow> client \<Rightarrow> ptr set \<Rightarrow> client \<Rightarrow> bool" for cb env T0 s0 where
  run_start: "run cb env T0 s0 T0 s0"
| run_step: "run cb env T0 s0 T s1 \<Longrightarrow> allowed T r s1 \<Longrightarrow> serve cb env r s1 = Some s2 \<Longrightarrow> run cb env T0 s0 T s2"
| run_thread: "run cb env T0 s0 T (A, w) \<Longrightarrow> th \<notin> T \<Longrightarrow> keys_ok (en_enc env) (hp_keys (wd_heaps w hp)) \<Longrightarrow> tid_ok (fst (current_tid w))
    \<Longrightarrow> run cb env T0 s0 (insert th T) (A, thread_start th hp w)"

section \<open>The invariant\<close>

text \<open>Every pointer the program holds is served by a block of its own, and there are no others.\<close>

definition tracks :: "(ptr \<Rightarrow> ptr \<times> nat \<times> bool) \<Rightarrow> held \<Rightarrow> (ptr \<times> nat \<times> bool) set \<Rightarrow> bool" where
  "tracks f A H \<longleftrightarrow> bij_betw f (dom A) H \<and> (\<forall>q s a. A q = Some (s, a) \<longrightarrow> serves (f q) q s \<and> a dvd unat q)"

definition client_inv :: "env \<Rightarrow> ptr set \<Rightarrow> client \<Rightarrow> bool" where
  "client_inv env T = (\<lambda>(A, w). \<exists>f H. tracks f A H \<and> represents env T H w)"

lemma tracksD:
  assumes "tracks f A H" "A q = Some (s, a)"
  shows "f q \<in> H" "serves (f q) q s" "a dvd unat q"
  using assms by (auto simp: tracks_def bij_betw_def dom_def)

lemma serves_span:
  assumes "serves (b, n, i) q s"
  shows "unat q \<in> span b n" "span q s \<subseteq> span b n"
  using assms by (auto simp: serves_def span_def)

lemma serves_mono: "serves x q s \<Longrightarrow> t \<le> s \<Longrightarrow> serves x q t"
  by (cases x) (auto simp: serves_def)

lemma same_block:
  assumes snd: "sound env H w" and "x \<in> H" "y \<in> H" and "serves x q s" "serves y r t" and meet: "unat q = unat r \<or> span q s \<inter> span r t \<noteq> {}"
  shows "x = y"
proof -
  obtain b n i where x: "x = (b, n, i)" by (cases x)
  obtain c k j where y: "y = (c, k, j)" by (cases y)
  note sx = serves_span [OF assms(4) [unfolded x]] and sy = serves_span [OF assms(5) [unfolded y]]
  have "span b n \<inter> span c k \<noteq> {}" using sx sy meet by (metis Int_mono disjoint_iff subset_empty)
  then have "c = b" using soundD(6) [OF snd assms(2,3) [unfolded x y]] by blast
  then show ?thesis using soundD(7) [OF snd, of b n i k j] assms(2,3) by (simp add: x y)
qed

lemma serves_fresh:
  assumes tr: "tracks f A H" and y: "y \<notin> H" and snd: "sound env (insert y H) w" and q: "serves y q s"
  shows "A q = None"
proof (rule ccontr)
  assume "A q \<noteq> None"
  then obtain s' a' where "A q = Some (s', a')" by auto
  note t = tracksD [OF tr this]
  have "f q = y" by (rule same_block [OF snd _ _ t(2) q]) (use t(1) in simp_all)
  then show False using t(1) y by simp
qed

lemma tracks_add:
  assumes tr: "tracks f A H" and y: "y \<notin> H" and snd: "sound env (insert y H) w" and q: "serves y q s" "a dvd unat q"
  shows "tracks (f(q := y)) (A(q \<mapsto> (s, a))) (insert y H)"
proof -
  have new: "q \<notin> dom A" using serves_fresh [OF tr y snd q(1)] by (simp add: domIff)
  have "bij_betw (f(q := y)) (insert q (dom A)) (insert y H)"
  proof (rule notIn_Un_bij_betw3 [THEN iffD1, of q "dom A" "f(q := y)" H, simplified])
  qed (use new y tr in \<open>auto simp: tracks_def bij_betw_def inj_on_def\<close>)
  then show ?thesis using tr q new by (auto simp: tracks_def)
qed

lemma tracks_remove:
  assumes tr: "tracks f A H" and p: "A p \<noteq> None"
  shows "tracks f (A(p := None)) (H - {f p})"
proof -
  have "bij_betw f (dom A - {p}) (H - {f p})"
    using tr p by (auto simp: tracks_def bij_betw_def inj_on_def dom_def)
  then show ?thesis using tr by (auto simp: tracks_def)
qed

section \<open>Every call returns and keeps the invariant\<close>

definition good_step :: "callback \<Rightarrow> env \<Rightarrow> ptr set \<Rightarrow> request \<Rightarrow> client \<Rightarrow> bool" where
  "good_step cb env T r s \<longleftrightarrow> (\<exists>s'. serve cb env r s = Some s' \<and> client_inv env T s')"

lemma grant_inv:
  assumes tr: "tracks f A H" and al: "allocates env T k a H w q w'" and s: "s \<le> k"
  shows "client_inv env T (grant A q (s, a), w')" "q \<noteq> 0 \<Longrightarrow> A q = None"
proof -
  have "client_inv env T (grant A q (s, a), w') \<and> (q \<noteq> 0 \<longrightarrow> A q = None)"
  proof (cases "q = 0")
    case True
    then show ?thesis using tr al by (auto simp: allocates_def grant_def client_inv_def)
  next
    case False
    obtain x where x: "fst x \<notin> fst ` H" "serves x q k" "represents env T (insert x H) w'" "a dvd unat q"
      using al False by (auto simp: allocates_def)
    have new: "x \<notin> H" using x(1) by auto
    note snd = represents_sound [OF x(3)]
    from tracks_add [OF tr new snd serves_mono [OF x(2) s] x(4)] serves_fresh [OF tr new snd x(2)]
    show ?thesis using x(3) False by (auto simp: grant_def client_inv_def)
  qed
  then show "client_inv env T (grant A q (s, a), w')" "q \<noteq> 0 \<Longrightarrow> A q = None" by blast+
qed

text \<open>All calls that allocate, from \<open>C_Realloc\<close> that of the null pointer.\<close>

definition is_alloc :: "request \<Rightarrow> bool" where
  "is_alloc r \<longleftrightarrow>
    (case r of Alloc _ _ _ \<Rightarrow> True | Alloc_Zeroed _ _ _ \<Rightarrow> True | Malloc _ _ \<Rightarrow> True | Zalloc _ _ \<Rightarrow> True | Calloc _ _ _ \<Rightarrow> True
     | Malloc_Aligned _ _ _ \<Rightarrow> True | C_Realloc _ p _ \<Rightarrow> p = 0 | _ \<Rightarrow> False)"

lemma allocates_one: "allocates env T k a H w q w' \<Longrightarrow> allocates env T k 1 H w q w'"
  by (auto simp: allocates_def)

lemma alloc_request:
  assumes env: "env_ok env" and rep: "represents env T H w" and null: "A 0 = None" and ok: "allowed T r (A, w)" and r: "is_alloc r"
  shows "\<exists>q w' k a s. serve cb env r (A, w) = Some (grant A q (s, a), w') \<and> allocates env T k a H w q w' \<and> s \<le> k"
proof (cases r)
  case (Alloc th sz al)
  then obtain k where k: "th \<in> T" "pow2_word al k" "unat (max sz 1) + unat al \<le> 2 ^ 25" using ok by auto
  have "unat sz \<le> unat (max sz 1)" by (simp add: max_def word_le_nat_alt)
  then show ?thesis using ga_alloc_spec [OF env rep k] Alloc by fastforce
next
  case (Alloc_Zeroed th sz al)
  then obtain k where k: "th \<in> T" "pow2_word al k" "unat (max sz 1) + unat al \<le> 2 ^ 25" using ok by auto
  have "unat sz \<le> unat (max sz 1)" by (simp add: max_def word_le_nat_alt)
  then show ?thesis using ga_alloc_zeroed_spec [OF env rep k] Alloc_Zeroed by fastforce
next
  case (Malloc th sz)
  then show ?thesis using mi_malloc_spec [OF env rep, of th sz] ok by fastforce
next
  case (Zalloc th sz)
  then show ?thesis using mi_zalloc_spec [OF env rep, of th sz] ok by fastforce
next
  case (Calloc th n sz)
  then show ?thesis using mi_calloc_spec [OF env rep, of th n sz] ok by fastforce
next
  case (Malloc_Aligned th sz al)
  then have "th \<in> T" "unat sz + unat al \<le> 2 ^ 25 \<or> \<not> (\<exists>k. pow2_word al k)" using ok by simp_all
  from mi_malloc_aligned_spec [OF env rep this] show ?thesis using Malloc_Aligned by fastforce
next
  case (C_Realloc th p sz)
  then have p: "p = 0" "th \<in> T" "unat sz \<le> 2 ^ 25" using ok r by (simp_all add: is_alloc_def)
  have e: "exchange A 0 q x = grant A q x" for q x using null by (auto simp: exchange_def grant_def fun_eq_iff)
  obtain q w' where a: "mi_malloc env th sz w = Some (q, w')" "allocates env T (unat sz) 8 H w q w'"
    using mi_malloc_spec [OF env rep p(2,3)] by blast
  have "serve cb env r (A, w) = Some (grant A q (unat sz, 1), w')" using a(1) C_Realloc p(1) by (simp add: mi_realloc_def e)
  then show ?thesis using allocates_one [OF a(2)] by blast
qed (use r in \<open>simp_all add: is_alloc_def\<close>)

lemma null_not_held:
  assumes "tracks f A H" "represents env T H w"
  shows "A 0 = None"
proof (rule ccontr)
  assume "A 0 \<noteq> None"
  then obtain s a where "A 0 = Some (s, a)" by auto
  note t = tracksD [OF assms(1) this]
  obtain b n i where b: "f 0 = (b, n, i)" by (cases "f 0")
  show False using serves_nonzero [OF t(2) [unfolded b]] soundD(1) [OF represents_sound [OF assms(2)] t(1) [unfolded b]] by simp
qed

lemma exchange_inv:
  assumes tr: "tracks f A H" and p: "A p \<noteq> None" and al: "reallocates env T p s a (f p) H w q w'"
  shows "client_inv env T (exchange A p q (s, a), w')"
proof (cases "q = 0")
  case True
  then show ?thesis using tr al by (auto simp: reallocates_def exchange_def client_inv_def)
next
  case False
  note less = tracks_remove [OF tr p]
  have fp: "f p \<in> H" using tr p by (auto dest: tracksD(1))
  have "\<exists>y. y \<notin> H - {f p} \<and> serves y q s \<and> represents env T (insert y (H - {f p})) w'"
  proof -
    have "insert (f p) (H - {f p}) = H" using fp by blast
    then show ?thesis using al False unfolding reallocates_def by (metis (no_types, lifting) DiffE image_eqI singletonI)
  qed
  then obtain y where y: "y \<notin> H - {f p}" "serves y q s" "represents env T (insert y (H - {f p})) w'" by blast
  have "a dvd unat q" using al False by (simp add: reallocates_def)
  from tracks_add [OF less y(1) represents_sound [OF y(3)] y(2) this]
  show ?thesis using y(3) False by (auto simp: exchange_def client_inv_def)
qed

lemma store_represents:
  assumes rep: "represents env T H w" and m: "\<And>c. m c \<noteq> wd_links w c \<Longrightarrow> \<exists>b n i. (b, n, i) \<in> H \<and> unat c \<in> span b n"
  shows "represents env T H (w\<lparr>wd_links := m\<rparr>)"
proof -
  obtain g where g: "heap_inv env T g w" "blocks_of g = H" "wd_tid w AND MI_PAGE_FLAG_MASK = 0" using rep by (auto simp: represents_def)
  have "heap_inv env T g (w\<lparr>wd_links := m\<rparr>)"
  proof (rule heap_inv_write [OF g(1)])
    fix c assume "m c \<noteq> wd_links w c"
    then obtain b n i where b: "(b, n, i) \<in> blocks_of g" "unat c \<in> span b n" using m g(2) by blast
    obtain p th bn where "p \<in> set (gh_queue g th bn)" "b \<in> gh_live g p" "span b n = block_span (wd_pages w p) b"
      by (rule block_in [OF g(1) b(1)])
    then show "\<exists>p\<in>pages_of g. \<exists>b\<in>gh_live g p. unat c \<in> block_span (wd_pages w p) b" using b(2) pages_ofI by blast
  qed
  then show ?thesis using g(2,3) by (auto simp: represents_def)
qed

lemma switch_represents:
  assumes rep: "represents env T H w" and t: "t AND MI_PAGE_FLAG_MASK = 0"
  shows "represents env T H (w\<lparr>wd_recurse := rec, wd_heartbeat := hb, wd_tid := t, wd_registry := reg\<rparr>)"
proof -
  obtain g where g: "heap_inv env T g w" "blocks_of g = H" using rep by (auto simp: represents_def)
  have "heap_inv env T g (w\<lparr>wd_recurse := rec, wd_heartbeat := hb, wd_tid := t, wd_registry := reg\<rparr>)"
    by (rule heap_inv_tweak [OF g(1)]) (simp_all add: same_pool_def theap_goodD(4) [OF heap_invD(4) [OF g(1)]])
  then show ?thesis using g(2) t by (auto simp: represents_def)
qed

lemma held_serves: "tracks f A H \<Longrightarrow> A p \<noteq> None \<Longrightarrow> f p \<in> H \<and> (\<exists>s. serves (f p) p s)"
  using tracksD by fast

lemma call_keeps:
  assumes env: "env_ok env" and tr: "tracks f A H" and rep: "represents env T H w" and ok: "allowed T r (A, w)" and r: "\<not> is_alloc r"
  shows "good_step cb env T r (A, w)"
proof (cases r)
  case (Dealloc p)
  then have p: "A p \<noteq> None" using ok by simp
  obtain s where s: "f p \<in> H" "serves (f p) p s" using held_serves [OF tr p] by blast
  obtain w' where d: "ga_dealloc env p w = Some (Free_Done, w')" "represents env T (H - {f p}) w'"
    using ga_dealloc_spec [OF env rep s] by blast
  then show ?thesis using tracks_remove [OF tr p] Dealloc by (auto simp: good_step_def client_inv_def)
next
  case (Realloc th p sz al)
  then obtain k where k: "th \<in> T" "A p \<noteq> None" "pow2_word al k" "unat sz + unat al \<le> 2 ^ 25" using ok by auto
  obtain s where s: "f p \<in> H" "serves (f p) p s" using held_serves [OF tr k(2)] by blast
  obtain q w' where a: "ga_realloc env th p al sz w = Some (q, w')" "reallocates env T p (unat sz) (unat al) (f p) H w q w'"
    using ga_realloc_spec [OF env rep k(1) s k(3,4)] by blast
  then show ?thesis using exchange_inv [OF tr k(2) a(2)] Realloc by (simp add: good_step_def)
next
  case (C_Realloc th p sz)
  then have k: "th \<in> T" "A p \<noteq> None" "unat sz \<le> 2 ^ 25" using ok r by (auto simp: is_alloc_def)
  obtain s where s: "f p \<in> H" "serves (f p) p s" using held_serves [OF tr k(2)] by blast
  obtain q w' where a: "mi_realloc env th p sz w = Some (q, w')" "reallocates env T p (unat sz) 1 (f p) H w q w'"
    using mi_realloc_spec [OF env rep k(1) s k(3)] by blast
  then show ?thesis using exchange_inv [OF tr k(2) a(2)] C_Realloc by (simp add: good_step_def)
next
  case (Collect th force)
  then have k: "th \<in> T" "wd_deferred_fn w = 0" using ok by auto
  obtain w' where "theap_collect cb env th force w = Some w'" "represents env T H w'"
    using collect_spec [OF env rep k] by blast
  then show ?thesis using tr Collect by (auto simp: good_step_def client_inv_def)
next
  case (Store m)
  have "represents env T H (w\<lparr>wd_links := m\<rparr>)"
  proof (rule store_represents [OF rep])
    fix c assume "m c \<noteq> wd_links w c"
    then obtain q s a where q: "A q = Some (s, a)" "unat c \<in> span q s" using ok Store by (auto simp del: not_None_eq)
    note t = tracksD [OF tr q(1)]
    obtain b n i where b: "f q = (b, n, i)" by (cases "f q")
    have "unat c \<in> span b n" using serves_span(2) [OF t(2) [unfolded b]] q(2) by blast
    then show "\<exists>b n i. (b, n, i) \<in> H \<and> unat c \<in> span b n" using t(1) b by auto
  qed
  then show ?thesis using tr Store by (auto simp: good_step_def client_inv_def)
next
  case (Switch t reg rec hb)
  have "represents env T H (w\<lparr>wd_recurse := rec, wd_heartbeat := hb, wd_tid := t, wd_registry := reg\<rparr>)"
    by (rule switch_represents [OF rep]) (use ok Switch in simp)
  then show ?thesis using tr Switch by (auto simp: good_step_def client_inv_def)
qed (use r in \<open>simp_all add: is_alloc_def\<close>)

lemma request_keeps:
  assumes env: "env_ok env" and inv: "client_inv env T (A, w)" and ok: "allowed T r (A, w)"
  shows "good_step cb env T r (A, w)"
proof -
  obtain f H where tr: "tracks f A H" and rep: "represents env T H w" using inv by (auto simp: client_inv_def)
  show ?thesis
  proof (cases "is_alloc r")
    case True
    obtain q w' k a n where a: "serve cb env r (A, w) = Some (grant A q (n, a), w')" "allocates env T k a H w q w'" "n \<le> k"
      using alloc_request [OF env rep null_not_held [OF tr rep] ok True] by blast
    then show ?thesis using grant_inv(1) [OF tr a(2,3)] by (simp add: good_step_def)
  qed (rule call_keeps [OF env tr rep ok])
qed

text \<open>A zeroed allocation once more, with what the program learns from it.\<close>

lemma alloc_zeroed_request:
  assumes env: "env_ok env" and inv: "client_inv env T (A, w)" and ok: "allowed T (Alloc_Zeroed th sz al) (A, w)"
  shows "\<exists>q w'. ga_alloc_zeroed env th sz al w = Some (q, w') \<and> client_inv env T (grant A q (unat sz, unat al), w')
    \<and> (q \<noteq> 0 \<longrightarrow> A q = None)"
proof -
  obtain f H where tr: "tracks f A H" and rep: "represents env T H w" using inv by (auto simp: client_inv_def)
  obtain k where k: "th \<in> T" "pow2_word al k" "unat (max sz 1) + unat al \<le> 2 ^ 25" using ok by auto
  obtain q w' where a: "ga_alloc_zeroed env th sz al w = Some (q, w')" "allocates env T (unat (max sz 1)) (unat al) H w q w'"
    using ga_alloc_zeroed_spec [OF env rep k] by blast
  have le: "unat sz \<le> unat (max sz 1)" by (simp add: max_def word_le_nat_alt)
  show ?thesis using a(1) grant_inv [OF tr a(2) le] by blast
qed

lemma start_inv:
  assumes inv: "client_inv env T (A, w)" and th: "th \<notin> T" and ks: "keys_ok (en_enc env) (hp_keys (wd_heaps w hp))" and t: "tid_ok (fst (current_tid w))"
  shows "client_inv env (insert th T) (A, thread_start th hp w)"
  using inv thread_start_represents(1) [OF _ th ks t] by (auto simp: client_inv_def)

lemma run_keeps:
  assumes "run cb env T0 s0 T s" "env_ok env" "client_inv env T0 s0"
  shows "client_inv env T s"
  using assms
proof (induction rule: run.induct)
  case (run_step T s1 r s2)
  have "client_inv env T s1" using run_step by blast
  from request_keeps [OF run_step.prems(1), of T "fst s1" "snd s1" r cb] this run_step.hyps
  show ?case by (simp add: good_step_def)
next
  case (run_thread T A w th hp)
  show ?case by (rule start_inv [OF _ run_thread.hyps(2-4)]) (use run_thread in blast)
qed

section \<open>The contents of the memory\<close>

text \<open>The words at \<open>p\<close>, as far as the program held them, are at \<open>q\<close> afterwards, as far as it holds them.\<close>

definition kept :: "client \<Rightarrow> client \<Rightarrow> ptr \<Rightarrow> ptr \<Rightarrow> bool" where
  "kept = (\<lambda>(A, w) (A', w') p q. \<forall>s a t b c. A p = Some (s, a) \<and> A' q = Some (t, b) \<and> unat c \<in> span q (min s t)
     \<longrightarrow> wd_links w' c = wd_links w (c - q + p))"

definition resizes :: "request \<Rightarrow> ptr \<Rightarrow> bool" where
  "resizes r p \<longleftrightarrow> (case r of Realloc th q sz al \<Rightarrow> q = p | C_Realloc th q sz \<Rightarrow> q = p | _ \<Rightarrow> False)"

definition preserves :: "request \<Rightarrow> client \<Rightarrow> client \<Rightarrow> bool" where
  "preserves r s s' \<longleftrightarrow> (\<forall>q. kept s s' q q) \<and> (\<forall>p q. resizes r p \<and> fst s' q \<noteq> fst s q \<longrightarrow> kept s s' p q)"

lemma undisturbed_kept:
  assumes tr: "tracks f A H" and un: "undisturbed G w w'" and G: "A q \<noteq> None \<Longrightarrow> f q \<in> G"
  shows "kept (A, w) (A', w') q q"
proof -
  have "wd_links w' c = wd_links w c" if q: "A q = Some (s, a)" and c: "unat c \<in> span q (min s t)" for s a t c
  proof -
    obtain b n i where b: "f q = (b, n, i)" by (cases "f q")
    have "unat c \<in> span q s" using c by (auto simp: span_def)
    then have "unat c \<in> span b n" using serves_span(2) [OF tracksD(2) [OF tr q, unfolded b]] by blast
    moreover have "(b, n, i) \<in> G" using G q b by simp
    ultimately have "c \<in> insides G" by (auto simp: insides_def)
    then show ?thesis using un by (simp add: undisturbed_def)
  qed
  then show ?thesis by (auto simp: kept_def)
qed

lemma undisturbed_preserves:
  assumes tr: "tracks f A H" and un: "undisturbed H w w'" and r: "\<And>p. resizes r p \<Longrightarrow> A p = None"
  shows "preserves r (A, w) (A', w')"
proof -
  have "kept (A, w) (A', w') q q" for q by (rule undisturbed_kept [OF tr un]) (use tr in \<open>auto dest: tracksD(1)\<close>)
  moreover have "kept (A, w) (A', w') p q" if "resizes r p" for p q using r [OF that] by (simp add: kept_def)
  ultimately show ?thesis by (simp add: preserves_def)
qed

lemma served_usable:
  assumes "represents env T H w" "x \<in> H" "serves x p s"
  shows "s \<le> unat (usable_size p w)"
proof -
  obtain g where g: "heap_inv env T g w" "blocks_of g = H" using assms(1) by (auto simp: represents_def)
  obtain b n i where b: "x = (b, n, i)" by (cases x)
  have x: "(b, n, i) \<in> blocks_of g" using assms(2) by (simp add: b g(2))
  have p: "unat b \<le> unat p" "unat p < unat b + n" "unat p + s \<le> unat b + n" using assms(3) by (simp_all add: b serves_def)
  show ?thesis using usable_inside [OF g(1) x p(1,2)] p(3) by linarith
qed

lemma copied_kept:
  assumes tr: "tracks f A H" and rep: "represents env T H w" and cp: "copied p q (min (unat (usable_size p w)) k) w w'" and A': "A' q = Some (k, b)"
  shows "kept (A, w) (A', w') p q"
proof -
  have "wd_links w' c = wd_links w (c - q + p)" if p: "A p = Some (s, a)" and c: "unat c \<in> span q (min s k)" for s a c
  proof -
    have "s \<le> unat (usable_size p w)" by (rule served_usable [OF rep tracksD(1,2) [OF tr p]])
    then have "unat c \<in> span q (min (unat (usable_size p w)) k)" using c by (auto simp: span_def)
    then show ?thesis using cp unfolding copied_def by blast
  qed
  then show ?thesis using A' by (auto simp: kept_def)
qed

lemma reallocates_preserves:
  assumes tr: "tracks f A H" and rep: "represents env T H w" and p: "A p \<noteq> None" and al: "reallocates env T p s a (f p) H w q w'"
    and r: "\<And>x. resizes r x \<longleftrightarrow> x = p"
  shows "preserves r (A, w) (exchange A p q (s, a), w')"
proof (cases "q = 0")
  case True
  then have un: "undisturbed H w w'" using al by (simp add: reallocates_def)
  have "kept (A, w) (A', w') x x" for x A' by (rule undisturbed_kept [OF tr un]) (use tr in \<open>auto dest: tracksD(1)\<close>)
  then show ?thesis using True by (simp add: preserves_def exchange_def)
next
  case False
  let ?A = "(A(p := None))(q \<mapsto> (s, a))"
  have e: "exchange A p q (s, a) = ?A" using False by (simp add: exchange_def)
  have cp: "copied p q (min (unat (usable_size p w)) s) w w'" and un: "undisturbed (H - {f p}) w w'"
    using al False by (simp_all add: reallocates_def)
  have new: "kept (A, w) (?A, w') p q" by (rule copied_kept [OF tr rep cp]) simp
  have old: "kept (A, w) (?A, w') x x" for x
  proof (cases "x = p")
    case True
    then show ?thesis using new by (cases "q = p") (auto simp: kept_def)
  next
    case x: False
    have "f x \<in> H - {f p}" if "A x \<noteq> None"
      using that tr p x by (auto simp: tracks_def bij_betw_def inj_on_def dom_def)
    then show ?thesis by (rule undisturbed_kept [OF tr un])
  qed
  have "kept (A, w) (?A, w') p x" if "?A x \<noteq> A x" for x
    using that new by (cases "x = q"; cases "x = p") (auto simp: kept_def)
  then show ?thesis using old by (simp add: preserves_def e r)
qed

lemma call_contents:
  assumes env: "env_ok env" and tr: "tracks f A H" and rep: "represents env T H w" and ok: "allowed T r (A, w)"
    and run: "serve cb env r (A, w) = Some s'" and store: "\<And>m. r \<noteq> Store m" and r: "\<not> is_alloc r"
  shows "preserves r (A, w) s'"
proof (cases r)
  case (Dealloc p)
  then have p: "A p \<noteq> None" using ok by simp
  obtain s where s: "f p \<in> H" "serves (f p) p s" using held_serves [OF tr p] by blast
  obtain w' where d: "ga_dealloc env p w = Some (Free_Done, w')" "undisturbed (H - {f p}) w w'"
    using ga_dealloc_spec [OF env rep s] by blast
  have "kept (A, w) (A(p := None), w') q q" for q
  proof (cases "q = p")
    case True
    then show ?thesis by (simp add: kept_def)
  next
    case q: False
    have "f q \<in> H - {f p}" if "A q \<noteq> None"
      using that tr p q by (auto simp: tracks_def bij_betw_def inj_on_def dom_def)
    then show ?thesis by (rule undisturbed_kept [OF tr d(2)])
  qed
  then show ?thesis using run d(1) Dealloc by (auto simp: preserves_def resizes_def)
next
  case (Realloc th p sz al)
  then obtain k where k: "th \<in> T" "A p \<noteq> None" "pow2_word al k" "unat sz + unat al \<le> 2 ^ 25" using ok by auto
  obtain s where s: "f p \<in> H" "serves (f p) p s" using held_serves [OF tr k(2)] by blast
  obtain q w' where a: "ga_realloc env th p al sz w = Some (q, w')" "reallocates env T p (unat sz) (unat al) (f p) H w q w'"
    using ga_realloc_spec [OF env rep k(1) s k(3,4)] by blast
  have "resizes r x \<longleftrightarrow> x = p" for x using Realloc by (auto simp: resizes_def)
  from reallocates_preserves [OF tr rep k(2) a(2) this] show ?thesis using run a(1) Realloc by simp
next
  case (C_Realloc th p sz)
  then have k: "th \<in> T" "A p \<noteq> None" "unat sz \<le> 2 ^ 25" using ok r by (auto simp: is_alloc_def)
  obtain s where s: "f p \<in> H" "serves (f p) p s" using held_serves [OF tr k(2)] by blast
  obtain q w' where a: "mi_realloc env th p sz w = Some (q, w')" "reallocates env T p (unat sz) 1 (f p) H w q w'"
    using mi_realloc_spec [OF env rep k(1) s k(3)] by blast
  have "resizes r x \<longleftrightarrow> x = p" for x using C_Realloc by (auto simp: resizes_def)
  from reallocates_preserves [OF tr rep k(2) a(2) this] show ?thesis using run a(1) C_Realloc by simp
next
  case (Collect th force)
  then have k: "th \<in> T" "wd_deferred_fn w = 0" using ok by auto
  obtain w' where "theap_collect cb env th force w = Some w'" "undisturbed H w w'"
    using collect_spec [OF env rep k] by blast
  then show ?thesis using run Collect by (auto simp: resizes_def intro!: undisturbed_preserves [OF tr])
next
  case (Store m)
  then show ?thesis using store by blast
next
  case (Switch t reg rec hb)
  then show ?thesis using run by (auto simp: resizes_def intro!: undisturbed_preserves [OF tr])
qed (use r in \<open>simp_all add: is_alloc_def\<close>)

lemma request_contents:
  assumes env: "env_ok env" and inv: "client_inv env T (A, w)" and ok: "allowed T r (A, w)" and run: "serve cb env r (A, w) = Some s'"
    and store: "\<And>m. r \<noteq> Store m"
  shows "preserves r (A, w) s'"
proof -
  obtain f H where tr: "tracks f A H" and rep: "represents env T H w" using inv by (auto simp: client_inv_def)
  note null = null_not_held [OF tr rep]
  show ?thesis
  proof (cases "is_alloc r")
    case True
    obtain q w' k a n where a: "serve cb env r (A, w) = Some (grant A q (n, a), w')" "allocates env T k a H w q w'"
      using alloc_request [OF env rep null ok True] by blast
    have un: "undisturbed H w w'" using a(2) by (simp add: allocates_def)
    have none: "A p = None" if "resizes r p" for p
      using that True null by (auto simp: resizes_def is_alloc_def split: request.splits)
    have "s' = (grant A q (n, a), w')" using run a(1) by simp
    then show ?thesis using undisturbed_preserves [OF tr un none] by blast
  qed (rule call_contents [OF env tr rep ok run store])
qed

section \<open>What the program can rely on\<close>

text \<open>
  The memory the program holds: non-null, aligned as asked for, accessible (outside hardened builds)
  and disjoint from everything else it holds.
\<close>

definition held_sound :: "env \<Rightarrow> client \<Rightarrow> bool" where
  "held_sound env = (\<lambda>(A, w). \<forall>q s a. A q = Some (s, a) \<longrightarrow>
     q \<noteq> 0 \<and> a dvd unat q \<and> unat q + s \<le> 2 ^ 63 \<and> (\<not> sy_hard (en_sys env) \<longrightarrow> span q s \<subseteq> accessible (wd_log w))
     \<and> (\<forall>r t b. A r = Some (t, b) \<and> r \<noteq> q \<longrightarrow> span q s \<inter> span r t = {}))"

lemma client_inv_held:
  assumes "client_inv env T (A, w)"
  shows "held_sound env (A, w)"
proof -
  obtain f H where tr: "tracks f A H" and rep: "represents env T H w" using assms by (auto simp: client_inv_def)
  note snd = represents_sound [OF rep]
  have "q \<noteq> 0 \<and> a dvd unat q \<and> unat q + s \<le> 2 ^ 63 \<and> (\<not> sy_hard (en_sys env) \<longrightarrow> span q s \<subseteq> accessible (wd_log w))
      \<and> (\<forall>r t b. A r = Some (t, b) \<and> r \<noteq> q \<longrightarrow> span q s \<inter> span r t = {})" if q: "A q = Some (s, a)" for q s a
  proof -
    note t = tracksD [OF tr q]
    obtain b n i where b: "f q = (b, n, i)" by (cases "f q")
    note sq = soundD [OF snd t(1) [unfolded b]] and sp = serves_span [OF t(2) [unfolded b]]
    have apart: "span q s \<inter> span r k = {}" if r: "A r = Some (k, c)" "r \<noteq> q" for r k c
    proof (rule ccontr)
      assume "span q s \<inter> span r k \<noteq> {}"
      then have "unat q = unat r \<or> span q s \<inter> span r k \<noteq> {}" ..
      then have "f q = f r" by (rule same_block [OF snd t(1) tracksD(1) [OF tr r(1)] t(2) tracksD(2) [OF tr r(1)]])
      then show False using tr q r by (auto simp: tracks_def bij_betw_def inj_on_def dom_def)
    qed
    have "unat q + s \<le> 2 ^ 63" using t(2) sq(4) by (simp add: b serves_def)
    then show ?thesis using serves_nonzero [OF t(2) [unfolded b] sq(1)] t(3) sp(2) sq(5) apart by blast
  qed
  then show ?thesis unfolding held_sound_def split_conv by blast
qed

lemma client_inv_start:
  assumes "represents env T {} w"
  shows "client_inv env T (Map.empty, w)"
proof -
  have "tracks f Map.empty {}" for f by (simp add: tracks_def bij_betw_def)
  then show ?thesis using assms by (auto simp: client_inv_def)
qed

text \<open>
  C1. The allocator is memory-safe: however long a program runs, through whatever sequence of calls of
  both interfaces, of writes to its memory, of switches between threads and of starts of threads,
  everything it holds is non-null, aligned as it asked, mapped and accessible, and no two of its
  allocations share a byte. No call can corrupt what another call relies on.
\<close>

theorem program_memory_safe:
  assumes "env_ok env" "represents env T0 {} w0" "run cb env T0 (Map.empty, w0) T s"
  shows "held_sound env s"
proof -
  from run_keeps [OF assms(3,1) client_inv_start [OF assms(2)]] show ?thesis using client_inv_held by (cases s) blast
qed

text \<open>A program that allocates 24 bytes at a multiple of 64.\<close>

lemma first_call:
  obtains q w where "run cb sample_henv {1024} (Map.empty, start_world) {1024} (Map.empty(q \<mapsto> (24, 64)), w)" "q \<noteq> 0"
    "serve cb sample_henv (Alloc 1024 24 64) (Map.empty, start_world) = Some (Map.empty(q \<mapsto> (24, 64)), w)"
proof -
  obtain q w where q: "ga_alloc sample_henv 1024 24 64 start_world = Some (q, w)" "q \<noteq> 0" by (rule start_call)
  have p: "pow2_word 64 6" and m: "max (24 :: usize) 1 = 24" by (simp_all add: pow2_word_def max_def word_le_nat_alt)
  have ok: "allowed {1024} (Alloc 1024 24 64) (Map.empty, start_world)" using p by (auto simp: m)
  have s: "serve cb sample_henv (Alloc 1024 24 64) (Map.empty, start_world) = Some (Map.empty(q \<mapsto> (24, 64)), w)"
    using q by (simp add: grant_def)
  show thesis by (rule that [OF run_step [OF run_start ok s] q(2) s])
qed

lemma program_memory_safe_witness:
  "\<exists>q w. q \<noteq> 0 \<and> serve (\<lambda>_ _ _ _ _. None) sample_henv (Alloc 1024 24 64) (Map.empty, start_world) = Some (Map.empty(q \<mapsto> (24, 64)), w)
    \<and> held_sound sample_henv (Map.empty(q \<mapsto> (24, 64)), w) \<and> 64 dvd unat q"
proof -
  obtain q w where s: "run (\<lambda>_ _ _ _ _. None) sample_henv {1024} (Map.empty, start_world) {1024} (Map.empty(q \<mapsto> (24, 64)), w)" "q \<noteq> 0"
      "serve (\<lambda>_ _ _ _ _. None) sample_henv (Alloc 1024 24 64) (Map.empty, start_world) = Some (Map.empty(q \<mapsto> (24, 64)), w)" by (rule first_call)
  have h: "held_sound sample_henv (Map.empty(q \<mapsto> (24, 64)), w)" by (rule program_memory_safe [OF start_env(1) start_represents s(1)])
  then have "64 dvd unat q" by (simp add: held_sound_def)
  then show ?thesis using s(2,3) h by blast
qed

text \<open>
  C2. And it is never stuck: at any point of any run every call the contract allows returns. In
  particular every free of held memory is carried out (also in hardened builds, whose checks abort
  on invalid and double frees), from any thread, and allocations return or report failure.
\<close>

theorem program_progress:
  assumes "env_ok env" "represents env T0 {} w0" "run cb env T0 (Map.empty, w0) T s" "allowed T r s"
  shows "\<exists>s'. serve cb env r s = Some s'"
proof -
  from run_keeps [OF assms(3,1) client_inv_start [OF assms(2)]] request_keeps [OF assms(1), of T "fst s" "snd s" r cb] assms(4)
  show ?thesis by (auto simp: good_step_def)
qed

lemma program_progress_witness:
  "\<exists>q w s'. q \<noteq> 0 \<and> serve (\<lambda>_ _ _ _ _. None) sample_henv (Alloc 1024 24 64) (Map.empty, start_world) = Some (Map.empty(q \<mapsto> (24, 64)), w)
    \<and> serve (\<lambda>_ _ _ _ _. None) sample_henv (Dealloc q) (Map.empty(q \<mapsto> (24, 64)), w) = Some s'"
proof -
  obtain q w where s: "run (\<lambda>_ _ _ _ _. None) sample_henv {1024} (Map.empty, start_world) {1024} (Map.empty(q \<mapsto> (24, 64)), w)" "q \<noteq> 0"
      "serve (\<lambda>_ _ _ _ _. None) sample_henv (Alloc 1024 24 64) (Map.empty, start_world) = Some (Map.empty(q \<mapsto> (24, 64)), w)" by (rule first_call)
  have ok: "allowed {1024} (Dealloc q) (Map.empty(q \<mapsto> (24, 64)), w)" by simp
  from program_progress [OF start_env(1) start_represents s(1) ok] show ?thesis using s(2,3) by blast
qed

text \<open>
  C4. The program's data is safe: no call and no switch of threads, at any point of any run, changes a
  word of the memory the program holds before and after it; and what a reallocation returns holds
  what was at the old pointer, up to the smaller of the two sizes.
\<close>

theorem program_keeps_data:
  assumes "env_ok env" "represents env T0 {} w0" "run cb env T0 (Map.empty, w0) T s" "allowed T r s" "serve cb env r s = Some s'"
    and "\<forall>m. r \<noteq> Store m"
  shows "preserves r s s'"
proof -
  from run_keeps [OF assms(3,1) client_inv_start [OF assms(2)]] request_contents [OF assms(1), of T "fst s" "snd s" r cb s'] assms(4-6)
  show ?thesis by simp
qed

lemma program_keeps_data_witness:
  "\<exists>q w s'. q \<noteq> 0 \<and> serve (\<lambda>_ _ _ _ _. None) sample_henv (Alloc 1024 24 64) (Map.empty, start_world) = Some (Map.empty(q \<mapsto> (24, 64)), w)
    \<and> serve (\<lambda>_ _ _ _ _. None) sample_henv (Realloc 1024 q 100000 8) (Map.empty(q \<mapsto> (24, 64)), w) = Some s'
    \<and> preserves (Realloc 1024 q 100000 8) (Map.empty(q \<mapsto> (24, 64)), w) s'"
proof -
  let ?cb = "\<lambda>_ _ _ _ _. None :: hworld option"
  obtain q w where s: "run ?cb sample_henv {1024} (Map.empty, start_world) {1024} (Map.empty(q \<mapsto> (24, 64)), w)" "q \<noteq> 0"
      "serve ?cb sample_henv (Alloc 1024 24 64) (Map.empty, start_world) = Some (Map.empty(q \<mapsto> (24, 64)), w)" by (rule first_call)
  let ?r = "Realloc 1024 q 100000 8" and ?s = "(Map.empty(q \<mapsto> (24, 64)), w)"
  have p: "pow2_word 8 3" by (simp add: pow2_word_def)
  have ok: "allowed {1024} ?r ?s" using p by auto
  from run_keeps [OF s(1) start_env(1) client_inv_start [OF start_represents]] request_keeps [OF start_env(1) _ ok, of ?cb]
  obtain s' where s': "serve ?cb sample_henv ?r ?s = Some s'" by (auto simp: good_step_def simp del: serve.simps)
  have "preserves ?r ?s s'" by (rule program_keeps_data [OF start_env(1) start_represents s(1) ok s']) simp
  then show ?thesis using s(2,3) s' by blast
qed

text \<open>
  C3. Nothing leaks: whenever the program holds nothing, no block is in use, so every page can be
  retired and given back.
\<close>

theorem program_no_leak:
  assumes "env_ok env" "represents env T0 {} w0" "run cb env T0 (Map.empty, w0) T (Map.empty, w)"
  shows "represents env T {} w"
proof -
  from run_keeps [OF assms(3,1) client_inv_start [OF assms(2)]] show ?thesis by (auto simp: client_inv_def tracks_def bij_betw_def)
qed

lemma program_no_leak_witness:
  "\<exists>q w w'. q \<noteq> 0 \<and> serve (\<lambda>_ _ _ _ _. None) sample_henv (Alloc 1024 24 64) (Map.empty, start_world) = Some (Map.empty(q \<mapsto> (24, 64)), w)
    \<and> serve (\<lambda>_ _ _ _ _. None) sample_henv (Dealloc q) (Map.empty(q \<mapsto> (24, 64)), w) = Some (Map.empty, w')
    \<and> represents sample_henv {1024} {} w'"
proof -
  let ?cb = "\<lambda>_ _ _ _ _. None :: hworld option"
  obtain q w where s: "run ?cb sample_henv {1024} (Map.empty, start_world) {1024} (Map.empty(q \<mapsto> (24, 64)), w)" "q \<noteq> 0"
      "serve ?cb sample_henv (Alloc 1024 24 64) (Map.empty, start_world) = Some (Map.empty(q \<mapsto> (24, 64)), w)" by (rule first_call)
  let ?s = "(Map.empty(q \<mapsto> (24, 64)), w)"
  have ok: "allowed {1024} (Dealloc q) ?s" by simp
  from run_keeps [OF s(1) start_env(1) client_inv_start [OF start_represents]] request_keeps [OF start_env(1) _ ok, of ?cb]
  obtain w' where d: "serve ?cb sample_henv (Dealloc q) ?s = Some (Map.empty, w')"
    by (auto simp: good_step_def split: option.splits free_result.splits)
  from run_step [OF s(1) ok d] have "run ?cb sample_henv {1024} (Map.empty, start_world) {1024} (Map.empty, w')" .
  from program_no_leak [OF start_env(1) start_represents this] show ?thesis using s(2,3) d by blast
qed

end
