(* ===== verification/MiStress.thy ===== *)
theory MiStress
  imports MiClient "HOL-Library.Multiset"
begin

unbundle bit_operations_syntax

text \<open>
  \<^verbatim>\<open>examples/stress.rs\<close>: the stress test that comes with the allocator, as a program of \<open>MiClient\<close>.
  Any number of threads allocate, fill every block with a pattern, pass blocks to each other through
  a shared table, and check the pattern of each block they free. The threads run interleaved, at the
  granularity of one allocation, one free or one exchange; thread start and exit, and the storage of
  the vectors, are left out.
\<close>

section \<open>Random choices\<close>

definition COOKIE :: usize where "COOKIE = 0xbf58476d1ce4e5b9"
definition TRANSFERS :: nat where "TRANSFERS = 1000"
definition WORD :: usize where "WORD = 8"

record cfg =
  cf_threads :: nat
  cf_scale :: usize
  cf_iter :: nat
  cf_large :: bool

text \<open>The new value of the generator, which is also the number picked.\<close>

definition pick :: "64 word \<Rightarrow> 64 word" where
  "pick r =
    (let x = r XOR drop_bit 30 r;
         x = x * 0xbf58476d1ce4e5b9;
         x = x XOR drop_bit 27 x;
         x = x * 0x94d049bb133111eb;
         x = x XOR drop_bit 31 x
     in x)"

definition chance :: "64 word \<Rightarrow> 64 word \<Rightarrow> bool \<times> 64 word" where
  "chance perc r = (let x = pick r in (x mod 100 \<le> perc, x))"

text \<open>One request in fifty is for a large block, and some of these for a huge one.\<close>

definition magnify :: "usize \<Rightarrow> bool \<Rightarrow> 64 word \<Rightarrow> usize \<times> 64 word" where
  "magnify items large r =
    (let (c, r) = chance 1 r in
     if c then
       let (c1, r) = chance 1 r in
       if c1 \<and> large then (items * 10000, r)
       else let (c2, r) = chance 10 r in
         if c2 \<and> large then (items * 1000, r) else (items * 100, r)
     else (items, r))"

definition scale_items :: "usize \<Rightarrow> bool \<Rightarrow> 64 word \<Rightarrow> usize \<times> 64 word" where
  "scale_items items large r =
    (let (items, r) = magnify items large r;
         items = (if 32 \<le> items \<and> items \<le> 40 then items * 2 else items);
         items = (if items = 0 then 1 else items)
     in (items, r))"

section \<open>Blocks with a pattern\<close>

text \<open>The size of the layout of so many words; \<open>None\<close> where \<open>unwrap\<close> panics.\<close>

definition stress_layout :: "usize \<Rightarrow> usize option" where
  "stress_layout items = (let sz = items * WORD in if unat sz + 7 < 2 ^ 63 then Some sz else None)"

text \<open>The word \<open>*p.add(i)\<close>.\<close>

definition word_at :: "ptr \<Rightarrow> nat \<Rightarrow> ptr" where
  "word_at p i = p + of_nat i * WORD"

definition fill_cookies :: "ptr \<Rightarrow> usize \<Rightarrow> links \<Rightarrow> links" where
  "fill_cookies p items m = fold (\<lambda>i m. m(word_at p i := (items - of_nat i) XOR COOKIE)) [0..<unat items] m"

definition alloc_items :: "env \<Rightarrow> ptr \<Rightarrow> usize \<Rightarrow> bool \<Rightarrow> 64 word \<Rightarrow> hworld \<Rightarrow> (ptr \<times> 64 word \<times> hworld) option" where
  "alloc_items env th items large r w =
    (let (items, r) = scale_items items large r in
     case stress_layout items of
       None \<Rightarrow> None
     | Some sz \<Rightarrow>
         (case ga_alloc_zeroed env th sz WORD w of
            None \<Rightarrow> None
          | Some (p, w1) \<Rightarrow>
              Some (p, r, if p = 0 then w1 else w1\<lparr>wd_links := fill_cookies p items (wd_links w1)\<rparr>)))"

text \<open>\<open>None\<close>: the check of the pattern, or the allocator, aborts.\<close>

definition free_items :: "env \<Rightarrow> ptr \<Rightarrow> hworld \<Rightarrow> hworld option" where
  "free_items env p w =
    (if p = 0 then Some w
     else let items = wd_links w p XOR COOKIE in
       if list_all (\<lambda>i. wd_links w (word_at p i) XOR COOKIE = items - of_nat i) [0..<unat items]
       then case stress_layout items of
              None \<Rightarrow> None
            | Some _ \<Rightarrow> (case ga_dealloc env p w of Some (Free_Done, w') \<Rightarrow> Some w' | _ \<Rightarrow> None)
       else None)"

definition transfer_xchg :: "nat \<Rightarrow> ptr \<Rightarrow> ptr list \<Rightarrow> ptr \<times> ptr list" where
  "transfer_xchg i p tr = (tr ! i, tr[i := p])"

section \<open>A worker\<close>

datatype at = At_Loop | At_Free | At_Swap | At_Clean

record worker =
  wk_at :: at
  wk_r :: "64 word"
  wk_allocs :: nat
  wk_retain :: nat
  wk_data :: "ptr list"
  wk_retained :: "ptr list"

definition start_worker :: "cfg \<Rightarrow> nat \<Rightarrow> worker" where
  "start_worker cf tid =
    (let allocs = unat (100 * cf_scale cf * of_nat (tid mod 8 + 1)) in
     \<lparr>wk_at = At_Loop, wk_r = (of_nat tid + 1) * 43, wk_allocs = allocs, wk_retain = allocs div 2, wk_data = [], wk_retained = []\<rparr>)"

text \<open>The head of the loop and its first part: a block for the working set or one to retain.\<close>

definition worker_alloc :: "env \<Rightarrow> ptr \<Rightarrow> bool \<Rightarrow> worker \<Rightarrow> hworld \<Rightarrow> (worker \<times> hworld) option" where
  "worker_alloc env th large k w =
    (let (c, r) = (if wk_retain k = 0 then (True, wk_r k) else let (c, r) = chance 50 (wk_r k) in (c \<and> 0 < wk_allocs k, r));
         x = pick r
     in if c then
          map_option (\<lambda>(p, r, w). (k\<lparr>wk_at := At_Free, wk_r := r, wk_allocs := wk_allocs k - 1, wk_data := wk_data k @ [p]\<rparr>, w))
            (alloc_items env th (push_bit (unat (x mod 5)) 1) large x w)
        else
          map_option (\<lambda>(p, r, w). (k\<lparr>wk_at := At_Free, wk_r := r, wk_retain := wk_retain k - 1, wk_retained := wk_retained k @ [p]\<rparr>, w))
            (alloc_items env th (push_bit (unat (x mod 7)) 1) large x w))"

definition worker_free :: "env \<Rightarrow> worker \<Rightarrow> hworld \<Rightarrow> (worker \<times> hworld) option" where
  "worker_free env k w =
    (let (c, r) = chance 66 (wk_r k) in
     if c \<and> wk_data k \<noteq> [] then
       let x = pick r; i = unat x mod length (wk_data k) in
       map_option (\<lambda>w. (k\<lparr>wk_at := At_Swap, wk_r := x, wk_data := (wk_data k)[i := 0]\<rparr>, w)) (free_items env (wk_data k ! i) w)
     else Some (k\<lparr>wk_at := At_Swap, wk_r := r\<rparr>, w))"

definition worker_swap :: "worker \<Rightarrow> ptr list \<Rightarrow> worker \<times> ptr list" where
  "worker_swap k tr =
    (let (c, r) = chance 25 (wk_r k) in
     if c \<and> wk_data k \<noteq> [] then
       let x = pick r; i = unat x mod length (wk_data k);
           y = pick x; j = unat y mod TRANSFERS;
           (old, tr') = transfer_xchg j (wk_data k ! i) tr
       in (k\<lparr>wk_at := At_Loop, wk_r := y, wk_data := (wk_data k)[i := old]\<rparr>, tr')
     else (k\<lparr>wk_at := At_Loop, wk_r := r\<rparr>, tr))"

text \<open>What is freed after the loop: the retained blocks, then the working set.\<close>

definition worker_clean :: "env \<Rightarrow> worker \<Rightarrow> hworld \<Rightarrow> (worker \<times> hworld) option" where
  "worker_clean env k w =
    (case wk_retained k of
       p # ps \<Rightarrow> map_option (Pair (k\<lparr>wk_retained := ps\<rparr>)) (free_items env p w)
     | [] \<Rightarrow> (case wk_data k of p # ps \<Rightarrow> map_option (Pair (k\<lparr>wk_data := ps\<rparr>)) (free_items env p w) | [] \<Rightarrow> Some (k, w)))"

definition worker_step :: "env \<Rightarrow> ptr \<Rightarrow> bool \<Rightarrow> worker \<times> ptr list \<times> hworld \<Rightarrow> (worker \<times> ptr list \<times> hworld) option" where
  "worker_step env th large = (\<lambda>(k, tr, w).
    case wk_at k of
      At_Loop \<Rightarrow>
        if 0 < wk_allocs k \<or> 0 < wk_retain k then map_option (\<lambda>(k, w). (k, tr, w)) (worker_alloc env th large k w)
        else Some (k\<lparr>wk_at := At_Clean\<rparr>, tr, w)
    | At_Free \<Rightarrow> map_option (\<lambda>(k, w). (k, tr, w)) (worker_free env k w)
    | At_Swap \<Rightarrow> (case worker_swap k tr of (k, tr') \<Rightarrow> Some (k, tr', w))
    | At_Clean \<Rightarrow> map_option (\<lambda>(k, w). (k, tr, w)) (worker_clean env k w))"

definition worker_done :: "worker \<Rightarrow> bool" where
  "worker_done k \<longleftrightarrow> wk_at k = At_Clean \<and> wk_retained k = [] \<and> wk_data k = []"

section \<open>The test\<close>

text \<open>
  The main thread: in round \<open>n\<close> of \<open>run_round\<close> (waiting for the workers), at the entry \<open>i\<close> of the table
  after round \<open>n\<close>, at the entry \<open>i\<close> of the last drain, or at the end.
\<close>

datatype phase = Round nat | Drain nat nat | Final nat | Over

record stress =
  ss_phase :: phase
  ss_workers :: "nat \<Rightarrow> worker"
  ss_r :: "64 word"
  ss_transfer :: "ptr list"
  ss_world :: hworld

definition next_round :: "cfg \<Rightarrow> nat \<Rightarrow> stress \<Rightarrow> stress" where
  "next_round cf n s = (if n < cf_iter cf then s\<lparr>ss_phase := Round n, ss_workers := start_worker cf\<rparr> else s\<lparr>ss_phase := Final 0\<rparr>)"

definition start_stress :: "cfg \<Rightarrow> hworld \<Rightarrow> stress" where
  "start_stress cf w = next_round cf 0
    \<lparr>ss_phase = Over, ss_workers = start_worker cf, ss_r = 0x7feb352d, ss_transfer = replicate TRANSFERS 0, ss_world = w\<rparr>"

definition release_slot :: "env \<Rightarrow> nat \<Rightarrow> stress \<Rightarrow> stress option" where
  "release_slot env i s =
    (let (p, tr) = transfer_xchg i 0 (ss_transfer s) in
     map_option (\<lambda>w. s\<lparr>ss_transfer := tr, ss_world := w\<rparr>) (free_items env p (ss_world s)))"

definition main_step :: "env \<Rightarrow> cfg \<Rightarrow> stress \<Rightarrow> stress option" where
  "main_step env cf s =
    (case ss_phase s of
       Round n \<Rightarrow> Some (s\<lparr>ss_phase := Drain n 0\<rparr>)
     | Drain n i \<Rightarrow>
         if i < TRANSFERS then
           let (c, r) = chance 50 (ss_r s); s = s\<lparr>ss_r := r, ss_phase := Drain n (i + 1)\<rparr> in
           if c \<or> n + 1 = cf_iter cf then release_slot env i s else Some s
         else Some (next_round cf (n + 1) s)
     | Final i \<Rightarrow> if i < TRANSFERS then release_slot env i (s\<lparr>ss_phase := Final (i + 1)\<rparr>) else Some (s\<lparr>ss_phase := Over\<rparr>)
     | Over \<Rightarrow> Some s)"

text \<open>
  The scheduler gives a turn to thread \<open>i\<close>; the main thread has the number \<open>cf_threads cf\<close>. It waits in
  \<open>join\<close> while workers run. With the turn come the thread id and the thread-local state.
\<close>

definition enabled :: "cfg \<Rightarrow> nat \<Rightarrow> stress \<Rightarrow> bool" where
  "enabled cf i s \<longleftrightarrow>
    (if i = cf_threads cf then ss_phase s \<noteq> Over \<and> ((\<exists>n. ss_phase s = Round n) \<longrightarrow> (\<forall>j<cf_threads cf. worker_done (ss_workers s j)))
     else i < cf_threads cf \<and> (\<exists>n. ss_phase s = Round n) \<and> \<not> worker_done (ss_workers s i))"

definition switch_to :: "usize \<times> ptr \<times> bool \<times> 64 word \<Rightarrow> hworld \<Rightarrow> hworld" where
  "switch_to = (\<lambda>(tid, reg, rec, hb) w. w\<lparr>wd_recurse := rec, wd_heartbeat := hb, wd_tid := tid, wd_registry := reg\<rparr>)"

definition turn :: "env \<Rightarrow> cfg \<Rightarrow> (nat \<Rightarrow> ptr) \<Rightarrow> nat \<Rightarrow> usize \<times> ptr \<times> bool \<times> 64 word \<Rightarrow> stress \<Rightarrow> stress option" where
  "turn env cf heap i tls s0 =
    (let s = s0\<lparr>ss_world := switch_to tls (ss_world s0)\<rparr> in
     if i = cf_threads cf then main_step env cf s
     else map_option (\<lambda>(k, tr, w). s\<lparr>ss_workers := (ss_workers s)(i := k), ss_transfer := tr, ss_world := w\<rparr>)
       (worker_step env (heap i) (cf_large cf) (ss_workers s i, ss_transfer s, ss_world s)))"

text \<open>Every schedule, with any thread ids that keep the flag bits of the owner word clear.\<close>

inductive stress_run :: "env \<Rightarrow> cfg \<Rightarrow> (nat \<Rightarrow> ptr) \<Rightarrow> stress \<Rightarrow> stress \<Rightarrow> bool" for env cf heap s where
  stress_start: "stress_run env cf heap s s"
| stress_turn: "stress_run env cf heap s s1 \<Longrightarrow> enabled cf i s1 \<Longrightarrow> fst tls AND MI_PAGE_FLAG_MASK = 0
    \<Longrightarrow> turn env cf heap i tls s1 = Some s2 \<Longrightarrow> stress_run env cf heap s s2"

section \<open>The pattern\<close>

lemma word_at_nat:
  assumes "unat p + 8 * i < 2 ^ 63"
  shows "unat (word_at p i) = unat p + 8 * i"
proof -
  have "unat (of_nat (8 * i) :: usize) = 8 * i" by (rule unat_of_nat_small) (use assms in simp)
  moreover have "word_at p i = p + of_nat (8 * i)" by (simp add: word_at_def WORD_def)
  ultimately show ?thesis using assms unat_add_small [of p "of_nat (8 * i)"] by simp
qed

lemma word_at_span: "i < n \<Longrightarrow> unat p + 8 * n \<le> 2 ^ 63 \<Longrightarrow> unat (word_at p i) \<in> span p (8 * n)"
  by (simp add: span_def word_at_nat)

lemma word_at_inj: "unat p + 8 * n \<le> 2 ^ 63 \<Longrightarrow> inj_on (word_at p) {..<n}"
proof (rule inj_onI)
  fix i j assume a: "unat p + 8 * n \<le> 2 ^ 63" "i \<in> {..<n}" "j \<in> {..<n}" "word_at p i = word_at p j"
  have "unat (word_at p i) = unat p + 8 * i" "unat (word_at p j) = unat p + 8 * j" using a(1-3) by (simp_all add: word_at_nat)
  then have "unat p + 8 * i = unat p + 8 * j" using a(4) by metis
  then show "i = j" by simp
qed

lemma fold_writes: "inj_on a {..<k :: nat} \<Longrightarrow> i < k \<Longrightarrow> fold (\<lambda>i m. m(a i := v i)) [0..<k] m (a i) = v i"
proof (induction k)
  case (Suc k)
  then show ?case by (cases "i = k") (auto simp: inj_on_def)
qed simp

lemma fold_writes_other: "(\<And>i. i < k \<Longrightarrow> a i \<noteq> c) \<Longrightarrow> fold (\<lambda>i m. m(a i := v i)) [0..<k] m c = m c"
  by (induction k) auto

definition patterned :: "hworld \<Rightarrow> ptr \<Rightarrow> nat \<Rightarrow> bool" where
  "patterned w p n \<longleftrightarrow> 0 < n \<and> n \<le> 640000 \<and> (\<forall>i<n. wd_links w (word_at p i) = of_nat (n - i) XOR COOKIE)"

lemma fill_pattern:
  assumes n: "0 < unat n" "unat n \<le> 640000" and p: "unat p + 8 * unat n \<le> 2 ^ 63"
  shows "patterned (w\<lparr>wd_links := fill_cookies p n m\<rparr>) p (unat n)"
proof -
  have "fill_cookies p n m (word_at p i) = of_nat (unat n - i) XOR COOKIE" if "i < unat n" for i
  proof -
    have "of_nat (unat n - i) = n - of_nat i" using that by (simp add: of_nat_diff)
    then show ?thesis using fold_writes [OF word_at_inj [OF p] that] by (simp add: fill_cookies_def)
  qed
  then show ?thesis using n by (simp add: patterned_def)
qed

lemma fill_only:
  assumes "fill_cookies p n m c \<noteq> m c" "unat p + 8 * unat n \<le> 2 ^ 63"
  shows "unat c \<in> span p (8 * unat n)"
proof (rule ccontr)
  assume out: "unat c \<notin> span p (8 * unat n)"
  have "word_at p i \<noteq> c" if "i < unat n" for i using word_at_span [OF that assms(2)] out by blast
  then have "fill_cookies p n m c = m c" unfolding fill_cookies_def by (rule fold_writes_other)
  then show False using assms(1) by simp
qed

text \<open>The check before a free reads the number of words back from the first of them.\<close>

lemma pattern_check:
  assumes "patterned w p n"
  shows "wd_links w p XOR COOKIE = of_nat n" "unat (of_nat n :: usize) = n"
    "list_all (\<lambda>i. wd_links w (word_at p i) XOR COOKIE = of_nat n - of_nat i) [0..<n]"
    "stress_layout (of_nat n) = Some (of_nat n * WORD)" "unat (of_nat n * WORD) = 8 * n"
proof -
  have n: "0 < n" "n \<le> 640000" and w: "\<And>i. i < n \<Longrightarrow> wd_links w (word_at p i) = of_nat (n - i) XOR COOKIE"
    using assms by (simp_all add: patterned_def)
  have "word_at p 0 = p" by (simp add: word_at_def)
  then show "wd_links w p XOR COOKIE = of_nat n" using w [OF n(1)] by (simp add: xor.assoc)
  show "unat (of_nat n :: usize) = n" by (rule unat_of_nat_small) (use n in simp)
  show "list_all (\<lambda>i. wd_links w (word_at p i) XOR COOKIE = of_nat n - of_nat i) [0..<n]"
    by (auto simp: list_all_iff w xor.assoc of_nat_diff)
  have "unat (of_nat (8 * n) :: usize) = 8 * n" by (rule unat_of_nat_small) (use n in simp)
  then show s: "unat (of_nat n * WORD) = 8 * n" by (simp add: WORD_def mult.commute)
  show "stress_layout (of_nat n) = Some (of_nat n * WORD)" using n s by (simp add: stress_layout_def)
qed

lemma scale_items_bound:
  assumes i: "unat items \<le> 64" and s: "scale_items items large r = (n, r')"
  shows "0 < unat n" "unat n \<le> 640000"
proof -
  have m: "unat (items * of_nat k) = unat items * k" if "k \<le> 10000" for k
  proof -
    have k: "unat (of_nat k :: usize) = k" by (rule unat_of_nat_small) (use that in simp)
    have "unat items * k \<le> 64 * 10000" using i that by (rule mult_le_mono)
    then show ?thesis by (simp add: unat_word_ariths k)
  qed
  note mm = m [of 10000] m [of 1000] m [of 100]
  have b: "unat (items * 10000) \<le> 640000" "unat (items * 1000) \<le> 640000" "unat (items * 100) \<le> 640000"
    using mm i by simp_all
  obtain x r1 where g: "magnify items large r = (x, r1)" by (cases "magnify items large r")
  have x: "unat x \<le> 640000" using g b i by (auto simp: magnify_def split: prod.splits if_splits)
  have two: "unat (x * 2) = 2 * unat (x)" if "x \<le> 40"
  proof -
    have "unat (x) \<le> 40" using that by (simp add: word_le_nat_alt)
    then show ?thesis by (simp add: unat_word_ariths)
  qed
  have n: "n = (let a = (if 32 \<le> x \<and> x \<le> 40 then x * 2 else x) in if a = 0 then 1 else a)"
    using s by (simp add: scale_items_def g Let_def split: if_splits)
  show "0 < unat n" by (simp add: n Let_def unat_gt_0)
  show "unat n \<le> 640000" using x two by (auto simp: n Let_def word_le_nat_alt)
qed

section \<open>Blocks held by the test\<close>

text \<open>
  The program holds exactly the non-null pointers of the bag \<open>B\<close>, each of them once, and every block of
  theirs carries its pattern.
\<close>

definition holding :: "env \<Rightarrow> ptr set \<Rightarrow> ptr multiset \<Rightarrow> hworld \<Rightarrow> bool" where
  "holding env T B w \<longleftrightarrow> (\<exists>A. client_inv env T (A, w) \<and> (\<forall>p s a. A p = Some (s, a) \<longrightarrow> (\<exists>n. s = 8 * n \<and> patterned w p n))
     \<and> (\<forall>p. p \<noteq> 0 \<longrightarrow> count B p = (if A p = None then 0 else 1)))"

lemma holdingE:
  assumes "holding env T B w"
  obtains A where "client_inv env T (A, w)" "\<And>p s a. A p = Some (s, a) \<Longrightarrow> \<exists>n. s = 8 * n \<and> patterned w p n"
    "\<And>p. p \<noteq> 0 \<Longrightarrow> count B p = (if A p = None then 0 else 1)"
  using assms unfolding holding_def by blast

lemma holdingI:
  assumes "client_inv env T (A, w)" "\<And>p s a. A p = Some (s, a) \<Longrightarrow> \<exists>n. s = 8 * n \<and> patterned w p n"
    "\<And>p. p \<noteq> 0 \<Longrightarrow> count B p = (if A p = None then 0 else 1)"
  shows "holding env T B w"
  using assms unfolding holding_def by blast

lemma held_fits:
  assumes "client_inv env T (A, w)" "A p = Some (s, a)"
  shows "p \<noteq> 0" "unat p + s \<le> 2 ^ 63" "A q = Some (t, b) \<Longrightarrow> q \<noteq> p \<Longrightarrow> span p s \<inter> span q t = {}"
  using client_inv_held [OF assms(1)] assms(2) unfolding held_sound_def by auto

lemma pattern_moves:
  assumes "patterned w p n" "unat p + 8 * n \<le> 2 ^ 63" "\<And>c. unat c \<in> span p (8 * n) \<Longrightarrow> wd_links w' c = wd_links w c"
  shows "patterned w' p n"
  using assms(1) assms(3) [OF word_at_span [OF _ assms(2)]] by (simp add: patterned_def)

text \<open>A call that is no reallocation leaves the patterns alone.\<close>

lemma request_patterns:
  assumes env: "env_ok env" and inv: "client_inv env T (A, w)" and ok: "allowed T r (A, w)" and run: "serve cb env r (A, w) = Some (A', w')"
    and store: "\<And>m. r \<noteq> Store m" and pat: "\<And>p s a. A p = Some (s, a) \<Longrightarrow> \<exists>n. s = 8 * n \<and> patterned w p n"
    and p: "A p = Some (s, a)" "A' p = Some (s, a)"
  shows "\<exists>n. s = 8 * n \<and> patterned w' p n"
proof -
  have "preserves r (A, w) (A', w')" by (rule request_contents [OF env inv ok run store])
  then have k: "kept (A, w) (A', w') p p" by (simp add: preserves_def)
  obtain n where n: "s = 8 * n" "patterned w p n" using pat [OF p(1)] by blast
  have fit: "unat p + 8 * n \<le> 2 ^ 63" using held_fits(2) [OF inv p(1)] n(1) by simp
  have "wd_links w' c = wd_links w c" if "unat c \<in> span p (8 * n)" for c
    using k p that n(1) unfolding kept_def split_conv by (metis diff_add_cancel min.idem)
  then show ?thesis using n(1) pattern_moves [OF n(2) fit] by blast
qed

lemma serve_alloc: "ga_alloc_zeroed env th sz al w = Some (q, w') \<Longrightarrow> serve cb env (Alloc_Zeroed th sz al) (A, w) = Some (grant A q (unat sz, unat al), w')"
  by simp

lemma store_inv:
  assumes env: "env_ok env" and inv: "client_inv env T (A, w)" and m: "\<And>c. m c \<noteq> wd_links w c \<Longrightarrow> \<exists>q s a. A q = Some (s, a) \<and> unat c \<in> span q s"
  shows "client_inv env T (A, w\<lparr>wd_links := m\<rparr>)"
proof -
  have "allowed T (Store m) (A, w)" using m by (simp del: not_None_eq)
  from request_keeps [OF env inv this, of "\<lambda>_ _ _ _ _. None"] show ?thesis by (simp add: good_step_def)
qed

lemma alloc_items_keeps:
  assumes env: "env_ok env" and th: "th \<in> T" and h: "holding env T B w" and i: "unat items \<le> 64"
  shows "\<exists>p r' w'. alloc_items env th items large r w = Some (p, r', w') \<and> holding env T (add_mset p B) w'"
proof -
  let ?cb = "\<lambda>_ _ _ _ _. None :: hworld option"
  obtain n r' where n: "scale_items items large r = (n, r')" by (cases "scale_items items large r")
  note bd = scale_items_bound [OF i n]
  have sz: "unat (n * WORD) = 8 * unat n" by (simp add: WORD_def) (use bd in \<open>simp add: unat_mult_small mult.commute\<close>)
  have lay: "stress_layout n = Some (n * WORD)" using bd sz by (simp add: stress_layout_def)
  have w8: "unat WORD = 8" "pow2_word WORD 3" by (simp_all add: WORD_def pow2_word_def)
  have "unat (max (n * WORD) 1) + unat WORD \<le> 2 ^ 25" using bd by (simp add: max_def w8(1) sz)
  then have ok: "allowed T (Alloc_Zeroed th (n * WORD) WORD) (A, w)" for A using th w8(2) by auto
  obtain A where A: "client_inv env T (A, w)" "\<And>p s a. A p = Some (s, a) \<Longrightarrow> \<exists>n. s = 8 * n \<and> patterned w p n"
      "\<And>p. p \<noteq> 0 \<Longrightarrow> count B p = (if A p = None then 0 else 1)" using h by (rule holdingE) blast
  obtain q w1 where a: "ga_alloc_zeroed env th (n * WORD) WORD w = Some (q, w1)" "client_inv env T (grant A q (unat (n * WORD), unat WORD), w1)"
      "q \<noteq> 0 \<longrightarrow> A q = None" using alloc_zeroed_request [OF env A(1) ok] by blast
  let ?A = "grant A q (unat (n * WORD), unat WORD)"
  have pat: "\<exists>n. s = 8 * n \<and> patterned w1 p n" if "A p = Some (s, a)" for p s a
  proof (rule request_patterns [OF env A(1) ok serve_alloc [OF a(1), of ?cb] _ A(2) that])
    show "?A p = Some (s, a)" using a(3) that by (auto simp: grant_def)
  qed simp_all
  show ?thesis
  proof (cases "q = 0")
    case True
    have "holding env T (add_mset q B) w1" by (rule holdingI [of env T A]) (use a(2) True pat A(3) in \<open>simp_all add: grant_def\<close>)
    moreover have "alloc_items env th items large r w = Some (q, r', w1)" using a(1) True by (simp add: alloc_items_def n lay)
    ultimately show ?thesis by blast
  next
    case False
    let ?m = "fill_cookies q n (wd_links w1)"
    have e: "?A = A(q \<mapsto> (8 * unat n, 8))" using False by (simp add: grant_def sz w8(1))
    have fit: "unat q + 8 * unat n \<le> 2 ^ 63" using held_fits(2) [OF a(2), of q] by (simp add: e)
    have "\<exists>q s a. ?A q = Some (s, a) \<and> unat c \<in> span q s" if "?m c \<noteq> wd_links w1 c" for c
      using fill_only [OF that fit] by (intro exI [of _ q]) (simp add: e)
    then have inv: "client_inv env T (?A, w1\<lparr>wd_links := ?m\<rparr>)" by (rule store_inv [OF env a(2)])
    have "holding env T (add_mset q B) (w1\<lparr>wd_links := ?m\<rparr>)"
    proof (rule holdingI [OF inv])
      fix p s b assume p: "?A p = Some (s, b)"
      show "\<exists>n. s = 8 * n \<and> patterned (w1\<lparr>wd_links := ?m\<rparr>) p n"
      proof (cases "p = q")
        case True
        then show ?thesis using p fill_pattern [OF bd fit, where w = w1] by (auto simp: e)
      next
        case other: False
        then have "A p = Some (s, b)" using p by (simp add: e)
        from pat [OF this] obtain k where k: "s = 8 * k" "patterned w1 p k" by blast
        have "?m c = wd_links w1 c" if c: "unat c \<in> span p (8 * k)" for c
        proof (rule ccontr)
          assume "?m c \<noteq> wd_links w1 c"
          from fill_only [OF this fit] have "unat c \<in> span q (8 * unat n)" .
          moreover have "span p s \<inter> span q (8 * unat n) = {}" by (rule held_fits(3) [OF a(2) p]) (use other in \<open>simp_all add: e\<close>)
          ultimately show False using c k(1) by blast
        qed
        then show ?thesis using k pattern_moves [OF k(2), of "w1\<lparr>wd_links := ?m\<rparr>"] held_fits(2) [OF a(2) p] by auto
      qed
    next
      fix p :: ptr assume "p \<noteq> 0"
      then show "count (add_mset q B) p = (if ?A p = None then 0 else 1)" using A(3) a(3) False by (cases "p = q") (simp_all add: e)
    qed
    moreover have "alloc_items env th items large r w = Some (q, r', w1\<lparr>wd_links := ?m\<rparr>)" using a(1) False by (simp add: alloc_items_def n lay)
    ultimately show ?thesis by blast
  qed
qed

lemma free_items_keeps:
  assumes env: "env_ok env" and h: "holding env T (add_mset p B) w"
  shows "\<exists>w'. free_items env p w = Some w' \<and> holding env T B w'"
proof (cases "p = 0")
  case True
  then show ?thesis using h unfolding free_items_def holding_def by simp
next
  case False
  let ?cb = "\<lambda>_ _ _ _ _. None :: hworld option"
  obtain A where A: "client_inv env T (A, w)" "\<And>p s a. A p = Some (s, a) \<Longrightarrow> \<exists>n. s = 8 * n \<and> patterned w p n"
      "\<And>q. q \<noteq> 0 \<Longrightarrow> count (add_mset p B) q = (if A q = None then 0 else 1)" using h by (rule holdingE) blast
  have "A p \<noteq> None" using A(3) [OF False] by (auto split: if_splits)
  then obtain s a where p: "A p = Some (s, a)" by auto
  obtain n where n: "s = 8 * n" "patterned w p n" using A(2) [OF p] by blast
  note chk = pattern_check [OF n(2)]
  have ok: "allowed T (Dealloc p) (A, w)" using p by simp
  obtain w' where d: "ga_dealloc env p w = Some (Free_Done, w')" "client_inv env T (A(p := None), w')"
  proof -
    from request_keeps [OF env A(1) ok, of ?cb] obtain s' where "serve ?cb env (Dealloc p) (A, w) = Some s'" "client_inv env T s'"
      by (auto simp: good_step_def)
    then show thesis using that by (auto split: option.splits prod.splits free_result.splits)
  qed
  have run: "serve ?cb env (Dealloc p) (A, w) = Some (A(p := None), w')" using d(1) by simp
  have "free_items env p w = Some w'"
    unfolding free_items_def Let_def chk(1,2) using False chk(3,4) d(1) by simp
  moreover have "holding env T B w'"
  proof (rule holdingI [OF d(2)])
    fix q t b assume q: "(A(p := None)) q = Some (t, b)"
    then have "A q = Some (t, b)" by (simp split: if_splits)
    from request_patterns [OF env A(1) ok run _ A(2) this q] show "\<exists>n. t = 8 * n \<and> patterned w' q n" by simp
  next
    fix q :: ptr assume q: "q \<noteq> 0"
    then show "count B q = (if (A(p := None)) q = None then 0 else 1)" using A(3) [OF q] p by (cases "q = p") simp_all
  qed
  ultimately show ?thesis by blast
qed

lemma switch_keeps:
  assumes env: "env_ok env" and h: "holding env T B w" and t: "fst tls AND MI_PAGE_FLAG_MASK = 0"
  shows "holding env T B (switch_to tls w)"
proof -
  obtain t reg rec hb where tls: "tls = (t, reg, rec, hb)" by (cases tls)
  obtain A where A: "client_inv env T (A, w)" "\<And>p s a. A p = Some (s, a) \<Longrightarrow> \<exists>n. s = 8 * n \<and> patterned w p n"
      "\<And>p. p \<noteq> 0 \<Longrightarrow> count B p = (if A p = None then 0 else 1)" using h by (rule holdingE) blast
  have "allowed T (Switch t reg rec hb) (A, w)" using assms(3) by (simp add: tls)
  from request_keeps [OF env A(1) this, of "\<lambda>_ _ _ _ _. None"]
  have inv: "client_inv env T (A, switch_to tls w)" by (simp add: good_step_def tls switch_to_def)
  have "patterned (switch_to tls w) p n \<longleftrightarrow> patterned w p n" for p n by (simp add: patterned_def tls switch_to_def)
  then show ?thesis using A inv unfolding holding_def by auto
qed

section \<open>No step fails\<close>

definition worker_bag :: "worker \<Rightarrow> ptr multiset" where
  "worker_bag k = mset (wk_data k) + mset (wk_retained k)"

lemma holding_zero [simp]: "holding env T (add_mset 0 B) w = holding env T B w"
  unfolding holding_def by (simp cong: conj_cong)

lemma items_small: "unat (push_bit (unat ((x :: 64 word) mod 5)) (1 :: usize)) \<le> 64" "unat (push_bit (unat ((x :: 64 word) mod 7)) (1 :: usize)) \<le> 64"
proof -
  have small: "unat (push_bit k (1 :: usize)) \<le> 64" if "k < 7" for k
  proof -
    have "k = 0 \<or> k = 1 \<or> k = 2 \<or> k = 3 \<or> k = 4 \<or> k = 5 \<or> k = 6" using that by linarith
    then show ?thesis by (elim disjE) simp_all
  qed
  have "unat (x mod 5) < 7" "unat (x mod 7) < 7"
    using mod_less_divisor [of 5 "unat x"] mod_less_divisor [of 7 "unat x"] by (simp_all add: unat_mod)
  then show "unat (push_bit (unat (x mod 5)) (1 :: usize)) \<le> 64" "unat (push_bit (unat (x mod 7)) (1 :: usize)) \<le> 64"
    using small by blast+
qed

lemma worker_alloc_keeps:
  assumes env: "env_ok env" and th: "th \<in> T" and h: "holding env T (worker_bag k + C) w"
  shows "\<exists>k' w'. worker_alloc env th large k w = Some (k', w') \<and> holding env T (worker_bag k' + C) w'"
proof -
  obtain c r where c: "(if wk_retain k = 0 then (True, wk_r k) else let (c, r) = chance 50 (wk_r k) in (c \<and> 0 < wk_allocs k, r)) = (c, r)"
    by (cases "if wk_retain k = 0 then (True, wk_r k) else let (c, r) = chance 50 (wk_r k) in (c \<and> 0 < wk_allocs k, r)")
  let ?x = "pick r"
  show ?thesis
  proof (cases c)
    case True
    obtain p r' w' where a: "alloc_items env th (push_bit (unat (?x mod 5)) 1) large ?x w = Some (p, r', w')"
        "holding env T (add_mset p (worker_bag k + C)) w'"
      using alloc_items_keeps [OF env th h items_small(1)] by blast
    then show ?thesis using True by (simp add: worker_alloc_def c worker_bag_def)
  next
    case False
    obtain p r' w' where a: "alloc_items env th (push_bit (unat (?x mod 7)) 1) large ?x w = Some (p, r', w')"
        "holding env T (add_mset p (worker_bag k + C)) w'"
      using alloc_items_keeps [OF env th h items_small(2)] by blast
    then show ?thesis using False by (simp add: worker_alloc_def c worker_bag_def)
  qed
qed

lemma slot_bag:
  assumes "i < length xs"
  obtains M where "mset xs = add_mset (xs ! i) M" "\<And>y. mset (xs[i := y]) = add_mset y M"
  using assms by (intro that [of "mset xs - {#xs ! i#}"]) (simp_all add: mset_update)

lemma worker_free_keeps:
  assumes env: "env_ok env" and h: "holding env T (worker_bag k + C) w"
  shows "\<exists>k' w'. worker_free env k w = Some (k', w') \<and> holding env T (worker_bag k' + C) w'"
proof -
  obtain c r where c: "chance 66 (wk_r k) = (c, r)" by (cases "chance 66 (wk_r k)")
  show ?thesis
  proof (cases "c \<and> wk_data k \<noteq> []")
    case True
    let ?i = "unat (pick r) mod length (wk_data k)"
    have i: "?i < length (wk_data k)" using True by simp
    obtain M where M: "mset (wk_data k) = add_mset (wk_data k ! ?i) M" "\<And>y. mset ((wk_data k)[?i := y]) = add_mset y M"
      by (rule slot_bag [OF i]) metis
    have "holding env T (add_mset (wk_data k ! ?i) (M + mset (wk_retained k) + C)) w" using h by (simp add: worker_bag_def M(1))
    from free_items_keeps [OF env this] obtain w' where w': "free_items env (wk_data k ! ?i) w = Some w'"
      "holding env T (M + mset (wk_retained k) + C) w'" by blast
    then show ?thesis using True by (simp add: worker_free_def c Let_def worker_bag_def M(2))
  next
    case False
    then show ?thesis using h by (auto simp: worker_free_def c worker_bag_def)
  qed
qed

lemma worker_swap_bag:
  assumes "length tr = TRANSFERS" "worker_swap k tr = (k', tr')"
  shows "worker_bag k' + mset tr' = worker_bag k + mset tr" "length tr' = TRANSFERS"
proof -
  obtain c r where c: "chance 25 (wk_r k) = (c, r)" by (cases "chance 25 (wk_r k)")
  have "worker_bag k' + mset tr' = worker_bag k + mset tr \<and> length tr' = TRANSFERS"
  proof (cases "c \<and> wk_data k \<noteq> []")
    case True
    let ?i = "unat (pick r) mod length (wk_data k)" and ?j = "unat (pick (pick r)) mod TRANSFERS"
    have i: "?i < length (wk_data k)" using True by simp
    have j: "?j < length tr" by (simp add: assms(1)) (simp add: TRANSFERS_def)
    obtain M where M: "mset (wk_data k) = add_mset (wk_data k ! ?i) M" "\<And>y. mset ((wk_data k)[?i := y]) = add_mset y M"
      by (rule slot_bag [OF i]) metis
    obtain N where N: "mset tr = add_mset (tr ! ?j) N" "\<And>y. mset (tr[?j := y]) = add_mset y N"
      by (rule slot_bag [OF j]) metis
    show ?thesis using assms True by (auto simp: worker_swap_def c Let_def transfer_xchg_def worker_bag_def M N)
  next
    case False
    then show ?thesis using assms by (auto simp: worker_swap_def c worker_bag_def)
  qed
  then show "worker_bag k' + mset tr' = worker_bag k + mset tr" "length tr' = TRANSFERS" by blast+
qed

lemma worker_clean_keeps:
  assumes env: "env_ok env" and h: "holding env T (worker_bag k + C) w"
  shows "\<exists>k' w'. worker_clean env k w = Some (k', w') \<and> holding env T (worker_bag k' + C) w'"
proof (cases "wk_retained k")
  case (Cons p ps)
  then have "holding env T (add_mset p (mset (wk_data k) + mset ps + C)) w" using h by (simp add: worker_bag_def)
  from free_items_keeps [OF env this] show ?thesis using Cons by (auto simp: worker_clean_def worker_bag_def)
next
  case Nil
  show ?thesis
  proof (cases "wk_data k")
    case (Cons p ps)
    then have "holding env T (add_mset p (mset ps + C)) w" using h Nil by (simp add: worker_bag_def)
    from free_items_keeps [OF env this] show ?thesis using Cons Nil by (auto simp: worker_clean_def worker_bag_def)
  qed (use h Nil in \<open>simp add: worker_clean_def\<close>)
qed

lemma worker_step_keeps:
  assumes env: "env_ok env" and th: "th \<in> T" and h: "holding env T (worker_bag k + mset tr + C) w" and tr: "length tr = TRANSFERS"
  shows "\<exists>k' tr' w'. worker_step env th large (k, tr, w) = Some (k', tr', w') \<and> holding env T (worker_bag k' + mset tr' + C) w' \<and> length tr' = TRANSFERS"
proof -
  have h': "holding env T (worker_bag k + (mset tr + C)) w" using h by (simp add: add.assoc)
  show ?thesis
  proof (cases "wk_at k")
    case At_Loop
    show ?thesis
    proof (cases "0 < wk_allocs k \<or> 0 < wk_retain k")
      case True
      then show ?thesis using worker_alloc_keeps [OF env th h', of large] tr At_Loop by (auto simp: worker_step_def add.assoc)
    qed (use h tr At_Loop in \<open>simp add: worker_step_def worker_bag_def\<close>)
  next
    case At_Free
    then show ?thesis using worker_free_keeps [OF env h'] tr by (auto simp: worker_step_def add.assoc)
  next
    case At_Swap
    obtain k' tr' where s: "worker_swap k tr = (k', tr')" by (cases "worker_swap k tr")
    from worker_swap_bag [OF tr s] show ?thesis using h At_Swap by (simp add: worker_step_def s)
  next
    case At_Clean
    then show ?thesis using worker_clean_keeps [OF env h'] tr by (auto simp: worker_step_def add.assoc)
  qed
qed

section \<open>The whole test\<close>

definition cells :: "cfg \<Rightarrow> stress \<Rightarrow> ptr multiset" where
  "cells cf s = (\<Sum>i<cf_threads cf. worker_bag (ss_workers s i)) + mset (ss_transfer s)"

definition idle :: "cfg \<Rightarrow> stress \<Rightarrow> bool" where
  "idle cf s \<longleftrightarrow> (\<forall>i<cf_threads cf. worker_bag (ss_workers s i) = {#})"

text \<open>Between the rounds the workers hold nothing; what has been drained is empty.\<close>

definition phase_ok :: "cfg \<Rightarrow> stress \<Rightarrow> bool" where
  "phase_ok cf s \<longleftrightarrow>
    (case ss_phase s of
       Round n \<Rightarrow> True
     | Drain n i \<Rightarrow> idle cf s
     | Final i \<Rightarrow> idle cf s \<and> (\<forall>j<TRANSFERS. j < i \<longrightarrow> ss_transfer s ! j = 0)
     | Over \<Rightarrow> idle cf s \<and> (\<forall>j<TRANSFERS. ss_transfer s ! j = 0))"

definition stress_inv :: "env \<Rightarrow> ptr set \<Rightarrow> cfg \<Rightarrow> stress \<Rightarrow> bool" where
  "stress_inv env T cf s \<longleftrightarrow> holding env T (cells cf s) (ss_world s) \<and> length (ss_transfer s) = TRANSFERS \<and> phase_ok cf s"

lemma idle_bag: "idle cf s \<Longrightarrow> (\<Sum>i<cf_threads cf. worker_bag (ss_workers s i)) = {#}"
  by (simp add: idle_def)

lemma start_bag [simp]: "worker_bag (start_worker cf i) = {#}"
  by (simp add: worker_bag_def start_worker_def Let_def)

lemma done_bag: "worker_done k \<Longrightarrow> worker_bag k = {#}"
  by (simp add: worker_done_def worker_bag_def)

lemma cells_split:
  assumes "i < cf_threads cf"
  shows "cells cf (s\<lparr>ss_workers := (ss_workers s)(i := k), ss_transfer := tr, ss_world := w\<rparr>)
    = worker_bag k + mset tr + (\<Sum>j\<in>{..<cf_threads cf} - {i}. worker_bag (ss_workers s j))"
proof -
  have "(\<Sum>j<cf_threads cf. worker_bag (((ss_workers s)(i := k)) j))
      = worker_bag k + (\<Sum>j\<in>{..<cf_threads cf} - {i}. worker_bag (((ss_workers s)(i := k)) j))"
    using assms by (subst sum.remove [of _ i]) simp_all
  also have "(\<Sum>j\<in>{..<cf_threads cf} - {i}. worker_bag (((ss_workers s)(i := k)) j)) = (\<Sum>j\<in>{..<cf_threads cf} - {i}. worker_bag (ss_workers s j))"
    by (rule sum.cong) simp_all
  finally show ?thesis by (simp add: cells_def)
qed

lemma next_round_inv:
  assumes "holding env T (mset (ss_transfer s)) (ss_world s)" "length (ss_transfer s) = TRANSFERS" "idle cf s"
  shows "stress_inv env T cf (next_round cf n s)"
  using assms by (auto simp: stress_inv_def next_round_def phase_ok_def cells_def idle_def)

lemma release_slot_keeps:
  assumes env: "env_ok env" and h: "holding env T (cells cf s) (ss_world s)" "length (ss_transfer s) = TRANSFERS" "idle cf s" and i: "i < TRANSFERS"
  shows "\<exists>w'. release_slot env i s = Some (s\<lparr>ss_transfer := (ss_transfer s)[i := 0], ss_world := w'\<rparr>)
    \<and> holding env T (mset ((ss_transfer s)[i := 0])) w'"
proof -
  have "i < length (ss_transfer s)" using i h(2) by simp
  then obtain M where M: "mset (ss_transfer s) = add_mset (ss_transfer s ! i) M" "\<And>y. mset ((ss_transfer s)[i := y]) = add_mset y M"
    by (rule slot_bag) metis
  have "holding env T (add_mset (ss_transfer s ! i) M) (ss_world s)" using h(1) idle_bag [OF h(3)] by (simp add: cells_def M(1))
  from free_items_keeps [OF env this] show ?thesis by (auto simp: release_slot_def transfer_xchg_def M(2))
qed

lemma main_step_keeps:
  assumes env: "env_ok env" and inv: "stress_inv env T cf s" and en: "enabled cf (cf_threads cf) s"
  shows "\<exists>s'. main_step env cf s = Some s' \<and> stress_inv env T cf s'"
proof -
  have h: "holding env T (cells cf s) (ss_world s)" "length (ss_transfer s) = TRANSFERS" and ph: "phase_ok cf s"
    using inv by (simp_all add: stress_inv_def)
  show ?thesis
  proof (cases "ss_phase s")
    case (Round n)
    then have "\<forall>i<cf_threads cf. worker_done (ss_workers s i)" using en by (simp add: enabled_def)
    then have "idle cf s" using done_bag by (simp add: idle_def)
    then show ?thesis using Round h by (simp add: main_step_def stress_inv_def phase_ok_def cells_def idle_def)
  next
    case (Drain n i)
    then have id: "idle cf s" using ph by (simp add: phase_ok_def)
    note bag = idle_bag [OF id]
    obtain c r where c: "chance 50 (ss_r s) = (c, r)" by (cases "chance 50 (ss_r s)")
    let ?s = "s\<lparr>ss_r := r, ss_phase := Drain n (i + 1)\<rparr>"
    have h1: "holding env T (cells cf ?s) (ss_world ?s)" "length (ss_transfer ?s) = TRANSFERS" "idle cf ?s"
      using h id by (simp_all add: cells_def idle_def)
    show ?thesis
    proof (cases "i < TRANSFERS")
      case False
      have "holding env T (mset (ss_transfer s)) (ss_world s)" using h(1) by (simp add: cells_def bag)
      from next_round_inv [OF this h(2) id] show ?thesis using Drain False by (simp add: main_step_def)
    next
      case i: True
      show ?thesis
      proof (cases "c \<or> n + 1 = cf_iter cf")
        case True
        from release_slot_keeps [OF env h1 i]
        obtain w' where w': "release_slot env i ?s = Some (?s\<lparr>ss_transfer := (ss_transfer s)[i := 0], ss_world := w'\<rparr>)"
          "holding env T (mset ((ss_transfer s)[i := 0])) w'" by auto
        have "stress_inv env T cf (?s\<lparr>ss_transfer := (ss_transfer s)[i := 0], ss_world := w'\<rparr>)"
          using w'(2) h(2) id bag by (simp add: stress_inv_def phase_ok_def cells_def idle_def)
        moreover have "main_step env cf s = release_slot env i ?s" using Drain i c True by (simp add: main_step_def)
        ultimately show ?thesis using w'(1) by auto
      next
        case False
        then have "main_step env cf s = Some ?s" using Drain i c by (auto simp: main_step_def)
        moreover have "stress_inv env T cf ?s" using h1 by (simp add: stress_inv_def phase_ok_def)
        ultimately show ?thesis by blast
      qed
    qed
  next
    case (Final i)
    then have id: "idle cf s" and z: "\<forall>j<TRANSFERS. j < i \<longrightarrow> ss_transfer s ! j = 0" using ph by (simp_all add: phase_ok_def)
    show ?thesis
    proof (cases "i < TRANSFERS")
      case True
      let ?s = "s\<lparr>ss_phase := Final (i + 1)\<rparr>"
      have h1: "holding env T (cells cf ?s) (ss_world ?s)" "length (ss_transfer ?s) = TRANSFERS" "idle cf ?s"
        using h id by (simp_all add: cells_def idle_def)
      from release_slot_keeps [OF env h1 True]
      obtain w' where w': "release_slot env i ?s = Some (?s\<lparr>ss_transfer := (ss_transfer s)[i := 0], ss_world := w'\<rparr>)"
        "holding env T (mset ((ss_transfer s)[i := 0])) w'" by auto
      have "\<forall>j<TRANSFERS. j < i + 1 \<longrightarrow> (ss_transfer s)[i := 0] ! j = 0" using z h(2) by (auto simp: nth_list_update less_Suc_eq)
      then have "stress_inv env T cf (?s\<lparr>ss_transfer := (ss_transfer s)[i := 0], ss_world := w'\<rparr>)"
        using w'(2) h(2) id idle_bag [OF id] by (simp add: stress_inv_def phase_ok_def cells_def idle_def)
      moreover have "main_step env cf s = release_slot env i ?s" using Final True by (simp add: main_step_def)
      ultimately show ?thesis using w'(1) by auto
    next
      case False
      then show ?thesis using Final h id z by (simp add: main_step_def stress_inv_def phase_ok_def cells_def idle_def)
    qed
  next
    case Over
    then show ?thesis using en by (simp add: enabled_def)
  qed
qed

lemma turn_keeps:
  assumes env: "env_ok env" and heap: "\<And>i. i < cf_threads cf \<Longrightarrow> heap i \<in> T" and inv: "stress_inv env T cf s" and en: "enabled cf i s"
    and t: "fst tls AND MI_PAGE_FLAG_MASK = 0"
  shows "\<exists>s'. turn env cf heap i tls s = Some s' \<and> stress_inv env T cf s'"
proof -
  let ?s = "s\<lparr>ss_world := switch_to tls (ss_world s)\<rparr>"
  have "holding env T (cells cf ?s) (switch_to tls (ss_world s))"
    using switch_keeps [OF env _ t] inv by (simp add: stress_inv_def cells_def)
  then have inv1: "stress_inv env T cf ?s" using inv by (simp add: stress_inv_def phase_ok_def idle_def split: phase.splits)
  have en1: "enabled cf i ?s" using en by (simp add: enabled_def)
  show ?thesis
  proof (cases "i = cf_threads cf")
    case True
    then show ?thesis using main_step_keeps [OF env inv1] en1 by (simp add: turn_def)
  next
    case False
    then obtain n where i: "i < cf_threads cf" and n: "ss_phase s = Round n" using en by (auto simp: enabled_def)
    let ?C = "\<Sum>j\<in>{..<cf_threads cf} - {i}. worker_bag (ss_workers s j)" and ?k = "ss_workers s i"
    have "?s\<lparr>ss_workers := (ss_workers ?s)(i := ?k), ss_transfer := ss_transfer s, ss_world := ss_world ?s\<rparr> = ?s" by simp
    from cells_split [OF i, where s = ?s and k = ?k and tr = "ss_transfer s" and w = "ss_world ?s", unfolded this]
    have "holding env T (worker_bag ?k + mset (ss_transfer s) + ?C) (ss_world ?s)" using inv1 by (simp add: stress_inv_def)
    from worker_step_keeps [OF env heap [OF i] this] inv
    obtain k' tr' w' where w: "worker_step env (heap i) (cf_large cf) (?k, ss_transfer s, ss_world ?s) = Some (k', tr', w')"
        "holding env T (worker_bag k' + mset tr' + ?C) w'" "length tr' = TRANSFERS"
      unfolding stress_inv_def by blast
    let ?s' = "?s\<lparr>ss_workers := (ss_workers ?s)(i := k'), ss_transfer := tr', ss_world := w'\<rparr>"
    have "cells cf ?s' = worker_bag k' + mset tr' + ?C" using cells_split [OF i, where s = ?s and k = k' and tr = tr' and w = w'] by simp
    then have "stress_inv env T cf ?s'" using w(2,3) n by (simp add: stress_inv_def phase_ok_def)
    moreover have "turn env cf heap i tls s = Some ?s'" using False w(1) by (simp add: turn_def)
    ultimately show ?thesis by blast
  qed
qed

lemma start_stress_inv:
  assumes "represents env T {} w"
  shows "stress_inv env T cf (start_stress cf w)"
proof -
  have "count (replicate_mset TRANSFERS (0 :: ptr)) p = 0" if "p \<noteq> 0" for p using that by simp
  then have "holding env T (mset (replicate TRANSFERS 0)) w"
    using client_inv_start [OF assms] by (intro holdingI [of env T Map.empty]) simp_all
  then show ?thesis unfolding start_stress_def by (intro next_round_inv) (simp_all add: idle_def)
qed

lemma stress_run_inv:
  assumes "stress_run env cf heap s s'" "env_ok env" "\<And>i. i < cf_threads cf \<Longrightarrow> heap i \<in> T" "stress_inv env T cf s"
  shows "stress_inv env T cf s'"
  using assms
proof (induction rule: stress_run.induct)
  case (stress_turn s1 i tls s2)
  from turn_keeps [OF stress_turn.prems(1) stress_turn.prems(2) _ stress_turn.hyps(2,3)] stress_turn show ?case by fastforce
qed

lemma over_empty:
  assumes "stress_inv env T cf s" "ss_phase s = Over"
  shows "represents env T {} (ss_world s)"
proof -
  have tr: "length (ss_transfer s) = TRANSFERS" "\<forall>j<TRANSFERS. ss_transfer s ! j = 0" and id: "idle cf s"
    and h: "holding env T (cells cf s) (ss_world s)"
    using assms by (simp_all add: stress_inv_def phase_ok_def)
  have "ss_transfer s = replicate TRANSFERS 0" using tr by (intro nth_equalityI) simp_all
  then have "cells cf s = replicate_mset TRANSFERS 0" using idle_bag [OF id] by (simp add: cells_def)
  then have c: "count (cells cf s) p = 0" if "p \<noteq> 0" for p using that by simp
  obtain A where A: "client_inv env T (A, ss_world s)" "\<And>p. p \<noteq> 0 \<Longrightarrow> count (cells cf s) p = (if A p = None then 0 else 1)"
    using h by (rule holdingE) blast
  have none: "A p = None" if "p \<noteq> 0" for p using A(2) [OF that] c [OF that] by (simp split: if_splits)
  have "A 0 = None" using held_fits(1) [OF A(1), of 0] by (metis not_None_eq surj_pair)
  then have "A = Map.empty" using none by (metis ext)
  then show ?thesis using A(1) by (auto simp: client_inv_def tracks_def bij_betw_def)
qed

lemma some_enabled: "ss_phase s \<noteq> Over \<Longrightarrow> \<exists>i. enabled cf i s"
proof (cases "\<exists>n i. ss_phase s = Round n \<and> i < cf_threads cf \<and> \<not> worker_done (ss_workers s i)")
  case True
  then obtain n i where "ss_phase s = Round n" "i < cf_threads cf" "\<not> worker_done (ss_workers s i)" by blast
  then have "enabled cf i s" by (simp add: enabled_def)
  then show ?thesis ..
next
  case False
  moreover assume "ss_phase s \<noteq> Over"
  ultimately have "enabled cf (cf_threads cf) s" by (auto simp: enabled_def)
  then show ?thesis ..
qed

section \<open>Termination\<close>

definition work :: "worker \<Rightarrow> nat" where
  "work k = 5 * (wk_allocs k + wk_retain k) + (case wk_at k of At_Loop \<Rightarrow> 1 | At_Free \<Rightarrow> 3 | At_Swap \<Rightarrow> 2 | At_Clean \<Rightarrow> 0)
     + length (wk_data k) + length (wk_retained k)"

lemma worker_alloc_less:
  assumes "worker_alloc env th large k w = Some (k', w')" "wk_at k = At_Loop" "0 < wk_allocs k \<or> 0 < wk_retain k"
  shows "work k' < work k"
proof -
  obtain c r where c: "(if wk_retain k = 0 then (True, wk_r k) else let (c, r) = chance 50 (wk_r k) in (c \<and> 0 < wk_allocs k, r)) = (c, r)"
    by (cases "if wk_retain k = 0 then (True, wk_r k) else let (c, r) = chance 50 (wk_r k) in (c \<and> 0 < wk_allocs k, r)")
  have g: "if c then 0 < wk_allocs k else 0 < wk_retain k" using c assms(3) by (auto split: if_splits prod.splits)
  show ?thesis using assms(1,2) g by (auto simp: worker_alloc_def c Let_def work_def split: if_splits)
qed

lemma worker_free_less:
  assumes "worker_free env k w = Some (k', w')" "wk_at k = At_Free"
  shows "work k' < work k"
  using assms by (auto simp: worker_free_def Let_def work_def split: prod.splits if_splits)

lemma worker_swap_less:
  assumes "worker_swap k tr = (k', tr')" "wk_at k = At_Swap"
  shows "work k' < work k"
  using assms by (auto simp: worker_swap_def Let_def work_def split: prod.splits if_splits)

lemma worker_clean_less:
  assumes "worker_clean env k w = Some (k', w')" "wk_at k = At_Clean" "\<not> worker_done k"
  shows "work k' < work k"
  using assms by (auto simp: worker_clean_def work_def worker_done_def split: list.splits)

lemma worker_step_less:
  assumes "worker_step env th large (k, tr, w) = Some (k', tr', w')" "\<not> worker_done k"
  shows "work k' < work k"
proof (cases "wk_at k")
  case At_Loop
  show ?thesis
  proof (cases "0 < wk_allocs k \<or> 0 < wk_retain k")
    case True
    then show ?thesis using worker_alloc_less [OF _ At_Loop] assms(1) At_Loop by (auto simp: worker_step_def)
  next
    case False
    then have "k' = k\<lparr>wk_at := At_Clean\<rparr>" using assms(1) At_Loop by (auto simp: worker_step_def)
    then show ?thesis using At_Loop by (simp add: work_def)
  qed
next
  case At_Free
  then show ?thesis using worker_free_less [OF _ At_Free] assms(1) by (auto simp: worker_step_def)
next
  case At_Swap
  then show ?thesis using worker_swap_less [OF _ At_Swap] assms(1) by (auto simp: worker_step_def split: prod.splits)
next
  case At_Clean
  then show ?thesis using worker_clean_less [OF _ At_Clean] assms by (auto simp: worker_step_def)
qed

text \<open>Rounds left, stage of the round, and what is left of the stage.\<close>

fun stage :: "cfg \<Rightarrow> phase \<Rightarrow> nat \<times> nat" where
  "stage cf (Round n) = (cf_iter cf - n, 2)"
| "stage cf (Drain n i) = (cf_iter cf - n, 1)"
| "stage cf (Final i) = (0, 0)"
| "stage cf Over = (0, 0)"

fun left :: "cfg \<Rightarrow> phase \<Rightarrow> (nat \<Rightarrow> worker) \<Rightarrow> nat" where
  "left cf (Round n) ws = (\<Sum>i<cf_threads cf. work (ws i))"
| "left cf (Drain n i) ws = TRANSFERS - i"
| "left cf (Final i) ws = Suc (TRANSFERS - i)"
| "left cf Over ws = 0"

definition progress :: "cfg \<Rightarrow> (stress \<times> stress) set" where
  "progress cf = measures [\<lambda>s. fst (stage cf (ss_phase s)), \<lambda>s. snd (stage cf (ss_phase s)), \<lambda>s. left cf (ss_phase s) (ss_workers s)]"

lemma release_slot_phase: "release_slot env i s = Some s' \<Longrightarrow> ss_phase s' = ss_phase s \<and> ss_workers s' = ss_workers s"
  by (auto simp: release_slot_def Let_def split: prod.splits)

lemma main_step_less:
  assumes "main_step env cf s = Some s'" "ss_phase s \<noteq> Over"
  shows "(s', s) \<in> progress cf"
proof (cases "ss_phase s")
  case (Round n)
  then show ?thesis using assms(1) by (auto simp: main_step_def progress_def)
next
  case (Drain n i)
  show ?thesis
  proof (cases "i < TRANSFERS")
    case True
    obtain c r where c: "chance 50 (ss_r s) = (c, r)" by (cases "chance 50 (ss_r s)")
    have "ss_phase s' = Drain n (i + 1)"
      using assms(1) Drain True release_slot_phase [of env i "s\<lparr>ss_r := r, ss_phase := Drain n (i + 1)\<rparr>" s']
      by (auto simp: main_step_def c Let_def split: if_splits)
    then show ?thesis using Drain True by (auto simp: progress_def)
  next
    case False
    then have "s' = next_round cf (n + 1) s" using assms(1) Drain by (simp add: main_step_def)
    then show ?thesis using Drain by (auto simp: next_round_def progress_def)
  qed
next
  case (Final i)
  show ?thesis
  proof (cases "i < TRANSFERS")
    case True
    then have "ss_phase s' = Final (i + 1)"
      using assms(1) Final release_slot_phase [of env i "s\<lparr>ss_phase := Final (i + 1)\<rparr>" s'] by (simp add: main_step_def)
    then show ?thesis using Final True by (auto simp: progress_def)
  next
    case False
    then show ?thesis using assms(1) Final by (auto simp: main_step_def progress_def)
  qed
qed (use assms(2) in simp)

lemma turn_less:
  assumes en: "enabled cf i s" and t: "turn env cf heap i tls s = Some s'"
  shows "(s', s) \<in> progress cf"
proof (cases "i = cf_threads cf")
  case True
  let ?s = "s\<lparr>ss_world := switch_to tls (ss_world s)\<rparr>"
  have "(s', ?s) \<in> progress cf" by (rule main_step_less [of env]) (use t en True in \<open>simp_all add: turn_def enabled_def\<close>)
  then show ?thesis by (simp add: progress_def)
next
  case False
  then obtain n where i: "i < cf_threads cf" and n: "ss_phase s = Round n" and nd: "\<not> worker_done (ss_workers s i)"
    using en by (auto simp: enabled_def)
  obtain k tr w where w: "worker_step env (heap i) (cf_large cf) (ss_workers s i, ss_transfer s, switch_to tls (ss_world s)) = Some (k, tr, w)"
      "ss_workers s' = (ss_workers s)(i := k)" "ss_phase s' = Round n"
    using t False n by (auto simp: turn_def)
  have "(\<Sum>j<cf_threads cf. work ((ss_workers s') j)) < (\<Sum>j<cf_threads cf. work (ss_workers s j))"
  proof (rule sum_strict_mono_ex1)
    show "\<forall>j\<in>{..<cf_threads cf}. work (ss_workers s' j) \<le> work (ss_workers s j)"
      using worker_step_less [OF w(1) nd] by (simp add: w(2))
    show "\<exists>j\<in>{..<cf_threads cf}. work (ss_workers s' j) < work (ss_workers s j)"
      using worker_step_less [OF w(1) nd] i by (intro bexI [of _ i]) (simp_all add: w(2))
  qed simp
  then show ?thesis by (simp add: progress_def n w(3))
qed

text \<open>
  C5. The stress test ends: no schedule is infinite. Every turn of a thread makes progress on the load of its
  worker, on the drain of the table, or on the rounds.
\<close>

theorem stress_test_ends:
  "wf {(s', s). \<exists>i tls. enabled cf i s \<and> turn env cf heap i tls s = Some s'}"
proof (rule wf_subset)
  show "wf (progress cf)" by (simp add: progress_def)
  show "{(s', s). \<exists>i tls. enabled cf i s \<and> turn env cf heap i tls s = Some s'} \<subseteq> progress cf" using turn_less by blast
qed

end
