(* ===== verification/Spec2Isabelle.thy ===== *)
theory Spec2Isabelle
  imports MiSizeClass MiPageQueue MiBitmap MiPageMap MiOptions MiArena MiHeap MiSync MiThreadFree MiStats MiStress
begin

text \<open>
  A verification of mimalloc-rs, the port of the allocator mimalloc to Rust.

  \<^bold>\<open>The program.\<close> Memory is reserved from the OS in arenas, which are divided into slices of 64 KiB;
  five bitmaps per arena say which slices are free, committed, scheduled for purging, dirty, or hold
  an abandoned page of some size class. A page is a run of slices with a header; it serves blocks of
  one size from three linked lists: the free list, the list of blocks its owner freed, and the list
  of blocks other threads freed. The thread heap of a thread keeps its pages in one queue per size
  class, and for small sizes a table of the page to try first. A two-level map leads from an address
  to its page. A logical heap groups thread heaps; the entry points work on the thread heap of the
  calling thread.

  \<^bold>\<open>The theories, from the bottom up\<close> (source files under \<^verbatim>\<open>src/src\<close>):

  \<^item> \<open>MiPrelude\<close>: words, lists, the type \<open>run\<close> of computations that may panic, the collections
    of simplification rules.
  \<^item> \<open>MiBits\<close> (\<^verbatim>\<open>bits.rs\<close>), \<open>MiLayout\<close> (\<^verbatim>\<open>layout.rs\<close>), \<open>MiSizeClass\<close> (top of \<^verbatim>\<open>heap.rs\<close>):
    constants, bit operations, rounding, the table of size classes.
  \<^item> \<open>MiFreeList\<close> (\<^verbatim>\<open>free_list.rs\<close>): the link words of blocks, plain and encoded, and the
    interface \<open>link_store\<close> of linked lists in a store.
  \<^item> \<open>MiPage\<close> (\<^verbatim>\<open>page.rs\<close>): the page header and its lists; \<open>page_lists\<close> is the invariant, \<open>live\<close>
    the set of blocks in use. \<open>MiThreadFree\<close>: the list of cross-thread frees and the ownership bit
    once more, as interleaved atomic steps of any number of threads.
  \<^item> \<open>MiPageQueue\<close> (\<^verbatim>\<open>page_queue.rs\<close>): the queues of a thread heap as doubly linked lists
    (interface \<open>page_list\<close>).
  \<^item> \<open>MiChunk\<close>, \<open>MiBitmap\<close> (\<^verbatim>\<open>bitmap.rs\<close>): chunks of 512 bits and bitmaps with a summary word
    per chunk; a bitmap means the set \<open>bits_of\<close> (interface \<open>slice_set\<close>).
  \<^item> \<open>MiPageMap\<close> (\<^verbatim>\<open>page_map.rs\<close>): the address map (interface \<open>slice_map\<close>).
  \<^item> \<open>MiPrim\<close> (\<^verbatim>\<open>prim\<close>), \<open>MiOs\<close> (\<^verbatim>\<open>os.rs\<close>): memory operations as a log of system calls,
    from which the mapped and the accessible bytes are read off. \<open>MiOptions\<close> (\<^verbatim>\<open>options.rs\<close>).
  \<^item> \<open>MiArenaMeta\<close> (\<^verbatim>\<open>arena_meta.rs\<close>), \<open>MiArena\<close> (\<^verbatim>\<open>arena.rs\<close>): the allocator of headers and
    descriptors; claiming, freeing, committing and purging slices.
  \<^item> \<open>MiSubproc\<close> (\<^verbatim>\<open>subproc.rs\<close>), \<open>MiTheap\<close>, \<open>MiFree\<close>, \<open>MiHeap\<close> (\<^verbatim>\<open>heap.rs\<close>, \<^verbatim>\<open>init.rs\<close>,
    \<^verbatim>\<open>api\<close>): the operations of the whole allocator on one state, the record \<open>hworld\<close>.
  \<^item> \<open>MiSync\<close> (\<^verbatim>\<open>sync.rs\<close>): the spin lock and the write-once cell as step relations.
  \<^item> \<open>MiStats\<close> (\<^verbatim>\<open>stats.rs\<close>): the counters.

  \<^bold>\<open>The allocator as a whole.\<close> The theories above verify each part; these put the parts together.

  \<^item> \<open>MiOsLog\<close>, \<open>MiMetaUse\<close>: every operation only adds to the mapped and the accessible bytes what
    it says, and never takes away bytes in use; the same for blocks of metadata.
  \<^item> \<open>MiPool\<close>: the invariant of all arenas together, for slices in use.
  \<^item> \<open>MiPageLive\<close>: the effect of the page operations on blocks in use, blocks waiting in the
    cross-thread list included.
  \<^item> \<open>MiHeapInv\<close>: the invariant \<open>heap_inv\<close> of the whole state. A ghost state names, for every page in
    use, its arena run, its thread heap and its blocks in use; the invariant ties it to the queues, the
    page map, the arenas, the metadata and the link words.
  \<^item> \<open>MiHeapOps\<close>, \<open>MiHeapCalls\<close>, \<open>MiRealloc\<close>: every operation keeps \<open>heap_inv\<close>, returns, and changes
    the blocks in use as it should. \<open>undisturbed\<close> says that no word inside a block in use changes.
  \<^item> \<open>MiHeapSafe\<close>: the same for the entry points, zeroing and aligned variants included.
  \<^item> \<open>MiRoom\<close>, \<open>MiStart\<close>, \<open>MiServe\<close>: when an allocation is served, and threads that start.
  \<^item> \<open>MiContract\<close>: the abstract specification. \<open>represents\<close> relates a state to the set of blocks in
    use; allocation, free, reallocation and collection implement operations on that set.
  \<^item> \<open>MiClient\<close>: programs. \<open>run\<close> is a machine of any number of threads that call the entry points,
    write into the blocks they hold and hand blocks to each other; the theorems hold for all of its runs.
  \<^item> \<open>MiStress\<close> (\<^verbatim>\<open>examples/stress.rs\<close>): the stress test, a concrete program of that machine, which
    never finds a corrupted block and always ends.

  \<^bold>\<open>Bounds.\<close> Sizes and alignments together are at most \<open>2\<^sup>2\<^sup>5\<close> bytes where a theorem says so: a run of
  slices in an arena has at most 512 slices, and a longer one panics (\<open>arena_alloc_huge_panics\<close>).
  Allocations are shown to succeed up to 512 KiB, the size classes. No fuel is used: loops end by their
  measure, or the theorem shows that they return.
\<close>

text \<open>
  \<^bold>\<open>Conventions.\<close> A machine word is a \<open>word\<close> of its width, with the wrap-around of the release build.
  Pointers are words of 64 bits; memory behind them is modelled as stores by address (page headers,
  arenas, heaps) and, for blocks, as the store of their link words. An operation that can panic
  returns \<open>Inl\<close> of the error or \<open>Inr\<close> of the result up to \<open>MiArena\<close>, and \<open>None\<close> or \<open>Some\<close> from
  \<open>MiSubproc\<close> on. Loops over lists whose end the types do not guarantee are
  \<open>partial_function (option)\<close>: \<open>None\<close> stands for not returning, and the theorems about them prove that
  they return. The sequential theories describe a thread that runs without interference; the
  two algorithms whose correctness rests on interleaving, the ownership protocol of pages and the
  locks, are modelled as interleaved steps over sequentially consistent memory.
  Hardened builds (features \<^verbatim>\<open>secure\<close> and \<^verbatim>\<open>debug\<close>) are covered by a flag: encoded links, checks in
  \<open>free\<close>, access rights taken away on decommit.

  \<^bold>\<open>The environment.\<close> The answers of the system calls, the clock, the environment variables, the
  success of page-map mappings, random keys and deferred-free callbacks are parameters. \<open>mmap_law\<close> and
  \<open>munmap_law\<close> say what POSIX promises: a mapping is page-aligned, not null, in the user half of the
  address space, and disjoint from what is mapped; unmapping whole pages succeeds.

  \<^bold>\<open>Limits of the whole-heap theorems.\<close> Calls of different threads are interleaved whole: the two places
  where steps of threads really interleave inside a call, the cross-thread list with its ownership bit
  and the locks, are verified at their own level. Threads start but do not end: tearing down a thread
  heap, abandoning and reclaiming pages are modelled (\<open>theap_drop\<close>, \<open>abandon_owned_page\<close>, \<open>try_reclaim\<close>,
  \<open>free_try_collect_mt\<close>) and verified for pages and bitmaps, but \<open>heap_inv\<close> has no abandoned pages.
  Callbacks registered for deferred frees are not run during a collection of a program.

  \<^bold>\<open>Not modelled.\<close> \<^verbatim>\<open>atomic.rs\<close> and memory orderings, the empty hooks of \<^verbatim>\<open>track.rs\<close>, the wrappers
  that only forward (\<^verbatim>\<open>errno\<close>, \<^verbatim>\<open>read_small_file\<close>, \<^verbatim>\<open>random_buf\<close>, \<^verbatim>\<open>thread_yield\<close>, \<^verbatim>\<open>out_stderr\<close>),
  contents of memory below the word, the zeroes of fresh OS memory, the
  storage of vectors and the debug assertions of the stress test, other tests, examples and benchmarks.
\<close>

end
